(* ===== verification/Prelude.thy ===== *)
theory Prelude
  imports Main "HOL-Library.Word" "HOL-Library.Monad_Syntax"
begin

text \<open>
  Shared vocabulary of the development: the machine integer types of \<open>src/common/BaseType.h\<close>, the
  conversions C++ performs implicitly between them, the byte representation of integers in memory,
  and generic list and option lemmas that the component theories use through the collections
  \<open>bytes_simps\<close> and \<open>buffer_simps\<close>.

  Conventions. A \<open>size_t\<close> is a \<^typ>\<open>nat\<close> (the program cannot hold \<open>2 ^ 64\<close> bytes); where the code lets a
  \<open>size_t\<close> expression wrap, the wrap-around is written out. Fixed width integers are words, signed
  values are read with \<^const>\<open>sint\<close>. An operation whose C++ text may index outside of a
  \<open>std::vector\<close> returns an option, and \<^const>\<open>None\<close> stands for the undefined behaviour.
\<close>

unbundle bit_operations_syntax

named_theorems bytes_simps \<open>byte representation of integers\<close>
named_theorems buffer_simps \<open>definitions of the byte buffer operations\<close>

type_synonym byte = "8 word"
type_synonym u8 = "8 word"
type_synonym u16 = "16 word"
type_synonym u32 = "32 word"
type_synonym u64 = "64 word"

section \<open>Integer conversions\<close>

text \<open>Conversion of any integer value to \<open>int32_t\<close> (two's complement truncation).\<close>

definition to_i32 :: "int \<Rightarrow> int" where
  "to_i32 x = signed_take_bit 31 x"

text \<open>Conversion of any integer value to an unsigned 64-bit \<open>size_t\<close>.\<close>

definition to_size :: "int \<Rightarrow> nat" where
  "to_size x = nat (x mod 2 ^ 64)"

lemma to_i32_id: "- (2 ^ 31) \<le> x \<Longrightarrow> x < 2 ^ 31 \<Longrightarrow> to_i32 x = x"
  by (simp add: to_i32_def signed_take_bit_int_eq_self)

lemma to_i32_range: "- (2 ^ 31) \<le> to_i32 x \<and> to_i32 x < 2 ^ 31"
  using signed_take_bit_int_greater_eq_minus_exp [of 31 x] signed_take_bit_int_less_exp [of 31 x]
  by (simp add: to_i32_def)

lemma to_i32_cong: "x mod 2 ^ 32 = y mod 2 ^ 32 \<Longrightarrow> to_i32 x = to_i32 y"
  by (simp add: to_i32_def signed_take_bit_eq_iff_take_bit_eq take_bit_eq_mod)

lemma sint_word_of_nat_u32: "n < 2 ^ 31 \<Longrightarrow> sint (word_of_nat n :: u32) = int n"
  using to_i32_id [of "int n"] by (simp add: to_i32_def signed_of_nat)

lemma sint_word_of_int_u32: "- (2 ^ 31) \<le> t \<Longrightarrow> t < 2 ^ 31 \<Longrightarrow> sint (word_of_int t :: u32) = t"
  using to_i32_id [of t] by (simp add: to_i32_def signed_of_int)

lemma to_size_id: "0 \<le> x \<Longrightarrow> x < 2 ^ 64 \<Longrightarrow> to_size x = nat x"
  by (simp add: to_size_def)

lemma to_size_of_nat [simp]: "n < 2 ^ 64 \<Longrightarrow> to_size (int n) = n"
  by (simp add: to_size_def)

section \<open>Bytes in memory\<close>

text \<open>The target is little endian: the object representation of an integer starts with its least
  significant byte.\<close>

fun to_le :: "nat \<Rightarrow> nat \<Rightarrow> byte list" where
  "to_le 0 v = []"
| "to_le (Suc n) v = word_of_nat v # to_le n (v div 256)"

fun from_le :: "byte list \<Rightarrow> nat" where
  "from_le [] = 0"
| "from_le (b # bs) = unat b + 256 * from_le bs"

lemma to_le_numeral [simp]:
  "to_le (numeral k) v = word_of_nat v # to_le (pred_numeral k) (v div 256)"
  by (simp only: numeral_eq_Suc [of k] to_le.simps)

lemma length_to_le [simp]: "length (to_le n v) = n"
  by (induction n arbitrary: v) auto

lemma unat_byte_less [simp]: "unat (b :: byte) < 256"
  using unsigned_less [of b] by simp

lemma from_le_less: "from_le bs < 256 ^ length bs"
proof (induction bs)
  case (Cons b bs)
  then have "256 * from_le bs + 256 \<le> 256 * 256 ^ length bs" by simp
  moreover have "unat b < 256" by (rule unat_byte_less)
  ultimately show ?case by (simp only: from_le.simps length_Cons power_Suc)
qed simp

lemma from_le_to_le [bytes_simps]: "from_le (to_le n v) = v mod 256 ^ n"
proof (induction n arbitrary: v)
  case (Suc n)
  have "v mod (256 * 256 ^ n) = 256 * (v div 256 mod 256 ^ n) + v mod 256"
    by (simp add: mod_mult2_eq)
  then show ?case by (simp add: Suc unat_of_nat take_bit_eq_mod)
qed simp

lemma to_le_from_le [bytes_simps]: "length bs = n \<Longrightarrow> to_le n (from_le bs) = bs"
proof (induction bs arbitrary: n)
  case (Cons b bs)
  then obtain m where m: "n = Suc m" "length bs = m" by (cases n) auto
  have "(unat b + 256 * from_le bs) div 256 = from_le bs" by simp
  moreover have "word_of_nat (unat b + 256 * from_le bs) = b"
  proof -
    have "(256 :: byte) = 0" by simp
    then show ?thesis by (simp only: of_nat_add of_nat_mult of_nat_numeral mult_zero_left) simp
  qed
  ultimately show ?case using Cons.IH [OF m(2)] m by simp
qed simp

text \<open>\<open>sizeof(T)\<close> for an integer type of \<open>LENGTH('a)\<close> bits, its object representation and the
  value read back from memory.\<close>

definition size_of :: "'a::len word itself \<Rightarrow> nat" where
  "size_of t = LENGTH('a) div 8"

definition bytes_of :: "'a::len word \<Rightarrow> byte list" where
  "bytes_of w = to_le (LENGTH('a) div 8) (unat w)"

definition of_bytes :: "byte list \<Rightarrow> 'a::len word" where
  "of_bytes bs = word_of_nat (from_le bs)"

lemma length_bytes_of [simp]: "length (bytes_of (w :: 'a::len word)) = LENGTH('a) div 8"
  by (simp add: bytes_of_def)

lemma power_256_div_8: "8 dvd n \<Longrightarrow> (256::nat) ^ (n div 8) = 2 ^ n"
proof -
  assume "8 dvd n"
  have "(256::nat) ^ (n div 8) = 2 ^ (8 * (n div 8))"
    by (simp add: power_mult)
  with \<open>8 dvd n\<close> show ?thesis by simp
qed

lemma of_bytes_bytes_of [bytes_simps]:
  fixes w :: "'a::len word"
  assumes "8 dvd LENGTH('a)"
  shows "of_bytes (bytes_of w) = w"
  using unsigned_less [of w] power_256_div_8 [OF assms]
  by (simp add: of_bytes_def bytes_of_def from_le_to_le)

lemma unat_of_bytes:
  assumes "length bs = LENGTH('a) div 8" and "8 dvd LENGTH('a)"
  shows "unat (of_bytes bs :: 'a::len word) = from_le bs"
proof -
  have "(256::nat) ^ length bs = 2 ^ LENGTH('a)"
    using assms by (simp add: power_256_div_8)
  then show ?thesis
    using from_le_less [of bs] by (simp add: of_bytes_def unat_of_nat take_bit_eq_mod)
qed

lemma bytes_of_of_bytes [bytes_simps]:
  assumes "length bs = LENGTH('a) div 8" and "8 dvd LENGTH('a)"
  shows "bytes_of (of_bytes bs :: 'a::len word) = bs"
  using assms by (simp add: bytes_of_def unat_of_bytes to_le_from_le)

section \<open>Lists as memory blocks\<close>

text \<open>\<open>std::memcpy(&xs[pos], src, length src)\<close> into a vector that holds enough elements, and the
  bytes \<open>xs[pos], ..., xs[pos + n - 1]\<close>.\<close>

definition overwrite :: "nat \<Rightarrow> 'a list \<Rightarrow> 'a list \<Rightarrow> 'a list" where
  "overwrite pos src xs = take pos xs @ src @ drop (pos + length src) xs"

definition read_at :: "nat \<Rightarrow> nat \<Rightarrow> 'a list \<Rightarrow> 'a list" where
  "read_at pos n xs = take n (drop pos xs)"

text \<open>Reading \<open>n\<close> bytes through a pointer. A pointer into an array is modelled by the elements from it to
  the end of the array; \<^const>\<open>None\<close> if the read extends past the end.\<close>

definition copy_from :: "nat \<Rightarrow> 'a list \<Rightarrow> 'a list option" where
  "copy_from n data = (if n \<le> length data then Some (take n data) else None)"

text \<open>\<open>std::vector::resize(n)\<close>: truncates, or appends copies of \<open>d\<close>.\<close>

definition resize :: "nat \<Rightarrow> 'a \<Rightarrow> 'a list \<Rightarrow> 'a list" where
  "resize n d xs = take n xs @ replicate (n - length xs) d"

lemma length_resize [simp]: "length (resize n d xs) = n"
  by (simp add: resize_def)

lemma resize_id [simp]: "resize (length xs) d xs = xs"
  by (simp add: resize_def)

lemma resize_Nil [simp]: "resize n d [] = replicate n d"
  by (simp add: resize_def)

lemma length_overwrite [simp]:
  "pos + length src \<le> length xs \<Longrightarrow> length (overwrite pos src xs) = length xs"
  by (simp add: overwrite_def)

lemma length_read_at [simp]: "length (read_at pos n xs) = min n (length xs - pos)"
  by (simp add: read_at_def)

lemma read_at_overwrite_same [simp]:
  "pos + length src \<le> length xs \<Longrightarrow> read_at pos (length src) (overwrite pos src xs) = src"
  by (simp add: overwrite_def read_at_def)

lemma read_at_0 [simp]: "read_at 0 n xs = take n xs"
  by (simp add: read_at_def)

lemma take_overwrite [simp]:
  "pos \<le> length xs \<Longrightarrow> n \<le> pos \<Longrightarrow> take n (overwrite pos src xs) = take n xs"
  by (simp add: overwrite_def min_def)

lemma take_overwrite_end:
  "pos + length src \<le> length xs \<Longrightarrow>
   take (pos + length src) (overwrite pos src xs) = take pos xs @ src"
  by (simp add: overwrite_def)

lemma read_at_append_right [simp]:
  "length xs \<le> pos \<Longrightarrow> read_at pos n (xs @ ys) = read_at (pos - length xs) n ys"
  by (simp add: read_at_def)

lemma read_at_append_left [simp]:
  "pos + n \<le> length xs \<Longrightarrow> read_at pos n (xs @ ys) = read_at pos n xs"
  by (simp add: read_at_def)

text \<open>Lists separated by an element, as parsers expect them.\<close>

fun join :: "'a \<Rightarrow> 'a list list \<Rightarrow> 'a list" where
  "join sep [] = []"
| "join sep [s] = s"
| "join sep (s # ss) = s @ sep # join sep ss"

end
