(* ===== verification/Kcp.thy ===== *)
theory Kcp
  imports Prelude "HOL-Library.Signed_Division"
begin

text \<open>
  \<open>src/network/ikcp.cpp\<close>: the KCP automatic repeat request protocol on which \<open>KcpSession\<close> builds. The
  intrusive queues are lists, \<open>snd_queue\<close> to \<open>rcv_buf\<close>, first element first; the calls of the
  \<open>output\<close> callback are recorded in \<open>outputs\<close>. Logging has no effect on the state and is left out, and
  \<open>malloc\<close> is assumed to succeed. \<^const>\<open>None\<close> stands for undefined behaviour: a signed overflow, a division
  by zero, a failed \<open>assert\<close> or a write outside of \<open>kcp->buffer\<close>.
\<close>

section \<open>Constants and state\<close>

definition IKCP_RTO_NDL :: u32 where "IKCP_RTO_NDL = 30"
definition IKCP_RTO_MIN :: u32 where "IKCP_RTO_MIN = 100"
definition IKCP_RTO_DEF :: u32 where "IKCP_RTO_DEF = 200"
definition IKCP_RTO_MAX :: u32 where "IKCP_RTO_MAX = 60000"
definition IKCP_CMD_PUSH :: u32 where "IKCP_CMD_PUSH = 81"
definition IKCP_CMD_ACK :: u32 where "IKCP_CMD_ACK = 82"
definition IKCP_CMD_WASK :: u32 where "IKCP_CMD_WASK = 83"
definition IKCP_CMD_WINS :: u32 where "IKCP_CMD_WINS = 84"
definition IKCP_ASK_SEND :: u32 where "IKCP_ASK_SEND = 1"
definition IKCP_ASK_TELL :: u32 where "IKCP_ASK_TELL = 2"
definition IKCP_WND_SND :: u32 where "IKCP_WND_SND = 32"
definition IKCP_WND_RCV :: u32 where "IKCP_WND_RCV = 128"
definition IKCP_MTU_DEF :: u32 where "IKCP_MTU_DEF = 1400"
definition IKCP_INTERVAL :: u32 where "IKCP_INTERVAL = 100"
definition IKCP_OVERHEAD :: u32 where "IKCP_OVERHEAD = 24"
definition IKCP_DEADLINK :: u32 where "IKCP_DEADLINK = 20"
definition IKCP_THRESH_INIT :: u32 where "IKCP_THRESH_INIT = 2"
definition IKCP_THRESH_MIN :: u32 where "IKCP_THRESH_MIN = 2"
definition IKCP_PROBE_INIT :: u32 where "IKCP_PROBE_INIT = 7000"
definition IKCP_PROBE_LIMIT :: u32 where "IKCP_PROBE_LIMIT = 120000"
definition IKCP_FASTACK_LIMIT :: int where "IKCP_FASTACK_LIMIT = 5"

lemmas ikcp_consts = IKCP_RTO_NDL_def IKCP_RTO_MIN_def IKCP_RTO_DEF_def IKCP_RTO_MAX_def
  IKCP_CMD_PUSH_def IKCP_CMD_ACK_def IKCP_CMD_WASK_def IKCP_CMD_WINS_def IKCP_ASK_SEND_def
  IKCP_ASK_TELL_def IKCP_WND_SND_def IKCP_WND_RCV_def IKCP_MTU_DEF_def IKCP_INTERVAL_def
  IKCP_OVERHEAD_def IKCP_DEADLINK_def IKCP_THRESH_INIT_def IKCP_THRESH_MIN_def
  IKCP_PROBE_INIT_def IKCP_PROBE_LIMIT_def IKCP_FASTACK_LIMIT_def

record IKCPSEG =
  seg_conv :: u32
  seg_cmd :: u32
  seg_frg :: u32
  seg_wnd :: u32
  seg_ts :: u32
  seg_sn :: u32
  seg_una :: u32
  seg_len :: u32
  seg_resendts :: u32
  seg_rto :: u32
  seg_fastack :: u32
  seg_xmit :: u32
  seg_data :: "byte list"

text \<open>The control block. \<open>ackcount\<close> is the length of \<open>acklist\<close>, \<open>buffer_size\<close> the number of bytes allocated for
  \<open>buffer\<close>; \<open>ts_recent\<close> and \<open>ts_lastack\<close> are never used.\<close>

record IKCPCB =
  conv :: u32
  mtu :: u32
  mss :: u32
  state :: u32
  snd_una :: u32
  snd_nxt :: u32
  rcv_nxt :: u32
  ssthresh :: u32
  rx_rttval :: int
  rx_srtt :: int
  rx_rto :: int
  rx_minrto :: int
  snd_wnd :: u32
  rcv_wnd :: u32
  rmt_wnd :: u32
  cwnd :: u32
  probe :: u32
  current :: u32
  interval :: u32
  ts_flush :: u32
  xmit :: u32
  nrcv_buf :: u32
  nsnd_buf :: u32
  nrcv_que :: u32
  nsnd_que :: u32
  nodelay :: u32
  updated :: u32
  ts_probe :: u32
  probe_wait :: u32
  dead_link :: u32
  incr :: u32
  snd_queue :: "IKCPSEG list"
  rcv_queue :: "IKCPSEG list"
  snd_buf :: "IKCPSEG list"
  rcv_buf :: "IKCPSEG list"
  acklist :: "(u32 \<times> u32) list"
  ackblock :: nat
  buffer_size :: nat
  fastresend :: int
  fastlimit :: int
  nocwnd :: int
  stream :: int
  outputs :: "byte list list"

section \<open>Encoding of segments\<close>

text \<open>The machine is little endian and allows unaligned access, so that the encoders copy the object
  representation.\<close>

definition ikcp_encode8u :: "u8 \<Rightarrow> byte list" where "ikcp_encode8u c = bytes_of c"
definition ikcp_encode16u :: "u16 \<Rightarrow> byte list" where "ikcp_encode16u w = bytes_of w"
definition ikcp_encode32u :: "u32 \<Rightarrow> byte list" where "ikcp_encode32u l = bytes_of l"

definition ikcp_decode8u :: "byte list \<Rightarrow> u8 \<times> byte list" where
  "ikcp_decode8u p = (of_bytes (take 1 p), drop 1 p)"
definition ikcp_decode16u :: "byte list \<Rightarrow> u16 \<times> byte list" where
  "ikcp_decode16u p = (of_bytes (take 2 p), drop 2 p)"
definition ikcp_decode32u :: "byte list \<Rightarrow> u32 \<times> byte list" where
  "ikcp_decode32u p = (of_bytes (take 4 p), drop 4 p)"

definition imin :: "u32 \<Rightarrow> u32 \<Rightarrow> u32" where "imin a b = (if a \<le> b then a else b)"
definition imax :: "u32 \<Rightarrow> u32 \<Rightarrow> u32" where "imax a b = (if a \<ge> b then a else b)"
definition ibound :: "u32 \<Rightarrow> u32 \<Rightarrow> u32 \<Rightarrow> u32" where
  "ibound lower middle upper = imin (imax lower middle) upper"

definition itimediff :: "u32 \<Rightarrow> u32 \<Rightarrow> int" where
  "itimediff later earlier = sint (later - earlier)"

definition ikcp_encode_seg :: "IKCPSEG \<Rightarrow> byte list" where
  "ikcp_encode_seg seg =
     ikcp_encode32u (seg_conv seg) @ ikcp_encode8u (ucast (seg_cmd seg)) @ ikcp_encode8u (ucast (seg_frg seg))
     @ ikcp_encode16u (ucast (seg_wnd seg)) @ ikcp_encode32u (seg_ts seg) @ ikcp_encode32u (seg_sn seg)
     @ ikcp_encode32u (seg_una seg) @ ikcp_encode32u (seg_len seg)"

text \<open>A fresh segment with \<open>size\<close> data bytes: the fields the code sets later are 0 here.\<close>

definition ikcp_segment_new :: "byte list \<Rightarrow> IKCPSEG" where
  "ikcp_segment_new dat =
     \<lparr>seg_conv = 0, seg_cmd = 0, seg_frg = 0, seg_wnd = 0, seg_ts = 0, seg_sn = 0, seg_una = 0,
      seg_len = word_of_nat (length dat), seg_resendts = 0, seg_rto = 0, seg_fastack = 0, seg_xmit = 0,
      seg_data = dat\<rparr>"

section \<open>Creation and configuration\<close>

definition ikcp_create :: "u32 \<Rightarrow> IKCPCB" where
  "ikcp_create c =
     \<lparr>conv = c, mtu = IKCP_MTU_DEF, mss = IKCP_MTU_DEF - IKCP_OVERHEAD, state = 0, snd_una = 0, snd_nxt = 0,
      rcv_nxt = 0, ssthresh = IKCP_THRESH_INIT, rx_rttval = 0, rx_srtt = 0, rx_rto = uint IKCP_RTO_DEF,
      rx_minrto = uint IKCP_RTO_MIN, snd_wnd = IKCP_WND_SND, rcv_wnd = IKCP_WND_RCV, rmt_wnd = IKCP_WND_RCV,
      cwnd = 0, probe = 0, current = 0, interval = IKCP_INTERVAL, ts_flush = IKCP_INTERVAL, xmit = 0,
      nrcv_buf = 0, nsnd_buf = 0, nrcv_que = 0, nsnd_que = 0, nodelay = 0, updated = 0, ts_probe = 0,
      probe_wait = 0, dead_link = IKCP_DEADLINK, incr = 0, snd_queue = [], rcv_queue = [], snd_buf = [],
      rcv_buf = [], acklist = [], ackblock = 0, buffer_size = unat ((IKCP_MTU_DEF + IKCP_OVERHEAD) * 3),
      fastresend = 0, fastlimit = IKCP_FASTACK_LIMIT, nocwnd = 0, stream = 0, outputs = []\<rparr>"

definition ikcp_setmtu :: "int \<Rightarrow> IKCPCB \<Rightarrow> int \<times> IKCPCB" where
  "ikcp_setmtu m kcp =
     (if m < 50 \<or> m < uint IKCP_OVERHEAD then (-1, kcp)
      else (0, kcp\<lparr>mtu := word_of_int m, mss := word_of_int m - IKCP_OVERHEAD,
                   buffer_size := unat ((word_of_int m + IKCP_OVERHEAD) * 3)\<rparr>))"

definition clamp_interval :: "int \<Rightarrow> int" where
  "clamp_interval i = (if i > 5000 then 5000 else if i < 10 then 10 else i)"

definition ikcp_interval :: "int \<Rightarrow> IKCPCB \<Rightarrow> IKCPCB" where
  "ikcp_interval i kcp = kcp\<lparr>interval := word_of_int (clamp_interval i)\<rparr>"

definition ikcp_nodelay :: "int \<Rightarrow> int \<Rightarrow> int \<Rightarrow> int \<Rightarrow> IKCPCB \<Rightarrow> IKCPCB" where
  "ikcp_nodelay nd i resend nc kcp =
     (let kcp1 = (if nd \<ge> 0
            then kcp\<lparr>nodelay := word_of_int nd,
                     rx_minrto := (if nd \<noteq> 0 then uint IKCP_RTO_NDL else uint IKCP_RTO_MIN)\<rparr>
            else kcp);
          kcp2 = (if i \<ge> 0 then kcp1\<lparr>interval := word_of_int (clamp_interval i)\<rparr> else kcp1);
          kcp3 = (if resend \<ge> 0 then kcp2\<lparr>fastresend := resend\<rparr> else kcp2)
      in if nc \<ge> 0 then kcp3\<lparr>nocwnd := nc\<rparr> else kcp3)"

definition ikcp_wndsize :: "int \<Rightarrow> int \<Rightarrow> IKCPCB \<Rightarrow> IKCPCB" where
  "ikcp_wndsize sndwnd rcvwnd kcp =
     (let kcp1 = (if sndwnd > 0 then kcp\<lparr>snd_wnd := word_of_int sndwnd\<rparr> else kcp)
      in if rcvwnd > 0 then kcp1\<lparr>rcv_wnd := imax (word_of_int rcvwnd) IKCP_WND_RCV\<rparr> else kcp1)"

definition ikcp_waitsnd :: "IKCPCB \<Rightarrow> int" where
  "ikcp_waitsnd kcp = sint (nsnd_buf kcp + nsnd_que kcp)"

definition ikcp_getconv :: "byte list \<Rightarrow> u32" where
  "ikcp_getconv ptr = fst (ikcp_decode32u ptr)"

section \<open>The application side: receiving\<close>

text \<open>\<open>ikcp_peeksize\<close>: the loop adds up the lengths until the last fragment of the message.\<close>

fun peek_length :: "IKCPSEG list \<Rightarrow> int \<Rightarrow> int" where
  "peek_length [] l = l"
| "peek_length (seg # segs) l =
     (let l1 = to_i32 (l + uint (seg_len seg)) in
      if seg_frg seg = 0 then l1 else peek_length segs l1)"

definition ikcp_peeksize :: "IKCPCB \<Rightarrow> int" where
  "ikcp_peeksize kcp =
     (case rcv_queue kcp of
        [] \<Rightarrow> -1
      | seg # _ \<Rightarrow>
          if seg_frg seg = 0 then sint (seg_len seg)
          else if nrcv_que kcp < seg_frg seg + 1 then -1
          else peek_length (rcv_queue kcp) 0)"

text \<open>Merge of the fragments: the data copied, the sum of the lengths and the segments left in the queue.\<close>

fun merge_fragments :: "IKCPSEG list \<Rightarrow> int \<Rightarrow> byte list \<times> int \<times> IKCPSEG list" where
  "merge_fragments [] l = ([], l, [])"
| "merge_fragments (seg # segs) l =
     (let l1 = to_i32 (l + uint (seg_len seg)) in
      if seg_frg seg = 0 then (seg_data seg, l1, segs)
      else let (dat, l2, rest) = merge_fragments segs l1 in (seg_data seg @ dat, l2, rest))"

text \<open>The loop "move available data from rcv_buf -> rcv_queue" of \<open>ikcp_recv\<close> and \<open>ikcp_parse_data\<close>.\<close>

fun move_available :: "IKCPSEG list \<Rightarrow> IKCPCB \<Rightarrow> IKCPCB" where
  "move_available [] kcp = kcp\<lparr>rcv_buf := []\<rparr>"
| "move_available (seg # segs) kcp =
     (if seg_sn seg = rcv_nxt kcp \<and> nrcv_que kcp < rcv_wnd kcp
      then move_available segs
        (kcp\<lparr>nrcv_buf := nrcv_buf kcp - 1, rcv_queue := rcv_queue kcp @ [seg],
             nrcv_que := nrcv_que kcp + 1, rcv_nxt := rcv_nxt kcp + 1\<rparr>)
      else kcp\<lparr>rcv_buf := seg # segs\<rparr>)"

text \<open>The merged segments are deleted unless the call only peeks.\<close>

definition delete_merged :: "int \<Rightarrow> IKCPSEG list \<Rightarrow> IKCPCB \<Rightarrow> IKCPCB" where
  "delete_merged len rest kcp =
     (if len < 0 then kcp
      else kcp\<lparr>rcv_queue := rest,
               nrcv_que := nrcv_que kcp - word_of_nat (length (rcv_queue kcp) - length rest)\<rparr>)"

text \<open>\<open>ikcp_recv(kcp, buffer, len)\<close> with a buffer of \<open>abs len\<close> bytes (a negative \<open>len\<close> peeks). The result is the
  return value, the bytes copied and the new state; \<^const>\<open>None\<close> if \<open>assert(len == peeksize)\<close> fails.\<close>

definition ikcp_recv :: "int \<Rightarrow> IKCPCB \<Rightarrow> (int \<times> byte list \<times> IKCPCB) option" where
  "ikcp_recv len kcp =
     (if rcv_queue kcp = [] then Some (-1, [], kcp)
      else
        let peeksize = ikcp_peeksize kcp in
        if peeksize < 0 then Some (-2, [], kcp)
        else if peeksize > \<bar>len\<bar> then Some (-3, [], kcp)
        else
          let recover = (nrcv_que kcp \<ge> rcv_wnd kcp);
              (dat, n, rest) = merge_fragments (rcv_queue kcp) 0;
              kcp1 = delete_merged len rest kcp
          in if n \<noteq> peeksize then None
             else
               let kcp2 = move_available (rcv_buf kcp1) kcp1;
                   kcp3 = (if nrcv_que kcp2 < rcv_wnd kcp2 \<and> recover
                           then kcp2\<lparr>probe := probe kcp2 OR IKCP_ASK_TELL\<rparr> else kcp2)
               in Some (n, dat, kcp3))"

section \<open>The application side: sending\<close>

text \<open>The first part of \<open>ikcp_send\<close> fills up the last queued segment in stream mode; the result is the rest of
  the input and the state.\<close>

definition send_extend :: "byte list \<Rightarrow> IKCPCB \<Rightarrow> byte list \<times> IKCPCB" where
  "send_extend buf kcp =
     (if stream kcp \<noteq> 0 \<and> snd_queue kcp \<noteq> [] then
        let old = last (snd_queue kcp) in
        if seg_len old < mss kcp then
          let capacity = nat (sint (mss kcp - seg_len old));
              extend = (if length buf < capacity then length buf else capacity);
              seg = (ikcp_segment_new (seg_data old @ take extend buf))
                      \<lparr>seg_len := seg_len old + word_of_nat extend, seg_frg := 0\<rparr>
          in (drop extend buf, kcp\<lparr>snd_queue := butlast (snd_queue kcp) @ [seg]\<rparr>)
        else (buf, kcp)
      else (buf, kcp))"

text \<open>The fragment loop: \<open>count\<close> segments, numbered downwards unless in stream mode.\<close>

fun send_fragments :: "nat \<Rightarrow> byte list \<Rightarrow> IKCPCB \<Rightarrow> IKCPCB" where
  "send_fragments 0 buf kcp = kcp"
| "send_fragments (Suc n) buf kcp =
     (let size = (if int (length buf) > sint (mss kcp) then nat (sint (mss kcp)) else length buf);
          seg = (ikcp_segment_new (take size buf))
                  \<lparr>seg_frg := (if stream kcp = 0 then word_of_nat n else 0)\<rparr>
      in send_fragments n (drop size buf)
           (kcp\<lparr>snd_queue := snd_queue kcp @ [seg], nsnd_que := nsnd_que kcp + 1\<rparr>))"

definition ikcp_send :: "byte list \<Rightarrow> IKCPCB \<Rightarrow> (int \<times> IKCPCB) option" where
  "ikcp_send buffer kcp =
     (if mss kcp = 0 then None
      else
        let (buf, kcp1) = send_extend buffer kcp in
        if stream kcp \<noteq> 0 \<and> buf = [] then Some (0, kcp1)
        else
          let count = (if int (length buf) \<le> sint (mss kcp1) then 1
                       else sint ((word_of_nat (length buf) + mss kcp1 - 1) div mss kcp1))
          in if count \<ge> uint IKCP_WND_RCV then Some (-2, kcp1)
             else
               let count1 = (if count = 0 then 1 else count)
               in Some (0, send_fragments (nat count1) buf kcp1))"

section \<open>Acknowledgements\<close>

text \<open>A signed 32-bit result; \<^const>\<open>None\<close> if it overflows.\<close>

definition i32 :: "int \<Rightarrow> int option" where
  "i32 x = (if - (2 ^ 31) \<le> x \<and> x < 2 ^ 31 then Some x else None)"

definition ikcp_update_ack :: "int \<Rightarrow> IKCPCB \<Rightarrow> IKCPCB option" where
  "ikcp_update_ack rtt kcp =
     do { (srtt, rttval) \<leftarrow>
            (if rx_srtt kcp = 0 then Some (rtt, rtt sdiv 2)
             else
               do { delta0 \<leftarrow> i32 (rtt - rx_srtt kcp);
                    let delta = \<bar>delta0\<bar>;
                    v3 \<leftarrow> i32 (3 * rx_rttval kcp);
                    s7 \<leftarrow> i32 (7 * rx_srtt kcp);
                    s8 \<leftarrow> i32 (s7 + rtt);
                    let s = s8 sdiv 8;
                    Some (if s < 1 then 1 else s, to_i32 ((v3 + delta) sdiv 4)) });
          v4 \<leftarrow> i32 (4 * rttval);
          let rto = word_of_int srtt + imax (interval kcp) (word_of_int v4);
          Some (kcp\<lparr>rx_srtt := srtt, rx_rttval := rttval,
                    rx_rto := sint (ibound (word_of_int (rx_minrto kcp)) rto IKCP_RTO_MAX)\<rparr>) }"

definition ikcp_shrink_buf :: "IKCPCB \<Rightarrow> IKCPCB" where
  "ikcp_shrink_buf kcp =
     (case snd_buf kcp of
        seg # _ \<Rightarrow> kcp\<lparr>snd_una := seg_sn seg\<rparr>
      | [] \<Rightarrow> kcp\<lparr>snd_una := snd_nxt kcp\<rparr>)"

fun remove_acked :: "u32 \<Rightarrow> IKCPSEG list \<Rightarrow> IKCPSEG list option" where
  "remove_acked sn [] = None"
| "remove_acked sn (seg # segs) =
     (if sn = seg_sn seg then Some segs
      else if itimediff sn (seg_sn seg) < 0 then None
      else map_option ((#) seg) (remove_acked sn segs))"

definition ikcp_parse_ack :: "u32 \<Rightarrow> IKCPCB \<Rightarrow> IKCPCB" where
  "ikcp_parse_ack sn kcp =
     (if itimediff sn (snd_una kcp) < 0 \<or> itimediff sn (snd_nxt kcp) \<ge> 0 then kcp
      else case remove_acked sn (snd_buf kcp) of
             None \<Rightarrow> kcp
           | Some segs \<Rightarrow> kcp\<lparr>snd_buf := segs, nsnd_buf := nsnd_buf kcp - 1\<rparr>)"

fun ikcp_parse_una_loop :: "u32 \<Rightarrow> IKCPSEG list \<Rightarrow> IKCPCB \<Rightarrow> IKCPCB" where
  "ikcp_parse_una_loop una [] kcp = kcp\<lparr>snd_buf := []\<rparr>"
| "ikcp_parse_una_loop una (seg # segs) kcp =
     (if itimediff una (seg_sn seg) > 0
      then ikcp_parse_una_loop una segs (kcp\<lparr>nsnd_buf := nsnd_buf kcp - 1\<rparr>)
      else kcp\<lparr>snd_buf := seg # segs\<rparr>)"

definition ikcp_parse_una :: "u32 \<Rightarrow> IKCPCB \<Rightarrow> IKCPCB" where
  "ikcp_parse_una una kcp = ikcp_parse_una_loop una (snd_buf kcp) kcp"

fun count_fastack :: "u32 \<Rightarrow> IKCPSEG list \<Rightarrow> IKCPSEG list" where
  "count_fastack sn [] = []"
| "count_fastack sn (seg # segs) =
     (if itimediff sn (seg_sn seg) < 0 then seg # segs
      else if sn \<noteq> seg_sn seg then seg\<lparr>seg_fastack := seg_fastack seg + 1\<rparr> # count_fastack sn segs
      else seg # count_fastack sn segs)"

text \<open>The argument \<open>ts\<close> is used only when \<open>IKCP_FASTACK_CONSERVE\<close> is defined, which it is not.\<close>

definition ikcp_parse_fastack :: "u32 \<Rightarrow> u32 \<Rightarrow> IKCPCB \<Rightarrow> IKCPCB" where
  "ikcp_parse_fastack sn ts kcp =
     (if itimediff sn (snd_una kcp) < 0 \<or> itimediff sn (snd_nxt kcp) \<ge> 0 then kcp
      else kcp\<lparr>snd_buf := count_fastack sn (snd_buf kcp)\<rparr>)"

text \<open>\<open>for (newblock = 8; newblock < newsize; newblock <<= 1);\<close>\<close>

function grow_block :: "nat \<Rightarrow> nat \<Rightarrow> nat" where
  "grow_block newblock newsize =
     (if newblock < newsize \<and> newblock > 0 then grow_block (2 * newblock) newsize else newblock)"
  by pat_completeness auto
termination by (relation "measure (\<lambda>(b, n). n - b)") auto

declare grow_block.simps [simp del]

definition ikcp_ack_push :: "u32 \<Rightarrow> u32 \<Rightarrow> IKCPCB \<Rightarrow> IKCPCB" where
  "ikcp_ack_push sn ts kcp =
     (let newsize = length (acklist kcp) + 1;
          newblock = (if newsize > ackblock kcp then grow_block 8 newsize else ackblock kcp)
      in kcp\<lparr>ackblock := newblock, acklist := acklist kcp @ [(sn, ts)]\<rparr>)"

section \<open>Incoming segments\<close>

text \<open>The search of \<open>ikcp_parse_data\<close> runs from the end of \<open>rcv_buf\<close>: the list is reversed here.
  \<^const>\<open>None\<close> is \<open>repeat = 1\<close>.\<close>

fun rcv_insert :: "IKCPSEG \<Rightarrow> IKCPSEG list \<Rightarrow> IKCPSEG list option" where
  "rcv_insert newseg [] = Some [newseg]"
| "rcv_insert newseg (seg # segs) =
     (if seg_sn seg = seg_sn newseg then None
      else if itimediff (seg_sn newseg) (seg_sn seg) > 0 then Some (newseg # seg # segs)
      else map_option ((#) seg) (rcv_insert newseg segs))"

definition ikcp_parse_data :: "IKCPSEG \<Rightarrow> IKCPCB \<Rightarrow> IKCPCB" where
  "ikcp_parse_data newseg kcp =
     (let sn = seg_sn newseg in
      if itimediff sn (rcv_nxt kcp + rcv_wnd kcp) \<ge> 0 \<or> itimediff sn (rcv_nxt kcp) < 0 then kcp
      else
        let kcp1 = (case rcv_insert newseg (rev (rcv_buf kcp)) of
                      None \<Rightarrow> kcp
                    | Some segs \<Rightarrow> kcp\<lparr>rcv_buf := rev segs, nrcv_buf := nrcv_buf kcp + 1\<rparr>)
        in move_available (rcv_buf kcp1) kcp1)"

text \<open>One segment of the input, its head decoded. The state of the loop of \<open>ikcp_input\<close> are the control
  block and, once an acknowledgement was seen (\<open>flag\<close>), \<open>maxack\<close> and \<open>latest_ts\<close>.\<close>

definition input_ack :: "u32 \<Rightarrow> u32 \<Rightarrow> IKCPCB \<Rightarrow> (u32 \<times> u32) option \<Rightarrow> (IKCPCB \<times> (u32 \<times> u32) option) option"
where
  "input_ack sn ts kcp acked =
     do { kcp1 \<leftarrow> (if itimediff (current kcp) ts \<ge> 0
                   then ikcp_update_ack (itimediff (current kcp) ts) kcp else Some kcp);
          let kcp2 = ikcp_shrink_buf (ikcp_parse_ack sn kcp1);
          Some (kcp2, case acked of
                        None \<Rightarrow> Some (sn, ts)
                      | Some (maxack, latest_ts) \<Rightarrow>
                          if itimediff sn maxack > 0 then Some (sn, ts) else acked) }"

definition input_push :: "IKCPSEG \<Rightarrow> IKCPCB \<Rightarrow> IKCPCB" where
  "input_push seg kcp =
     (if itimediff (seg_sn seg) (rcv_nxt kcp + rcv_wnd kcp) < 0 then
        let kcp1 = ikcp_ack_push (seg_sn seg) (seg_ts seg) kcp in
        if itimediff (seg_sn seg) (rcv_nxt kcp1) \<ge> 0 then ikcp_parse_data seg kcp1 else kcp1
      else kcp)"

definition decode_head :: "byte list \<Rightarrow> IKCPSEG \<times> byte list" where
  "decode_head data =
     (let (cv, d1) = ikcp_decode32u data;
          (cmd, d2) = ikcp_decode8u d1;
          (frg, d3) = ikcp_decode8u d2;
          (wnd, d4) = ikcp_decode16u d3;
          (ts, d5) = ikcp_decode32u d4;
          (sn, d6) = ikcp_decode32u d5;
          (una, d7) = ikcp_decode32u d6;
          (len, d8) = ikcp_decode32u d7
      in ((ikcp_segment_new [])
            \<lparr>seg_conv := cv, seg_cmd := ucast cmd, seg_frg := ucast frg, seg_wnd := ucast wnd,
             seg_ts := ts, seg_sn := sn, seg_una := una, seg_len := len\<rparr>, d8))"

function input_loop ::
  "byte list \<Rightarrow> IKCPCB \<Rightarrow> (u32 \<times> u32) option \<Rightarrow> (int \<times> IKCPCB \<times> (u32 \<times> u32) option) option" where
  "input_loop data kcp acked =
     (if length data < 24 then Some (0, kcp, acked)
      else
        let (seg, rest) = decode_head data; len = unat (seg_len seg) in
        if seg_conv seg \<noteq> conv kcp then Some (-1, kcp, acked)
        else if length rest < len \<or> sint (seg_len seg) < 0 then Some (-2, kcp, acked)
        else if seg_cmd seg \<noteq> IKCP_CMD_PUSH \<and> seg_cmd seg \<noteq> IKCP_CMD_ACK
             \<and> seg_cmd seg \<noteq> IKCP_CMD_WASK \<and> seg_cmd seg \<noteq> IKCP_CMD_WINS
        then Some (-3, kcp, acked)
        else
          let kcp1 = ikcp_shrink_buf (ikcp_parse_una (seg_una seg) (kcp\<lparr>rmt_wnd := seg_wnd seg\<rparr>)) in
          (if seg_cmd seg = IKCP_CMD_ACK then
             (case input_ack (seg_sn seg) (seg_ts seg) kcp1 acked of
                None \<Rightarrow> None
              | Some (kcp2, acked2) \<Rightarrow> input_loop (drop len rest) kcp2 acked2)
           else if seg_cmd seg = IKCP_CMD_PUSH then
             input_loop (drop len rest) (input_push (seg\<lparr>seg_data := take len rest\<rparr>) kcp1) acked
           else if seg_cmd seg = IKCP_CMD_WASK then
             input_loop (drop len rest) (kcp1\<lparr>probe := probe kcp1 OR IKCP_ASK_TELL\<rparr>) acked
           else input_loop (drop len rest) kcp1 acked))"
  by pat_completeness auto
termination
  by (relation "measure (\<lambda>(data, kcp, acked). length data)")
    (auto simp: decode_head_def ikcp_decode32u_def ikcp_decode16u_def ikcp_decode8u_def Let_def)

declare input_loop.simps [simp del]

text \<open>The last part of \<open>ikcp_input\<close>: the congestion window grows when \<open>snd_una\<close> has advanced.\<close>

definition grow_cwnd :: "u32 \<Rightarrow> IKCPCB \<Rightarrow> IKCPCB option" where
  "grow_cwnd prev_una kcp =
     (if itimediff (snd_una kcp) prev_una > 0 \<and> cwnd kcp < rmt_wnd kcp then
        let m = mss kcp in
        do { kcp1 \<leftarrow>
               (if cwnd kcp < ssthresh kcp
                then Some (kcp\<lparr>cwnd := cwnd kcp + 1, incr := incr kcp + m\<rparr>)
                else
                  let i1 = (if incr kcp < m then m else incr kcp) in
                  if i1 = 0 then None
                  else
                    let i2 = i1 + ((m * m) div i1 + m div 16) in
                    Some (if (cwnd kcp + 1) * m \<le> i2
                          then kcp\<lparr>incr := i2, cwnd := cwnd kcp + 1\<rparr>
                          else kcp\<lparr>incr := i2\<rparr>));
             Some (if cwnd kcp1 > rmt_wnd kcp1
                   then kcp1\<lparr>cwnd := rmt_wnd kcp1, incr := rmt_wnd kcp1 * m\<rparr> else kcp1) }
      else Some kcp)"

definition ikcp_input :: "byte list \<Rightarrow> IKCPCB \<Rightarrow> (int \<times> IKCPCB) option" where
  "ikcp_input data kcp =
     (if length data < 24 then Some (-1, kcp)
      else
        do { (ret, kcp1, acked) \<leftarrow> input_loop data kcp None;
             (if ret \<noteq> 0 then Some (ret, kcp1)
              else
                let kcp2 = (case acked of None \<Rightarrow> kcp1
                            | Some (maxack, latest_ts) \<Rightarrow> ikcp_parse_fastack maxack latest_ts kcp1)
                in do { kcp3 \<leftarrow> grow_cwnd (snd_una kcp) kcp2; Some (0, kcp3) }) })"

section \<open>Flushing\<close>

definition ikcp_wnd_unused :: "IKCPCB \<Rightarrow> int" where
  "ikcp_wnd_unused kcp =
     (if nrcv_que kcp < rcv_wnd kcp then sint (rcv_wnd kcp - nrcv_que kcp) else 0)"

definition ikcp_output :: "byte list \<Rightarrow> IKCPCB \<Rightarrow> IKCPCB" where
  "ikcp_output dat kcp = (if dat = [] then kcp else kcp\<lparr>outputs := outputs kcp @ [dat]\<rparr>)"

text \<open>\<open>buf\<close> are the bytes between \<open>buffer\<close> and \<open>ptr\<close>. Before \<open>need\<close> bytes are written, a full datagram is sent.\<close>

definition make_room :: "int \<Rightarrow> byte list \<Rightarrow> IKCPCB \<Rightarrow> byte list \<times> IKCPCB" where
  "make_room need buf kcp =
     (if int (length buf) + need > sint (mtu kcp) then ([], ikcp_output buf kcp) else (buf, kcp))"

definition write_buf :: "byte list \<Rightarrow> byte list \<Rightarrow> IKCPCB \<Rightarrow> byte list option" where
  "write_buf dat buf kcp =
     (if length buf + length dat \<le> buffer_size kcp then Some (buf @ dat) else None)"

text \<open>Each head of the control segments is written after room was made for \<open>IKCP_OVERHEAD\<close> bytes.\<close>

definition flush_head :: "IKCPSEG \<Rightarrow> byte list \<Rightarrow> IKCPCB \<Rightarrow> (byte list \<times> IKCPCB) option" where
  "flush_head seg buf kcp =
     (let (buf1, kcp1) = make_room (uint IKCP_OVERHEAD) buf kcp in
      do { buf2 \<leftarrow> write_buf (ikcp_encode_seg seg) buf1 kcp1; Some (buf2, kcp1) })"

fun flush_acks ::
  "(u32 \<times> u32) list \<Rightarrow> IKCPSEG \<Rightarrow> byte list \<Rightarrow> IKCPCB \<Rightarrow> (IKCPSEG \<times> byte list \<times> IKCPCB) option" where
  "flush_acks [] seg buf kcp = Some (seg, buf, kcp)"
| "flush_acks ((sn, ts) # acks) seg buf kcp =
     (let seg1 = seg\<lparr>seg_sn := sn, seg_ts := ts\<rparr> in
      do { (buf1, kcp1) \<leftarrow> flush_head seg1 buf kcp; flush_acks acks seg1 buf1 kcp1 })"

definition probe_window :: "IKCPCB \<Rightarrow> IKCPCB" where
  "probe_window kcp =
     (if rmt_wnd kcp = 0 then
        if probe_wait kcp = 0 then
          kcp\<lparr>probe_wait := IKCP_PROBE_INIT, ts_probe := current kcp + IKCP_PROBE_INIT\<rparr>
        else if itimediff (current kcp) (ts_probe kcp) \<ge> 0 then
          let w0 = (if probe_wait kcp < IKCP_PROBE_INIT then IKCP_PROBE_INIT else probe_wait kcp);
              w1 = w0 + w0 div 2;
              w2 = (if w1 > IKCP_PROBE_LIMIT then IKCP_PROBE_LIMIT else w1)
          in kcp\<lparr>probe_wait := w2, ts_probe := current kcp + w2, probe := probe kcp OR IKCP_ASK_SEND\<rparr>
        else kcp
      else kcp\<lparr>ts_probe := 0, probe_wait := 0\<rparr>)"

definition flush_probes ::
  "IKCPSEG \<Rightarrow> byte list \<Rightarrow> IKCPCB \<Rightarrow> (byte list \<times> IKCPCB) option" where
  "flush_probes seg buf kcp =
     do { (buf1, kcp1) \<leftarrow>
            (if probe kcp AND IKCP_ASK_SEND \<noteq> 0
             then flush_head (seg\<lparr>seg_cmd := IKCP_CMD_WASK\<rparr>) buf kcp else Some (buf, kcp));
          (buf2, kcp2) \<leftarrow>
            (if probe kcp1 AND IKCP_ASK_TELL \<noteq> 0
             then flush_head (seg\<lparr>seg_cmd := IKCP_CMD_WINS\<rparr>) buf1 kcp1 else Some (buf1, kcp1));
          Some (buf2, kcp2\<lparr>probe := 0\<rparr>) }"

text \<open>The loop "move data from snd_queue to snd_buf", recursive on the queue.\<close>

fun move_to_send :: "IKCPSEG list \<Rightarrow> u32 \<Rightarrow> u32 \<Rightarrow> IKCPCB \<Rightarrow> IKCPCB" where
  "move_to_send [] cwnd1 wnd kcp = kcp\<lparr>snd_queue := []\<rparr>"
| "move_to_send (newseg # segs) cwnd1 wnd kcp =
     (if itimediff (snd_nxt kcp) (snd_una kcp + cwnd1) < 0 then
        let seg = newseg\<lparr>seg_conv := conv kcp, seg_cmd := IKCP_CMD_PUSH, seg_wnd := wnd,
                         seg_ts := current kcp, seg_sn := snd_nxt kcp, seg_una := rcv_nxt kcp,
                         seg_resendts := current kcp, seg_rto := word_of_int (rx_rto kcp),
                         seg_fastack := 0, seg_xmit := 0\<rparr>
        in move_to_send segs cwnd1 wnd
             (kcp\<lparr>snd_buf := snd_buf kcp @ [seg], nsnd_que := nsnd_que kcp - 1,
                  nsnd_buf := nsnd_buf kcp + 1, snd_nxt := snd_nxt kcp + 1\<rparr>)
      else kcp\<lparr>snd_queue := newseg # segs\<rparr>)"

text \<open>Decision of the loop "flush data segments" for one segment: whether it is sent, the segment, and whether
  it was lost (timeout) or skipped by later acknowledgements.\<close>

datatype resend = NoSend | FirstSend | Timeout | FastResend

definition resend_kind :: "u32 \<Rightarrow> IKCPCB \<Rightarrow> IKCPSEG \<Rightarrow> resend" where
  "resend_kind resent kcp segment =
     (if seg_xmit segment = 0 then FirstSend
      else if itimediff (current kcp) (seg_resendts segment) \<ge> 0 then Timeout
      else if seg_fastack segment \<ge> resent
              \<and> (sint (seg_xmit segment) \<le> fastlimit kcp \<or> fastlimit kcp \<le> 0) then FastResend
      else NoSend)"

definition resend_update :: "u32 \<Rightarrow> resend \<Rightarrow> IKCPCB \<Rightarrow> IKCPSEG \<Rightarrow> IKCPSEG" where
  "resend_update rtomin kind kcp segment =
     (case kind of
        NoSend \<Rightarrow> segment
      | FirstSend \<Rightarrow>
          segment\<lparr>seg_xmit := seg_xmit segment + 1, seg_rto := word_of_int (rx_rto kcp),
                  seg_resendts := current kcp + word_of_int (rx_rto kcp) + rtomin\<rparr>
      | Timeout \<Rightarrow>
          (let rto = seg_rto segment + (if nodelay kcp = 0 then word_of_int (rx_rto kcp)
                                        else word_of_int (rx_rto kcp sdiv 2))
           in segment\<lparr>seg_xmit := seg_xmit segment + 1, seg_rto := rto, seg_resendts := current kcp + rto\<rparr>)
      | FastResend \<Rightarrow>
          segment\<lparr>seg_xmit := seg_xmit segment + 1, seg_fastack := 0,
                  seg_resendts := current kcp + seg_rto segment\<rparr>)"

definition count_timeout :: "resend \<Rightarrow> IKCPCB \<Rightarrow> IKCPCB" where
  "count_timeout kind kcp = (if kind = Timeout then kcp\<lparr>xmit := xmit kcp + 1\<rparr> else kcp)"

definition emit_segment :: "IKCPSEG \<Rightarrow> byte list \<Rightarrow> IKCPCB \<Rightarrow> (byte list \<times> IKCPCB) option" where
  "emit_segment segment buf kcp =
     (let (buf1, kcp1) = make_room (sint (IKCP_OVERHEAD + seg_len segment)) buf kcp
      in do { buf2 \<leftarrow> write_buf (ikcp_encode_seg segment) buf1 kcp1;
              buf3 \<leftarrow> write_buf (take (unat (seg_len segment)) (seg_data segment)) buf2 kcp1;
              Some (buf3, if seg_xmit segment \<ge> dead_link kcp1 then kcp1\<lparr>state := -1\<rparr> else kcp1) })"

fun flush_data ::
  "u32 \<Rightarrow> u32 \<Rightarrow> u32 \<Rightarrow> IKCPSEG list \<Rightarrow> byte list \<Rightarrow> IKCPCB
     \<Rightarrow> (IKCPSEG list \<times> byte list \<times> IKCPCB \<times> bool \<times> nat) option" where
  "flush_data resent rtomin wnd [] buf kcp = Some ([], buf, kcp, False, 0)"
| "flush_data resent rtomin wnd (segment # segs) buf kcp =
     (let kind = resend_kind resent kcp segment;
          seg1 = resend_update rtomin kind kcp segment;
          kcp1 = count_timeout kind kcp
      in
      if kind = NoSend then
        do { (segs', buf', kcp', lost, change) \<leftarrow> flush_data resent rtomin wnd segs buf kcp1;
             Some (seg1 # segs', buf', kcp', lost, change) }
      else
        let seg2 = seg1\<lparr>seg_ts := current kcp1, seg_wnd := wnd, seg_una := rcv_nxt kcp1\<rparr>
        in do { (buf1, kcp2) \<leftarrow> emit_segment seg2 buf kcp1;
                (segs', buf', kcp', lost, change) \<leftarrow> flush_data resent rtomin wnd segs buf1 kcp2;
                Some (seg2 # segs', buf', kcp', kind = Timeout \<or> lost,
                      if kind = FastResend then change + 1 else change) })"

text \<open>The last part: the slow start threshold and the congestion window.\<close>

definition update_ssthresh :: "bool \<Rightarrow> bool \<Rightarrow> u32 \<Rightarrow> u32 \<Rightarrow> IKCPCB \<Rightarrow> IKCPCB" where
  "update_ssthresh change lost resent cwnd1 kcp =
     (let kcp1 = (if change then
            let inflight = snd_nxt kcp - snd_una kcp;
                st = (if inflight div 2 < IKCP_THRESH_MIN then IKCP_THRESH_MIN else inflight div 2)
            in kcp\<lparr>ssthresh := st, cwnd := st + resent, incr := (st + resent) * mss kcp\<rparr>
            else kcp);
          kcp2 = (if lost then
            let st = (if cwnd1 div 2 < IKCP_THRESH_MIN then IKCP_THRESH_MIN else cwnd1 div 2)
            in kcp1\<lparr>ssthresh := st, cwnd := 1, incr := mss kcp1\<rparr>
            else kcp1)
      in if cwnd kcp2 < 1 then kcp2\<lparr>cwnd := 1, incr := mss kcp2\<rparr> else kcp2)"

text \<open>The window for new segments, the number of skips that triggers a fast resend and the extra delay of the
  first resend.\<close>

definition send_window :: "IKCPCB \<Rightarrow> u32" where
  "send_window kcp =
     (let w = imin (snd_wnd kcp) (rmt_wnd kcp) in if nocwnd kcp = 0 then imin (cwnd kcp) w else w)"

definition resent_limit :: "IKCPCB \<Rightarrow> u32" where
  "resent_limit kcp = (if fastresend kcp > 0 then word_of_int (fastresend kcp) else 0xffffffff)"

definition rto_min :: "IKCPCB \<Rightarrow> u32" where
  "rto_min kcp = (if nodelay kcp = 0 then word_of_int (rx_rto kcp div 2 ^ 3) else 0)"

definition ikcp_flush :: "IKCPCB \<Rightarrow> IKCPCB option" where
  "ikcp_flush kcp =
     (if updated kcp = 0 then Some kcp
      else
        let seg = (ikcp_segment_new [])
                    \<lparr>seg_conv := conv kcp, seg_cmd := IKCP_CMD_ACK,
                     seg_wnd := word_of_int (ikcp_wnd_unused kcp), seg_una := rcv_nxt kcp\<rparr>
        in do { (seg1, buf1, kcp1) \<leftarrow> flush_acks (acklist kcp) seg [] kcp;
                let kcp2 = probe_window (kcp1\<lparr>acklist := []\<rparr>);
                (buf2, kcp3) \<leftarrow> flush_probes seg1 buf1 kcp2;
                let cwnd1 = send_window kcp3;
                let kcp4 = move_to_send (snd_queue kcp3) cwnd1 (seg_wnd seg1) kcp3;
                (segs, buf3, kcp5, lost, change) \<leftarrow>
                  flush_data (resent_limit kcp4) (rto_min kcp4) (seg_wnd seg1) (snd_buf kcp4) buf2 kcp4;
                let kcp6 = ikcp_output buf3 (kcp5\<lparr>snd_buf := segs\<rparr>);
                Some (update_ssthresh (change \<noteq> 0) lost (resent_limit kcp4) cwnd1 kcp6) })"

section \<open>Timing\<close>

text \<open>The clock part of \<open>ikcp_update\<close>: whether a flush is due, and the state with the next flush time.\<close>

definition update_clock :: "u32 \<Rightarrow> IKCPCB \<Rightarrow> bool \<times> IKCPCB" where
  "update_clock now kcp =
     (let kcp1 = kcp\<lparr>current := now\<rparr>;
          kcp2 = (if updated kcp1 = 0 then kcp1\<lparr>updated := 1, ts_flush := now\<rparr> else kcp1);
          slap0 = itimediff now (ts_flush kcp2);
          (slap, kcp3) = (if slap0 \<ge> 10000 \<or> slap0 < -10000 then (0, kcp2\<lparr>ts_flush := now\<rparr>)
                          else (slap0, kcp2))
      in
      if slap \<ge> 0 then
        let kcp4 = kcp3\<lparr>ts_flush := ts_flush kcp3 + interval kcp3\<rparr>
        in (True, if itimediff now (ts_flush kcp4) \<ge> 0
                  then kcp4\<lparr>ts_flush := now + interval kcp4\<rparr> else kcp4)
      else (False, kcp3))"

definition ikcp_update :: "u32 \<Rightarrow> IKCPCB \<Rightarrow> IKCPCB option" where
  "ikcp_update now kcp =
     (let (due, kcp1) = update_clock now kcp in if due then ikcp_flush kcp1 else Some kcp1)"

text \<open>The loop of \<open>ikcp_check\<close> over \<open>snd_buf\<close>: \<^const>\<open>None\<close> if a segment is due.\<close>

fun check_packets :: "u32 \<Rightarrow> IKCPSEG list \<Rightarrow> int \<Rightarrow> int option" where
  "check_packets now [] tm_packet = Some tm_packet"
| "check_packets now (seg # segs) tm_packet =
     (let diff = itimediff (seg_resendts seg) now in
      if diff \<le> 0 then None
      else check_packets now segs (if diff < tm_packet then diff else tm_packet))"

definition ikcp_check :: "u32 \<Rightarrow> IKCPCB \<Rightarrow> u32" where
  "ikcp_check now kcp =
     (if updated kcp = 0 then now
      else
        let fl0 = ts_flush kcp;
            fl = (if itimediff now fl0 \<ge> 10000 \<or> itimediff now fl0 < -10000 then now else fl0)
        in
        if itimediff now fl \<ge> 0 then now
        else
          let tm_flush = itimediff fl now in
          case check_packets now (snd_buf kcp) 0x7fffffff of
            None \<Rightarrow> now
          | Some tm_packet \<Rightarrow>
              let minimal = (word_of_int (if tm_packet < tm_flush then tm_packet else tm_flush) :: u32)
              in now + (if minimal \<ge> interval kcp then interval kcp else minimal))"

end
