(* ===== verification/Kcp_Receive.thy ===== *)
theory Kcp_Receive
  imports Kcp
begin

text \<open>
  The receiving half of a KCP endpoint: whatever segments arrive, in whatever order and however often, the
  receive queue is filled with the sender's segments in order, without gaps and without duplicates.
\<close>

section \<open>Sequence numbers relative to \<open>rcv_nxt\<close>\<close>

text \<open>Sequence numbers are compared as the sign of a 32-bit difference. Relative to a base, numbers less than
  \<open>2 ^ 31\<close> ahead of it are compared like their distances.\<close>

definition dist :: "u32 \<Rightarrow> u32 \<Rightarrow> nat" where
  "dist base sn = unat (sn - base)"

lemma dist_less_word [simp]: "dist base sn < 2 ^ 32"
  using unsigned_less [of "sn - base"] by (simp add: dist_def)

lemma dist_eq_iff: "dist base a = dist base b \<longleftrightarrow> a = b"
  by (simp add: dist_def word_unat_eq_iff [symmetric])

lemma int_diff_range:
  "(m :: nat) < 2 ^ 31 \<Longrightarrow> n \<le> 2 ^ 31 \<Longrightarrow> - (2 ^ 31) \<le> int m - int n \<and> int m - int n < 2 ^ 31"
  "\<not> (m :: nat) < 2 ^ 31 \<Longrightarrow> m < 2 ^ 32 \<Longrightarrow> - (2 ^ 31) \<le> int m - 2 ^ 32 \<and> int m - 2 ^ 32 < 2 ^ 31
    \<and> int m - 2 ^ 32 < 0"
  by auto

lemma sint_sub:
  fixes a b :: u32
  assumes "unat a < 2 ^ 31" and "unat b \<le> 2 ^ 31"
  shows "sint (a - b) = int (unat a) - int (unat b)"
proof -
  have e: "a - b = word_of_int (int (unat a) - int (unat b))"
    by (simp add: of_int_diff)
  note r = int_diff_range(1) [OF assms]
  show ?thesis
    unfolding e by (rule sint_word_of_int_u32) (use r in blast)+
qed

lemma itimediff_dist:
  assumes "dist base a < 2 ^ 31" and "dist base b \<le> 2 ^ 31"
  shows "itimediff a b = int (dist base a) - int (dist base b)"
proof -
  have "a - b = (a - base) - (b - base)" by simp
  then show ?thesis
    using sint_sub [of "a - base" "b - base"] assms by (simp add: itimediff_def dist_def)
qed

lemma itimediff_self_base: "itimediff sn base \<ge> 0 \<longleftrightarrow> dist base sn < 2 ^ 31"
proof (cases "dist base sn < 2 ^ 31")
  case True
  then show ?thesis using itimediff_dist [of base sn base] by (simp add: dist_def)
next
  case False
  have "(sn - base) = word_of_int (int (unat (sn - base)) - 2 ^ 32)"
    by (simp add: of_int_diff)
  moreover note r = int_diff_range(2) [OF False [unfolded dist_def] dist_less_word [of base sn, unfolded dist_def]]
  have "sint (word_of_int (int (unat (sn - base)) - 2 ^ 32) :: u32) = int (unat (sn - base)) - 2 ^ 32"
    by (rule sint_word_of_int_u32) (use r in blast)+
  ultimately have "sint (sn - base) = int (unat (sn - base)) - 2 ^ 32" by metis
  with r have "sint (sn - base) < 0" by metis
  then show ?thesis
    using False by (simp add: itimediff_def)
qed

lemma dist_Suc:
  "dist base sn \<noteq> 0 \<Longrightarrow> dist (base + 1) sn = dist base sn - 1"
proof -
  assume "dist base sn \<noteq> 0"
  then have nz: "sn - base \<noteq> 0" by (simp add: dist_def unat_eq_0)
  have e: "sn - (base + 1) = (sn - base) - 1" by simp
  show ?thesis unfolding dist_def e by (rule unat_minus_one [OF nz])
qed

section \<open>The order of the receive buffer\<close>

definition ordered_from :: "u32 \<Rightarrow> IKCPSEG list \<Rightarrow> bool" where
  "ordered_from base segs \<longleftrightarrow>
     sorted_wrt (<) (map (dist base \<circ> seg_sn) segs) \<and> (\<forall>s\<in>set segs. dist base (seg_sn s) < 2 ^ 31)"

lemma ordered_from_Cons:
  "ordered_from base (s # segs) \<longleftrightarrow>
     (\<forall>t\<in>set segs. dist base (seg_sn s) < dist base (seg_sn t)) \<and> dist base (seg_sn s) < 2 ^ 31
     \<and> ordered_from base segs"
  by (auto simp: ordered_from_def)

lemma ordered_from_Suc:
  "ordered_from base segs \<Longrightarrow> \<forall>s\<in>set segs. dist base (seg_sn s) \<noteq> 0 \<Longrightarrow> ordered_from (base + 1) segs"
  by (induction segs) (auto simp: ordered_from_Cons dist_Suc ordered_from_def)

text \<open>The backward search inserts the segment at its place, or finds a duplicate.\<close>

lemma rcv_insert_ordered:
  assumes "sorted_wrt (>) (map (dist base \<circ> seg_sn) segs)" and "\<forall>s\<in>set segs. dist base (seg_sn s) < 2 ^ 31"
    and "dist base (seg_sn new) < 2 ^ 31"
  shows "case rcv_insert new segs of
      None \<Rightarrow> \<exists>s\<in>set segs. seg_sn s = seg_sn new
    | Some segs' \<Rightarrow> set segs' = insert new (set segs) \<and> length segs' = length segs + 1
        \<and> sorted_wrt (>) (map (dist base \<circ> seg_sn) segs')"
  using assms
proof (induction segs)
  case (Cons s segs)
  have cmp: "itimediff (seg_sn new) (seg_sn s) > 0 \<longleftrightarrow> dist base (seg_sn s) < dist base (seg_sn new)"
    using Cons.prems by (subst itimediff_dist [of base]) auto
  consider "seg_sn s = seg_sn new" | "dist base (seg_sn s) < dist base (seg_sn new)"
    | "seg_sn s \<noteq> seg_sn new" "dist base (seg_sn new) < dist base (seg_sn s)"
    using dist_eq_iff [of base "seg_sn s" "seg_sn new"] by linarith
  then show ?case
  proof cases
    case 2
    then have "rcv_insert new (s # segs) = Some (new # s # segs)" using cmp by auto
    then show ?thesis using Cons.prems 2 by (auto simp: o_def simp del: rcv_insert.simps)
  next
    case 3
    then have e: "rcv_insert new (s # segs) = map_option ((#) s) (rcv_insert new segs)" using cmp by simp
    show ?thesis
    proof (cases "rcv_insert new segs")
      case None
      then show ?thesis using Cons e by simp
    next
      case (Some segs')
      then show ?thesis using Cons e 3 by auto
    qed
  qed simp
qed simp

lemma sorted_wrt_rev_map:
  "sorted_wrt (>) (map f (rev xs)) \<longleftrightarrow> sorted_wrt (<) (map (f :: _ \<Rightarrow> nat) xs)"
  by (simp add: rev_map [symmetric] sorted_wrt_rev)

lemma rcv_insert_buf:
  assumes "ordered_from base segs" and "dist base (seg_sn new) < 2 ^ 31"
  shows "case rcv_insert new (rev segs) of
      None \<Rightarrow> \<exists>s\<in>set segs. seg_sn s = seg_sn new
    | Some segs' \<Rightarrow> set segs' = insert new (set segs) \<and> length segs' = length segs + 1
        \<and> ordered_from base (rev segs')"
  using rcv_insert_ordered [of base "rev segs" new] assms
  by (auto simp: ordered_from_def sorted_wrt_rev_map split: option.splits)
    (metis rev_rev_ident sorted_wrt_rev_map)+

section \<open>In-order delivery\<close>

text \<open>\<open>hist\<close> is what the sender has assigned to the sequence numbers 0, 1, ...: fragment number and data. A
  segment is genuine if it carries what was assigned to its number.\<close>

type_synonym fragment = "u32 \<times> byte list"

definition frag_of :: "IKCPSEG \<Rightarrow> fragment" where
  "frag_of s = (seg_frg s, seg_data s)"

definition genuine :: "fragment list \<Rightarrow> IKCPSEG \<Rightarrow> bool" where
  "genuine hist s \<longleftrightarrow> unat (seg_sn s) < length hist \<and> frag_of s = hist ! unat (seg_sn s)
     \<and> unat (seg_len s) = length (seg_data s)"

text \<open>\<open>consumed\<close> are the fragments the application has taken out of the receive queue.\<close>

definition recv_inv :: "fragment list \<Rightarrow> fragment list \<Rightarrow> IKCPCB \<Rightarrow> bool" where
  "recv_inv hist consumed kcp \<longleftrightarrow>
     length hist < 2 ^ 32 \<and>
     (\<exists>n \<le> length hist. rcv_nxt kcp = word_of_nat n
        \<and> consumed @ map frag_of (rcv_queue kcp) = take n hist)
     \<and> ordered_from (rcv_nxt kcp) (rcv_buf kcp) \<and> (\<forall>s\<in>set (rcv_buf kcp). genuine hist s)
     \<and> (\<forall>s\<in>set (rcv_queue kcp). unat (seg_len s) = length (seg_data s))
     \<and> unat (nrcv_que kcp) = length (rcv_queue kcp)"

lemma unat_word_of_nat_u32: "n < 2 ^ 32 \<Longrightarrow> unat (word_of_nat n :: u32) = n"
  by (simp add: unsigned_of_nat take_bit_nat_eq_self)

lemma unat_add_1_u32: "x < y \<Longrightarrow> unat (x + 1 :: u32) = unat x + 1"
proof -
  assume "x < y"
  moreover have "unat y < 2 ^ 32" using dist_less_word [of 0 y] by (simp add: dist_def)
  ultimately show ?thesis by (simp add: unat_word_ariths(1) word_less_nat_alt)
qed

lemma move_available_inv:
  assumes "recv_inv hist consumed (kcp\<lparr>rcv_buf := segs\<rparr>)"
  shows "recv_inv hist consumed (move_available segs kcp)"
  using assms
proof (induction segs arbitrary: kcp)
  case (Cons s segs)
  show ?case
  proof (cases "seg_sn s = rcv_nxt kcp \<and> nrcv_que kcp < rcv_wnd kcp")
    case True
    let ?k = "kcp\<lparr>nrcv_buf := nrcv_buf kcp - 1, rcv_queue := rcv_queue kcp @ [s],
             nrcv_que := nrcv_que kcp + 1, rcv_nxt := rcv_nxt kcp + 1\<rparr>"
    from Cons.prems obtain n where n: "n \<le> length hist" "length hist < 2 ^ 32"
      "rcv_nxt kcp = word_of_nat n" "consumed @ map frag_of (rcv_queue kcp) = take n hist"
      "ordered_from (rcv_nxt kcp) (s # segs)" "\<forall>t\<in>set (s # segs). genuine hist t"
      "unat (nrcv_que kcp) = length (rcv_queue kcp)"
      "\<forall>t\<in>set (rcv_queue kcp). unat (seg_len t) = length (seg_data t)"
      by (auto simp: recv_inv_def)
    have sn: "unat (seg_sn s) = n" using True n(1-3) by (simp add: unat_word_of_nat_u32)
    with n(6) have g: "n < length hist" "frag_of s = hist ! n" "unat (seg_len s) = length (seg_data s)"
      by (auto simp: genuine_def)
    have "\<forall>t\<in>set segs. dist (rcv_nxt kcp) (seg_sn t) \<noteq> 0"
      using n(5) by (auto simp: ordered_from_Cons)
    then have "ordered_from (rcv_nxt kcp + 1) segs"
      using n(5) ordered_from_Suc by (auto simp: ordered_from_Cons)
    moreover have "unat (nrcv_que kcp + 1) = length (rcv_queue kcp) + 1"
      using True unat_add_1_u32 [of "nrcv_que kcp" "rcv_wnd kcp"] n(7) by simp
    moreover have "consumed @ map frag_of (rcv_queue kcp) @ [frag_of s] = take (n + 1) hist"
      using n(4) g by (simp add: take_Suc_conv_app_nth flip: append_assoc)
    ultimately have "recv_inv hist consumed (?k\<lparr>rcv_buf := segs\<rparr>)"
      using n(2,3,6,8) g by (auto simp: recv_inv_def add.commute intro!: exI [of _ "n + 1"])
    from Cons.IH [OF this] True show ?thesis by simp
  next
    case False
    with Cons.prems show ?thesis by auto
  qed
qed simp

lemma parse_data_inv:
  assumes "recv_inv hist consumed kcp" and "genuine hist seg"
  shows "recv_inv hist consumed (ikcp_parse_data seg kcp)"
proof (cases "itimediff (seg_sn seg) (rcv_nxt kcp + rcv_wnd kcp) \<ge> 0 \<or> itimediff (seg_sn seg) (rcv_nxt kcp) < 0")
  case True
  with assms(1) show ?thesis by (simp add: ikcp_parse_data_def Let_def)
next
  case False
  then have d: "dist (rcv_nxt kcp) (seg_sn seg) < 2 ^ 31"
    using itimediff_self_base by (meson not_less)
  let ?kcp1 = "case rcv_insert seg (rev (rcv_buf kcp)) of
      None \<Rightarrow> kcp | Some segs \<Rightarrow> kcp\<lparr>rcv_buf := rev segs, nrcv_buf := nrcv_buf kcp + 1\<rparr>"
  have "recv_inv hist consumed ?kcp1"
    using assms rcv_insert_buf [OF _ d, of "rcv_buf kcp"]
    by (auto simp: recv_inv_def split: option.splits)
  then have "recv_inv hist consumed (move_available (rcv_buf ?kcp1) ?kcp1)"
    by (intro move_available_inv) simp
  with False show ?thesis by (simp add: ikcp_parse_data_def Let_def)
qed

section \<open>What the other operations leave alone\<close>

text \<open>The receiving half of the control block, on which \<^const>\<open>recv_inv\<close> depends.\<close>

definition recv_part :: "IKCPCB \<Rightarrow> u32 \<times> u32 \<times> IKCPSEG list \<times> IKCPSEG list" where
  "recv_part kcp = (rcv_nxt kcp, nrcv_que kcp, rcv_queue kcp, rcv_buf kcp)"

lemma recv_inv_cong: "recv_part kcp = recv_part kcp' \<Longrightarrow> recv_inv hist consumed kcp = recv_inv hist consumed kcp'"
  by (simp add: recv_inv_def recv_part_def)

lemma recv_part_una_loop: "recv_part (ikcp_parse_una_loop una segs kcp) = recv_part kcp"
  by (induction una segs kcp rule: ikcp_parse_una_loop.induct) (simp_all add: recv_part_def)

lemma recv_part_small:
  "recv_part (ikcp_shrink_buf kcp) = recv_part kcp"
  "recv_part (ikcp_parse_una una kcp) = recv_part kcp"
  "recv_part (ikcp_parse_ack sn kcp) = recv_part kcp"
  "recv_part (ikcp_parse_fastack sn ts kcp) = recv_part kcp"
  "recv_part (ikcp_ack_push sn ts kcp) = recv_part kcp"
  "recv_part (ikcp_output dat kcp) = recv_part kcp"
  "recv_part (probe_window kcp) = recv_part kcp"
  "recv_part (update_ssthresh change lost r c kcp) = recv_part kcp"
  by (simp_all add: ikcp_shrink_buf_def ikcp_parse_una_def recv_part_una_loop ikcp_parse_ack_def
      ikcp_parse_fastack_def ikcp_ack_push_def ikcp_output_def probe_window_def update_ssthresh_def Let_def
      split: list.split option.split)
    (auto simp: recv_part_def)

lemma recv_part_send_fragments: "recv_part (send_fragments n buf kcp) = recv_part kcp"
  by (induction n buf kcp rule: send_fragments.induct) (simp_all add: recv_part_def Let_def)

lemma recv_part_send:
  "ikcp_send buf kcp = Some (r, kcp') \<Longrightarrow> recv_part kcp' = recv_part kcp"
  by (auto simp: ikcp_send_def send_extend_def Let_def recv_part_send_fragments split: if_splits prod.splits)
    (auto simp: recv_part_def)

lemma recv_part_update_ack: "ikcp_update_ack rtt kcp = Some kcp' \<Longrightarrow> recv_part kcp' = recv_part kcp"
  by (auto simp: ikcp_update_ack_def recv_part_def Let_def bind_eq_Some_conv split: if_splits)

lemma recv_part_input_ack:
  "input_ack sn ts kcp acked = Some (kcp', acked') \<Longrightarrow> recv_part kcp' = recv_part kcp"
  by (auto simp: input_ack_def Let_def bind_eq_Some_conv recv_part_small recv_part_update_ack
      split: if_splits option.splits)

lemma recv_part_grow_cwnd: "grow_cwnd una kcp = Some kcp' \<Longrightarrow> recv_part kcp' = recv_part kcp"
  by (auto simp: grow_cwnd_def Let_def recv_part_def bind_eq_Some_conv split: if_splits)

lemma recv_part_flush_head: "flush_head seg buf kcp = Some (buf', kcp') \<Longrightarrow> recv_part kcp' = recv_part kcp"
  by (auto simp: flush_head_def make_room_def ikcp_output_def recv_part_def bind_eq_Some_conv
      split: if_splits)

lemma recv_part_flush_acks:
  "flush_acks acks seg buf kcp = Some (seg', buf', kcp') \<Longrightarrow> recv_part kcp' = recv_part kcp"
  by (induction acks seg buf kcp rule: flush_acks.induct)
    (auto simp: Let_def bind_eq_Some_conv recv_part_flush_head split: prod.splits)

lemma recv_part_flush_probes:
  "flush_probes seg buf kcp = Some (buf', kcp') \<Longrightarrow> recv_part kcp' = recv_part kcp"
proof -
  have u: "recv_part (k\<lparr>probe := p\<rparr>) = recv_part k" for k p by (simp add: recv_part_def)
  assume "flush_probes seg buf kcp = Some (buf', kcp')"
  then show ?thesis
    by (auto simp: flush_probes_def bind_eq_Some_conv u dest!: recv_part_flush_head split: if_splits)
qed

lemma recv_part_move_to_send: "recv_part (move_to_send segs c w kcp) = recv_part kcp"
  by (induction segs c w kcp rule: move_to_send.induct) (simp_all add: recv_part_def Let_def)

lemma recv_part_emit_segment: "emit_segment s buf kcp = Some (buf', kcp') \<Longrightarrow> recv_part kcp' = recv_part kcp"
  by (auto simp: emit_segment_def make_room_def ikcp_output_def recv_part_def bind_eq_Some_conv
      split: if_splits)

lemma recv_part_flush_data:
  "flush_data resent rtomin w segs buf kcp = Some (segs', buf', kcp', lost, change) \<Longrightarrow>
   recv_part kcp' = recv_part kcp"
proof (induction segs arbitrary: buf kcp segs' lost change)
  case (Cons s segs)
  let ?kind = "resend_kind resent kcp s"
  have u: "recv_part (count_timeout x k) = recv_part k" for k x
    by (simp add: recv_part_def count_timeout_def)
  show ?case
  proof (cases "?kind = NoSend")
    case True
    with Cons.prems obtain segs1 where
      "flush_data resent rtomin w segs buf (count_timeout ?kind kcp) = Some (segs1, buf', kcp', lost, change)"
      by (auto simp: Let_def bind_eq_Some_conv)
    from Cons.IH [OF this] show ?thesis by (simp add: u)
  next
    case False
    with Cons.prems obtain seg2 buf1 k2 segs1 lost1 change1 where
      r: "emit_segment seg2 buf (count_timeout ?kind kcp) = Some (buf1, k2)"
        "flush_data resent rtomin w segs buf1 k2 = Some (segs1, buf', kcp', lost1, change1)"
      by (simp add: Let_def bind_eq_Some_conv) (elim exE conjE, blast)
    from Cons.IH [OF r(2)] recv_part_emit_segment [OF r(1)] show ?thesis by (simp add: u)
  qed
qed simp

lemma recv_part_flush: "ikcp_flush kcp = Some kcp' \<Longrightarrow> recv_part kcp' = recv_part kcp"
proof -
  have u: "recv_part (k\<lparr>acklist := a\<rparr>) = recv_part k" "recv_part (k\<lparr>snd_buf := b\<rparr>) = recv_part k" for k a b
    by (simp_all add: recv_part_def)
  assume "ikcp_flush kcp = Some kcp'"
  then show ?thesis
    by (auto simp: ikcp_flush_def Let_def bind_eq_Some_conv recv_part_small recv_part_move_to_send u
        dest!: recv_part_flush_acks recv_part_flush_probes recv_part_flush_data split: if_splits)
qed

lemma recv_part_update_clock: "recv_part (snd (update_clock now kcp)) = recv_part kcp"
  by (simp add: update_clock_def Let_def) (simp add: recv_part_def)

lemma recv_part_update: "ikcp_update now kcp = Some kcp' \<Longrightarrow> recv_part kcp' = recv_part kcp"
  using recv_part_update_clock [of now kcp]
  by (auto simp: ikcp_update_def Let_def dest!: recv_part_flush split: if_splits prod.splits)

section \<open>Datagrams\<close>

text \<open>A segment with its data on the wire.\<close>

definition wire_seg :: "IKCPSEG \<Rightarrow> byte list" where
  "wire_seg s = ikcp_encode_seg s @ seg_data s"

definition wire_ok :: "IKCPSEG \<Rightarrow> bool" where
  "wire_ok s \<longleftrightarrow> seg_cmd s \<in> {IKCP_CMD_PUSH, IKCP_CMD_ACK, IKCP_CMD_WASK, IKCP_CMD_WINS}
     \<and> seg_frg s < 256 \<and> unat (seg_len s) = length (seg_data s)"

lemma ucast_ucast_u8: "(x :: u32) < 256 \<Longrightarrow> ucast (ucast x :: u8) = x"
  by (simp add: word_unat_eq_iff unsigned_ucast_eq unsigned_take_bit_eq take_bit_nat_eq_self word_less_nat_alt)

lemma ikcp_encode_seg_length [simp]: "length (ikcp_encode_seg s) = 24"
  by (simp add: ikcp_encode_seg_def ikcp_encode32u_def ikcp_encode16u_def ikcp_encode8u_def)

lemma decode_encode_bytes:
  "ikcp_decode32u (ikcp_encode32u x @ r) = (x, r)" "ikcp_decode16u (ikcp_encode16u y @ r) = (y, r)"
  "ikcp_decode8u (ikcp_encode8u z @ r) = (z, r)"
  by (simp_all add: ikcp_decode32u_def ikcp_encode32u_def ikcp_decode16u_def ikcp_encode16u_def
      ikcp_decode8u_def ikcp_encode8u_def of_bytes_bytes_of)

lemma decode_encode_seg:
  "decode_head (ikcp_encode_seg s @ r) =
     ((ikcp_segment_new [])
        \<lparr>seg_conv := seg_conv s, seg_cmd := ucast (ucast (seg_cmd s) :: u8),
         seg_frg := ucast (ucast (seg_frg s) :: u8), seg_wnd := ucast (ucast (seg_wnd s) :: u16),
         seg_ts := seg_ts s, seg_sn := seg_sn s, seg_una := seg_una s, seg_len := seg_len s\<rparr>, r)"
  by (simp add: decode_head_def ikcp_encode_seg_def decode_encode_bytes)

lemma wire_ok_cmd: "wire_ok s \<Longrightarrow> ucast (ucast (seg_cmd s) :: u8) = seg_cmd s"
  by (intro ucast_ucast_u8) (auto simp: wire_ok_def ikcp_consts)

lemma wire_ok_frg: "wire_ok s \<Longrightarrow> ucast (ucast (seg_frg s) :: u8) = seg_frg s"
  by (intro ucast_ucast_u8) (simp add: wire_ok_def)

text \<open>The datagrams of a sender with history \<open>hist\<close>.\<close>

definition datagram_ok :: "fragment list \<Rightarrow> byte list \<Rightarrow> bool" where
  "datagram_ok hist d \<longleftrightarrow> (\<exists>segs. d = concat (map wire_seg segs)
     \<and> (\<forall>s\<in>set segs. wire_ok s \<and> (seg_cmd s = IKCP_CMD_PUSH \<longrightarrow> genuine hist s)))"

lemma recv_inv_updates:
  "recv_inv hist c (kcp\<lparr>rmt_wnd := w\<rparr>) = recv_inv hist c kcp"
  "recv_inv hist c (kcp\<lparr>probe := p\<rparr>) = recv_inv hist c kcp"
  by (auto intro!: recv_inv_cong simp: recv_part_def)

lemma recv_inv_small:
  "recv_inv hist c (ikcp_shrink_buf kcp) = recv_inv hist c kcp"
  "recv_inv hist c (ikcp_parse_una una kcp) = recv_inv hist c kcp"
  "recv_inv hist c (ikcp_parse_fastack sn ts kcp) = recv_inv hist c kcp"
  "recv_inv hist c (ikcp_ack_push sn ts kcp) = recv_inv hist c kcp"
  by (auto intro!: recv_inv_cong simp: recv_part_small)

lemma input_push_inv:
  "recv_inv hist c kcp \<Longrightarrow> genuine hist seg \<Longrightarrow> recv_inv hist c (input_push seg kcp)"
  by (simp add: input_push_def Let_def parse_data_inv recv_inv_small)

text \<open>One iteration of the input loop, as a case distinction.\<close>

lemma input_loop_cases:
  assumes "input_loop data kcp acked = Some (r, kcp', acked')" and "24 \<le> length data"
    and "decode_head data = (seg, rest)"
  defines "kcp1 \<equiv> ikcp_shrink_buf (ikcp_parse_una (seg_una seg) (kcp\<lparr>rmt_wnd := seg_wnd seg\<rparr>))"
    and "rest1 \<equiv> drop (unat (seg_len seg)) rest"
  obtains (stop) "kcp' = kcp"
    | (ack) kcp2 acked2 where "input_ack (seg_sn seg) (seg_ts seg) kcp1 acked = Some (kcp2, acked2)"
        "input_loop rest1 kcp2 acked2 = Some (r, kcp', acked')"
    | (push) "seg_cmd seg = IKCP_CMD_PUSH"
        "input_loop rest1 (input_push (seg\<lparr>seg_data := take (unat (seg_len seg)) rest\<rparr>) kcp1) acked
           = Some (r, kcp', acked')"
    | (wask) "input_loop rest1 (kcp1\<lparr>probe := probe kcp1 OR IKCP_ASK_TELL\<rparr>) acked = Some (r, kcp', acked')"
    | (wins) "input_loop rest1 kcp1 acked = Some (r, kcp', acked')"
proof -
  have "kcp' = kcp
    \<or> (\<exists>kcp2 acked2. input_ack (seg_sn seg) (seg_ts seg) kcp1 acked = Some (kcp2, acked2)
          \<and> input_loop rest1 kcp2 acked2 = Some (r, kcp', acked'))
    \<or> seg_cmd seg = IKCP_CMD_PUSH \<and>
        input_loop rest1 (input_push (seg\<lparr>seg_data := take (unat (seg_len seg)) rest\<rparr>) kcp1) acked
          = Some (r, kcp', acked')
    \<or> input_loop rest1 (kcp1\<lparr>probe := probe kcp1 OR IKCP_ASK_TELL\<rparr>) acked = Some (r, kcp', acked')
    \<or> input_loop rest1 kcp1 acked = Some (r, kcp', acked')"
    using assms(1,2) unfolding input_loop.simps [of data kcp acked] assms(3) Let_def prod.case
      kcp1_def [symmetric] rest1_def [symmetric]
    by (auto split: if_splits option.splits)
  then show ?thesis using that by blast
qed

lemma input_loop_inv:
  assumes "recv_inv hist c kcp"
    and "\<forall>s\<in>set segs. wire_ok s \<and> (seg_cmd s = IKCP_CMD_PUSH \<longrightarrow> genuine hist s)"
    and "input_loop (concat (map wire_seg segs)) kcp acked = Some (r, kcp', acked')"
  shows "recv_inv hist c kcp'"
  using assms
proof (induction segs arbitrary: kcp acked)
  case Nil
  then show ?case by (simp add: input_loop.simps [of "[]"])
next
  case (Cons s segs)
  let ?rest = "concat (map wire_seg segs)"
  let ?seg = "fst (decode_head (ikcp_encode_seg s @ seg_data s @ ?rest))"
  let ?kcp1 = "ikcp_shrink_buf (ikcp_parse_una (seg_una ?seg) (kcp\<lparr>rmt_wnd := seg_wnd ?seg\<rparr>))"
  have ok: "wire_ok s" and gen: "seg_cmd s = IKCP_CMD_PUSH \<Longrightarrow> genuine hist s" using Cons.prems(2) by auto
  have dh: "decode_head (ikcp_encode_seg s @ seg_data s @ ?rest) = (?seg, seg_data s @ ?rest)"
    by (simp add: decode_encode_seg)
  have f: "seg_cmd ?seg = seg_cmd s" "unat (seg_len ?seg) = length (seg_data s)" "seg_sn ?seg = seg_sn s"
    "seg_frg ?seg = seg_frg s" "seg_len ?seg = seg_len s"
    using ok by (simp_all add: decode_encode_seg wire_ok_cmd wire_ok_frg) (simp add: wire_ok_def)
  have w: "concat (map wire_seg (s # segs)) = ikcp_encode_seg s @ seg_data s @ ?rest"
    by (simp add: wire_seg_def)
  have inv1: "recv_inv hist c ?kcp1"
    using Cons.prems(1) by (simp only: recv_inv_small recv_inv_updates)
  have rest: "\<forall>t\<in>set segs. wire_ok t \<and> (seg_cmd t = IKCP_CMD_PUSH \<longrightarrow> genuine hist t)"
    using Cons.prems(2) by simp
  note IH = Cons.IH [OF _ rest]
  have len: "24 \<le> length (ikcp_encode_seg s @ seg_data s @ ?rest)" by simp
  have tk: "take (unat (seg_len ?seg)) (seg_data s @ ?rest) = seg_data s"
    "drop (unat (seg_len ?seg)) (seg_data s @ ?rest) = ?rest"
    unfolding f(2) by simp_all
  from Cons.prems(3) [unfolded w] len dh show ?case
  proof (cases rule: input_loop_cases)
    case stop
    with Cons.prems(1) show ?thesis by simp
  next
    case (ack kcp2 acked2)
    from recv_inv_cong [OF recv_part_input_ack [OF ack(1)]] inv1 have "recv_inv hist c kcp2" by simp
    from IH [OF this ack(2) [unfolded tk]] show ?thesis .
  next
    case push
    have "genuine hist (?seg\<lparr>seg_data := seg_data s\<rparr>)"
      using gen push(1) f by (simp add: genuine_def frag_of_def)
    from IH [OF input_push_inv [OF inv1 this] push(2) [unfolded tk]] show ?thesis .
  next
    case wask
    from IH [OF _ wask [unfolded tk]] inv1 show ?thesis by (simp only: recv_inv_updates)
  next
    case wins
    from IH [OF inv1 wins [unfolded tk]] show ?thesis .
  qed
qed

lemma input_inv:
  assumes "recv_inv hist c kcp" and "datagram_ok hist d" and "ikcp_input d kcp = Some (r, kcp')"
  shows "recv_inv hist c kcp'"
proof -
  from assms(2) obtain segs where d: "d = concat (map wire_seg segs)"
    "\<forall>s\<in>set segs. wire_ok s \<and> (seg_cmd s = IKCP_CMD_PUSH \<longrightarrow> genuine hist s)"
    by (auto simp: datagram_ok_def)
  show ?thesis
  proof (cases "length d < 24")
    case True
    with assms show ?thesis by (simp add: ikcp_input_def)
  next
    case False
    with assms(3) obtain ret kcp1 acked where l: "input_loop d kcp None = Some (ret, kcp1, acked)"
      and k: "ret \<noteq> 0 \<and> kcp' = kcp1 \<or> (\<exists>kcp2. (kcp2 = kcp1 \<or> (\<exists>m t. kcp2 = ikcp_parse_fastack m t kcp1))
        \<and> grow_cwnd (snd_una kcp) kcp2 = Some kcp')"
      by (auto simp: ikcp_input_def bind_eq_Some_conv Let_def split: if_splits option.splits) blast+
    have "recv_inv hist c kcp1" using input_loop_inv [OF assms(1) d(2)] l d(1) by blast
    with k show ?thesis
      using recv_inv_cong [OF recv_part_grow_cwnd] by (auto simp: recv_inv_small)
  qed
qed

section \<open>Messages\<close>

lemma peek_length_merge: "peek_length segs l = fst (snd (merge_fragments segs l))"
  by (induction segs l rule: peek_length.induct) (auto simp: Let_def split: prod.split)

text \<open>The assertion at the end of the merge never fails.\<close>

lemma ikcp_recv_total: "ikcp_recv len kcp \<noteq> None"
proof (cases "rcv_queue kcp")
  case (Cons s segs)
  obtain dat n rest where m: "merge_fragments (s # segs) 0 = (dat, n, rest)" by (metis prod_cases3)
  have sl: "sint (seg_len s) = to_i32 (uint (seg_len s))"
    by (simp add: to_i32_def signed_take_bit_eq_if_positive sint_uint)
  have "ikcp_peeksize kcp < 0 \<or> n = ikcp_peeksize kcp"
  proof (cases "seg_frg s = 0")
    case True
    with m Cons sl show ?thesis by (simp add: ikcp_peeksize_def Let_def)
  next
    case False
    with m Cons peek_length_merge [of "s # segs" 0] show ?thesis
      by (auto simp: ikcp_peeksize_def simp del: peek_length.simps merge_fragments.simps)
  qed
  with m Cons show ?thesis
    by (auto simp: ikcp_recv_def Let_def simp del: merge_fragments.simps)
qed (simp add: ikcp_recv_def)

text \<open>A group is the sequence of fragments of one message: the fragment numbers count down to 0.\<close>

definition group_ok :: "fragment list \<Rightarrow> bool" where
  "group_ok g \<longleftrightarrow> g \<noteq> [] \<and> length g \<le> 128 \<and> map fst g = map word_of_nat (rev [0..<length g])"

definition message :: "fragment list \<Rightarrow> byte list" where
  "message g = concat (map snd g)"

lemma group_ok_frg:
  assumes "group_ok g" and "i < length g"
  shows "fst (g ! i) = word_of_nat (length g - 1 - i)" and "fst (g ! i) = 0 \<longleftrightarrow> i = length g - 1"
proof -
  have "fst (g ! i) = map fst g ! i" using assms(2) by simp
  also have "\<dots> = word_of_nat (length g - 1 - i)"
    using assms by (simp add: group_ok_def rev_nth del: nth_map of_nat_diff) (simp add: rev_nth del: of_nat_diff)
  finally show e: "fst (g ! i) = word_of_nat (length g - 1 - i)" .
  have "length g \<le> 128" using assms(1) by (simp add: group_ok_def)
  then have "length g - 1 - i < 2 ^ 32" by auto
  then have "unat (word_of_nat (length g - 1 - i) :: u32) = length g - 1 - i" by (rule unat_word_of_nat_u32)
  then have z: "word_of_nat (length g - 1 - i) = (0 :: u32) \<longleftrightarrow> length g - 1 - i = 0"
    by (simp only: unat_eq_0 [symmetric])
  have "length g - 1 - i = 0 \<longleftrightarrow> i = length g - 1" using assms(2) by linarith
  then show "fst (g ! i) = 0 \<longleftrightarrow> i = length g - 1" by (simp only: e z)
qed

text \<open>Merging stops at the end of the first group.\<close>

lemma merge_prefix:
  assumes "\<forall>s\<in>set pre. seg_frg s \<noteq> 0" and "seg_frg s = 0"
  shows "\<exists>n. merge_fragments (pre @ s # rest) l = (concat (map seg_data (pre @ [s])), n, rest)"
  using assms
proof (induction pre arbitrary: l)
  case Nil
  then show ?case by (simp add: Let_def)
next
  case (Cons p pre)
  from Cons.IH [of "to_i32 (l + uint (seg_len p))"] Cons.prems obtain n where
    "merge_fragments (pre @ s # rest) (to_i32 (l + uint (seg_len p))) = (concat (map seg_data (pre @ [s])), n, rest)"
    by auto
  with Cons.prems show ?case by (simp add: Let_def)
qed

lemma merge_group:
  assumes "group_ok g" and "map frag_of segs = g @ fs"
  shows "\<exists>n. merge_fragments segs l = (message g, n, drop (length g) segs)"
proof -
  let ?pre = "take (length g - 1) segs" and ?s = "segs ! (length g - 1)"
  have g: "0 < length g" using assms(1) by (simp add: group_ok_def)
  have len: "length g \<le> length segs" using arg_cong [OF assms(2), of length] by simp
  have nth: "frag_of (segs ! i) = g ! i" if "i < length g" for i
    using arg_cong [OF assms(2), of "\<lambda>xs. xs ! i"] that len by (simp add: nth_append)
  have split: "segs = ?pre @ ?s # drop (length g) segs"
  proof (rule trans [OF id_take_nth_drop [of "length g - 1"]])
    show "length g - 1 < length segs" using g len by linarith
    show "?pre @ ?s # drop (Suc (length g - 1)) segs = ?pre @ ?s # drop (length g) segs" using g by simp
  qed
  have tk: "take (length g) segs = ?pre @ [?s]"
  proof -
    have "length g - 1 < length segs" using g len by linarith
    from take_Suc_conv_app_nth [OF this] g show ?thesis by simp
  qed
  have "map frag_of (take (length g) segs) = g"
    using arg_cong [OF assms(2), of "take (length g)"] by (simp add: take_map)
  then have "map frag_of (?pre @ [?s]) = g" by (simp only: tk)
  then have msg: "concat (map seg_data (?pre @ [?s])) = message g"
    unfolding message_def by (metis (no_types, lifting) frag_of_def map_eq_conv map_map comp_apply snd_conv)
  have "seg_frg ?s = 0" using nth [of "length g - 1"] group_ok_frg(2) [OF assms(1), of "length g - 1"] g
    by (simp add: frag_of_def) (metis fst_conv)
  moreover have "\<forall>s\<in>set ?pre. seg_frg s \<noteq> 0"
  proof
    fix s assume "s \<in> set ?pre"
    then obtain i where i: "i < length g - 1" "s = segs ! i" by (auto simp: in_set_conv_nth)
    then have "fst (g ! i) \<noteq> 0" using group_ok_frg(2) [OF assms(1), of i] by auto
    moreover have "i < length g" using i by simp
    then have "seg_frg s = fst (g ! i)" using i(2) nth [of i] by (metis frag_of_def fst_conv)
    ultimately show "seg_frg s \<noteq> 0" by simp
  qed
  ultimately show ?thesis using merge_prefix [of ?pre ?s "drop (length g) segs" l] split msg by metis
qed

text \<open>The application has received the first \<open>j\<close> messages, and what the sender has assigned so far is a prefix of
  the fragments of all messages.\<close>

definition msgs_inv :: "fragment list list \<Rightarrow> fragment list \<Rightarrow> nat \<Rightarrow> IKCPCB \<Rightarrow> bool" where
  "msgs_inv groups hist j kcp \<longleftrightarrow>
     j \<le> length groups \<and> (\<forall>g\<in>set groups. group_ok g) \<and> (\<exists>ext. concat groups = hist @ ext)
     \<and> recv_inv hist (concat (take j groups)) kcp"

lemma queue_front:
  assumes inv: "msgs_inv groups hist j kcp" and q: "rcv_queue kcp \<noteq> []"
  shows "\<exists>ext. map frag_of (rcv_queue kcp) @ ext = concat (drop j groups)" and "j < length groups"
proof -
  from inv obtain n ext where n: "concat (take j groups) @ map frag_of (rcv_queue kcp) = take n hist"
    "concat groups = hist @ ext"
    by (auto simp: msgs_inv_def recv_inv_def)
  have "concat (take j groups) @ map frag_of (rcv_queue kcp) @ (drop n hist @ ext) = concat groups"
    using n by (simp flip: append_assoc)
  also have "\<dots> = concat (take j groups) @ concat (drop j groups)"
    by (metis append_take_drop_id concat_append)
  finally show e: "\<exists>ext. map frag_of (rcv_queue kcp) @ ext = concat (drop j groups)" by auto
  show "j < length groups"
  proof (rule ccontr)
    assume "\<not> j < length groups"
    with e q show False by auto
  qed
qed

lemma whole_group_queued:
  assumes inv: "msgs_inv groups hist j kcp" and q: "rcv_queue kcp \<noteq> []" and p: "ikcp_peeksize kcp \<ge> 0"
  shows "group_ok (groups ! j)" and "\<exists>fs. map frag_of (rcv_queue kcp) = (groups ! j) @ fs"
proof -
  let ?g = "groups ! j"
  from queue_front [OF inv q] obtain ext where j: "j < length groups"
    and e: "map frag_of (rcv_queue kcp) @ ext = ?g @ concat (drop (Suc j) groups)"
    by (auto simp: Cons_nth_drop_Suc [symmetric])
  show g: "group_ok ?g" using inv j by (auto simp: msgs_inv_def)
  have g0: "0 < length ?g" using g by (simp add: group_ok_def)
  obtain s segs where s: "rcv_queue kcp = s # segs" using q by (cases "rcv_queue kcp") auto
  have hd: "seg_frg s = word_of_nat (length ?g - 1)" "seg_frg s = 0 \<longleftrightarrow> length ?g = 1"
  proof -
    have "frag_of s = ?g ! 0" using arg_cong [OF e, of hd] s g0 by (simp add: hd_append hd_conv_nth)
    then have f: "seg_frg s = fst (?g ! 0)" by (metis frag_of_def fst_conv)
    show "seg_frg s = word_of_nat (length ?g - 1)" using f group_ok_frg(1) [OF g g0] by simp
    have "0 = length ?g - 1 \<longleftrightarrow> length ?g = 1" using g0 by linarith
    then show "seg_frg s = 0 \<longleftrightarrow> length ?g = 1" using f group_ok_frg(2) [OF g g0] by simp
  qed
  have "length ?g \<le> length (rcv_queue kcp)"
  proof (cases "seg_frg s = 0")
    case True
    with hd s show ?thesis by simp
  next
    case False
    with p s have "\<not> nrcv_que kcp < seg_frg s + 1" by (auto simp: ikcp_peeksize_def)
    moreover have "seg_frg s + 1 = word_of_nat (length ?g)"
      using hd g0 by (simp add: Suc_leI)
    moreover have "length ?g < 2 ^ 32" using g by (simp add: group_ok_def)
    moreover have "unat (nrcv_que kcp) = length (rcv_queue kcp)"
      using inv by (simp add: msgs_inv_def recv_inv_def)
    ultimately show ?thesis
      by (metis unat_word_of_nat_u32 not_less word_le_nat_alt)
  qed
  then have "take (length ?g) (map frag_of (rcv_queue kcp)) = ?g"
    using arg_cong [OF e, of "take (length ?g)"] by simp
  then show "\<exists>fs. map frag_of (rcv_queue kcp) = ?g @ fs" by (metis append_take_drop_id)
qed

text \<open>\<open>ikcp_recv\<close> hands out the next message, whole, or nothing.\<close>

lemma recv_message:
  assumes inv: "msgs_inv groups hist j kcp" and r: "ikcp_recv len kcp = Some (n, dat, kcp')"
  shows "(n < 0 \<and> dat = [] \<and> kcp' = kcp)
    \<or> (n \<ge> 0 \<and> j < length groups \<and> dat = message (groups ! j)
        \<and> msgs_inv groups hist (if len < 0 then j else j + 1) kcp')"
proof (cases "rcv_queue kcp = [] \<or> ikcp_peeksize kcp < 0 \<or> ikcp_peeksize kcp > \<bar>len\<bar>")
  case True
  with r show ?thesis by (auto simp: ikcp_recv_def Let_def split: if_splits)
next
  case False
  let ?g = "groups ! j"
  have j: "j < length groups" using queue_front(2) [OF inv] False by simp
  from whole_group_queued [OF inv] False obtain fs where g: "group_ok ?g"
    and q: "map frag_of (rcv_queue kcp) = ?g @ fs" by auto
  from merge_group [OF g q, of 0] obtain n1 where
    m: "merge_fragments (rcv_queue kcp) 0 = (message ?g, n1, drop (length ?g) (rcv_queue kcp))" by blast
  let ?kcp1 = "delete_merged len (drop (length ?g) (rcv_queue kcp)) kcp"
  let ?j = "if len < 0 then j else j + 1"
  let ?kcp2 = "move_available (rcv_buf ?kcp1) ?kcp1"
  have lq: "length ?g \<le> length (rcv_queue kcp)" using arg_cong [OF q, of length] by simp
  have "msgs_inv groups hist ?j ?kcp1"
  proof (cases "len < 0")
    case False
    have "unat (nrcv_que kcp) = length (rcv_queue kcp)" using inv by (simp add: msgs_inv_def recv_inv_def)
    moreover have "unat (word_of_nat (length ?g) :: u32) = length ?g"
      using g by (intro unat_word_of_nat_u32) (simp add: group_ok_def)
    ultimately have cnt: "unat (nrcv_que kcp - word_of_nat (length ?g)) = length (rcv_queue kcp) - length ?g"
      using lq by (subst unat_sub) (simp_all add: word_le_nat_alt)
    have tk: "concat (take (j + 1) groups) = concat (take j groups) @ ?g"
      using j by (simp add: take_Suc_conv_app_nth)
    have "map frag_of (drop (length ?g) (rcv_queue kcp)) = fs" using q by (simp flip: drop_map)
    with cnt inv j q tk lq False show ?thesis
      by (auto simp: delete_merged_def msgs_inv_def recv_inv_def dest: in_set_dropD)
  qed (use inv in \<open>simp add: delete_merged_def\<close>)
  then have inv2: "msgs_inv groups hist ?j ?kcp2"
    using move_available_inv [where kcp = ?kcp1 and segs = "rcv_buf ?kcp1"] by (simp add: msgs_inv_def)
  have u: "msgs_inv groups hist ?j (k\<lparr>probe := p\<rparr>) = msgs_inv groups hist ?j k" for k p
    by (simp add: msgs_inv_def recv_inv_updates)
  from r False m have "n = ikcp_peeksize kcp" "dat = message ?g"
    and k: "kcp' = ?kcp2 \<or> kcp' = ?kcp2\<lparr>probe := probe ?kcp2 OR IKCP_ASK_TELL\<rparr>"
    by (auto simp: ikcp_recv_def Let_def split: if_splits)
  with False j inv2 show ?thesis by (auto simp only: u)
qed

end
