(* ===== verification/Kcp_Send.thy ===== *)
theory Kcp_Send
  imports Kcp_Receive
begin

text \<open>
  The sending half of a KCP endpoint: every datagram it ever hands to the output callback consists of well
  formed segments, and every data segment carries the fragment that was assigned to its sequence number.
\<close>

section \<open>The invariant of the sender\<close>

definition queued_ok :: "IKCPSEG \<Rightarrow> bool" where
  "queued_ok s \<longleftrightarrow> seg_frg s < 256 \<and> unat (seg_len s) = length (seg_data s)"

definition in_flight_ok :: "fragment list \<Rightarrow> IKCPSEG \<Rightarrow> bool" where
  "in_flight_ok hist s \<longleftrightarrow> queued_ok s \<and> seg_cmd s = IKCP_CMD_PUSH \<and> genuine hist s"

definition send_inv :: "fragment list \<Rightarrow> IKCPCB \<Rightarrow> bool" where
  "send_inv hist kcp \<longleftrightarrow>
     snd_nxt kcp = word_of_nat (length hist)
     \<and> (\<forall>s\<in>set (snd_queue kcp). queued_ok s) \<and> (\<forall>s\<in>set (snd_buf kcp). in_flight_ok hist s)
     \<and> (\<forall>d\<in>set (outputs kcp). datagram_ok hist d) \<and> stream kcp = 0 \<and> 0 < sint (mss kcp)"

lemma genuine_mono: "genuine hist s \<Longrightarrow> genuine (hist @ ext) s"
  by (simp add: genuine_def nth_append)

lemma in_flight_mono: "in_flight_ok hist s \<Longrightarrow> in_flight_ok (hist @ ext) s"
  by (simp add: in_flight_ok_def genuine_mono)

lemma datagram_ok_mono: "datagram_ok hist d \<Longrightarrow> datagram_ok (hist @ ext) d"
  unfolding datagram_ok_def using genuine_mono by blast

lemma datagram_ok_Nil [simp]: "datagram_ok hist []"
  unfolding datagram_ok_def by (rule exI [of _ "[]"]) simp

lemma datagram_ok_snoc:
  assumes "datagram_ok hist buf" and "wire_ok s" and "seg_cmd s = IKCP_CMD_PUSH \<longrightarrow> genuine hist s"
  shows "datagram_ok hist (buf @ wire_seg s)"
proof -
  from assms(1) obtain segs where "buf = concat (map wire_seg segs)"
    "\<forall>s\<in>set segs. wire_ok s \<and> (seg_cmd s = IKCP_CMD_PUSH \<longrightarrow> genuine hist s)"
    by (auto simp: datagram_ok_def)
  with assms(2,3) show ?thesis
    unfolding datagram_ok_def by (intro exI [of _ "segs @ [s]"]) auto
qed

section \<open>Operations that leave the sender alone\<close>

definition send_part ::
  "IKCPCB \<Rightarrow> u32 \<times> IKCPSEG list \<times> IKCPSEG list \<times> byte list list \<times> int \<times> u32" where
  "send_part kcp = (snd_nxt kcp, snd_queue kcp, snd_buf kcp, outputs kcp, stream kcp, mss kcp)"

lemma send_inv_cong: "send_part kcp = send_part kcp' \<Longrightarrow> send_inv hist kcp = send_inv hist kcp'"
  by (simp add: send_inv_def send_part_def)

lemma send_part_move_available: "send_part (move_available segs kcp) = send_part kcp"
  by (induction segs kcp rule: move_available.induct) (simp_all add: send_part_def)

lemma send_part_parse_data: "send_part (ikcp_parse_data seg kcp) = send_part kcp"
  by (simp add: ikcp_parse_data_def Let_def send_part_move_available split: option.split)
    (simp add: send_part_def)

lemma send_part_input_push: "send_part (input_push seg kcp) = send_part kcp"
  by (simp add: input_push_def Let_def send_part_parse_data ikcp_ack_push_def) (simp add: send_part_def)

lemma send_part_recv: "ikcp_recv len kcp = Some (n, dat, kcp') \<Longrightarrow> send_part kcp' = send_part kcp"
proof -
  have u: "send_part (k\<lparr>probe := p\<rparr>) = send_part k" "send_part (delete_merged len rest k) = send_part k"
    for k p rest
    by (simp_all add: send_part_def delete_merged_def)
  assume r: "ikcp_recv len kcp = Some (n, dat, kcp')"
  obtain dat1 n1 rest where m: "merge_fragments (rcv_queue kcp) 0 = (dat1, n1, rest)" by (metis prod_cases3)
  let ?k1 = "delete_merged len rest kcp"
  let ?k2 = "move_available (rcv_buf ?k1) ?k1"
  have "kcp' = kcp \<or> kcp' = ?k2 \<or> kcp' = ?k2\<lparr>probe := probe ?k2 OR IKCP_ASK_TELL\<rparr>"
    using r m by (simp add: ikcp_recv_def Let_def split: if_split_asm)
  then show ?thesis by (auto simp only: u send_part_move_available)
qed

lemma send_part_update_ack: "ikcp_update_ack rtt kcp = Some kcp' \<Longrightarrow> send_part kcp' = send_part kcp"
  by (auto simp: ikcp_update_ack_def send_part_def Let_def bind_eq_Some_conv split: if_splits)

lemma send_part_grow_cwnd: "grow_cwnd una kcp = Some kcp' \<Longrightarrow> send_part kcp' = send_part kcp"
  by (auto simp: grow_cwnd_def Let_def send_part_def bind_eq_Some_conv split: if_splits)

section \<open>Acknowledgements\<close>

text \<open>Acknowledgements only remove segments from \<open>snd_buf\<close> or count in them.\<close>

lemma remove_acked_set: "remove_acked sn segs = Some segs' \<Longrightarrow> set segs' \<subseteq> set segs"
  by (induction segs arbitrary: segs') (auto split: if_splits)

lemma in_flight_fastack [simp]: "in_flight_ok hist (s\<lparr>seg_fastack := x\<rparr>) = in_flight_ok hist s"
  by (simp add: in_flight_ok_def queued_ok_def genuine_def frag_of_def)

lemma count_fastack_ok:
  "\<forall>s\<in>set segs. in_flight_ok hist s \<Longrightarrow> \<forall>s\<in>set (count_fastack sn segs). in_flight_ok hist s"
  by (induction segs) simp_all

lemma una_loop_inv:
  "send_inv hist (kcp\<lparr>snd_buf := segs\<rparr>) \<Longrightarrow> send_inv hist (ikcp_parse_una_loop una segs kcp)"
  by (induction una segs kcp rule: ikcp_parse_una_loop.induct) (auto simp: send_inv_def)

lemma send_inv_small:
  assumes "send_inv hist kcp"
  shows "send_inv hist (ikcp_shrink_buf kcp)" and "send_inv hist (ikcp_parse_una una kcp)"
    and "send_inv hist (ikcp_parse_ack sn kcp)" and "send_inv hist (ikcp_parse_fastack sn ts kcp)"
    and "send_inv hist (kcp\<lparr>rmt_wnd := w\<rparr>)" and "send_inv hist (kcp\<lparr>probe := w\<rparr>)"
proof -
  show "send_inv hist (ikcp_shrink_buf kcp)"
    using assms by (auto simp: ikcp_shrink_buf_def send_inv_def split: list.split)
  show "send_inv hist (ikcp_parse_una una kcp)"
    using assms una_loop_inv [where kcp = kcp and segs = "snd_buf kcp"] by (simp add: ikcp_parse_una_def)
  show "send_inv hist (ikcp_parse_ack sn kcp)"
    using assms by (auto simp: ikcp_parse_ack_def send_inv_def dest!: remove_acked_set split: option.split)
  show "send_inv hist (ikcp_parse_fastack sn ts kcp)"
    using assms count_fastack_ok [of "snd_buf kcp" hist sn] by (auto simp: ikcp_parse_fastack_def send_inv_def)
  show "send_inv hist (kcp\<lparr>rmt_wnd := w\<rparr>)" "send_inv hist (kcp\<lparr>probe := w\<rparr>)"
    using assms by (simp_all add: send_inv_def)
qed

lemma input_ack_send_inv:
  assumes "send_inv hist kcp" and "input_ack sn ts kcp acked = Some (kcp', acked')"
  shows "send_inv hist kcp'"
proof -
  from assms(2) obtain kcp1 where "kcp1 = kcp \<or> (\<exists>rtt. ikcp_update_ack rtt kcp = Some kcp1)"
    and k: "kcp' = ikcp_shrink_buf (ikcp_parse_ack sn kcp1)"
    by (auto simp: input_ack_def bind_eq_Some_conv Let_def split: if_splits)
  then have "send_inv hist kcp1"
    using assms(1) send_inv_cong [OF send_part_update_ack] by auto
  then show ?thesis unfolding k by (intro send_inv_small)
qed

lemma input_loop_send_inv:
  "input_loop data kcp acked = Some (r, kcp', acked') \<Longrightarrow> send_inv hist kcp \<Longrightarrow> send_inv hist kcp'"
proof (induction "length data" arbitrary: data kcp acked rule: less_induct)
  case less
  obtain seg rest where dh: "decode_head data = (seg, rest)" by fastforce
  show ?case
  proof (cases "24 \<le> length data")
    case False
    with less.prems show ?thesis by (simp add: input_loop.simps [of data])
  next
    case True
    let ?rest1 = "drop (unat (seg_len seg)) rest"
    have "length rest < length data"
      using dh True by (auto simp: decode_head_def ikcp_decode32u_def ikcp_decode16u_def ikcp_decode8u_def Let_def)
    then have shorter: "length ?rest1 < length data" by simp
    let ?k1 = "ikcp_shrink_buf (ikcp_parse_una (seg_una seg) (kcp\<lparr>rmt_wnd := seg_wnd seg\<rparr>))"
    have k1: "send_inv hist ?k1" using less.prems(2) by (intro send_inv_small)
    from less.prems(1) True dh show ?thesis
    proof (cases rule: input_loop_cases)
      case stop
      with less.prems show ?thesis by simp
    next
      case (ack kcp2 acked2)
      from less.hyps [OF shorter ack(2) input_ack_send_inv [OF k1 ack(1)]] show ?thesis .
    next
      case push
      from less.hyps [OF shorter push(2)] send_inv_cong [OF send_part_input_push] k1 show ?thesis by blast
    next
      case wask
      from less.hyps [OF shorter wask send_inv_small(6) [OF k1]] show ?thesis .
    next
      case wins
      from less.hyps [OF shorter wins k1] show ?thesis .
    qed
  qed
qed

lemma input_send_inv:
  assumes "send_inv hist kcp" and "ikcp_input d kcp = Some (r, kcp')"
  shows "send_inv hist kcp'"
proof (cases "length d < 24")
  case True
  with assms show ?thesis by (simp add: ikcp_input_def)
next
  case False
  with assms(2) obtain ret kcp1 acked where l: "input_loop d kcp None = Some (ret, kcp1, acked)"
    and k: "ret \<noteq> 0 \<and> kcp' = kcp1 \<or> (\<exists>kcp2. (kcp2 = kcp1 \<or> (\<exists>m t. kcp2 = ikcp_parse_fastack m t kcp1))
      \<and> grow_cwnd (snd_una kcp) kcp2 = Some kcp')"
    by (auto simp: ikcp_input_def bind_eq_Some_conv Let_def split: if_splits option.splits) blast+
  have "send_inv hist kcp1" using input_loop_send_inv [OF l assms(1)] .
  with k show ?thesis
    using send_inv_cong [OF send_part_grow_cwnd] send_inv_small(4) by metis
qed

section \<open>Flushing\<close>

definition control_seg :: "IKCPSEG \<Rightarrow> bool" where
  "control_seg s \<longleftrightarrow> seg_cmd s \<in> {IKCP_CMD_ACK, IKCP_CMD_WASK, IKCP_CMD_WINS} \<and> seg_frg s = 0
     \<and> seg_len s = 0 \<and> seg_data s = []"

text \<open>What flushing keeps while it fills the buffer: the invariant, a well formed buffer, and the queues.\<close>

definition flushing :: "fragment list \<Rightarrow> IKCPCB \<Rightarrow> byte list \<Rightarrow> IKCPCB \<Rightarrow> bool" where
  "flushing hist kcp0 buf kcp \<longleftrightarrow> send_inv hist kcp \<and> datagram_ok hist buf
     \<and> snd_queue kcp = snd_queue kcp0 \<and> snd_buf kcp = snd_buf kcp0"

lemma output_inv:
  "send_inv hist kcp \<Longrightarrow> datagram_ok hist buf \<Longrightarrow> send_inv hist (ikcp_output buf kcp)"
  by (auto simp: ikcp_output_def send_inv_def)

lemma make_room_flushing:
  "flushing hist kcp0 buf kcp \<Longrightarrow> make_room need buf kcp = (buf', kcp') \<Longrightarrow> flushing hist kcp0 buf' kcp'"
  by (auto simp: make_room_def flushing_def output_inv ikcp_output_def send_inv_def split: if_splits)

lemma flush_head_flushing:
  assumes "flushing hist kcp0 buf kcp" and "control_seg s" and "flush_head s buf kcp = Some (buf', kcp')"
  shows "flushing hist kcp0 buf' kcp'"
proof -
  from assms(3) obtain buf1 where m: "make_room (uint IKCP_OVERHEAD) buf kcp = (buf1, kcp')"
    and b: "buf' = buf1 @ ikcp_encode_seg s"
    by (auto simp: flush_head_def write_buf_def bind_eq_Some_conv split: if_splits prod.splits)
  from make_room_flushing [OF assms(1) m] have f: "flushing hist kcp0 buf1 kcp'" .
  have "wire_ok s" "seg_cmd s \<noteq> IKCP_CMD_PUSH" "wire_seg s = ikcp_encode_seg s"
    using assms(2) by (auto simp: control_seg_def wire_ok_def wire_seg_def ikcp_consts)
  with f b datagram_ok_snoc [of hist buf1 s] show ?thesis by (simp add: flushing_def)
qed

lemma flush_acks_flushing:
  "flush_acks acks s buf kcp = Some (s', buf', kcp') \<Longrightarrow> flushing hist kcp0 buf kcp \<Longrightarrow> control_seg s \<Longrightarrow>
   flushing hist kcp0 buf' kcp' \<and> control_seg s'"
proof (induction acks s buf kcp rule: flush_acks.induct)
  case (2 sn ts acks seg buf kcp)
  let ?s = "seg\<lparr>seg_sn := sn, seg_ts := ts\<rparr>"
  have c: "control_seg ?s" using "2.prems"(3) by (simp add: control_seg_def)
  from "2.prems"(1) obtain buf1 kcp1 where h: "flush_head ?s buf kcp = Some (buf1, kcp1)"
    "flush_acks acks ?s buf1 kcp1 = Some (s', buf', kcp')"
    by (auto simp: Let_def bind_eq_Some_conv)
  from flush_head_flushing [OF "2.prems"(2) c h(1)] have "flushing hist kcp0 buf1 kcp1" .
  with "2.IH" [of ?s "(buf1, kcp1)" buf1 kcp1] h(1,2) c show ?case by simp
qed simp

lemma flushing_update:
  "flushing hist kcp0 buf (kcp\<lparr>probe := p\<rparr>) = flushing hist kcp0 buf kcp"
  "flushing hist kcp0 buf (kcp\<lparr>acklist := a\<rparr>) = flushing hist kcp0 buf kcp"
  "flushing hist kcp0 buf (probe_window kcp) = flushing hist kcp0 buf kcp"
  by (simp_all add: flushing_def send_inv_def probe_window_def Let_def)

lemma control_seg_cmd:
  "control_seg s \<Longrightarrow> c \<in> {IKCP_CMD_WASK, IKCP_CMD_WINS} \<Longrightarrow> control_seg (s\<lparr>seg_cmd := c\<rparr>)"
  by (auto simp: control_seg_def)

lemma flush_probes_flushing:
  assumes "flush_probes s buf kcp = Some (buf', kcp')" and "flushing hist kcp0 buf kcp" and "control_seg s"
  shows "flushing hist kcp0 buf' kcp'"
proof -
  from assms(1) obtain buf1 kcp1 kcp2 where
    1: "buf1 = buf \<and> kcp1 = kcp \<or> flush_head (s\<lparr>seg_cmd := IKCP_CMD_WASK\<rparr>) buf kcp = Some (buf1, kcp1)" and
    2: "buf' = buf1 \<and> kcp2 = kcp1 \<or> flush_head (s\<lparr>seg_cmd := IKCP_CMD_WINS\<rparr>) buf1 kcp1 = Some (buf', kcp2)" and
    3: "kcp' = kcp2\<lparr>probe := 0\<rparr>"
    by (auto simp: flush_probes_def bind_eq_Some_conv split: if_splits)
  have "flushing hist kcp0 buf1 kcp1"
    using 1 assms(2) flush_head_flushing [OF assms(2) control_seg_cmd [OF assms(3)]] by auto
  then have "flushing hist kcp0 buf' kcp2"
    using 2 flush_head_flushing [OF _ control_seg_cmd [OF assms(3), of IKCP_CMD_WINS]] by auto
  with 3 show ?thesis by (simp add: flushing_update)
qed

text \<open>Moving segments to \<open>snd_buf\<close> assigns sequence numbers: the history grows by their fragments.\<close>

lemma move_to_send_inv:
  assumes "send_inv hist (kcp\<lparr>snd_queue := segs\<rparr>)" and "length hist + length segs < 2 ^ 32"
  shows "\<exists>m. snd_queue (move_to_send segs c w kcp) = drop m segs
    \<and> send_inv (hist @ map frag_of (take m segs)) (move_to_send segs c w kcp)"
  using assms
proof (induction segs arbitrary: hist kcp)
  case Nil
  then show ?case by simp
next
  case (Cons s segs)
  show ?case
  proof (cases "itimediff (snd_nxt kcp) (snd_una kcp + c) < 0")
    case True
    let ?s = "s\<lparr>seg_conv := conv kcp, seg_cmd := IKCP_CMD_PUSH, seg_wnd := w, seg_ts := current kcp,
        seg_sn := snd_nxt kcp, seg_una := rcv_nxt kcp, seg_resendts := current kcp,
        seg_rto := word_of_int (rx_rto kcp), seg_fastack := 0, seg_xmit := 0\<rparr>"
    let ?k = "kcp\<lparr>snd_buf := snd_buf kcp @ [?s], nsnd_que := nsnd_que kcp - 1,
        nsnd_buf := nsnd_buf kcp + 1, snd_nxt := snd_nxt kcp + 1\<rparr>"
    have sn: "unat (snd_nxt kcp) = length hist"
      using Cons.prems unat_word_of_nat_u32 [of "length hist"] by (simp add: send_inv_def)
    have q: "queued_ok s" using Cons.prems(1) by (simp add: send_inv_def)
    have g: "in_flight_ok (hist @ [frag_of s]) ?s"
      using sn q by (simp add: in_flight_ok_def queued_ok_def genuine_def frag_of_def)
    have "send_inv (hist @ [frag_of s]) (?k\<lparr>snd_queue := segs\<rparr>)"
      using Cons.prems(1) g
      by (auto simp: send_inv_def in_flight_mono datagram_ok_mono add.commute)
    from Cons.IH [OF this] Cons.prems(2) obtain m where
      "snd_queue (move_to_send segs c w ?k) = drop m segs"
      "send_inv ((hist @ [frag_of s]) @ map frag_of (take m segs)) (move_to_send segs c w ?k)"
      by auto
    with True show ?thesis by (intro exI [of _ "Suc m"]) (simp add: Let_def)
  next
    case False
    with Cons.prems(1) show ?thesis by (intro exI [of _ 0]) simp
  qed
qed

lemma resend_update_ok [simp]:
  "in_flight_ok hist (resend_update r kind kcp s) = in_flight_ok hist s"
  by (simp add: resend_update_def in_flight_ok_def queued_ok_def genuine_def frag_of_def Let_def split: resend.split)

lemma in_flight_update [simp]:
  "in_flight_ok hist (s\<lparr>seg_ts := t, seg_wnd := w, seg_una := u\<rparr>) = in_flight_ok hist s"
  by (simp add: in_flight_ok_def queued_ok_def genuine_def frag_of_def)

lemma in_flight_wire:
  "in_flight_ok hist s \<Longrightarrow> wire_ok s \<and> (seg_cmd s = IKCP_CMD_PUSH \<longrightarrow> genuine hist s)
     \<and> ikcp_encode_seg s @ take (unat (seg_len s)) (seg_data s) = wire_seg s"
  by (auto simp: in_flight_ok_def queued_ok_def wire_ok_def wire_seg_def)

lemma emit_segment_flushing:
  assumes "flushing hist kcp0 buf kcp" and "in_flight_ok hist s" and "emit_segment s buf kcp = Some (buf', kcp')"
  shows "flushing hist kcp0 buf' kcp'"
proof -
  obtain buf1 kcp1 where m: "make_room (sint (IKCP_OVERHEAD + seg_len s)) buf kcp = (buf1, kcp1)" by fastforce
  with assms(3) in_flight_wire [OF assms(2)] have b: "buf' = buf1 @ wire_seg s"
    and k: "kcp' = kcp1 \<or> kcp' = kcp1\<lparr>state := -1\<rparr>"
    by (auto simp: emit_segment_def write_buf_def bind_eq_Some_conv split: if_split_asm)
  from make_room_flushing [OF assms(1) m] have "flushing hist kcp0 buf1 kcp1" .
  with b k in_flight_wire [OF assms(2)] show ?thesis
    by (auto simp: flushing_def send_inv_def intro!: datagram_ok_snoc)
qed

lemma flush_data_flushing:
  "flush_data resent rtomin w segs buf kcp = Some (segs', buf', kcp', lost, change) \<Longrightarrow>
   flushing hist kcp0 buf kcp \<Longrightarrow> \<forall>s\<in>set segs. in_flight_ok hist s \<Longrightarrow>
   flushing hist kcp0 buf' kcp' \<and> (\<forall>s\<in>set segs'. in_flight_ok hist s)"
proof (induction segs arbitrary: buf kcp segs' lost change)
  case (Cons s segs)
  let ?kind = "resend_kind resent kcp s"
  let ?s1 = "resend_update rtomin ?kind kcp s"
  let ?k1 = "count_timeout ?kind kcp"
  let ?s2 = "?s1\<lparr>seg_ts := current ?k1, seg_wnd := w, seg_una := rcv_nxt ?k1\<rparr>"
  have f1: "flushing hist kcp0 buf ?k1"
    using Cons.prems(2) by (simp add: flushing_def send_inv_def count_timeout_def)
  have s2: "in_flight_ok hist ?s2" using Cons.prems(3) by simp
  show ?case
  proof (cases "?kind = NoSend")
    case True
    with Cons.prems(1) obtain segs1 where "flush_data resent rtomin w segs buf ?k1 = Some (segs1, buf', kcp', lost, change)"
      "segs' = ?s1 # segs1"
      by (auto simp: Let_def bind_eq_Some_conv)
    with Cons.IH [OF _ f1] Cons.prems(3) show ?thesis by auto
  next
    case False
    with Cons.prems(1) obtain segs1 lost1 change1 buf1 k2 where
      r: "emit_segment ?s2 buf ?k1 = Some (buf1, k2)"
        "flush_data resent rtomin w segs buf1 k2 = Some (segs1, buf', kcp', lost1, change1)" "segs' = ?s2 # segs1"
      by (simp add: Let_def bind_eq_Some_conv) (elim exE conjE, blast)
    from emit_segment_flushing [OF f1 s2 r(1)] Cons.IH [OF r(2)] Cons.prems(3) r(3) s2 show ?thesis by auto
  qed
qed simp

lemma send_inv_ssthresh: "send_inv hist (update_ssthresh ch lost r c kcp) = send_inv hist kcp"
  "snd_queue (update_ssthresh ch lost r c kcp) = snd_queue kcp"
  by (simp_all add: update_ssthresh_def send_inv_def Let_def)

lemma flush_send_inv:
  assumes "ikcp_flush kcp = Some kcp'" and "send_inv hist kcp"
    and "length hist + length (snd_queue kcp) < 2 ^ 32"
  shows "\<exists>m. snd_queue kcp' = drop m (snd_queue kcp)
    \<and> send_inv (hist @ map frag_of (take m (snd_queue kcp))) kcp'"
proof (cases "updated kcp = 0")
  case True
  with assms show ?thesis by (intro exI [of _ 0]) (simp add: ikcp_flush_def)
next
  case False
  let ?seg = "(ikcp_segment_new []) \<lparr>seg_conv := conv kcp, seg_cmd := IKCP_CMD_ACK,
      seg_wnd := word_of_int (ikcp_wnd_unused kcp), seg_una := rcv_nxt kcp\<rparr>"
  from False assms(1) obtain seg1 buf1 kcp1 buf2 kcp3 c resent rtomin segs buf3 kcp5 lost change where
    1: "flush_acks (acklist kcp) ?seg [] kcp = Some (seg1, buf1, kcp1)" and
    2: "flush_probes seg1 buf1 (probe_window (kcp1\<lparr>acklist := []\<rparr>)) = Some (buf2, kcp3)" and
    3: "flush_data resent rtomin (seg_wnd seg1) (snd_buf (move_to_send (snd_queue kcp3) c (seg_wnd seg1) kcp3)) buf2
          (move_to_send (snd_queue kcp3) c (seg_wnd seg1) kcp3) = Some (segs, buf3, kcp5, lost, change)" and
    4: "kcp' = update_ssthresh (change \<noteq> 0) lost resent c (ikcp_output buf3 (kcp5\<lparr>snd_buf := segs\<rparr>))"
    unfolding ikcp_flush_def by (simp only: if_False bind_eq_Some_conv Let_def split_paired_Ex prod.case) blast
  have "flushing hist kcp [] kcp" using assms(2) by (simp add: flushing_def)
  moreover have "control_seg ?seg" by (simp add: control_seg_def ikcp_segment_new_def)
  ultimately have f1: "flushing hist kcp buf1 kcp1" "control_seg seg1"
    using flush_acks_flushing [OF 1] by blast+
  then have "flushing hist kcp buf1 (probe_window (kcp1\<lparr>acklist := []\<rparr>))" by (simp only: flushing_update)
  from flush_probes_flushing [OF 2 this f1(2)] have f3: "flushing hist kcp buf2 kcp3" .
  then have q3: "snd_queue kcp3 = snd_queue kcp" by (simp add: flushing_def)
  let ?k4 = "move_to_send (snd_queue kcp3) c (seg_wnd seg1) kcp3"
  have "kcp3\<lparr>snd_queue := snd_queue kcp3\<rparr> = kcp3" by simp
  then have "send_inv hist (kcp3\<lparr>snd_queue := snd_queue kcp3\<rparr>)" using f3 unfolding flushing_def by metis
  from move_to_send_inv [OF this, of c "seg_wnd seg1"] assms(3) q3 obtain m where
    m: "snd_queue ?k4 = drop m (snd_queue kcp)" "send_inv (hist @ map frag_of (take m (snd_queue kcp))) ?k4"
    by auto
  let ?hist = "hist @ map frag_of (take m (snd_queue kcp))"
  have "flushing ?hist ?k4 buf2 ?k4" using m f3 by (simp add: flushing_def datagram_ok_mono)
  moreover have "\<forall>s\<in>set (snd_buf ?k4). in_flight_ok ?hist s" using m(2) by (simp add: send_inv_def)
  ultimately have f5: "flushing ?hist ?k4 buf3 kcp5" "\<forall>s\<in>set segs. in_flight_ok ?hist s"
    using flush_data_flushing [OF 3] by blast+
  then have "send_inv ?hist (kcp5\<lparr>snd_buf := segs\<rparr>)" by (simp add: flushing_def send_inv_def)
  with f5 m(1) 4 have "send_inv ?hist kcp'" "snd_queue kcp' = drop m (snd_queue kcp)"
    by (simp_all add: send_inv_ssthresh output_inv flushing_def) (simp add: ikcp_output_def)
  then show ?thesis by blast
qed

lemma update_send_inv:
  assumes "ikcp_update now kcp = Some kcp'" and "send_inv hist kcp"
    and "length hist + length (snd_queue kcp) < 2 ^ 32"
  shows "\<exists>m. snd_queue kcp' = drop m (snd_queue kcp)
    \<and> send_inv (hist @ map frag_of (take m (snd_queue kcp))) kcp'"
proof -
  obtain due kcp1 where c: "update_clock now kcp = (due, kcp1)" by fastforce
  have p: "send_part (snd (update_clock now kcp)) = send_part kcp"
    by (simp add: update_clock_def Let_def) (simp add: send_part_def)
  then have i: "send_inv hist kcp1" using send_inv_cong c assms(2) by (metis snd_conv)
  have q: "snd_queue kcp1 = snd_queue kcp" using p c by (simp add: send_part_def)
  show ?thesis
  proof (cases due)
    case True
    with assms(1) c have "ikcp_flush kcp1 = Some kcp'" by (simp add: ikcp_update_def)
    from flush_send_inv [OF this i] assms(3) q show ?thesis by simp
  next
    case False
    with assms(1) c i q show ?thesis by (intro exI [of _ 0]) (simp add: ikcp_update_def)
  qed
qed

section \<open>Fragmentation\<close>

text \<open>In message mode \<open>ikcp_send\<close> queues the message as one group of fragments.\<close>

lemma send_fragments_queue:
  assumes "0 < sint (mss kcp)" and "stream kcp = 0" and "n \<le> 128" and "length buf \<le> n * nat (sint (mss kcp))"
  shows "\<exists>segs. snd_queue (send_fragments n buf kcp) = snd_queue kcp @ segs \<and> length segs = n
    \<and> map seg_frg segs = map word_of_nat (rev [0..<n]) \<and> concat (map seg_data segs) = buf
    \<and> (\<forall>s\<in>set segs. queued_ok s \<and> length (seg_data s) \<le> nat (sint (mss kcp)))"
  using assms
proof (induction n buf kcp rule: send_fragments.induct)
  case (1 buf kcp)
  then show ?case by simp
next
  case (2 n buf kcp)
  define size where "size = (if int (length buf) > sint (mss kcp) then nat (sint (mss kcp)) else length buf)"
  let ?seg = "(ikcp_segment_new (take size buf)) \<lparr>seg_frg := (if stream kcp = 0 then word_of_nat n else 0)\<rparr>"
  let ?k = "kcp\<lparr>snd_queue := snd_queue kcp @ [?seg], nsnd_que := nsnd_que kcp + 1\<rparr>"
  have sz: "size \<le> length buf" "size \<le> nat (sint (mss kcp))" by (auto simp: size_def)
  have "length (drop size buf) \<le> n * nat (sint (mss kcp))"
    using "2.prems"(1,4) by (auto simp: size_def)
  with "2.IH" [OF size_def refl] "2.prems" obtain segs where s: "snd_queue (send_fragments n (drop size buf) ?k)
      = (snd_queue kcp @ [?seg]) @ segs" "length segs = n" "map seg_frg segs = map word_of_nat (rev [0..<n])"
      "concat (map seg_data segs) = drop size buf"
      "\<forall>s\<in>set segs. queued_ok s \<and> length (seg_data s) \<le> nat (sint (mss kcp))"
    by auto
  have "sint (mss kcp) < 2 ^ 31" using sint_less [of "mss kcp"] by simp
  then have "size < 2 ^ 32" using sz(2) by auto
  then have ul: "unat (word_of_nat size :: u32) = size" by (rule unat_word_of_nat_u32)
  have un: "(word_of_nat n :: u32) < 256"
    using "2.prems"(3) by (simp add: word_less_nat_alt unsigned_of_nat take_bit_nat_eq_self)
  have q: "queued_ok ?seg" "length (seg_data ?seg) \<le> nat (sint (mss kcp))" "seg_data ?seg = take size buf"
    "seg_frg ?seg = word_of_nat n"
    using sz ul un "2.prems"(2) by (simp_all add: queued_ok_def ikcp_segment_new_def)
  have "send_fragments (Suc n) buf kcp = send_fragments n (drop size buf) ?k"
    by (simp add: size_def Let_def)
  with s q show ?case by (intro exI [of _ "?seg # segs"]) auto
qed

lemma send_fragments_part:
  "snd_nxt (send_fragments n buf kcp) = snd_nxt kcp" "snd_buf (send_fragments n buf kcp) = snd_buf kcp"
  "outputs (send_fragments n buf kcp) = outputs kcp" "stream (send_fragments n buf kcp) = stream kcp"
  "mss (send_fragments n buf kcp) = mss kcp"
  by (induction n buf kcp rule: send_fragments.induct) (simp_all add: Let_def)

text \<open>The number of fragments is the length divided by \<open>mss\<close>, rounded up.\<close>

lemma fragment_count:
  assumes "0 < sint m" and "len < 2 ^ 31" and "sint m < int len"
  shows "sint ((word_of_nat len + m - 1) div m :: u32) = int ((len + unat m - 1) div unat m)"
proof -
  have "\<not> m < 0" "m \<noteq> 0" using assms(1) by auto
  have um: "int (unat m) = sint m"
  proof -
    have "(word_of_nat (nat (sint m)) :: u32) = m" using assms(1) by simp
    moreover have "nat (sint m) < 2 ^ 32" using sint_less [of m] by simp
    ultimately have "unat m = nat (sint m)" using unat_word_of_nat_u32 by metis
    then show ?thesis using assms(1) by simp
  qed
  have u31: "unat m < 2 ^ 31"
  proof -
    have "unat m = nat (sint m)" using um by (metis nat_int)
    moreover have "nat (sint m) < 2 ^ 31" using sint_less [of m] by simp
    ultimately show ?thesis by metis
  qed
  have u0: "0 < unat m" using um assms(1) by linarith
  have ul: "unat (word_of_nat len :: u32) = len" using assms(2) by (intro unat_word_of_nat_u32) auto
  have e: "word_of_nat len + m - 1 = (word_of_nat (len + unat m - 1) :: u32)"
    using u0 by (simp add: of_nat_diff)
  have b: "len + unat m - 1 < 2 ^ 32" using assms(2) u31 by auto
  have d: "unat ((word_of_nat len + m - 1) div m) = (len + unat m - 1) div unat m"
    unfolding e unat_div using unat_word_of_nat_u32 [OF b] by simp
  have "(len + unat m - 1) div unat m < 2 ^ 31"
  proof -
    have "(len + unat m - 1) div unat m \<le> len"
    proof -
      have "len + unat m - 1 < unat m * (len + 1)"
      proof -
        have "len \<le> len * unat m" using u0 by simp
        moreover have "unat m * (len + 1) = len * unat m + unat m" by (simp add: algebra_simps)
        ultimately show ?thesis using u0 by linarith
      qed
      then have "(len + unat m - 1) div unat m < len + 1" by (simp add: less_mult_imp_div_less mult.commute)
      then show ?thesis by simp
    qed
    with assms(2) show ?thesis by linarith
  qed
  moreover have "(word_of_nat len + m - 1) div m = word_of_nat (unat ((word_of_nat len + m - 1) div m))" by simp
  ultimately show ?thesis using d sint_word_of_nat_u32 [of "(len + unat m - 1) div unat m"] by metis
qed

lemma send_message:
  assumes inv: "send_inv hist kcp" and len: "length buf < 2 ^ 31" and s: "ikcp_send buf kcp = Some (r, kcp')"
  shows "(r = -2 \<and> kcp' = kcp) \<or>
    (r = 0 \<and> (\<exists>segs. snd_queue kcp' = snd_queue kcp @ segs \<and> group_ok (map frag_of segs)
       \<and> message (map frag_of segs) = buf \<and> (\<forall>s\<in>set segs. length (seg_data s) \<le> nat (sint (mss kcp))))
     \<and> send_inv hist kcp')"
proof -
  have st: "stream kcp = 0" and m0: "0 < sint (mss kcp)" using inv by (simp_all add: send_inv_def)
  have nz: "mss kcp \<noteq> 0" using m0 by auto
  let ?m = "nat (sint (mss kcp))"
  let ?count = "if int (length buf) \<le> sint (mss kcp) then 1
      else sint ((word_of_nat (length buf) + mss kcp - 1) div mss kcp)"
  have ext: "send_extend buf kcp = (buf, kcp)" using st by (simp add: send_extend_def)
  have cpos: "0 < ?count \<and> length buf \<le> nat ?count * ?m"
  proof (cases "int (length buf) \<le> sint (mss kcp)")
    case True
    then show ?thesis by simp
  next
    case False
    have um: "unat (mss kcp) = ?m"
    proof -
      have "(word_of_nat ?m :: u32) = mss kcp" using m0 by simp
      moreover have "?m < 2 ^ 32" using sint_less [of "mss kcp"] by simp
      ultimately show ?thesis using unat_word_of_nat_u32 by metis
    qed
    have mpos: "0 < ?m" using m0 by simp
    have c: "?count = int ((length buf + ?m - 1) div ?m)"
      using fragment_count [OF m0 len] False by (simp add: um)
    have "length buf \<le> ((length buf + ?m - 1) div ?m) * ?m"
    proof -
      have "length buf + ?m - 1 = (length buf + ?m - 1) div ?m * ?m + (length buf + ?m - 1) mod ?m" by simp
      moreover have "(length buf + ?m - 1) mod ?m < ?m" using mpos by simp
      ultimately show ?thesis by linarith
    qed
    moreover have "0 < (length buf + ?m - 1) div ?m"
      using False mpos by (simp add: div_greater_zero_iff)
    ultimately show ?thesis unfolding c by simp
  qed
  show ?thesis
  proof (cases "?count \<ge> uint IKCP_WND_RCV")
    case True
    with s nz st ext have "r = -2 \<and> kcp' = kcp" by (simp add: ikcp_send_def)
    then show ?thesis by blast
  next
    case False
    then have r: "r = 0" and k: "kcp' = send_fragments (nat ?count) buf kcp"
      using s nz st ext cpos by (simp_all add: ikcp_send_def split: if_split_asm)
    have c128: "nat ?count \<le> 128" using False by (simp add: IKCP_WND_RCV_def)
    from send_fragments_queue [OF m0 st c128] cpos obtain segs where
      q: "snd_queue kcp' = snd_queue kcp @ segs" "length segs = nat ?count"
        "map seg_frg segs = map word_of_nat (rev [0..<nat ?count])" "concat (map seg_data segs) = buf"
        "\<forall>s\<in>set segs. queued_ok s \<and> length (seg_data s) \<le> ?m"
      unfolding k by blast
    have "segs \<noteq> []" using q(2) cpos by auto
    then have "group_ok (map frag_of segs)"
      using q(2,3) c128 by (simp add: group_ok_def frag_of_def o_def)
    moreover have "message (map frag_of segs) = buf" using q(4) by (simp add: message_def frag_of_def o_def)
    moreover have "send_inv hist kcp'"
      using inv q(1,5) by (auto simp: send_inv_def k send_fragments_part)
    ultimately show ?thesis using r q by blast
  qed
qed

end
