(* ===== verification/Kcp_Network.thy ===== *)
theory Kcp_Network
  imports Kcp_Send "HOL-Library.Sublist"
begin

text \<open>
  Two KCP endpoints over an unreliable datagram network, as a step relation. The network may drop,
  duplicate, delay and reorder the datagrams that the endpoints output, and nothing else. In every
  reachable state the messages an application has received are a prefix of those its peer has sent.
\<close>

section \<open>The step relation\<close>

record endpoint =
  ep_kcp :: IKCPCB
  ep_sent :: "byte list list"
  ep_recvd :: "byte list list"

text \<open>\<open>net\<close> are the datagrams the network may deliver.\<close>

inductive ep_step :: "byte list set \<Rightarrow> endpoint \<Rightarrow> endpoint \<Rightarrow> bool" for net where
  ep_send: "ikcp_send msg (ep_kcp e) = Some (0, k) \<Longrightarrow> length msg < 2 ^ 31 \<Longrightarrow>
    ep_step net e (e\<lparr>ep_kcp := k, ep_sent := ep_sent e @ [msg]\<rparr>)"
| ep_send_fails: "ikcp_send msg (ep_kcp e) = Some (r, k) \<Longrightarrow> length msg < 2 ^ 31 \<Longrightarrow> r \<noteq> 0 \<Longrightarrow>
    ep_step net e (e\<lparr>ep_kcp := k\<rparr>)"
| ep_recv: "ikcp_recv len (ep_kcp e) = Some (n, msg, k) \<Longrightarrow> 0 \<le> len \<Longrightarrow> 0 \<le> n \<Longrightarrow>
    ep_step net e (e\<lparr>ep_kcp := k, ep_recvd := ep_recvd e @ [msg]\<rparr>)"
| ep_recv_none: "ikcp_recv len (ep_kcp e) = Some (n, msg, k) \<Longrightarrow> len < 0 \<or> n < 0 \<Longrightarrow>
    ep_step net e (e\<lparr>ep_kcp := k\<rparr>)"
| ep_input: "d \<in> net \<Longrightarrow> ikcp_input d (ep_kcp e) = Some (r, k) \<Longrightarrow> ep_step net e (e\<lparr>ep_kcp := k\<rparr>)"
| ep_update: "ikcp_update now (ep_kcp e) = Some k \<Longrightarrow> ep_step net e (e\<lparr>ep_kcp := k\<rparr>)"
| ep_flush: "ikcp_flush (ep_kcp e) = Some k \<Longrightarrow> ep_step net e (e\<lparr>ep_kcp := k\<rparr>)"
| ep_nodelay: "ep_step net e (e\<lparr>ep_kcp := ikcp_nodelay nd i resend nc (ep_kcp e)\<rparr>)"
| ep_interval: "ep_step net e (e\<lparr>ep_kcp := ikcp_interval i (ep_kcp e)\<rparr>)"
| ep_wndsize: "ep_step net e (e\<lparr>ep_kcp := ikcp_wndsize s r (ep_kcp e)\<rparr>)"
| ep_setmtu: "m < 2 ^ 31 \<Longrightarrow> ep_step net e (e\<lparr>ep_kcp := snd (ikcp_setmtu m (ep_kcp e))\<rparr>)"

inductive_cases ep_stepE: "ep_step net e e'"

inductive net_step :: "endpoint \<times> endpoint \<Rightarrow> endpoint \<times> endpoint \<Rightarrow> bool" where
  left: "ep_step (set (outputs (ep_kcp b))) a a' \<Longrightarrow> net_step (a, b) (a', b)"
| right: "ep_step (set (outputs (ep_kcp a))) b b' \<Longrightarrow> net_step (a, b) (a, b')"

definition new_endpoint :: "u32 \<Rightarrow> endpoint" where
  "new_endpoint c = \<lparr>ep_kcp = ikcp_create c, ep_sent = [], ep_recvd = []\<rparr>"

section \<open>The invariant of one direction\<close>

text \<open>\<open>groups\<close> are the fragments of the messages sent by \<open>a\<close>, \<open>hist\<close> the part that has got sequence numbers.\<close>

definition link :: "fragment list list \<Rightarrow> fragment list \<Rightarrow> endpoint \<Rightarrow> endpoint \<Rightarrow> bool" where
  "link groups hist a b \<longleftrightarrow>
     map message groups = ep_sent a \<and> concat groups = hist @ map frag_of (snd_queue (ep_kcp a))
     \<and> (\<forall>g\<in>set groups. group_ok g) \<and> send_inv hist (ep_kcp a)
     \<and> (\<exists>j\<le>length groups. ep_recvd b = map message (take j groups)
          \<and> recv_inv hist (concat (take j groups)) (ep_kcp b))"

lemma link_msgs: "link groups hist a b \<Longrightarrow> j \<le> length groups \<Longrightarrow>
    recv_inv hist (concat (take j groups)) k \<Longrightarrow> msgs_inv groups hist j k"
  by (auto simp: link_def msgs_inv_def)

lemma link_prefix: "link groups hist a b \<Longrightarrow> prefix (ep_recvd b) (ep_sent a)"
  by (auto simp: link_def map_mono_prefix take_is_prefix dest!: sym [of "map message groups"])

lemma link_length:
  assumes "link groups hist a b"
  shows "length hist + length (snd_queue (ep_kcp a)) \<le> 128 * length (ep_sent a)"
proof -
  have "length (concat groups) \<le> 128 * length groups" if "\<forall>g\<in>set groups. group_ok g"
    using that by (induction groups) (auto simp: group_ok_def)
  moreover have "length (concat groups) = length hist + length (snd_queue (ep_kcp a))"
    using assms by (simp add: link_def)
  moreover have "length (ep_sent a) = length groups"
    using assms by (auto simp: link_def dest!: sym [of "map message groups"])
  ultimately show ?thesis using assms by (simp add: link_def)
qed

lemma recv_inv_mono:
  assumes "recv_inv hist c k" and "length (hist @ ext) < 2 ^ 32"
  shows "recv_inv (hist @ ext) c k"
proof -
  from assms(1) obtain n where n: "n \<le> length hist" "rcv_nxt k = word_of_nat n"
    "c @ map frag_of (rcv_queue k) = take n hist" by (auto simp: recv_inv_def)
  then have "n \<le> length (hist @ ext)" "c @ map frag_of (rcv_queue k) = take n (hist @ ext)" by simp_all
  with n(2) assms show ?thesis unfolding recv_inv_def using genuine_mono by blast
qed

text \<open>More fragments get sequence numbers.\<close>

lemma link_assign:
  assumes l: "link groups hist a b" and q: "snd_queue k = drop m (snd_queue (ep_kcp a))"
    and i: "send_inv (hist @ map frag_of (take m (snd_queue (ep_kcp a)))) k"
    and n: "length hist + length (snd_queue (ep_kcp a)) < 2 ^ 32"
  shows "link groups (hist @ map frag_of (take m (snd_queue (ep_kcp a)))) (a\<lparr>ep_kcp := k\<rparr>) b"
proof -
  let ?x = "map frag_of (take m (snd_queue (ep_kcp a)))"
  have len: "length (hist @ ?x) < 2 ^ 32" using n by simp
  from l obtain j where "j \<le> length groups" "ep_recvd b = map message (take j groups)"
    "recv_inv hist (concat (take j groups)) (ep_kcp b)" by (auto simp: link_def)
  with recv_inv_mono [OF _ len] have "\<exists>j\<le>length groups. ep_recvd b = map message (take j groups)
      \<and> recv_inv (hist @ ?x) (concat (take j groups)) (ep_kcp b)" by blast
  with l q i show ?thesis
    by (auto simp: link_def simp flip: map_append)
qed

text \<open>A step that neither queues nor assigns fragments.\<close>

lemma link_keep_send:
  "link groups hist a b \<Longrightarrow> send_inv hist k \<Longrightarrow> snd_queue k = snd_queue (ep_kcp a) \<Longrightarrow>
   link groups hist (a\<lparr>ep_kcp := k\<rparr>) b"
  "link groups hist a b \<Longrightarrow> send_inv hist k \<Longrightarrow> snd_queue k = snd_queue (ep_kcp a) \<Longrightarrow>
   link groups hist (a\<lparr>ep_kcp := k, ep_recvd := r\<rparr>) b"
  by (simp_all add: link_def)

lemma link_keep_recv:
  assumes "link groups hist a b" and "\<And>c. recv_inv hist c (ep_kcp b) \<Longrightarrow> recv_inv hist c k"
  shows "link groups hist a (b\<lparr>ep_kcp := k\<rparr>)" and "link groups hist a (b\<lparr>ep_kcp := k, ep_sent := s\<rparr>)"
  using assms by (auto simp: link_def)

lemma send_part_config:
  "send_part (ikcp_nodelay nd i resend nc k) = send_part k" "send_part (ikcp_interval i k) = send_part k"
  "send_part (ikcp_wndsize s r k) = send_part k"
  by (simp_all add: ikcp_nodelay_def ikcp_interval_def ikcp_wndsize_def send_part_def Let_def)

lemma recv_part_config:
  "recv_part (ikcp_nodelay nd i resend nc k) = recv_part k" "recv_part (ikcp_interval i k) = recv_part k"
  "recv_part (ikcp_wndsize s r k) = recv_part k" "recv_part (snd (ikcp_setmtu m k)) = recv_part k"
  by (simp_all add: ikcp_nodelay_def ikcp_interval_def ikcp_wndsize_def ikcp_setmtu_def recv_part_def Let_def)

lemma setmtu_send_inv:
  assumes "send_inv hist k" and "m < 2 ^ 31"
  shows "send_inv hist (snd (ikcp_setmtu m k))"
proof (cases "m < 50")
  case True
  with assms show ?thesis by (simp add: ikcp_setmtu_def)
next
  case False
  have "(word_of_int m - 24 :: u32) = word_of_int (m - 24)" by simp
  then have "sint (word_of_int m - 24 :: u32) = m - 24"
    using sint_word_of_int_u32 [of "m - 24"] False assms(2) by simp
  with False assms(1) show ?thesis
    by (simp add: ikcp_setmtu_def send_inv_def IKCP_OVERHEAD_def)
qed

text \<open>Input does not touch the send queue.\<close>

lemma snd_queue_una_loop: "snd_queue (ikcp_parse_una_loop una segs k) = snd_queue k"
  by (induction una segs k rule: ikcp_parse_una_loop.induct) simp_all

lemma snd_queue_small:
  "snd_queue (ikcp_shrink_buf k) = snd_queue k" "snd_queue (ikcp_parse_una una k) = snd_queue k"
  "snd_queue (ikcp_parse_ack sn k) = snd_queue k" "snd_queue (ikcp_parse_fastack sn ts k) = snd_queue k"
  "snd_queue (input_push seg k) = snd_queue k"
  using send_part_input_push [of seg k]
  by (simp_all add: ikcp_shrink_buf_def ikcp_parse_una_def snd_queue_una_loop ikcp_parse_ack_def
      ikcp_parse_fastack_def send_part_def split: list.split option.split)

lemma input_ack_queue: "input_ack sn ts k acked = Some (k', acked') \<Longrightarrow> snd_queue k' = snd_queue k"
  by (auto simp: input_ack_def bind_eq_Some_conv Let_def snd_queue_small send_part_def
      dest!: send_part_update_ack split: if_splits)

lemma input_loop_queue: "input_loop data k acked = Some (r, k', acked') \<Longrightarrow> snd_queue k' = snd_queue k"
proof (induction "length data" arbitrary: data k acked rule: less_induct)
  case less
  obtain seg rest where dh: "decode_head data = (seg, rest)" by fastforce
  show ?case
  proof (cases "24 \<le> length data")
    case False
    with less.prems show ?thesis by (simp add: input_loop.simps [of data])
  next
    case True
    let ?rest1 = "drop (unat (seg_len seg)) rest"
    have "length rest < length data"
      using dh True by (auto simp: decode_head_def ikcp_decode32u_def ikcp_decode16u_def ikcp_decode8u_def Let_def)
    then have shorter: "length ?rest1 < length data" by simp
    note IH = less.hyps [OF shorter]
    from less.prems True dh show ?thesis
      by (cases rule: input_loop_cases)
        (auto simp: snd_queue_small dest!: IH input_ack_queue)
  qed
qed

lemma input_queue:
  assumes "ikcp_input d k = Some (r, k')"
  shows "snd_queue k' = snd_queue k"
proof (cases "length d < 24")
  case True
  with assms show ?thesis by (simp add: ikcp_input_def)
next
  case False
  with assms obtain ret k1 acked where l: "input_loop d k None = Some (ret, k1, acked)"
    and c: "ret \<noteq> 0 \<and> k' = k1 \<or> (\<exists>k2. (k2 = k1 \<or> (\<exists>m t. k2 = ikcp_parse_fastack m t k1))
      \<and> grow_cwnd (snd_una k) k2 = Some k')"
    by (auto simp: ikcp_input_def bind_eq_Some_conv Let_def split: if_splits option.splits) blast+
  from c input_loop_queue [OF l] show ?thesis
    by (auto simp: snd_queue_small send_part_def dest!: send_part_grow_cwnd)
qed

section \<open>Every step keeps the invariant\<close>

lemma link_step_sender:
  assumes l: "link groups hist a b" and s: "ep_step net a a'" and n: "128 * length (ep_sent a') < 2 ^ 32"
  shows "\<exists>groups' hist'. link groups' hist' a' b"
proof -
  have inv: "send_inv hist (ep_kcp a)" using l by (simp add: link_def)
  have keep: "\<exists>groups' hist'. link groups' hist' (a\<lparr>ep_kcp := k\<rparr>) b" if "send_part k = send_part (ep_kcp a)" for k
    using link_keep_send(1) [OF l, of k] send_inv_cong [OF that] inv that by (auto simp: send_part_def)
  have len: "length hist + length (snd_queue (ep_kcp a)) < 2 ^ 32" if "length (ep_sent a) \<le> length (ep_sent a')"
    using link_length [OF l] n that by linarith
  from s show ?thesis
  proof cases
    case (ep_send msg k)
    from send_message [OF inv ep_send(3,2)] obtain segs where
      sg: "snd_queue k = snd_queue (ep_kcp a) @ segs" "group_ok (map frag_of segs)"
        "message (map frag_of segs) = msg" "send_inv hist k" by auto
    from l obtain j where j: "j \<le> length groups" "ep_recvd b = map message (take j groups)"
      "recv_inv hist (concat (take j groups)) (ep_kcp b)" by (auto simp: link_def)
    have "take j (groups @ [map frag_of segs]) = take j groups" using j(1) by simp
    with j have "\<exists>j\<le>length (groups @ [map frag_of segs]). ep_recvd b = map message (take j (groups @ [map frag_of segs]))
        \<and> recv_inv hist (concat (take j (groups @ [map frag_of segs]))) (ep_kcp b)"
      by (intro exI [of _ j]) simp
    with l sg ep_send(1) have "link (groups @ [map frag_of segs]) hist a' b" by (simp add: link_def)
    then show ?thesis by blast
  next
    case (ep_send_fails msg r k)
    from send_message [OF inv ep_send_fails(3,2)] ep_send_fails(4) have "k = ep_kcp a" by auto
    with l ep_send_fails(1) show ?thesis by auto
  next
    case (ep_recv len n msg k)
    note sp = send_part_recv [OF ep_recv(2)]
    have "send_inv hist k" using send_inv_cong [OF sp] inv by blast
    moreover have "snd_queue k = snd_queue (ep_kcp a)" using sp by (simp add: send_part_def)
    ultimately have "send_inv hist k" "snd_queue k = snd_queue (ep_kcp a)" by blast+
    from link_keep_send(2) [OF l this] ep_recv(1) show ?thesis by blast
  next
    case (ep_recv_none len n msg k)
    from keep [OF send_part_recv [OF ep_recv_none(2)]] ep_recv_none(1) show ?thesis by simp
  next
    case (ep_input d r k)
    from link_keep_send(1) [OF l input_send_inv [OF inv ep_input(3)] input_queue [OF ep_input(3)]] ep_input(1)
    show ?thesis by blast
  next
    case (ep_update now k)
    from update_send_inv [OF ep_update(2) inv len] ep_update(1) link_assign [OF l _ _ len] show ?thesis by fastforce
  next
    case (ep_flush k)
    from flush_send_inv [OF ep_flush(2) inv len] ep_flush(1) link_assign [OF l _ _ len] show ?thesis by fastforce
  next
    case (ep_nodelay nd i resend nc)
    with keep [OF send_part_config(1)] show ?thesis by simp
  next
    case (ep_interval i)
    with keep [OF send_part_config(2)] show ?thesis by simp
  next
    case (ep_wndsize s r)
    with keep [OF send_part_config(3)] show ?thesis by simp
  next
    case (ep_setmtu m)
    have "snd_queue (snd (ikcp_setmtu m (ep_kcp a))) = snd_queue (ep_kcp a)" by (simp add: ikcp_setmtu_def)
    from link_keep_send(1) [OF l setmtu_send_inv [OF inv ep_setmtu(2)] this] ep_setmtu(1) show ?thesis by blast
  qed
qed

lemma link_step_receiver:
  assumes l: "link groups hist a b" and s: "ep_step (set (outputs (ep_kcp a))) b b'"
  shows "link groups hist a b'"
proof -
  have keep: "link groups hist a (b\<lparr>ep_kcp := k\<rparr>)" "link groups hist a (b\<lparr>ep_kcp := k, ep_sent := x\<rparr>)"
    if "recv_part k = recv_part (ep_kcp b)" for k x
    using link_keep_recv [OF l, of k] recv_inv_cong [OF that] by blast+
  from l obtain j where j: "j \<le> length groups" "ep_recvd b = map message (take j groups)"
    "recv_inv hist (concat (take j groups)) (ep_kcp b)" by (auto simp: link_def)
  note m = link_msgs [OF l j(1,3)]
  from s show ?thesis
  proof cases
    case (ep_send msg k)
    with keep(2) [OF recv_part_send [OF ep_send(2)]] show ?thesis by simp
  next
    case (ep_send_fails msg r k)
    with keep(1) [OF recv_part_send [OF ep_send_fails(2)]] show ?thesis by simp
  next
    case (ep_recv len n msg k)
    from recv_message [OF m ep_recv(2)] ep_recv(3,4) have
      "j < length groups" "msg = message (groups ! j)" "recv_inv hist (concat (take (j + 1) groups)) k"
      by (auto simp: msgs_inv_def)
    with l j(2) ep_recv(1) show ?thesis
      by (auto simp: link_def take_Suc_conv_app_nth intro!: exI [of _ "j + 1"])
  next
    case (ep_recv_none len n msg k)
    from recv_message [OF m ep_recv_none(2)] ep_recv_none(3) have "recv_inv hist (concat (take j groups)) k"
      using j(3) by (auto simp: msgs_inv_def)
    with l j ep_recv_none(1) show ?thesis by (auto simp: link_def)
  next
    case (ep_input d r k)
    have "datagram_ok hist d" using l ep_input(2) by (auto simp: link_def send_inv_def)
    with link_keep_recv(1) [OF l input_inv [OF _ _ ep_input(3)]] ep_input(1) show ?thesis by simp
  next
    case (ep_update now k)
    with keep(1) [OF recv_part_update [OF ep_update(2)]] show ?thesis by simp
  next
    case (ep_flush k)
    with keep(1) [OF recv_part_flush [OF ep_flush(2)]] show ?thesis by simp
  next
    case (ep_nodelay nd i resend nc)
    with keep(1) [OF recv_part_config(1)] show ?thesis by simp
  next
    case (ep_interval i)
    with keep(1) [OF recv_part_config(2)] show ?thesis by simp
  next
    case (ep_wndsize s r)
    with keep(1) [OF recv_part_config(3)] show ?thesis by simp
  next
    case (ep_setmtu m)
    with keep(1) [OF recv_part_config(4)] show ?thesis by simp
  qed
qed

lemma ep_sent_mono: "ep_step net e e' \<Longrightarrow> length (ep_sent e) \<le> length (ep_sent e')"
  by (induction rule: ep_step.induct) simp_all

lemma net_step_link:
  assumes "net_step (a, b) (a', b')" and "link groups hist a b" and "128 * length (ep_sent a') < 2 ^ 32"
  shows "\<exists>groups' hist'. link groups' hist' a' b'"
  using assms link_step_sender link_step_receiver by (cases rule: net_step.cases) blast+

lemma net_step_swap: "net_step (a, b) (a', b') \<Longrightarrow> net_step (b, a) (b', a')"
  by (auto elim!: net_step.cases intro: net_step.intros)

lemma net_step_sent: "net_step (a, b) (a', b') \<Longrightarrow> length (ep_sent a) \<le> length (ep_sent a')"
  by (auto elim!: net_step.cases dest: ep_sent_mono)

lemma new_link: "link [] [] (new_endpoint c) (new_endpoint c')"
  by (simp add: link_def new_endpoint_def send_inv_def recv_inv_def ordered_from_def ikcp_create_def
      ikcp_consts)

lemma reachable_link:
  assumes "net_step\<^sup>*\<^sup>* (new_endpoint c, new_endpoint c') (a, b)" and "128 * length (ep_sent a) < 2 ^ 32"
  shows "\<exists>groups hist. link groups hist a b"
  using assms
proof (induction rule: rtranclp_induct2)
  case refl
  then show ?case using new_link by blast
next
  case (step a b a' b')
  then have "128 * length (ep_sent a) < 2 ^ 32" using net_step_sent by fastforce
  with step net_step_link show ?case by blast
qed

section \<open>Property\<close>

text \<open>C2. Reliable in-order delivery: in every state that two endpoints can reach over a network that drops,
  duplicates and reorders datagrams, each application has received a prefix of the messages that the
  other one has sent. The number of messages is bounded because sequence numbers have 32 bits.\<close>

theorem kcp_reliable_in_order:
  assumes "net_step\<^sup>*\<^sup>* (new_endpoint c, new_endpoint c') (a, b)"
    and "128 * length (ep_sent a) < 2 ^ 32" and "128 * length (ep_sent b) < 2 ^ 32"
  shows "prefix (ep_recvd b) (ep_sent a) \<and> prefix (ep_recvd a) (ep_sent b)"
proof -
  have "net_step\<^sup>*\<^sup>* (x, y) (x', y') \<Longrightarrow> net_step\<^sup>*\<^sup>* (y, x) (y', x')" for x y x' y'
    by (induction rule: rtranclp_induct2) (auto dest: net_step_swap intro: rtranclp.rtrancl_into_rtrancl)
  from reachable_link [OF this [OF assms(1)] assms(3)] reachable_link [OF assms(1,2)]
  show ?thesis using link_prefix by blast
qed

definition demo_run :: "(int \<times> byte list \<times> bool) option" where
  "demo_run =
     do { (r, a1) \<leftarrow> ikcp_send [1, 2, 3] (ikcp_create 7);
          a2 \<leftarrow> ikcp_update 0 a1;
          a3 \<leftarrow> ikcp_update 100 a2;
          (r1, b1) \<leftarrow> ikcp_input (hd (outputs a3)) (ikcp_create 7);
          (n, msg, b2) \<leftarrow> ikcp_recv 100 b1;
          Some (n, msg, r = 0 \<and> outputs a3 \<noteq> []) }"

lemma demo_run_value: "demo_run = Some (3, [1, 2, 3], True)"
  by code_simp

theorem kcp_reliable_in_order_witness:
  "\<exists>(a :: endpoint) (b :: endpoint). ep_sent a = [[1, 2, 3]] \<and> ep_recvd b = [[1, 2, 3]] \<and> prefix (ep_recvd b) (ep_sent a)
     \<and> prefix (ep_recvd a) (ep_sent b)"
proof -
  from demo_run_value obtain a1 a2 a3 r1 b1 b2 where
    s: "ikcp_send [1, 2, 3] (ikcp_create 7) = Some (0, a1)" "ikcp_update 0 a1 = Some a2"
      "ikcp_update 100 a2 = Some a3" "ikcp_input (hd (outputs a3)) (ikcp_create 7) = Some (r1, b1)"
      "ikcp_recv 100 b1 = Some (3, [1, 2, 3], b2)" "outputs a3 \<noteq> []"
    by (auto simp: demo_run_def bind_eq_Some_conv)
  let ?A = "\<lambda>k. \<lparr>ep_kcp = k, ep_sent = [[1, 2, 3]], ep_recvd = []\<rparr>"
  let ?B = "\<lambda>k ms. \<lparr>ep_kcp = k, ep_sent = [], ep_recvd = ms\<rparr>"
  let ?e = "new_endpoint 7"
  have e: "?e = ?B (ikcp_create 7) []" by (simp add: new_endpoint_def)
  have "net_step (?e, ?e) (?A a1, ?e)"
    using ep_send [of "[1, 2, 3]" ?e a1] s(1) by (intro left) (simp add: e)
  moreover have "net_step (?A a1, ?e) (?A a2, ?e)"
    using ep_update [of 0 "?A a1" a2] s(2) by (intro left) simp
  moreover have "net_step (?A a2, ?e) (?A a3, ?e)"
    using ep_update [of 100 "?A a2" a3] s(3) by (intro left) simp
  moreover have "net_step (?A a3, ?e) (?A a3, ?B b1 [])"
    using ep_input [of "hd (outputs a3)" "set (outputs a3)" ?e r1 b1] s(4,6) by (intro right) (simp add: e)
  moreover have "net_step (?A a3, ?B b1 []) (?A a3, ?B b2 [[1, 2, 3]])"
    using ep_recv [of 100 "?B b1 []" 3 "[1, 2, 3]" b2 "set (outputs a3)"] s(5) by (intro right) simp
  ultimately have "net_step\<^sup>*\<^sup>* (?e, ?e) (?A a3, ?B b2 [[1, 2, 3]])"
    by (meson converse_rtranclp_into_rtranclp rtranclp.rtrancl_refl)
  then have p: "prefix (ep_recvd (?B b2 [[1, 2, 3]])) (ep_sent (?A a3))
      \<and> prefix (ep_recvd (?A a3)) (ep_sent (?B b2 [[1, 2, 3]]))"
    by (rule kcp_reliable_in_order) simp_all
  show ?thesis
    by (rule exI [of _ "?A a3"], rule exI [of _ "?B b2 [[1, 2, 3]]"], intro conjI)
      (simp, simp, rule conjunct1 [OF p], rule conjunct2 [OF p])
qed

end
