(* ===== verification/Kcp_Safety.thy ===== *)
theory Kcp_Safety
  imports Kcp_Receive
begin

text \<open>
  Memory safety and timing of a KCP endpoint: flushing stays inside the output buffer and sends no datagram
  longer than the MTU as long as the queued segments fit it, two ways in which this fails, and the bounds of
  \<open>ikcp_check\<close>.
\<close>

section \<open>Flushing stays inside the buffer\<close>

definition fits :: "nat \<Rightarrow> IKCPSEG \<Rightarrow> bool" where
  "fits m s \<longleftrightarrow> unat (seg_len s) + 24 \<le> m"

text \<open>The segments fit the MTU, and the buffer was allocated for at least one datagram.\<close>

definition sized :: "IKCPCB \<Rightarrow> bool" where
  "sized kcp \<longleftrightarrow> 24 \<le> sint (mtu kcp) \<and> nat (sint (mtu kcp)) \<le> buffer_size kcp
     \<and> (\<forall>s\<in>set (snd_queue kcp) \<union> set (snd_buf kcp). fits (nat (sint (mtu kcp))) s)"

definition filling :: "nat \<Rightarrow> byte list list \<Rightarrow> byte list \<Rightarrow> IKCPCB \<Rightarrow> bool" where
  "filling m base buf kcp \<longleftrightarrow> sint (mtu kcp) = int m \<and> m \<le> buffer_size kcp \<and> length buf \<le> m
     \<and> (\<exists>ds. outputs kcp = base @ ds \<and> (\<forall>d\<in>set ds. length d \<le> m))"

text \<open>The fields that flushing keeps.\<close>

definition send_cfg :: "IKCPCB \<Rightarrow> u32 \<times> nat \<times> IKCPSEG list \<times> IKCPSEG list" where
  "send_cfg kcp = (mtu kcp, buffer_size kcp, snd_queue kcp, snd_buf kcp)"

lemma filling_output:
  "filling m base buf kcp \<Longrightarrow> filling m base [] (ikcp_output buf kcp)"
  by (auto simp: filling_def ikcp_output_def)

lemma make_room_filling:
  assumes "filling m base buf kcp" and "make_room (int need) buf kcp = (buf', kcp')" and "need \<le> m"
  shows "filling m base buf' kcp' \<and> length buf' + need \<le> m \<and> send_cfg kcp' = send_cfg kcp"
proof (cases "int (length buf) + int need > sint (mtu kcp)")
  case True
  with assms filling_output [OF assms(1)] show ?thesis
    by (auto simp: make_room_def send_cfg_def ikcp_output_def)
next
  case False
  with assms show ?thesis by (auto simp: make_room_def filling_def)
qed

lemma write_buf_filling:
  assumes "filling m base buf kcp" and "length buf + length dat \<le> m"
  shows "write_buf dat buf kcp = Some (buf @ dat) \<and> filling m base (buf @ dat) kcp"
  using assms by (auto simp: write_buf_def filling_def)

lemma flush_head_filling:
  assumes "filling m base buf kcp" and "24 \<le> m"
  shows "\<exists>buf' kcp'. flush_head s buf kcp = Some (buf', kcp') \<and> filling m base buf' kcp' \<and> send_cfg kcp' = send_cfg kcp"
proof -
  obtain buf1 kcp1 where r: "make_room (int 24) buf kcp = (buf1, kcp1)" by fastforce
  from make_room_filling [OF assms(1) r assms(2)] have f: "filling m base buf1 kcp1" "length buf1 + 24 \<le> m"
    "send_cfg kcp1 = send_cfg kcp" by auto
  from write_buf_filling [OF f(1), of "ikcp_encode_seg s"] f r show ?thesis
    by (simp add: flush_head_def IKCP_OVERHEAD_def)
qed

lemma flush_acks_filling:
  "filling m base buf kcp \<Longrightarrow> 24 \<le> m \<Longrightarrow>
   \<exists>s' buf' kcp'. flush_acks acks s buf kcp = Some (s', buf', kcp') \<and> filling m base buf' kcp'
     \<and> send_cfg kcp' = send_cfg kcp"
proof (induction acks arbitrary: s buf kcp)
  case (Cons a acks)
  obtain sn ts where a: "a = (sn, ts)" by fastforce
  from flush_head_filling [OF Cons.prems, of "s\<lparr>seg_sn := sn, seg_ts := ts\<rparr>"] obtain buf1 kcp1 where
    h: "flush_head (s\<lparr>seg_sn := sn, seg_ts := ts\<rparr>) buf kcp = Some (buf1, kcp1)" "filling m base buf1 kcp1"
      "send_cfg kcp1 = send_cfg kcp" by blast
  from Cons.IH [OF h(2) Cons.prems(2), of "s\<lparr>seg_sn := sn, seg_ts := ts\<rparr>"] h(1,3) show ?case by (auto simp: a Let_def)
qed auto

lemma filling_update:
  "filling m base buf (kcp\<lparr>probe := p\<rparr>) = filling m base buf kcp"
  "filling m base buf (kcp\<lparr>acklist := a\<rparr>) = filling m base buf kcp"
  "filling m base buf (kcp\<lparr>state := st\<rparr>) = filling m base buf kcp"
  "filling m base buf (count_timeout kind kcp) = filling m base buf kcp"
  "filling m base buf (probe_window kcp) = filling m base buf kcp"
  by (simp_all add: filling_def probe_window_def count_timeout_def Let_def)

lemma send_cfg_update:
  "send_cfg (kcp\<lparr>probe := p\<rparr>) = send_cfg kcp" "send_cfg (kcp\<lparr>acklist := a\<rparr>) = send_cfg kcp"
  "send_cfg (kcp\<lparr>state := st\<rparr>) = send_cfg kcp" "send_cfg (count_timeout kind kcp) = send_cfg kcp"
  "send_cfg (probe_window kcp) = send_cfg kcp"
  by (simp_all add: send_cfg_def probe_window_def count_timeout_def Let_def)

lemma flush_probes_filling:
  assumes "filling m base buf kcp" and "24 \<le> m"
  shows "\<exists>buf' kcp'. flush_probes s buf kcp = Some (buf', kcp') \<and> filling m base buf' kcp' \<and> send_cfg kcp' = send_cfg kcp"
proof -
  have h: "\<exists>buf' kcp'. (if c then flush_head t b k else Some (b, k)) = Some (buf', kcp') \<and> filling m base buf' kcp'
      \<and> send_cfg kcp' = send_cfg k" if "filling m base b k" for c t b k
    using flush_head_filling [OF that assms(2)] that by auto
  from h [OF assms(1), of "probe kcp AND IKCP_ASK_SEND \<noteq> 0" "s\<lparr>seg_cmd := IKCP_CMD_WASK\<rparr>"] obtain buf1 kcp1 where
    1: "(if probe kcp AND IKCP_ASK_SEND \<noteq> 0 then flush_head (s\<lparr>seg_cmd := IKCP_CMD_WASK\<rparr>) buf kcp
         else Some (buf, kcp)) = Some (buf1, kcp1)" "filling m base buf1 kcp1" "send_cfg kcp1 = send_cfg kcp" by blast
  from h [OF 1(2), of "probe kcp1 AND IKCP_ASK_TELL \<noteq> 0" "s\<lparr>seg_cmd := IKCP_CMD_WINS\<rparr>"] obtain buf2 kcp2 where
    2: "(if probe kcp1 AND IKCP_ASK_TELL \<noteq> 0 then flush_head (s\<lparr>seg_cmd := IKCP_CMD_WINS\<rparr>) buf1 kcp1
         else Some (buf1, kcp1)) = Some (buf2, kcp2)" "filling m base buf2 kcp2" "send_cfg kcp2 = send_cfg kcp1" by blast
  from 1 2 show ?thesis by (simp add: flush_probes_def filling_update send_cfg_update)
qed

text \<open>Moving segments keeps their sizes.\<close>

lemma move_to_send_fits:
  assumes "\<forall>s\<in>set segs \<union> set (snd_buf kcp). fits m s"
  shows "(\<forall>s\<in>set (snd_queue (move_to_send segs c w kcp)) \<union> set (snd_buf (move_to_send segs c w kcp)). fits m s)
    \<and> filling m base buf (move_to_send segs c w kcp) = filling m base buf kcp
    \<and> mtu (move_to_send segs c w kcp) = mtu kcp \<and> buffer_size (move_to_send segs c w kcp) = buffer_size kcp"
  using assms
proof (induction segs c w kcp rule: move_to_send.induct)
  case (1 c w kcp)
  then show ?case by (simp add: filling_def)
next
  case (2 s segs c w kcp)
  then show ?case by (auto simp: Let_def fits_def filling_def)
qed

lemma emit_segment_filling:
  assumes "filling m base buf kcp" and "fits m s" and "m < 2 ^ 31"
  shows "\<exists>buf' kcp'. emit_segment s buf kcp = Some (buf', kcp') \<and> filling m base buf' kcp' \<and> send_cfg kcp' = send_cfg kcp"
proof -
  let ?need = "24 + unat (seg_len s)"
  have le: "?need \<le> m" using assms(2) by (simp add: fits_def)
  have "IKCP_OVERHEAD + seg_len s = word_of_nat ?need" by (simp add: IKCP_OVERHEAD_def)
  moreover have "?need < 2 ^ 31" using le assms(3) by linarith
  ultimately have need: "sint (IKCP_OVERHEAD + seg_len s) = int ?need" by (simp only: sint_word_of_nat_u32)
  obtain buf1 kcp1 where r: "make_room (int ?need) buf kcp = (buf1, kcp1)" by fastforce
  from make_room_filling [OF assms(1) r le] have f: "filling m base buf1 kcp1" "length buf1 + ?need \<le> m"
    "send_cfg kcp1 = send_cfg kcp" by auto
  from write_buf_filling [OF f(1), of "ikcp_encode_seg s"] f(2) have
    w1: "write_buf (ikcp_encode_seg s) buf1 kcp1 = Some (buf1 @ ikcp_encode_seg s)"
      "filling m base (buf1 @ ikcp_encode_seg s) kcp1" by simp_all
  from write_buf_filling [OF w1(2), of "take (unat (seg_len s)) (seg_data s)"] f(2) have
    w2: "write_buf (take (unat (seg_len s)) (seg_data s)) (buf1 @ ikcp_encode_seg s) kcp1
        = Some ((buf1 @ ikcp_encode_seg s) @ take (unat (seg_len s)) (seg_data s))"
      "filling m base ((buf1 @ ikcp_encode_seg s) @ take (unat (seg_len s)) (seg_data s)) kcp1" by simp_all
  show ?thesis
    using w1(1) w2 f(3) r unfolding emit_segment_def need
    by (simp add: filling_update send_cfg_update)
qed

lemma fits_update [simp]:
  "fits m (resend_update r kind kcp s) = fits m s"
  "fits m (s\<lparr>seg_ts := t, seg_wnd := w, seg_una := u\<rparr>) = fits m s"
  by (simp_all add: fits_def resend_update_def Let_def split: resend.split)

lemma flush_data_filling:
  assumes "m < 2 ^ 31"
  shows "filling m base buf kcp \<Longrightarrow> \<forall>s\<in>set segs. fits m s \<Longrightarrow>
   \<exists>segs' buf' kcp' lost change. flush_data resent rtomin w segs buf kcp = Some (segs', buf', kcp', lost, change)
     \<and> filling m base buf' kcp' \<and> send_cfg kcp' = send_cfg kcp \<and> (\<forall>s\<in>set segs'. fits m s)"
proof (induction segs arbitrary: buf kcp)
  case (Cons s segs)
  let ?kind = "resend_kind resent kcp s"
  let ?k1 = "count_timeout ?kind kcp"
  let ?s2 = "(resend_update rtomin ?kind kcp s)\<lparr>seg_ts := current ?k1, seg_wnd := w, seg_una := rcv_nxt ?k1\<rparr>"
  have f1: "filling m base buf ?k1" using Cons.prems(1) by (simp add: filling_update)
  show ?case
  proof (cases "?kind = NoSend")
    case True
    from Cons.IH [OF f1] Cons.prems(2) obtain segs' buf' kcp' lost change where
      "flush_data resent rtomin w segs buf ?k1 = Some (segs', buf', kcp', lost, change)"
      "filling m base buf' kcp'" "send_cfg kcp' = send_cfg ?k1" "\<forall>s\<in>set segs'. fits m s" by auto
    with True Cons.prems(2) show ?thesis by (simp add: Let_def send_cfg_update)
  next
    case False
    have "fits m ?s2" using Cons.prems(2) by simp
    from emit_segment_filling [OF f1 this assms] obtain buf1 k2 where
      e: "emit_segment ?s2 buf ?k1 = Some (buf1, k2)" "filling m base buf1 k2" "send_cfg k2 = send_cfg kcp"
      by (auto simp: send_cfg_update)
    from Cons.IH [OF e(2)] Cons.prems(2) obtain segs' buf' kcp' lost change where
      "flush_data resent rtomin w segs buf1 k2 = Some (segs', buf', kcp', lost, change)"
      "filling m base buf' kcp'" "send_cfg kcp' = send_cfg k2" "\<forall>s\<in>set segs'. fits m s" by auto
    with False e \<open>fits m ?s2\<close> show ?thesis by (simp add: Let_def)
  qed
qed auto

lemma ssthresh_cfg: "send_cfg (update_ssthresh ch lost r c kcp) = send_cfg kcp"
  "outputs (update_ssthresh ch lost r c kcp) = outputs kcp"
  by (simp_all add: update_ssthresh_def send_cfg_def Let_def)

lemma flush_sized:
  assumes "sized kcp"
  shows "\<exists>kcp'. ikcp_flush kcp = Some kcp' \<and> sized kcp'
    \<and> (\<exists>ds. outputs kcp' = outputs kcp @ ds \<and> (\<forall>d\<in>set ds. length d \<le> nat (sint (mtu kcp))))"
proof (cases "updated kcp = 0")
  case True
  with assms show ?thesis by (simp add: ikcp_flush_def)
next
  case False
  define m where "m = nat (sint (mtu kcp))"
  define base where "base = outputs kcp"
  have mt: "24 \<le> sint (mtu kcp)" using assms unfolding sized_def by blast
  have "sint (mtu kcp) < 2 ^ 31" using sint_less [of "mtu kcp"] by simp
  then have m: "24 \<le> m" "m < 2 ^ 31" "sint (mtu kcp) = int m" using mt unfolding m_def by simp_all
  have f0: "filling m base [] kcp" using assms m(3) unfolding sized_def filling_def base_def m_def [symmetric] by simp
  let ?seg = "(ikcp_segment_new []) \<lparr>seg_conv := conv kcp, seg_cmd := IKCP_CMD_ACK,
      seg_wnd := word_of_int (ikcp_wnd_unused kcp), seg_una := rcv_nxt kcp\<rparr>"
  from flush_acks_filling [OF f0 m(1)] obtain seg1 buf1 kcp1 where
    1: "flush_acks (acklist kcp) ?seg [] kcp = Some (seg1, buf1, kcp1)" "filling m base buf1 kcp1"
      "send_cfg kcp1 = send_cfg kcp" by blast
  have "filling m base buf1 (probe_window (kcp1\<lparr>acklist := []\<rparr>))" using 1 by (simp add: filling_update)
  from flush_probes_filling [OF this m(1), of seg1] obtain buf2 kcp3 where
    2: "flush_probes seg1 buf1 (probe_window (kcp1\<lparr>acklist := []\<rparr>)) = Some (buf2, kcp3)"
      "filling m base buf2 kcp3" "send_cfg kcp3 = send_cfg kcp"
    using 1 by (auto simp: send_cfg_update)
  let ?c = "send_window kcp3"
  define k4 where "k4 = move_to_send (snd_queue kcp3) ?c (seg_wnd seg1) kcp3"
  have "\<forall>s\<in>set (snd_queue kcp3) \<union> set (snd_buf kcp3). fits m s"
    using assms 2(3) unfolding sized_def send_cfg_def m_def [symmetric] by simp
  from move_to_send_fits [OF this, of ?c "seg_wnd seg1" base buf2] 2(2) have
    4: "\<forall>s\<in>set (snd_queue k4) \<union> set (snd_buf k4). fits m s" "filling m base buf2 k4"
      "mtu k4 = mtu kcp3" "buffer_size k4 = buffer_size kcp3" by (simp_all add: k4_def)
  then have "\<forall>s\<in>set (snd_buf k4). fits m s" by simp
  from flush_data_filling [OF m(2) 4(2) this, of "resent_limit k4" "rto_min k4" "seg_wnd seg1"] obtain segs buf3 k5 lost change where
    5: "flush_data (resent_limit k4) (rto_min k4) (seg_wnd seg1) (snd_buf k4) buf2 k4 = Some (segs, buf3, k5, lost, change)"
      "filling m base buf3 k5" "send_cfg k5 = send_cfg k4" "\<forall>s\<in>set segs. fits m s" by blast
  let ?k6 = "ikcp_output buf3 (k5\<lparr>snd_buf := segs\<rparr>)"
  let ?k7 = "update_ssthresh (change \<noteq> 0) lost (resent_limit k4) ?c ?k6"
  have fl: "ikcp_flush kcp = Some ?k7"
    using False 1(1) 2(1) 5(1) by (simp add: ikcp_flush_def Let_def k4_def [symmetric])
  have "filling m base buf3 (k5\<lparr>snd_buf := segs\<rparr>)" using 5(2) by (simp add: filling_def)
  from filling_output [OF this] have f6: "filling m base [] ?k6" .
  have cfg: "mtu ?k7 = mtu kcp" "buffer_size ?k7 = buffer_size kcp" "snd_queue ?k7 = snd_queue k4" "snd_buf ?k7 = segs"
    using ssthresh_cfg(1) [of "change \<noteq> 0" lost "resent_limit k4" ?c ?k6] 5(3) 4(3,4) 2(3)
    by (simp_all add: send_cfg_def ikcp_output_def split: if_split_asm)
  have "sized ?k7" using assms cfg(1,2) 4(1) 5(4) unfolding sized_def cfg m_def [symmetric] by blast
  moreover have "\<exists>ds. outputs ?k7 = outputs kcp @ ds \<and> (\<forall>d\<in>set ds. length d \<le> m)"
    using f6 by (simp add: filling_def ssthresh_cfg base_def)
  ultimately show ?thesis using fl unfolding m_def [symmetric] by blast
qed

section \<open>A segment that does not fit the buffer\<close>

text \<open>A segment whose retransmission is due and that is longer, with its head, than the whole buffer.\<close>

definition overruns :: "IKCPCB \<Rightarrow> IKCPSEG \<Rightarrow> bool" where
  "overruns kcp s \<longleftrightarrow> unat (seg_len s) = length (seg_data s) \<and> 0 \<le> itimediff (current kcp) (seg_resendts s)
     \<and> buffer_size kcp < length (seg_data s) + 24"

definition flush_part :: "IKCPCB \<Rightarrow> nat \<times> u32 \<times> IKCPSEG list" where
  "flush_part kcp = (buffer_size kcp, current kcp, snd_buf kcp)"

lemma overruns_part: "flush_part k' = flush_part k \<Longrightarrow> overruns k' s = overruns k s"
  by (simp add: overruns_def flush_part_def)

lemma make_room_part: "make_room n buf kcp = (buf', kcp') \<Longrightarrow> flush_part kcp' = flush_part kcp"
  by (auto simp: make_room_def flush_part_def ikcp_output_def split: if_splits)

lemma flush_head_part: "flush_head s buf kcp = Some (buf', kcp') \<Longrightarrow> flush_part kcp' = flush_part kcp"
  by (auto simp: flush_head_def bind_eq_Some_conv dest: make_room_part split: prod.splits)

lemma flush_acks_part: "flush_acks acks s buf kcp = Some (s', buf', kcp') \<Longrightarrow> flush_part kcp' = flush_part kcp"
proof (induction acks arbitrary: s buf kcp)
  case (Cons a acks)
  obtain sn ts where a: "a = (sn, ts)" by fastforce
  let ?s = "s\<lparr>seg_sn := sn, seg_ts := ts\<rparr>"
  from Cons.prems obtain buf1 kcp1 where h: "flush_head ?s buf kcp = Some (buf1, kcp1)"
    "flush_acks acks ?s buf1 kcp1 = Some (s', buf', kcp')" by (auto simp: a Let_def bind_eq_Some_conv)
  from Cons.IH [OF h(2)] flush_head_part [OF h(1)] show ?case by simp
qed simp

lemma flush_part_update [simp]:
  "flush_part (kcp\<lparr>probe := p\<rparr>) = flush_part kcp" "flush_part (kcp\<lparr>acklist := a\<rparr>) = flush_part kcp"
  "flush_part (kcp\<lparr>state := st\<rparr>) = flush_part kcp" "flush_part (count_timeout kind kcp) = flush_part kcp"
  "flush_part (probe_window kcp) = flush_part kcp"
  by (simp_all add: flush_part_def probe_window_def count_timeout_def Let_def)

lemma flush_probes_part: "flush_probes s buf kcp = Some (buf', kcp') \<Longrightarrow> flush_part kcp' = flush_part kcp"
  by (auto simp: flush_probes_def bind_eq_Some_conv dest!: flush_head_part split: if_splits)

lemma move_to_send_part:
  "\<exists>more. flush_part (move_to_send segs c w kcp) = (buffer_size kcp, current kcp, snd_buf kcp @ more)"
proof (induction segs c w kcp rule: move_to_send.induct)
  case (2 s segs c w kcp)
  show ?case
  proof (cases "itimediff (snd_nxt kcp) (snd_una kcp + c) < 0")
    case True
    with 2 [OF True refl] show ?thesis by (force simp: Let_def)
  qed (simp add: flush_part_def)
qed (simp add: flush_part_def)

lemma emit_segment_part: "emit_segment s buf kcp = Some (buf', kcp') \<Longrightarrow> flush_part kcp' = flush_part kcp"
  by (auto simp: emit_segment_def bind_eq_Some_conv dest: make_room_part split: prod.splits if_splits)

lemma emit_segment_overrun:
  assumes "unat (seg_len s) = length (seg_data s)" and "buffer_size kcp < length (seg_data s) + 24"
  shows "emit_segment s buf kcp = None"
proof -
  obtain buf1 kcp1 where r: "make_room (sint (IKCP_OVERHEAD + seg_len s)) buf kcp = (buf1, kcp1)" by fastforce
  have "buffer_size kcp1 = buffer_size kcp" using make_room_part [OF r] by (simp add: flush_part_def)
  then show ?thesis using assms r by (auto simp: emit_segment_def write_buf_def bind_eq_None_conv)
qed

lemma resend_update_sel:
  "seg_len (resend_update r kind kcp s) = seg_len s" "seg_data (resend_update r kind kcp s) = seg_data s"
  by (simp_all add: resend_update_def Let_def split: resend.split)

lemma flush_data_overrun:
  "s \<in> set segs \<Longrightarrow> overruns kcp s \<Longrightarrow> flush_data resent rtomin w segs buf kcp = None"
proof (induction segs arbitrary: buf kcp)
  case (Cons t segs)
  let ?kind = "resend_kind resent kcp t"
  let ?k1 = "count_timeout ?kind kcp"
  let ?t2 = "(resend_update rtomin ?kind kcp t)\<lparr>seg_ts := current ?k1, seg_wnd := w, seg_una := rcv_nxt ?k1\<rparr>"
  have p: "flush_part ?k1 = flush_part kcp" by simp
  then have k1: "overruns ?k1 s" "buffer_size ?k1 = buffer_size kcp"
    using Cons.prems(2) overruns_part [OF p] by (simp_all add: flush_part_def)
  show ?case
  proof (cases "s = t")
    case True
    have "?kind \<noteq> NoSend" using Cons.prems(2) True by (simp add: resend_kind_def overruns_def)
    moreover have "emit_segment ?t2 buf ?k1 = None"
      using Cons.prems(2) True k1(2) by (intro emit_segment_overrun) (simp_all add: overruns_def resend_update_sel)
    ultimately show ?thesis by (simp add: Let_def)
  next
    case False
    then have s: "s \<in> set segs" using Cons.prems(1) by simp
    have "flush_data resent rtomin w segs b k = None" if "emit_segment ?t2 buf ?k1 = Some (b, k)" for b k
      using Cons.IH [OF s] overruns_part [OF emit_segment_part [OF that]] k1(1) by blast
    then show ?thesis
      using Cons.IH [OF s k1(1)] by (cases "emit_segment ?t2 buf ?k1") (auto simp: Let_def)
  qed
qed simp

lemma flush_overrun:
  assumes "updated kcp \<noteq> 0" and "s \<in> set (snd_buf kcp)" and "overruns kcp s"
  shows "ikcp_flush kcp = None"
proof -
  let ?seg = "(ikcp_segment_new []) \<lparr>seg_conv := conv kcp, seg_cmd := IKCP_CMD_ACK,
      seg_wnd := word_of_int (ikcp_wnd_unused kcp), seg_una := rcv_nxt kcp\<rparr>"
  have "flush_data r0 m0 w (snd_buf (move_to_send (snd_queue k3) c w k3)) buf2 (move_to_send (snd_queue k3) c w k3) = None"
    if 1: "flush_acks (acklist kcp) ?seg [] kcp = Some (seg1, buf1, k1)"
      and 2: "flush_probes seg1 buf1 (probe_window (k1\<lparr>acklist := []\<rparr>)) = Some (buf2, k3)"
    for seg1 buf1 k1 buf2 k3 r0 m0 w c
  proof -
    have p: "flush_part k3 = flush_part kcp" using flush_acks_part [OF 1] flush_probes_part [OF 2] by simp
    let ?k4 = "move_to_send (snd_queue k3) c w k3"
    from move_to_send_part [of "snd_queue k3" c w k3] obtain more where
      m: "flush_part ?k4 = (buffer_size k3, current k3, snd_buf k3 @ more)" by blast
    have "s \<in> set (snd_buf ?k4)" "overruns ?k4 s"
      using m p assms(2,3) by (auto simp: flush_part_def overruns_def)
    then show ?thesis by (rule flush_data_overrun)
  qed
  note none = this
  show ?thesis
  proof (cases "flush_acks (acklist kcp) ?seg [] kcp")
    case None
    then show ?thesis using assms(1) by (simp add: ikcp_flush_def Let_def)
  next
    case (Some x)
    obtain seg1 buf1 k1 where x: "x = (seg1, buf1, k1)" by (cases x)
    note 1 = Some [unfolded x]
    show ?thesis
    proof (cases "flush_probes seg1 buf1 (probe_window (k1\<lparr>acklist := []\<rparr>))")
      case None
      then show ?thesis using assms(1) 1 by (simp add: ikcp_flush_def Let_def)
    next
      case (Some y)
      obtain buf2 k3 where y: "y = (buf2, k3)" by (cases y)
      from none [OF 1 Some [unfolded y]] show ?thesis
        using assms(1) 1 Some by (simp add: ikcp_flush_def Let_def y)
    qed
  qed
qed

lemma update_clock_part:
  "updated (snd (update_clock now kcp)) \<noteq> 0"
  "flush_part (snd (update_clock now kcp)) = (buffer_size kcp, now, snd_buf kcp)"
  by (simp_all add: update_clock_def flush_part_def Let_def)

lemma update_clock_setmtu: "fst (update_clock now (snd (ikcp_setmtu m kcp))) = fst (update_clock now kcp)"
  by (simp add: update_clock_def ikcp_setmtu_def Let_def)

section \<open>Round trip times\<close>

lemma una_loop_rtt:
  "rx_srtt (ikcp_parse_una_loop una segs k) = rx_srtt k \<and> current (ikcp_parse_una_loop una segs k) = current k"
  by (induction una segs k rule: ikcp_parse_una_loop.induct) simp_all

lemma update_ack_overflow:
  assumes "rx_srtt kcp = 0" and "2 ^ 30 \<le> rtt"
  shows "ikcp_update_ack rtt kcp = None"
proof -
  have "rtt sdiv 2 = rtt div 2" using assms(2) by (simp add: signed_divide_int_def sgn_if)
  then have "2 ^ 31 \<le> 4 * (rtt sdiv 2)" using assms(2) by simp
  then have "i32 (4 * (rtt sdiv 2)) = None" by (simp add: i32_def)
  with assms(1) show ?thesis by (simp add: ikcp_update_ack_def)
qed

section \<open>The bounds of \<open>ikcp_check\<close>\<close>

lemma itimediff_neg:
  "- 10000 \<le> itimediff a b \<Longrightarrow> itimediff a b < 0 \<Longrightarrow> itimediff b a = - itimediff a b"
proof -
  assume r: "- 10000 \<le> itimediff a b" "itimediff a b < 0"
  have "b - a = word_of_int (- sint (a - b))" by simp
  moreover have "sint (word_of_int (- sint (a - b)) :: u32) = - sint (a - b)"
    using r by (intro sint_word_of_int_u32) (simp_all add: itimediff_def)
  ultimately show ?thesis by (simp add: itimediff_def)
qed

lemma check_packets_bounds:
  "check_packets now segs t = Some t' \<Longrightarrow> 0 < t \<Longrightarrow> 0 < t' \<and> t' \<le> t
     \<and> (\<forall>s\<in>set segs. t' \<le> itimediff (seg_resendts s) now)"
  by (induction now segs t rule: check_packets.induct) (fastforce simp: Let_def split: if_split_asm)+

section \<open>Properties\<close>

text \<open>C9. Memory safety of sending: as long as the queued segments fit the MTU and the buffer holds one datagram,
  \<open>ikcp_flush\<close> never writes outside of its buffer, keeps this condition, and passes only datagrams of at most
  MTU bytes to the output callback.\<close>

theorem kcp_flush_in_bounds:
  assumes "24 \<le> sint (mtu kcp)" and "nat (sint (mtu kcp)) \<le> buffer_size kcp"
    and "\<forall>s\<in>set (snd_queue kcp) \<union> set (snd_buf kcp). unat (seg_len s) + 24 \<le> nat (sint (mtu kcp))"
  shows "\<exists>kcp'. ikcp_flush kcp = Some kcp'
    \<and> (\<exists>ds. outputs kcp' = outputs kcp @ ds \<and> (\<forall>d\<in>set ds. length d \<le> nat (sint (mtu kcp))))"
proof -
  have "sized kcp" using assms by (simp add: sized_def fits_def)
  from flush_sized [OF this] show ?thesis by blast
qed

theorem kcp_flush_in_bounds_witness:
  "\<exists>kcp'. ikcp_flush (snd (the (ikcp_send [1, 2, 3] (ikcp_create 7)))) = Some kcp'
    \<and> (\<exists>ds. outputs kcp' = outputs (snd (the (ikcp_send [1, 2, 3] (ikcp_create 7)))) @ ds
         \<and> (\<forall>d\<in>set ds. length d \<le> nat (sint (mtu (snd (the (ikcp_send [1, 2, 3] (ikcp_create 7))))))))"
proof (rule kcp_flush_in_bounds)
  let ?k = "snd (the (ikcp_send [1, 2, 3] (ikcp_create 7)))"
  show "24 \<le> sint (mtu ?k)" "nat (sint (mtu ?k)) \<le> buffer_size ?k"
    "\<forall>s\<in>set (snd_queue ?k) \<union> set (snd_buf ?k). unat (seg_len s) + 24 \<le> nat (sint (mtu ?k))"
    by code_simp+
qed

text \<open>C25. The condition is not kept by the code itself: \<open>ikcp_setmtu\<close> reallocates the buffer for three datagrams of the
  new MTU although longer segments may be waiting for an acknowledgement. If a segment in the send buffer together with
  its head is longer than the new buffer and its retransmission is due when the next flush is, the flush writes past
  the end of the buffer.\<close>

theorem kcp_setmtu_overflow:
  assumes "50 \<le> m" and "m < 2 ^ 30" and "fst (update_clock now kcp)"
    and "s \<in> set (snd_buf kcp)" and "unat (seg_len s) = length (seg_data s)"
    and "0 \<le> itimediff now (seg_resendts s)" and "3 * (m + 24) < int (length (seg_data s)) + 24"
  shows "ikcp_update now (snd (ikcp_setmtu m kcp)) = None"
proof -
  let ?k = "snd (ikcp_setmtu m kcp)"
  have "nat m < 2 ^ 30" using assms(1,2) by auto
  have "word_of_int m = (word_of_nat (nat m) :: u32)" using assms(1) by simp
  then have "(word_of_int m + IKCP_OVERHEAD) * 3 = (word_of_nat ((nat m + 24) * 3) :: u32)"
    by (simp add: IKCP_OVERHEAD_def)
  moreover have "unat (word_of_nat ((nat m + 24) * 3) :: u32) = (nat m + 24) * 3"
    using \<open>nat m < 2 ^ 30\<close> by (intro unat_word_of_nat_u32) simp
  ultimately have b: "buffer_size ?k = (nat m + 24) * 3"
    using assms(1) by (simp add: ikcp_setmtu_def IKCP_OVERHEAD_def)
  have sb: "snd_buf ?k = snd_buf kcp" by (simp add: ikcp_setmtu_def)
  obtain k1 where c: "update_clock now ?k = (True, k1)" "updated k1 \<noteq> 0" "flush_part k1 = (buffer_size ?k, now, snd_buf kcp)"
    using update_clock_part [of now ?k] assms(3) update_clock_setmtu [of now m kcp] unfolding sb
    by (cases "update_clock now ?k") auto
  have "overruns k1 s"
    using c(3) assms(1,5-7) b by (simp add: overruns_def flush_part_def)
  with c assms(4) have "ikcp_flush k1 = None" by (intro flush_overrun [where s = s]) (auto simp: flush_part_def)
  with c(1) show ?thesis by (simp add: ikcp_update_def)
qed

text \<open>A message of 200 bytes that was sent and not acknowledged, and a new MTU of 50.\<close>

definition demo_unacked :: "IKCPCB option" where
  "demo_unacked = do { (r, k1) \<leftarrow> ikcp_send (replicate 200 0) (ikcp_create 7);
     k2 \<leftarrow> ikcp_update 0 k1; ikcp_update 100 k2 }"

lemma demo_unacked_facts:
  "case demo_unacked of None \<Rightarrow> False | Some k \<Rightarrow>
     fst (update_clock 1000 k) \<and> snd_buf k \<noteq> [] \<and> unat (seg_len (hd (snd_buf k))) = 200
     \<and> length (seg_data (hd (snd_buf k))) = 200 \<and> 0 \<le> itimediff 1000 (seg_resendts (hd (snd_buf k)))"
  by code_simp

theorem kcp_setmtu_overflow_witness:
  "\<exists>k. demo_unacked = Some k \<and> ikcp_update 1000 (snd (ikcp_setmtu 50 k)) = None"
proof -
  from demo_unacked_facts obtain k where k: "demo_unacked = Some k" "fst (update_clock 1000 k)" "snd_buf k \<noteq> []"
    "unat (seg_len (hd (snd_buf k))) = 200" "length (seg_data (hd (snd_buf k))) = 200"
    "0 \<le> itimediff 1000 (seg_resendts (hd (snd_buf k)))" by (auto split: option.splits)
  then have "ikcp_update 1000 (snd (ikcp_setmtu 50 k)) = None"
    by (intro kcp_setmtu_overflow [where s = "hd (snd_buf k)"]) simp_all
  with k(1) show ?thesis by blast
qed

text \<open>A peer can make \<open>ikcp_update_ack\<close> overflow: an acknowledgement that echoes a time stamp \<open>2 ^ 30\<close> milliseconds
  back makes the variance estimate overflow a signed integer, which is undefined.\<close>

theorem kcp_ack_overflow:
  assumes "rx_srtt kcp = 0" and "2 ^ 30 \<le> itimediff (current kcp) ts"
    and "seg_cmd ack = IKCP_CMD_ACK" and "seg_ts ack = ts" and "seg_conv ack = conv kcp"
    and "seg_len ack = 0"
  shows "ikcp_input (ikcp_encode_seg ack) kcp = None"
proof -
  let ?d = "ikcp_encode_seg ack"
  have "ucast (ucast (seg_cmd ack) :: u8) = (82 :: u32)" using assms(3) by (simp add: ikcp_consts)
  then obtain seg where dh: "decode_head ?d = (seg, [])" and seg: "seg_conv seg = conv kcp" "seg_cmd seg = IKCP_CMD_ACK"
    "seg_ts seg = ts" "seg_len seg = 0"
    using decode_encode_seg [of ack "[]"] assms by (simp add: ikcp_consts)
  let ?k = "ikcp_shrink_buf (ikcp_parse_una (seg_una seg) (kcp\<lparr>rmt_wnd := seg_wnd seg\<rparr>))"
  have k: "rx_srtt ?k = 0" "current ?k = current kcp"
    using assms(1) by (simp_all add: ikcp_shrink_buf_def ikcp_parse_una_def una_loop_rtt split: list.split)
  have "itimediff (current ?k) ts \<ge> 0" using assms(2) k(2) by simp
  with update_ack_overflow [OF k(1), of "itimediff (current ?k) ts"] assms(2) k(2)
  have "input_ack (seg_sn seg) (seg_ts seg) ?k None = None" by (simp add: input_ack_def seg)
  then have "input_loop ?d kcp None = None"
    by (simp add: input_loop.simps [of ?d] dh seg ikcp_consts Let_def)
  then show ?thesis by (simp add: ikcp_input_def)
qed

theorem kcp_ack_overflow_witness:
  "ikcp_input (ikcp_encode_seg ((ikcp_segment_new [])\<lparr>seg_conv := 7, seg_cmd := IKCP_CMD_ACK, seg_ts := 0\<rparr>))
     ((ikcp_create 7)\<lparr>current := 2 ^ 30\<rparr>) = None"
  by (rule kcp_ack_overflow [where ts = 0])
    (simp_all add: ikcp_create_def ikcp_segment_new_def itimediff_def, code_simp?)

text \<open>The time that \<open>ikcp_check\<close> proposes for the next update is now if the endpoint was never updated or a
  flush is due, and otherwise at most one interval ahead, not after the next flush and not after the first
  retransmission that is due.\<close>

theorem kcp_check_bounds:
  assumes "0 < interval kcp" and "interval kcp \<le> 5000"
  shows "let wait = itimediff (ikcp_check now kcp) now in
    0 \<le> wait \<and> wait \<le> int (unat (interval kcp))
    \<and> (updated kcp = 0 \<or> itimediff now (ts_flush kcp) \<ge> 0 \<longrightarrow> wait = 0)
    \<and> wait \<le> max 0 (itimediff (ts_flush kcp) now)
    \<and> (\<forall>s\<in>set (snd_buf kcp). wait \<le> max 0 (itimediff (seg_resendts s) now))"
proof -
  have z: "itimediff now now = 0" by (simp add: itimediff_def)
  have iv: "sint (interval kcp) = int (unat (interval kcp))"
  proof -
    have "unat (interval kcp) < 2 ^ 31" using assms(2) by (simp add: word_le_nat_alt)
    from sint_word_of_nat_u32 [OF this] show ?thesis by simp
  qed
  show ?thesis
  proof (cases "ikcp_check now kcp = now")
    case True
    then show ?thesis by (simp add: z)
  next
    case False
    let ?fl = "itimediff (ts_flush kcp) now"
    from False have up: "updated kcp \<noteq> 0" by (auto simp: ikcp_check_def)
    have nd: "\<not> (itimediff now (ts_flush kcp) \<ge> 10000 \<or> itimediff now (ts_flush kcp) < -10000)"
      "\<not> itimediff now (ts_flush kcp) \<ge> 0"
      using False up z by (auto simp: ikcp_check_def Let_def split: if_split_asm)
    from False up nd obtain t where t: "check_packets now (snd_buf kcp) 0x7fffffff = Some t"
      by (auto simp: ikcp_check_def Let_def split: option.splits)
    from check_packets_bounds [OF t] have tb: "0 < t" "t \<le> 0x7fffffff"
      "\<forall>s\<in>set (snd_buf kcp). t \<le> itimediff (seg_resendts s) now" by simp_all
    have fl: "0 < ?fl" "?fl < 2 ^ 31"
    proof -
      show "?fl < 2 ^ 31" using sint_less [of "ts_flush kcp - now"] by (simp add: itimediff_def)
      have "itimediff now (ts_flush kcp) = - ?fl"
        using itimediff_neg [of now "ts_flush kcp"] nd by linarith
      then show "0 < ?fl" using nd(2) by linarith
    qed
    define mn where "mn = (if t < ?fl then t else ?fl)"
    let ?w = "word_of_int mn :: u32" and ?wait = "itimediff (ikcp_check now kcp) now"
    have mb: "0 < mn" "mn < 2 ^ 31" "mn \<le> t" "mn \<le> ?fl" using tb fl by (auto simp: mn_def)
    have sw: "sint ?w = mn" using mb by (intro sint_word_of_int_u32) auto
    have uw: "int (unat ?w) = mn"
      using mb by (simp add: unsigned_of_int take_bit_int_eq_self)
    have ck: "ikcp_check now kcp = now + (if ?w \<ge> interval kcp then interval kcp else ?w)"
      using up nd t by (simp add: ikcp_check_def Let_def mn_def)
    have w: "?wait = (if ?w \<ge> interval kcp then int (unat (interval kcp)) else mn)"
      unfolding ck using iv sw by (simp add: itimediff_def)
    have cmp: "?w \<ge> interval kcp \<longleftrightarrow> int (unat (interval kcp)) \<le> mn"
      using uw by (simp only: word_le_nat_alt) linarith
    have "?wait \<le> mn" "0 \<le> ?wait" "?wait \<le> int (unat (interval kcp))"
      using w cmp mb(1) by (simp_all split: if_splits)
    moreover have "\<forall>s\<in>set (snd_buf kcp). ?wait \<le> max 0 (itimediff (seg_resendts s) now)"
      using calculation(1) mb(3) tb(3) by (meson le_max_iff_disj order_trans)
    moreover have "?wait \<le> max 0 ?fl" using calculation(1) mb(4) by linarith
    ultimately show ?thesis using up nd(2) unfolding Let_def by blast
  qed
qed

theorem kcp_check_bounds_witness:
  "let wait = itimediff (ikcp_check 1000 (ikcp_create 7)) 1000 in
    0 \<le> wait \<and> wait \<le> int (unat (interval (ikcp_create 7)))
    \<and> (updated (ikcp_create 7) = 0 \<or> itimediff 1000 (ts_flush (ikcp_create 7)) \<ge> 0 \<longrightarrow> wait = 0)
    \<and> wait \<le> max 0 (itimediff (ts_flush (ikcp_create 7)) 1000)
    \<and> (\<forall>s\<in>set (snd_buf (ikcp_create 7)). wait \<le> max 0 (itimediff (seg_resendts s) 1000))"
  by (rule kcp_check_bounds) (simp_all add: ikcp_create_def ikcp_consts)

end
