(* ===== verification/Kcp_Conv.thy ===== *)
theory Kcp_Conv
  imports Kcp_Safety
begin

text \<open>
  No operation of \<open>ikcp.cpp\<close> changes the conversation number of a control block: the lemmas by which the
  session layer keeps its sessions apart.
\<close>

named_theorems conv_simps \<open>operations keep the conversation number\<close>
named_theorems conv_dests \<open>operations that may fail keep the conversation number\<close>

lemma conv_una_loop [conv_simps]: "conv (ikcp_parse_una_loop una segs k) = conv k"
  by (induction una segs k rule: ikcp_parse_una_loop.induct) simp_all

lemma conv_move_available [conv_simps]: "conv (move_available segs k) = conv k"
  by (induction segs k rule: move_available.induct) simp_all

lemma conv_move_to_send [conv_simps]: "conv (move_to_send segs w wnd k) = conv k"
  by (induction segs w wnd k rule: move_to_send.induct) (simp_all add: Let_def)

lemma conv_send_fragments [conv_simps]: "conv (send_fragments n buf k) = conv k"
  by (induction n buf k rule: send_fragments.induct) (simp_all add: Let_def)

lemma conv_small [conv_simps]:
  "conv (ikcp_parse_una una k) = conv k" "conv (ikcp_shrink_buf k) = conv k"
  "conv (ikcp_parse_ack sn k) = conv k" "conv (ikcp_parse_fastack sn ts k) = conv k"
  "conv (ikcp_ack_push sn ts k) = conv k" "conv (ikcp_parse_data seg k) = conv k"
  "conv (delete_merged l rest k) = conv k" "conv (ikcp_output d k) = conv k"
  "conv (probe_window k) = conv k" "conv (count_timeout kind k) = conv k"
  "conv (update_ssthresh c lost r w k) = conv k" "conv (snd (update_clock now k)) = conv k"
  "conv (snd (make_room n buf k)) = conv k" "conv (ikcp_nodelay nd i resend nc k) = conv k"
  by (simp_all add: ikcp_parse_una_def ikcp_shrink_buf_def ikcp_parse_ack_def ikcp_parse_fastack_def
      ikcp_ack_push_def ikcp_parse_data_def delete_merged_def ikcp_output_def probe_window_def
      count_timeout_def update_ssthresh_def update_clock_def make_room_def ikcp_nodelay_def
      conv_una_loop conv_move_available Let_def split: list.splits option.splits)

lemma conv_input_push [conv_simps]: "conv (input_push seg k) = conv k"
  by (simp add: input_push_def Let_def conv_small)

lemma conv_send_extend [conv_dests]: "send_extend buf k = (buf', k') \<Longrightarrow> conv k' = conv k"
  by (auto simp: send_extend_def Let_def split: if_splits)

lemma conv_make_room [conv_dests]: "make_room n buf k = (buf', k') \<Longrightarrow> conv k' = conv k"
  by (auto simp: make_room_def conv_small split: if_splits)

lemma conv_update_ack [conv_dests]: "ikcp_update_ack rtt k = Some k' \<Longrightarrow> conv k' = conv k"
  by (auto simp: ikcp_update_ack_def Let_def bind_eq_Some_conv split: if_splits)

lemma conv_input_ack [conv_dests]: "input_ack sn ts k acked = Some (k', acked') \<Longrightarrow> conv k' = conv k"
  by (auto simp: input_ack_def Let_def bind_eq_Some_conv conv_simps dest: conv_update_ack split: if_splits)

lemma conv_grow_cwnd [conv_dests]: "grow_cwnd una k = Some k' \<Longrightarrow> conv k' = conv k"
  by (auto simp: grow_cwnd_def Let_def bind_eq_Some_conv split: if_splits)

lemma conv_input_loop [conv_dests]: "input_loop data k acked = Some (r, k', acked') \<Longrightarrow> conv k' = conv k"
proof (induction "length data" arbitrary: data k acked rule: less_induct)
  case less
  show ?case
  proof (cases "length data < 24")
    case True
    with less.prems show ?thesis by (simp add: input_loop.simps)
  next
    case False
    obtain seg rest where d: "decode_head data = (seg, rest)" by fastforce
    then have "length rest = length data - 24"
      by (auto simp: decode_head_def ikcp_decode32u_def ikcp_decode16u_def ikcp_decode8u_def Let_def)
    then have l: "length (drop n rest) < length data" for n using False by simp
    have "24 \<le> length data" using False by simp
    from less.prems this d show ?thesis
      by (cases rule: input_loop_cases)
        (use less.hyps [OF l] in \<open>force simp: conv_simps dest: conv_input_ack\<close>)+
  qed
qed

lemma conv_input [conv_dests]: "ikcp_input data k = Some (r, k') \<Longrightarrow> conv k' = conv k"
  by (auto simp: ikcp_input_def Let_def bind_eq_Some_conv conv_simps
      dest!: conv_input_loop conv_grow_cwnd split: if_splits option.splits)

lemma conv_recv [conv_dests]: "ikcp_recv l k = Some (r, d, k') \<Longrightarrow> conv k' = conv k"
  by (auto simp: ikcp_recv_def Let_def conv_simps split: if_splits prod.splits)

lemma conv_send [conv_dests]: "ikcp_send d k = Some (r, k') \<Longrightarrow> conv k' = conv k"
  by (auto simp: ikcp_send_def Let_def conv_simps dest: conv_send_extend split: if_splits prod.splits)

lemma conv_flush_head [conv_dests]: "flush_head seg buf k = Some (buf', k') \<Longrightarrow> conv k' = conv k"
  by (auto simp: flush_head_def bind_eq_Some_conv dest: conv_make_room split: prod.splits)

lemma conv_flush_acks [conv_dests]: "flush_acks acks seg buf k = Some (seg', buf', k') \<Longrightarrow> conv k' = conv k"
  by (induction acks seg buf k rule: flush_acks.induct)
    (auto simp: Let_def bind_eq_Some_conv dest: conv_flush_head)

lemma conv_flush_probes [conv_dests]: "flush_probes seg buf k = Some (buf', k') \<Longrightarrow> conv k' = conv k"
  by (auto simp: flush_probes_def bind_eq_Some_conv dest!: conv_flush_head split: if_splits)

lemma conv_emit_segment [conv_dests]: "emit_segment seg buf k = Some (buf', k') \<Longrightarrow> conv k' = conv k"
  by (auto simp: emit_segment_def bind_eq_Some_conv dest: conv_make_room split: prod.splits if_splits)

lemma conv_flush_data [conv_dests]:
  "flush_data resent rtomin wnd segs buf k = Some (segs', buf', k', lost, change) \<Longrightarrow> conv k' = conv k"
proof (induction segs arbitrary: buf k segs' buf' k' lost change)
  case (Cons seg segs)
  show ?case
  proof (cases "resend_kind resent k seg = NoSend")
    case True
    with Cons show ?thesis by (auto simp: Let_def bind_eq_Some_conv conv_simps)
  next
    case False
    with Cons show ?thesis
      by (simp add: Let_def bind_eq_Some_conv) (elim exE conjE, force dest: conv_emit_segment simp: conv_simps)
  qed
qed simp

lemma conv_flush [conv_dests]: "ikcp_flush k = Some k' \<Longrightarrow> conv k' = conv k"
  by (auto simp: ikcp_flush_def Let_def bind_eq_Some_conv conv_simps
      dest!: conv_flush_acks conv_flush_probes conv_flush_data split: if_splits)

lemma conv_update [conv_dests]: "ikcp_update now k = Some k' \<Longrightarrow> conv k' = conv k"
  using conv_small(12) [of now k]
  by (auto simp: ikcp_update_def dest: conv_flush split: prod.splits if_splits)

end
