(* ===== verification/Byte_Buffer.thy ===== *)
theory Byte_Buffer
  imports Prelude
begin

text \<open>
  \<open>src/common/ByteConverter.h\<close>, \<open>src/common/ByteBuffer.h\<close> and \<open>src/common/ByteBuffer.cpp\<close>: the growable
  byte buffer with a read and a write position that every packet class extends. The storage is
  the content of the pooled \<open>CBuffer\<close> vector; its capacity is not modelled. Functions are
  polymorphic in the record extension, so that the packet classes inherit them, and a C++
  template over integer types is a function polymorphic in the word length.
\<close>

section \<open>Byte order\<close>

text \<open>The recursive template \<open>ByteConverter::convert<T>\<close> swaps the outer bytes and recurses inside.\<close>

fun ByteConverter_convert :: "byte list \<Rightarrow> byte list" where
  "ByteConverter_convert [] = []"
| "ByteConverter_convert [x] = [x]"
| "ByteConverter_convert (x # y # zs) =
     last (y # zs) # ByteConverter_convert (butlast (y # zs)) @ [x]"

text \<open>\<open>TRINITY_ENDIAN\<close> is defined nowhere, so the preprocessor reads it as 0.\<close>

definition TRINITY_BIGENDIAN :: nat where
  "TRINITY_BIGENDIAN = 1"

definition TRINITY_ENDIAN :: nat where
  "TRINITY_ENDIAN = 0"

definition EndianConvert :: "byte list \<Rightarrow> byte list" where
  "EndianConvert val =
     (if TRINITY_ENDIAN = TRINITY_BIGENDIAN then ByteConverter_convert val else val)"

section \<open>The buffer\<close>

record ByteBuffer =
  rpos :: nat
  wpos :: nat
  storage :: "byte list"

text \<open>The invariant stated at the top of the class.\<close>

definition wf_buffer :: "'a ByteBuffer_scheme \<Rightarrow> bool" where
  "wf_buffer b \<longleftrightarrow> rpos b \<le> wpos b \<and> wpos b \<le> length (storage b)"

text \<open>The constructors. \<open>recycled\<close> is the content of the vector that \<open>createBuffer\<close> took from the
  object pool: \<open>CBuffer::zero\<close> does nothing, so it is whatever the previous owner left.\<close>

definition ByteBuffer_ctor :: "byte list \<Rightarrow> ByteBuffer" where
  "ByteBuffer_ctor recycled = \<lparr>rpos = 0, wpos = 0, storage = recycled\<rparr>"

definition swapBuffer ::
  "'a ByteBuffer_scheme \<Rightarrow> 'b ByteBuffer_scheme \<Rightarrow> 'a ByteBuffer_scheme \<times> 'b ByteBuffer_scheme" where
  "swapBuffer this right = (this\<lparr>storage := storage right\<rparr>, right\<lparr>storage := storage this\<rparr>)"

definition ByteBuffer_move_ctor ::
  "byte list \<Rightarrow> ByteBuffer \<Rightarrow> ByteBuffer \<times> ByteBuffer" where
  "ByteBuffer_move_ctor recycled buf =
     swapBuffer \<lparr>rpos = rpos buf, wpos = wpos buf, storage = recycled\<rparr> buf"

definition ByteBuffer_copy_ctor :: "ByteBuffer \<Rightarrow> ByteBuffer" where
  "ByteBuffer_copy_ctor right =
     \<lparr>rpos = rpos right, wpos = wpos right, storage = storage right\<rparr>"

text \<open>Assignment between two different objects.\<close>

definition assign_copy :: "ByteBuffer \<Rightarrow> ByteBuffer \<Rightarrow> ByteBuffer" where
  "assign_copy this right =
     this\<lparr>rpos := rpos right, wpos := wpos right, storage := storage right\<rparr>"

definition assign_move :: "ByteBuffer \<Rightarrow> ByteBuffer \<Rightarrow> ByteBuffer \<times> ByteBuffer" where
  "assign_move this right = swapBuffer (this\<lparr>rpos := rpos right, wpos := wpos right\<rparr>) right"

definition clear :: "'a ByteBuffer_scheme \<Rightarrow> 'a ByteBuffer_scheme" where
  "clear b = b\<lparr>rpos := 0, wpos := 0, storage := []\<rparr>"

definition resize_buffer :: "nat \<Rightarrow> 'a ByteBuffer_scheme \<Rightarrow> 'a ByteBuffer_scheme" where
  "resize_buffer newsize b =
     b\<lparr>storage := resize newsize 0 (storage b), rpos := 0, wpos := newsize\<rparr>"

definition rfinish :: "'a ByteBuffer_scheme \<Rightarrow> 'a ByteBuffer_scheme" where
  "rfinish b = b\<lparr>rpos := wpos b\<rparr>"

definition read_skip :: "nat \<Rightarrow> 'a ByteBuffer_scheme \<Rightarrow> 'a ByteBuffer_scheme" where
  "read_skip skip b = b\<lparr>rpos := rpos b + skip\<rparr>"

subsection \<open>Writing\<close>

text \<open>\<open>_storage->insert(_storage->begin() + _wpos, src, src + cnt)\<close> is undefined when the write
  position lies outside of the vector.\<close>

definition append :: "byte list \<Rightarrow> 'a ByteBuffer_scheme \<Rightarrow> 'a ByteBuffer_scheme option" where
  "append src b =
     (if wpos b \<le> length (storage b)
      then Some (b\<lparr>storage := take (wpos b) (storage b) @ src @ drop (wpos b) (storage b),
                   wpos := wpos b + length src\<rparr>)
      else None)"

definition put :: "nat \<Rightarrow> byte list \<Rightarrow> 'a ByteBuffer_scheme \<Rightarrow> 'a ByteBuffer_scheme option" where
  "put pos src b =
     (if pos + length src \<le> length (storage b)
      then Some (b\<lparr>storage := overwrite pos src (storage b)\<rparr>)
      else None)"

definition append_val :: "'a::len word \<Rightarrow> 'b ByteBuffer_scheme \<Rightarrow> 'b ByteBuffer_scheme option" where
  "append_val val b = append (EndianConvert (bytes_of val)) b"

definition put_val ::
  "nat \<Rightarrow> 'a::len word \<Rightarrow> 'b ByteBuffer_scheme \<Rightarrow> 'b ByteBuffer_scheme option" where
  "put_val pos val b = put pos (EndianConvert (bytes_of val)) b"

text \<open>\<open>operator<<\<close> for the integer and floating point types (a float is its bit pattern) and for
  strings, which are terminated by a zero byte.\<close>

definition stream_put :: "'a::len word \<Rightarrow> 'b ByteBuffer_scheme \<Rightarrow> 'b ByteBuffer_scheme option" where
  "stream_put val b = append_val val b"

definition stream_put_string ::
  "byte list \<Rightarrow> 'a ByteBuffer_scheme \<Rightarrow> 'a ByteBuffer_scheme option" where
  "stream_put_string val b =
     do { b1 \<leftarrow> (if length val > 0 then append val b else Some b); append_val (0 :: u8) b1 }"

text \<open>\<open>const char *\<close>: \<open>strlen\<close> stops at the first zero byte; a null pointer counts as empty.\<close>

definition stream_put_cstr ::
  "byte list option \<Rightarrow> 'a ByteBuffer_scheme \<Rightarrow> 'a ByteBuffer_scheme option" where
  "stream_put_cstr str b =
     (let val = (case str of None \<Rightarrow> [] | Some s \<Rightarrow> takeWhile (\<lambda>c. c \<noteq> 0) s) in
      do { b1 \<leftarrow> (if length val > 0 then append val b else Some b); append_val (0 :: u8) b1 })"

definition WriteString :: "byte list \<Rightarrow> 'a ByteBuffer_scheme \<Rightarrow> 'a ByteBuffer_scheme option" where
  "WriteString str b = (if length str > 0 then append str b else Some b)"

definition append_buffer ::
  "'b ByteBuffer_scheme \<Rightarrow> 'a ByteBuffer_scheme \<Rightarrow> 'a ByteBuffer_scheme option" where
  "append_buffer buffer b =
     (if storage buffer \<noteq> [] then append (storage buffer) b else Some b)"

subsection \<open>Reading\<close>

text \<open>The typed reads check nothing: outside of the vector they are undefined.\<close>

definition read_val_at :: "nat \<Rightarrow> 'b ByteBuffer_scheme \<Rightarrow> 'a::len word option" where
  "read_val_at pos b =
     (if pos + size_of TYPE('a word) \<le> length (storage b)
      then Some (of_bytes (EndianConvert (read_at pos (size_of TYPE('a word)) (storage b))))
      else None)"

definition read_val :: "'b ByteBuffer_scheme \<Rightarrow> ('a::len word \<times> 'b ByteBuffer_scheme) option" where
  "read_val b =
     do { r \<leftarrow> read_val_at (rpos b) b; Some (r, b\<lparr>rpos := rpos b + size_of TYPE('a word)\<rparr>) }"

definition stream_get :: "'b ByteBuffer_scheme \<Rightarrow> ('a::len word \<times> 'b ByteBuffer_scheme) option" where
  "stream_get b = read_val b"

text \<open>\<open>char\<close> is signed on the target, hence the signed comparison.\<close>

definition stream_get_bool :: "'b ByteBuffer_scheme \<Rightarrow> (bool \<times> 'b ByteBuffer_scheme) option" where
  "stream_get_bool b =
     do { (c :: u8, b1) \<leftarrow> read_val b; Some (sint c > 0, b1) }"

definition read_bytes :: "nat \<Rightarrow> 'a ByteBuffer_scheme \<Rightarrow> (byte list \<times> 'a ByteBuffer_scheme) option" where
  "read_bytes len b =
     (if rpos b + len \<le> length (storage b)
      then Some (read_at (rpos b) len (storage b), b\<lparr>rpos := rpos b + len\<rparr>)
      else None)"

definition ReadString :: "nat \<Rightarrow> 'a ByteBuffer_scheme \<Rightarrow> (byte list \<times> 'a ByteBuffer_scheme) option" where
  "ReadString len b = (if len = 0 then Some ([], b) else read_bytes len b)"

text \<open>The loop of \<open>operator>>(std::string&)\<close>, over the bytes that follow the read position.\<close>

fun get_string_loop :: "byte list \<Rightarrow> byte list \<times> nat" where
  "get_string_loop [] = ([], 0)"
| "get_string_loop (c # cs) =
     (if c = 0 then ([], 1)
      else case get_string_loop cs of (value, n) \<Rightarrow> (c # value, Suc n))"

definition stream_get_string :: "'a ByteBuffer_scheme \<Rightarrow> byte list \<times> 'a ByteBuffer_scheme" where
  "stream_get_string b =
     (case get_string_loop (drop (rpos b) (storage b)) of
        (value, n) \<Rightarrow> (value, b\<lparr>rpos := rpos b + n\<rparr>))"

lemmas buffer_defs [buffer_simps] = append_def put_def append_val_def put_val_def stream_put_def
  stream_put_string_def WriteString_def read_val_at_def read_val_def stream_get_def read_bytes_def
  ReadString_def stream_get_string_def swapBuffer_def

section \<open>Byte order lemmas\<close>

lemma ByteConverter_convert_rev: "ByteConverter_convert bs = rev bs"
proof (induction bs rule: ByteConverter_convert.induct)
  case (3 x y zs)
  have "rev (y # zs) = last (y # zs) # rev (butlast (y # zs))"
    by (metis append_butlast_last_id list.distinct(1) rev.simps(2) rev_eq_Cons_iff rev_rev_ident)
  with 3 show ?case by simp
qed simp_all

lemma length_EndianConvert [simp]: "length (EndianConvert bs) = length bs"
  by (simp add: EndianConvert_def ByteConverter_convert_rev)

lemma EndianConvert_id [simp]: "EndianConvert bs = bs"
  by (simp add: EndianConvert_def TRINITY_ENDIAN_def TRINITY_BIGENDIAN_def)

lemma EndianConvert_involution:
  "(if e = TRINITY_BIGENDIAN then ByteConverter_convert else id)
     ((if e = TRINITY_BIGENDIAN then ByteConverter_convert else id) bs) = bs"
  by (simp add: ByteConverter_convert_rev)

section \<open>The invariant\<close>

lemma append_Some_iff: "append src b = Some b' \<longleftrightarrow>
   wpos b \<le> length (storage b) \<and>
   b' = b\<lparr>storage := take (wpos b) (storage b) @ src @ drop (wpos b) (storage b),
          wpos := wpos b + length src\<rparr>"
  by (auto simp: append_def)

lemma put_Some_iff: "put pos src b = Some b' \<longleftrightarrow>
   pos + length src \<le> length (storage b) \<and> b' = b\<lparr>storage := overwrite pos src (storage b)\<rparr>"
  by (auto simp: put_def)

lemma append_wf: "wf_buffer b \<Longrightarrow> append src b = Some b' \<Longrightarrow> wf_buffer b'"
  by (auto simp: wf_buffer_def append_Some_iff)

lemma append_defined: "wf_buffer b \<Longrightarrow> \<exists>b'. append src b = Some b'"
  by (auto simp: wf_buffer_def append_def)

lemma put_wf: "wf_buffer b \<Longrightarrow> put pos src b = Some b' \<Longrightarrow> wf_buffer b'"
  by (auto simp: wf_buffer_def put_Some_iff)

lemma append_unread:
  "wf_buffer b \<Longrightarrow> append src b = Some b' \<Longrightarrow>
   take (wpos b') (storage b') = take (wpos b) (storage b) @ src \<and> rpos b' = rpos b"
  by (auto simp: wf_buffer_def append_Some_iff)

text \<open>A buffer is tight when the write position is the end of the vector: the state of a packet that
  is being filled at its end, and of a packet that was received completely.\<close>

definition tight :: "'a ByteBuffer_scheme \<Rightarrow> bool" where
  "tight b \<longleftrightarrow> rpos b \<le> wpos b \<and> wpos b = length (storage b)"

definition unread :: "'a ByteBuffer_scheme \<Rightarrow> byte list" where
  "unread b = drop (rpos b) (take (wpos b) (storage b))"

lemma tight_wf: "tight b \<Longrightarrow> wf_buffer b"
  by (simp add: tight_def wf_buffer_def)

lemma append_tight:
  "tight b \<Longrightarrow>
   append src b = Some (b\<lparr>storage := storage b @ src, wpos := wpos b + length src\<rparr>)"
  by (simp add: tight_def append_def)

lemma append_tight_ex:
  "tight b \<Longrightarrow> \<exists>b'. append src b = Some b' \<and> tight b' \<and> unread b' = unread b @ src \<and> rpos b' = rpos b"
  by (auto simp: append_tight tight_def unread_def)

lemma read_val_unread:
  fixes w :: "'a::len word"
  assumes "tight b" and "8 dvd LENGTH('a)" and "unread b = bytes_of w @ rest"
  shows "\<exists>b'. read_val b = Some (w, b') \<and> tight b' \<and> unread b' = rest"
proof -
  have st: "drop (rpos b) (storage b) = bytes_of w @ rest"
    using assms(1,3) by (simp add: tight_def unread_def)
  then have len: "rpos b + LENGTH('a) div 8 + length rest = length (storage b)"
    using assms(1) by (metis add.assoc le_add_diff_inverse length_append length_bytes_of length_drop tight_def)
  have "drop (rpos b + LENGTH('a) div 8) (storage b) = rest"
    using st by (metis append_eq_conv_conj drop_drop add.commute length_bytes_of)
  with st len assms(1,2) show ?thesis
    by (simp add: read_val_def read_val_at_def read_at_def size_of_def of_bytes_bytes_of tight_def unread_def)
qed

lemma get_string_loop_append:
  "0 \<notin> set s \<Longrightarrow> get_string_loop (s @ 0 # rest) = (s, Suc (length s))"
  by (induction s) auto

lemma get_string_loop_bound: "snd (get_string_loop bs) \<le> length bs"
  by (induction bs) (auto split: prod.splits)

lemma stream_get_string_unread:
  assumes "tight b" and "0 \<notin> set s" and "unread b = s @ 0 # rest"
  shows "\<exists>b'. stream_get_string b = (s, b') \<and> tight b' \<and> unread b' = rest"
proof -
  have st: "drop (rpos b) (storage b) = s @ 0 # rest"
    using assms(1,3) by (simp add: tight_def unread_def)
  then have len: "rpos b + Suc (length s) + length rest = length (storage b)"
    using assms(1) by (metis add.assoc add_Suc_right add_Suc_shift le_add_diff_inverse length_Cons
        length_append length_drop tight_def)
  have "drop (rpos b + Suc (length s)) (storage b) = drop (Suc (length s)) (s @ 0 # rest)"
    using st by (metis add.commute drop_drop)
  with st len assms(1,2) show ?thesis
    by (simp add: stream_get_string_def get_string_loop_append tight_def unread_def)
qed

text \<open>Reading a string never leaves the vector, whatever the buffer holds.\<close>

lemma stream_get_string_safe:
  "rpos b \<le> length (storage b) \<Longrightarrow> rpos (snd (stream_get_string b)) \<le> length (storage b)"
  using get_string_loop_bound [of "drop (rpos b) (storage b)"]
  by (auto simp: stream_get_string_def split: prod.splits)

end
