(* ===== verification/Packets.thy ===== *)
theory Packets
  imports Byte_Buffer
begin

text \<open>
  \<open>src/network/BasePacket.h/.cpp\<close>, \<open>NetPacket.h/.cpp\<close> and \<open>UdpPacket.h/.cpp\<close>: the packet classes built on
  the byte buffer. \<open>NetPacket\<close> and \<open>UdpPacket\<close> add no fields, so all three are \<^typ>\<open>ByteBuffer\<close>; a virtual
  function that a base class method calls (\<open>getHeadSize\<close>) is an argument \<open>h\<close> of that method.
\<close>

section \<open>BasePacket\<close>

definition BasePacket_zero :: "'a ByteBuffer_scheme \<Rightarrow> 'a ByteBuffer_scheme" where
  "BasePacket_zero p = p\<lparr>rpos := 0, wpos := 0, storage := []\<rparr>"

definition BasePacket_ctor :: "byte list \<Rightarrow> ByteBuffer" where
  "BasePacket_ctor recycled = BasePacket_zero (ByteBuffer_ctor recycled)"

text \<open>\<open>moveData\<close>: takes over positions and storage of \<open>packet\<close>, then calls its virtual \<open>zero\<close>.\<close>

definition BasePacket_moveData ::
  "('b ByteBuffer_scheme \<Rightarrow> 'b ByteBuffer_scheme) \<Rightarrow> 'b ByteBuffer_scheme \<Rightarrow> 'a ByteBuffer_scheme
     \<Rightarrow> 'a ByteBuffer_scheme \<times> 'b ByteBuffer_scheme" where
  "BasePacket_moveData zero packet this =
     (let this1 = this\<lparr>rpos := rpos packet, wpos := wpos packet\<rparr>;
          (this2, packet2) = swapBuffer this1 packet
      in (this2, zero packet2))"

text \<open>\<open>shrink\<close>, with the capacity of the vector as an argument (the model does not track it):
  the vector is exchanged for an empty one and the positions stay.\<close>

definition shrink :: "nat \<Rightarrow> int \<Rightarrow> 'a ByteBuffer_scheme \<Rightarrow> 'a ByteBuffer_scheme" where
  "shrink capacity isize p = (if capacity > to_size isize then p\<lparr>storage := []\<rparr> else p)"

definition getBodySize :: "nat \<Rightarrow> 'a ByteBuffer_scheme \<Rightarrow> int" where
  "getBodySize h p = to_i32 (int (wpos p) - int h)"

definition getBodyData :: "nat \<Rightarrow> 'a ByteBuffer_scheme \<Rightarrow> byte list" where
  "getBodyData h p = drop h (storage p)"

text \<open>A negative size converts to a \<open>size_t\<close> that \<open>std::vector::resize\<close> refuses with an exception.\<close>

definition setWriteSize :: "nat \<Rightarrow> int \<Rightarrow> 'a ByteBuffer_scheme \<Rightarrow> 'a ByteBuffer_scheme option" where
  "setWriteSize h sz p =
     (let n = sz + int h in
      if n < 0 then None
      else Some (p\<lparr>storage := resize (nat n) 0 (storage p), wpos := nat n\<rparr>))"

definition activeSize :: "'a ByteBuffer_scheme \<Rightarrow> int" where
  "activeSize p = to_i32 (int (wpos p) - int (rpos p))"

text \<open>\<open>readData\<close> is a \<open>string_view\<close> whose length is the \<open>int32\<close> active size converted to \<open>size_t\<close>;
  \<^const>\<open>None\<close> if it extends past the storage.\<close>

definition readData :: "'a ByteBuffer_scheme \<Rightarrow> byte list option" where
  "readData p =
     (let n = to_size (activeSize p) in
      if rpos p + n \<le> length (storage p) then Some (read_at (rpos p) n (storage p)) else None)"

definition writeData :: "byte list \<Rightarrow> 'a ByteBuffer_scheme \<Rightarrow> 'a ByteBuffer_scheme option" where
  "writeData sv p = append sv p"

definition popValue :: "'b ByteBuffer_scheme \<Rightarrow> ('a::len word \<times> 'b ByteBuffer_scheme) option" where
  "popValue p = stream_get p"

definition getValue :: "nat \<Rightarrow> 'b ByteBuffer_scheme \<Rightarrow> 'a::len word option" where
  "getValue pos p =
     (if pos + size_of TYPE('a word) \<le> length (storage p)
      then Some (of_bytes (EndianConvert (read_at pos (size_of TYPE('a word)) (storage p))))
      else None)"

definition setValue :: "nat \<Rightarrow> 'a::len word \<Rightarrow> 'b ByteBuffer_scheme \<Rightarrow> 'b ByteBuffer_scheme option" where
  "setValue pos t p = put_val pos t p"

text \<open>The values a script pushes and reads back: the integer getters and setters come in a signed and
  an unsigned version on the same bits, a float is its bit pattern.\<close>

datatype pval = V8 u8 | V16 u16 | V32 u32 | V64 u64 | VStr "byte list"
datatype pkind = K8 | K16 | K32 | K64 | KStr

fun pushValue :: "pval \<Rightarrow> 'a ByteBuffer_scheme \<Rightarrow> 'a ByteBuffer_scheme option" where
  "pushValue (V8 v) p = stream_put v p"
| "pushValue (V16 v) p = stream_put v p"
| "pushValue (V32 v) p = stream_put v p"
| "pushValue (V64 v) p = stream_put v p"
| "pushValue (VStr s) p = stream_put_string s p"

fun getValueOf :: "pkind \<Rightarrow> 'a ByteBuffer_scheme \<Rightarrow> (pval \<times> 'a ByteBuffer_scheme) option" where
  "getValueOf K8 p = map_option (apfst V8) (popValue p)"
| "getValueOf K16 p = map_option (apfst V16) (popValue p)"
| "getValueOf K32 p = map_option (apfst V32) (popValue p)"
| "getValueOf K64 p = map_option (apfst V64) (popValue p)"
| "getValueOf KStr p = Some (apfst VStr (stream_get_string p))"

section \<open>NetPacket\<close>

type_synonym NetPacket = ByteBuffer

definition MSG_LEN_POS :: nat where "MSG_LEN_POS = 0"
definition MSG_TYPE_POS :: nat where "MSG_TYPE_POS = 4"
definition MSG_HEAD_SIZE :: nat where "MSG_HEAD_SIZE = 4 + 4"

definition NetPacket_zero :: "'a ByteBuffer_scheme \<Rightarrow> 'a ByteBuffer_scheme" where
  "NetPacket_zero p =
     p\<lparr>storage := resize MSG_HEAD_SIZE 0 (storage p), wpos := MSG_HEAD_SIZE, rpos := MSG_HEAD_SIZE\<rparr>"

definition NetPacket_ctor :: "byte list \<Rightarrow> NetPacket" where
  "NetPacket_ctor recycled = NetPacket_zero (BasePacket_ctor recycled)"

definition NetPacket_getMarkLen :: "'a ByteBuffer_scheme \<Rightarrow> int option" where
  "NetPacket_getMarkLen p = map_option (\<lambda>v :: u32. sint v) (getValue MSG_LEN_POS p)"

definition NetPacket_getMsgType :: "'a ByteBuffer_scheme \<Rightarrow> int option" where
  "NetPacket_getMsgType p = map_option (\<lambda>v :: u32. sint v) (getValue MSG_TYPE_POS p)"

definition NetPacket_isHeadFull :: "'a ByteBuffer_scheme \<Rightarrow> bool" where
  "NetPacket_isHeadFull p \<longleftrightarrow> wpos p \<ge> MSG_HEAD_SIZE"

text \<open>\<open>sendStream\<close> and \<open>sendSize\<close> together: the bytes handed to the socket.\<close>

definition NetPacket_sendBytes :: "'a ByteBuffer_scheme \<Rightarrow> byte list" where
  "NetPacket_sendBytes p = take (nat (to_i32 (int (wpos p)))) (storage p)"

definition NetPacket_writeHead :: "int \<Rightarrow> 'a ByteBuffer_scheme \<Rightarrow> 'a ByteBuffer_scheme option" where
  "NetPacket_writeHead msgtype p =
     do { p1 \<leftarrow> setValue MSG_LEN_POS (word_of_int (getBodySize MSG_HEAD_SIZE p) :: u32) p;
          setValue MSG_TYPE_POS (word_of_int msgtype :: u32) p1 }"

text \<open>\<open>readHead(p, size)\<close>, with \<open>data\<close> the bytes behind the pointer: copies what the head still misses,
  at most \<open>size\<close> bytes, and returns how many bytes it took.\<close>

definition NetPacket_readHead ::
  "byte list \<Rightarrow> nat \<Rightarrow> 'a ByteBuffer_scheme \<Rightarrow> (nat \<times> 'a ByteBuffer_scheme) option" where
  "NetPacket_readHead data sz p =
     (let rsize = to_i32 (int MSG_HEAD_SIZE - int (wpos p)) in
      if rsize \<le> 0 then Some (0, p)
      else let n = (if sz \<ge> nat rsize then nat rsize else sz) in
        do { bs \<leftarrow> copy_from n data;
             p1 \<leftarrow> put (wpos p) bs p;
             Some (n, p1\<lparr>wpos := wpos p1 + n\<rparr>) })"

section \<open>UdpPacket\<close>

definition UDP_PACK_HEAD_SIZE :: nat where "UDP_PACK_HEAD_SIZE = 4"

definition UdpPacket_zero :: "'a ByteBuffer_scheme \<Rightarrow> 'a ByteBuffer_scheme" where
  "UdpPacket_zero p =
     p\<lparr>storage := resize UDP_PACK_HEAD_SIZE 0 (storage p), wpos := UDP_PACK_HEAD_SIZE,
       rpos := UDP_PACK_HEAD_SIZE\<rparr>"

definition UdpPacket_ctor :: "byte list \<Rightarrow> ByteBuffer" where
  "UdpPacket_ctor recycled = UdpPacket_zero (BasePacket_ctor recycled)"

definition UdpPacket_initSize :: "nat \<Rightarrow> 'a ByteBuffer_scheme \<Rightarrow> 'a ByteBuffer_scheme" where
  "UdpPacket_initSize s p =
     (if s > length (storage p) then p\<lparr>storage := resize s 0 (storage p)\<rparr> else p)"

definition UdpPacket_getMsgType :: "'a ByteBuffer_scheme \<Rightarrow> int option" where
  "UdpPacket_getMsgType p = map_option (\<lambda>v :: u32. sint v) (getValue 0 p)"

definition UdpPacket_writeComplete :: "nat \<Rightarrow> 'a ByteBuffer_scheme \<Rightarrow> 'a ByteBuffer_scheme" where
  "UdpPacket_writeComplete n p = p\<lparr>wpos := wpos p + n\<rparr>"

definition UdpPacket_getMarkLen :: "'a ByteBuffer_scheme \<Rightarrow> int" where
  "UdpPacket_getMarkLen p = 0"

definition UdpPacket_sendBytes :: "'a ByteBuffer_scheme \<Rightarrow> byte list" where
  "UdpPacket_sendBytes p = take (nat (to_i32 (int (wpos p)))) (storage p)"

definition UdpPacket_writeHead :: "int \<Rightarrow> 'a ByteBuffer_scheme \<Rightarrow> 'a ByteBuffer_scheme option" where
  "UdpPacket_writeHead msgtype p = setValue 0 (word_of_int msgtype :: u32) p"

section \<open>Round trip of typed values\<close>

text \<open>A script writes values one after the other and reads them back by kind.\<close>

fun put_all :: "('v \<Rightarrow> 'b \<Rightarrow> 'b option) \<Rightarrow> 'v list \<Rightarrow> 'b \<Rightarrow> 'b option" where
  "put_all put_v [] b = Some b"
| "put_all put_v (v # vs) b = Option.bind (put_v v b) (put_all put_v vs)"

fun get_all :: "('k \<Rightarrow> 'b \<Rightarrow> ('v \<times> 'b) option) \<Rightarrow> 'k list \<Rightarrow> 'b \<Rightarrow> ('v list \<times> 'b) option" where
  "get_all get_v [] b = Some ([], b)"
| "get_all get_v (k # ks) b =
     Option.bind (get_v k b) (\<lambda>(v, b1). map_option (apfst ((#) v)) (get_all get_v ks b1))"

text \<open>
  The contract between a writer and a reader of packets: writing a value appends its
  representation to the unread bytes, and reading at a representation consumes exactly it.
\<close>

locale value_stream =
  fixes put_v :: "'v \<Rightarrow> 'b \<Rightarrow> 'b option"
    and get_v :: "'k \<Rightarrow> 'b \<Rightarrow> ('v \<times> 'b) option"
    and kind :: "'v \<Rightarrow> 'k"
    and repr :: "'v \<Rightarrow> byte list"
    and valid :: "'v \<Rightarrow> bool"
    and inv :: "'b \<Rightarrow> bool"
    and content :: "'b \<Rightarrow> byte list"
  assumes put_content: "inv b \<Longrightarrow> \<exists>b'. put_v v b = Some b' \<and> inv b' \<and> content b' = content b @ repr v"
    and get_content: "inv b \<Longrightarrow> valid v \<Longrightarrow> content b = repr v @ rest \<Longrightarrow>
      \<exists>b'. get_v (kind v) b = Some (v, b') \<and> inv b' \<and> content b' = rest"
begin

lemma put_all_content:
  "inv b \<Longrightarrow> \<exists>b'. put_all put_v vs b = Some b' \<and> inv b' \<and> content b' = content b @ concat (map repr vs)"
proof (induction vs arbitrary: b)
  case (Cons v vs)
  from put_content [OF Cons.prems, of v] obtain b1
    where b1: "put_v v b = Some b1" "inv b1" "content b1 = content b @ repr v" by blast
  from Cons.IH [OF b1(2)] b1 show ?case by auto
qed simp

lemma get_all_content:
  "inv b \<Longrightarrow> \<forall>v\<in>set vs. valid v \<Longrightarrow> content b = concat (map repr vs) @ rest \<Longrightarrow>
   \<exists>b'. get_all get_v (map kind vs) b = Some (vs, b') \<and> inv b' \<and> content b' = rest"
proof (induction vs arbitrary: b)
  case (Cons v vs)
  have v: "valid v" and c: "content b = repr v @ concat (map repr vs) @ rest"
    using Cons.prems by auto
  from get_content [OF Cons.prems(1) v c] obtain b1
    where b1: "get_v (kind v) b = Some (v, b1)" "inv b1" "content b1 = concat (map repr vs) @ rest"
    by blast
  from Cons.IH [OF b1(2) _ b1(3)] Cons.prems(2) b1(1) show ?case by auto
qed simp

lemma roundtrip:
  assumes "inv b" and "content b = []" and "\<forall>v\<in>set vs. valid v"
  shows "\<exists>b' b''. put_all put_v vs b = Some b' \<and> get_all get_v (map kind vs) b' = Some (vs, b'') \<and> content b'' = []"
  using put_all_content [OF assms(1), of vs] get_all_content [of _ vs "[]"] assms by fastforce

end

fun pval_kind :: "pval \<Rightarrow> pkind" where
  "pval_kind (V8 v) = K8"
| "pval_kind (V16 v) = K16"
| "pval_kind (V32 v) = K32"
| "pval_kind (V64 v) = K64"
| "pval_kind (VStr s) = KStr"

fun pval_repr :: "pval \<Rightarrow> byte list" where
  "pval_repr (V8 v) = bytes_of v"
| "pval_repr (V16 v) = bytes_of v"
| "pval_repr (V32 v) = bytes_of v"
| "pval_repr (V64 v) = bytes_of v"
| "pval_repr (VStr s) = s @ [0]"

fun pval_valid :: "pval \<Rightarrow> bool" where
  "pval_valid (VStr s) \<longleftrightarrow> 0 \<notin> set s"
| "pval_valid v \<longleftrightarrow> True"

lemma bytes_of_0_u8: "bytes_of (0 :: u8) = [0]"
  by (simp add: bytes_of_def)

lemma stream_put_string_tight:
  "tight b \<Longrightarrow> stream_put_string s b = append (s @ [0]) b"
  by (auto simp: stream_put_string_def append_val_def bytes_of_0_u8 append_def tight_def)

lemma pushValue_append:
  "tight b \<Longrightarrow> pushValue v b = append (pval_repr v) b"
  by (cases v) (simp_all add: stream_put_def append_val_def stream_put_string_tight)

lemma getValueOf_unread:
  assumes "tight b" and "pval_valid v" and "unread b = pval_repr v @ rest"
  shows "\<exists>b'. getValueOf (pval_kind v) b = Some (v, b') \<and> tight b' \<and> unread b' = rest"
proof (cases v)
  case (VStr s)
  with assms stream_get_string_unread [of b s rest] show ?thesis by auto
qed (use assms in \<open>auto simp: popValue_def stream_get_def dest!: read_val_unread [rotated 2]\<close>)

interpretation packet: value_stream pushValue getValueOf pval_kind pval_repr pval_valid tight unread
  by unfold_locales (metis append_tight_ex pushValue_append, metis getValueOf_unread)

end
