(* ===== verification/Kcp_Session.thy ===== *)
theory Kcp_Session
  imports Kcp_Conv Packets
begin

text \<open>
  \<open>src/network/KcpSession.h/.cpp\<close>, \<open>KcpServer.h/.cpp\<close>, \<open>KcpClient.h/.cpp\<close> and \<open>KcpEvent.h/.cpp\<close>: KCP
  sessions over one UDP socket. A server opens a session for every setup datagram and routes all other
  datagrams by their conversation number; each session drives its \<^typ>\<open>IKCPCB\<close> from a timer and from
  the datagrams that arrive, and reports messages, closing and timeouts to an event handler.

  The sessions live in a store of objects, because the event handler may delete one while a method of it
  is running: an access through a freed or \<open>NULL\<close> pointer is \<^const>\<open>None\<close>.
\<close>

section \<open>Sessions, server and event handler\<close>

definition SESSION_PACKET_SIZE :: nat where "SESSION_PACKET_SIZE = 4 + 1"
definition SETUP_SESSION_CODE :: u8 where "SETUP_SESSION_CODE = 110"

type_synonym sockaddr = "byte list"

text \<open>\<open>timer\<close> is the period of the running timer.\<close>

record KcpSession =
  m_addr :: sockaddr
  m_kcp :: "IKCPCB option"
  timer :: "u32 option"
  nTimeout :: u32
  nTalkTime :: u32
  nUpdateTime :: u32

text \<open>The virtual functions of \<open>KcpEvent\<close> that report an event; sessions are the addresses of their objects.\<close>

datatype kcp_call =
  OnUdpTimeout nat | OnAccept nat | OnConnect nat | OnClose nat | OnMsg nat int ByteBuffer

text \<open>
  The objects, the map of a server or client, the datagrams given to the UDP socket and the calls of the
  event handler so far. \<open>readings n\<close> is the \<open>n\<close>-th value \<open>XTime::iclock\<close> returns.
\<close>

record kcp_world =
  objs :: "nat \<Rightarrow> KcpSession option"
  next_obj :: nat
  mapSessions :: "u32 \<Rightarrow> nat option"
  gSessionid :: u32
  udp_out :: "(sockaddr \<times> byte list) list"
  readings :: "nat \<Rightarrow> u32"
  reading :: nat
  calls :: "kcp_call list"

type_synonym kcp_handler = "kcp_call \<Rightarrow> kcp_world \<Rightarrow> kcp_world option"

definition notify :: "kcp_handler \<Rightarrow> kcp_call \<Rightarrow> kcp_world \<Rightarrow> kcp_world option" where
  "notify ev c w = ev c (w\<lparr>calls := calls w @ [c]\<rparr>)"

definition read_clock :: "kcp_world \<Rightarrow> u32 \<times> kcp_world" where
  "read_clock w = (readings w (reading w), w\<lparr>reading := reading w + 1\<rparr>)"

definition set_obj :: "nat \<Rightarrow> KcpSession \<Rightarrow> kcp_world \<Rightarrow> kcp_world" where
  "set_obj p s w = w\<lparr>objs := (objs w)(p := Some s)\<rparr>"

text \<open>Writing back a control block: \<open>__kcpOutCallback\<close> and \<open>__udpSend\<close> have passed its output to the socket
  with the address of the session.\<close>

definition set_kcp :: "nat \<Rightarrow> KcpSession \<Rightarrow> IKCPCB \<Rightarrow> kcp_world \<Rightarrow> kcp_world" where
  "set_kcp p s k w =
     set_obj p (s\<lparr>m_kcp := Some (k\<lparr>outputs := []\<rparr>)\<rparr>)
       (w\<lparr>udp_out := udp_out w @ map (Pair (m_addr s)) (outputs k)\<rparr>)"

section \<open>\<open>KcpSessionBase\<close> and \<open>KcpSession\<close>\<close>

definition KcpSession_ctor :: "u32 \<Rightarrow> KcpSession" where
  "KcpSession_ctor tmo =
     \<lparr>m_addr = [], m_kcp = None, timer = None, nTimeout = tmo, nTalkTime = 0, nUpdateTime = 0\<rparr>"

definition session_init :: "u32 \<Rightarrow> sockaddr \<Rightarrow> KcpSession \<Rightarrow> KcpSession" where
  "session_init session_id a s = s\<lparr>m_kcp := Some (ikcp_create session_id), m_addr := a\<rparr>"

definition destory :: "KcpSession \<Rightarrow> KcpSession" where
  "destory s = (if m_kcp s \<noteq> None then s\<lparr>m_kcp := None\<rparr> else s)"

definition getSessionId :: "KcpSession \<Rightarrow> u32" where
  "getSessionId s = (case m_kcp s of None \<Rightarrow> 0 | Some k \<Rightarrow> conv k)"

definition session_createPacket :: "int \<Rightarrow> ByteBuffer" where
  "session_createPacket sz =
     (if sz > 0 then UdpPacket_initSize (nat sz) (UdpPacket_ctor []) else UdpPacket_ctor [])"

text \<open>\<open>_onMsg\<close>; \<open>getMsgType\<close> reads the first four bytes of the packet.\<close>

definition session_onMsg :: "kcp_handler \<Rightarrow> nat \<Rightarrow> ByteBuffer \<Rightarrow> kcp_world \<Rightarrow> kcp_world option" where
  "session_onMsg ev p packet w =
     (let (now, w1) = read_clock w in
      do { s \<leftarrow> objs w1 p;
           msgtype \<leftarrow> UdpPacket_getMsgType packet;
           notify ev (OnMsg p msgtype packet) (set_obj p (s\<lparr>nTalkTime := now\<rparr>) w1) })"

text \<open>The message part of \<open>KcpSessionBase::update\<close>: \<open>ikcp_recv\<close> copies the message to the start of the packet.\<close>

definition session_receive :: "kcp_handler \<Rightarrow> nat \<Rightarrow> int \<Rightarrow> kcp_world \<Rightarrow> kcp_world option" where
  "session_receive ev p peeksize w =
     do { s \<leftarrow> objs w p; k \<leftarrow> m_kcp s;
          (r, dat, k1) \<leftarrow> ikcp_recv peeksize k;
          let w1 = set_kcp p s k1 w;
          (if r > 0 then
             do { packet \<leftarrow> put 0 dat (session_createPacket peeksize);
                  session_onMsg ev p (packet\<lparr>wpos := nat peeksize\<rparr>) w1 }
           else Some w1) }"

text \<open>The pointers \<open>this\<close> and \<open>__m_kcp\<close> are used again after the handler has run.\<close>

definition session_base_update :: "kcp_handler \<Rightarrow> nat \<Rightarrow> u32 \<Rightarrow> kcp_world \<Rightarrow> (u32 \<times> kcp_world) option" where
  "session_base_update ev p millisecond w =
     do { s \<leftarrow> objs w p;
          (case m_kcp s of
             None \<Rightarrow> Some (0, w)
           | Some k \<Rightarrow>
               do { k1 \<leftarrow> ikcp_update millisecond k;
                    let w1 = set_kcp p s k1 w;
                    w2 \<leftarrow> (if ikcp_peeksize k1 > 0 then session_receive ev p (ikcp_peeksize k1) w1 else Some w1);
                    s2 \<leftarrow> objs w2 p;
                    k2 \<leftarrow> m_kcp s2;
                    Some (ikcp_check millisecond k2, w2) }) }"

text \<open>\<open>__m_nUpdateTime = KcpSessionBase::update(currt)\<close>\<close>

definition timed_update :: "kcp_handler \<Rightarrow> nat \<Rightarrow> u32 \<Rightarrow> kcp_world \<Rightarrow> kcp_world option" where
  "timed_update ev p currt w =
     do { (t, w1) \<leftarrow> session_base_update ev p currt w;
          s \<leftarrow> objs w1 p;
          Some (set_obj p (s\<lparr>nUpdateTime := t\<rparr>) w1) }"

definition updateKcp :: "kcp_handler \<Rightarrow> nat \<Rightarrow> kcp_world \<Rightarrow> kcp_world option" where
  "updateKcp ev p w = (let (currt, w1) = read_clock w in timed_update ev p currt w1)"

text \<open>\<open>KcpSession::update\<close>, the timer callback.\<close>

definition session_update :: "kcp_handler \<Rightarrow> nat \<Rightarrow> kcp_world \<Rightarrow> kcp_world option" where
  "session_update ev p w =
     (let (currt, w1) = read_clock w in
      do { s \<leftarrow> objs w1 p;
           w2 \<leftarrow> (if currt \<ge> nUpdateTime s then timed_update ev p currt w1 else Some w1);
           s2 \<leftarrow> objs w2 p;
           (if currt > nTalkTime s2 + nTimeout s2 then notify ev (OnUdpTimeout p) w2 else Some w2) })"

definition session_start :: "u32 \<Rightarrow> nat \<Rightarrow> kcp_world \<Rightarrow> kcp_world option" where
  "session_start ms p w =
     (let (now, w1) = read_clock w in
      do { s \<leftarrow> objs w1 p; Some (set_obj p (s\<lparr>nTalkTime := now, timer := Some ms\<rparr>) w1) })"

definition session_over :: "KcpSession \<Rightarrow> KcpSession" where
  "session_over s = s\<lparr>timer := None\<rparr>"

text \<open>\<open>sendMsg\<close>: \<open>send\<close> dereferences the control block, \<open>flushKcp\<close> tests it.\<close>

definition session_send :: "nat \<Rightarrow> byte list \<Rightarrow> kcp_world \<Rightarrow> kcp_world option" where
  "session_send p buf w =
     do { s \<leftarrow> objs w p; k \<leftarrow> m_kcp s; (r, k1) \<leftarrow> ikcp_send buf k; Some (set_kcp p s k1 w) }"

definition flushKcp :: "nat \<Rightarrow> kcp_world \<Rightarrow> kcp_world option" where
  "flushKcp p w =
     do { s \<leftarrow> objs w p;
          (case m_kcp s of
             None \<Rightarrow> Some w
           | Some k \<Rightarrow> do { k1 \<leftarrow> ikcp_flush k; Some (set_kcp p s k1 w) }) }"

definition session_sendPacket :: "nat \<Rightarrow> int \<Rightarrow> ByteBuffer \<Rightarrow> kcp_world \<Rightarrow> kcp_world option" where
  "session_sendPacket p msgtype pack w =
     do { pack1 \<leftarrow> UdpPacket_writeHead msgtype pack;
          w1 \<leftarrow> session_send p (UdpPacket_sendBytes pack1) w;
          flushKcp p w1 }"

definition session_sendMsg :: "nat \<Rightarrow> int \<Rightarrow> byte list \<Rightarrow> kcp_world \<Rightarrow> kcp_world option" where
  "session_sendMsg p msgtype msg w =
     do { pack \<leftarrow> append msg (session_createPacket 0); session_sendPacket p msgtype pack w }"

definition setStream :: "KcpSession \<Rightarrow> KcpSession" where
  "setStream s = (case m_kcp s of None \<Rightarrow> s | Some k \<Rightarrow> s\<lparr>m_kcp := Some (k\<lparr>stream := 1\<rparr>)\<rparr>)"

section \<open>\<open>KcpEvent\<close>, \<open>KcpServer\<close> and \<open>KcpClient\<close>\<close>

definition createConnect :: "kcp_world \<Rightarrow> nat \<times> kcp_world" where
  "createConnect w =
     (next_obj w, w\<lparr>objs := (objs w)(next_obj w := Some (KcpSession_ctor (30 * 1000))), next_obj := next_obj w + 1\<rparr>)"

text \<open>\<open>delete\<close> of an object that was deleted before is undefined.\<close>

definition destroyConnect :: "nat \<Rightarrow> kcp_world \<Rightarrow> kcp_world option" where
  "destroyConnect p w = do { _ \<leftarrow> objs w p; Some (w\<lparr>objs := (objs w)(p := None)\<rparr>) }"

definition onKcp :: "IKCPCB \<Rightarrow> u32 \<times> IKCPCB" where
  "onKcp k = (10, ikcp_nodelay 1 10 2 1 k)"

definition kcp_release :: "kcp_handler \<Rightarrow> nat \<Rightarrow> kcp_world \<Rightarrow> kcp_world option" where
  "kcp_release ev p w =
     do { s \<leftarrow> objs w p;
          w1 \<leftarrow> notify ev (OnClose p) (set_obj p (session_over (destory s)) w);
          destroyConnect p w1 }"

definition closeSession :: "kcp_handler \<Rightarrow> nat \<Rightarrow> kcp_world \<Rightarrow> kcp_world option" where
  "closeSession ev p w =
     do { s \<leftarrow> objs w p;
          (case mapSessions w (getSessionId s) of
             None \<Rightarrow> Some w
           | Some q \<Rightarrow>
               kcp_release ev p (w\<lparr>mapSessions := (mapSessions w)(getSessionId s := None)\<rparr>)) }"

text \<open>The new session of \<open>onMessage\<close>: \<open>createConnect\<close>, \<open>init\<close>, \<open>onKcp\<close>, \<open>start\<close> and the entry in the map.\<close>

definition open_session :: "u32 \<Rightarrow> sockaddr \<Rightarrow> kcp_world \<Rightarrow> (nat \<times> kcp_world) option" where
  "open_session cid a w =
     (let (p, w1) = createConnect w in
      do { s \<leftarrow> objs w1 p;
           let s1 = session_init cid a s;
           k \<leftarrow> m_kcp s1;
           let (ms, k1) = onKcp k;
           w2 \<leftarrow> session_start ms p (set_obj p (s1\<lparr>m_kcp := Some k1\<rparr>) w1);
           Some (p, w2\<lparr>mapSessions := (mapSessions w2)(cid := Some p)\<rparr>) })"

text \<open>The other branch: the datagram is input to the session of its conversation number. \<open>erase(it)\<close> of an
  iterator whose element the handler has erased is undefined.\<close>

definition route_datagram :: "kcp_handler \<Rightarrow> u32 \<Rightarrow> byte list \<Rightarrow> kcp_world \<Rightarrow> kcp_world option" where
  "route_datagram ev cid dgram w =
     (case mapSessions w cid of
        None \<Rightarrow> Some w
      | Some p \<Rightarrow>
          do { s \<leftarrow> objs w p; k \<leftarrow> m_kcp s;
               (r, k1) \<leftarrow> ikcp_input dgram k;
               let w1 = set_kcp p s k1 w;
               (if r = 0 then updateKcp ev p w1
                else do { w2 \<leftarrow> kcp_release ev p w1;
                          _ \<leftarrow> mapSessions w2 cid;
                          Some (w2\<lparr>mapSessions := (mapSessions w2)(cid := None)\<rparr>) }) })"

text \<open>\<open>onMessage\<close>: \<open>buff\<close> is the whole receive buffer of the UDP socket, of which the datagram fills the
  first \<open>len\<close> bytes; the head is read whatever \<open>len\<close> is.\<close>

definition server_onMessage :: "kcp_handler \<Rightarrow> sockaddr \<Rightarrow> byte list \<Rightarrow> int \<Rightarrow> kcp_world \<Rightarrow> kcp_world option" where
  "server_onMessage ev a buff len w =
     (if len \<le> 0 then Some w
      else
        let cid = ikcp_getconv buff; code = buff ! 4 in
        if len = int SESSION_PACKET_SIZE \<and> cid = 0 \<and> code = SETUP_SESSION_CODE then
          let w1 = w\<lparr>gSessionid := gSessionid w + 1\<rparr> in
          do { (p, w2) \<leftarrow> open_session (gSessionid w1) a w1;
               let msg = bytes_of (gSessionid w2) @ [SETUP_SESSION_CODE];
               notify ev (OnAccept p) (w2\<lparr>udp_out := udp_out w2 @ [(a, take (nat len) msg)]\<rparr>) }
        else route_datagram ev cid (take (nat len) buff) w)"

definition client_onMessage :: "kcp_handler \<Rightarrow> sockaddr \<Rightarrow> byte list \<Rightarrow> int \<Rightarrow> kcp_world \<Rightarrow> kcp_world option" where
  "client_onMessage ev a buff len w =
     (let cid = ikcp_getconv buff; code = buff ! 4 in
      if len = int SESSION_PACKET_SIZE \<and> cid > 0 \<and> code = SETUP_SESSION_CODE then
        do { (p, w1) \<leftarrow> open_session cid a w; notify ev (OnConnect p) w1 }
      else route_datagram ev cid (take (nat len) buff) w)"

text \<open>The callback of the client's socket ignores empty reads; \<open>createSession\<close> sends the setup datagram.\<close>

definition client_on_read :: "kcp_handler \<Rightarrow> int \<Rightarrow> byte list \<Rightarrow> sockaddr \<Rightarrow> kcp_world \<Rightarrow> kcp_world option" where
  "client_on_read ev nread buff a w = (if nread \<le> 0 then Some w else client_onMessage ev a buff nread w)"

definition createSession :: "sockaddr \<Rightarrow> kcp_world \<Rightarrow> kcp_world" where
  "createSession server_addr w =
     w\<lparr>udp_out := udp_out w @ [(server_addr, bytes_of (0 :: u32) @ [SETUP_SESSION_CODE])]\<rparr>"

section \<open>What a handler sees and keeps\<close>

text \<open>The part of the world that decides which sessions exist: the map, the counters and for every live object
  its conversation number and timer.\<close>

definition shape ::
  "kcp_world \<Rightarrow> (u32 \<Rightarrow> nat option) \<times> u32 \<times> nat \<times> (nat \<Rightarrow> (u32 option \<times> u32 option) option)" where
  "shape w = (mapSessions w, gSessionid w, next_obj w,
     \<lambda>p. map_option (\<lambda>s. (map_option conv (m_kcp s), timer s)) (objs w p))"

text \<open>An orderly handler may send messages. It opens no session, and it closes a session only where the comment on
  \<open>onUdpTimeout\<close> in \<open>KcpEvent.h\<close> recommends it: in the timeout call for that session, with \<open>closeSession\<close>.\<close>

definition orderly :: "kcp_handler \<Rightarrow> bool" where
  "orderly ev \<longleftrightarrow> (\<forall>c w w'. ev c w = Some w' \<longrightarrow> shape w' = shape w
     \<or> (\<exists>p w1 w2. c = OnUdpTimeout p \<and> shape w1 = shape w \<and> closeSession ev p w1 = Some w2 \<and> shape w' = shape w2))"

text \<open>Every entry of the map is a live object with that conversation number and a running timer, and every live
  object has an entry.\<close>

definition session_ok :: "kcp_world \<Rightarrow> u32 \<Rightarrow> nat \<Rightarrow> bool" where
  "session_ok w cid p \<longleftrightarrow> (\<exists>s k. objs w p = Some s \<and> m_kcp s = Some k \<and> conv k = cid \<and> timer s \<noteq> None)"

definition server_inv :: "kcp_world \<Rightarrow> bool" where
  "server_inv w \<longleftrightarrow> (\<forall>cid p. mapSessions w cid = Some p \<longrightarrow> session_ok w cid p \<and> cid \<le> gSessionid w)
     \<and> (\<forall>p. objs w p \<noteq> None \<longrightarrow> p < next_obj w \<and> (\<exists>cid. mapSessions w cid = Some p))"

lemma session_ok_shape:
  "session_ok w cid p \<longleftrightarrow> (\<exists>t. snd (snd (snd (shape w))) p = Some (Some cid, Some t))"
  by (force simp: session_ok_def shape_def)

lemma server_inv_cong:
  assumes "shape w' = shape w" shows "server_inv w' = server_inv w"
proof -
  have "mapSessions w' = mapSessions w" "gSessionid w' = gSessionid w" "next_obj w' = next_obj w"
    using assms by (simp_all add: shape_def)
  moreover have "(objs w' p = None) = (objs w p = None)" for p
    using arg_cong [OF assms, of "\<lambda>x. snd (snd (snd x)) p = None"] by (simp add: shape_def)
  ultimately show ?thesis using assms by (simp add: server_inv_def session_ok_shape)
qed

lemma shape_set_obj:
  assumes "objs w p = Some s0" and "map_option conv (m_kcp s) = map_option conv (m_kcp s0)"
    and "timer s = timer s0"
  shows "shape (set_obj p s w) = shape w"
  using assms by (auto simp: shape_def set_obj_def fun_eq_iff)

lemma shape_set_kcp:
  assumes "objs w p = Some s" and "m_kcp s = Some k0" and "conv k = conv k0"
  shows "shape (set_kcp p s k w) = shape w"
proof -
  have "shape (set_kcp p s k w) = shape (w\<lparr>udp_out := udp_out w @ map (Pair (m_addr s)) (outputs k)\<rparr>)"
    unfolding set_kcp_def by (rule shape_set_obj) (use assms in simp_all)
  then show ?thesis by (simp add: shape_def)
qed

lemma shape_read_clock [simp]: "shape (snd (read_clock w)) = shape w" "objs (snd (read_clock w)) = objs w"
  "mapSessions (snd (read_clock w)) = mapSessions w"
  by (simp_all add: read_clock_def shape_def)

lemma shape_calls [simp]: "shape (w\<lparr>calls := cs\<rparr>) = shape w"
  by (simp add: shape_def)

lemma shape_notify:
  assumes "orderly ev" and "notify ev c w = Some w'" and "\<forall>p. c \<noteq> OnUdpTimeout p"
  shows "shape w' = shape w"
  using assms unfolding notify_def orderly_def by (metis shape_calls)

lemma set_kcp_objs [simp]: "objs (set_kcp p s k w) p = Some (s\<lparr>m_kcp := Some (k\<lparr>outputs := []\<rparr>)\<rparr>)"
  by (simp add: set_kcp_def set_obj_def)

lemma shape_onMsg:
  assumes "orderly ev" and "session_onMsg ev p packet w = Some w'"
  shows "shape w' = shape w"
proof -
  from assms(2) obtain s t where s: "objs w p = Some s"
    and n: "notify ev (OnMsg p t packet)
      (set_obj p (s\<lparr>nTalkTime := fst (read_clock w)\<rparr>) (snd (read_clock w))) = Some w'"
    by (auto simp: session_onMsg_def Let_def bind_eq_Some_conv split_beta)
  have "shape (set_obj p (s\<lparr>nTalkTime := fst (read_clock w)\<rparr>) (snd (read_clock w))) = shape (snd (read_clock w))"
    by (rule shape_set_obj) (use s in simp_all)
  moreover have "shape w' = shape (set_obj p (s\<lparr>nTalkTime := fst (read_clock w)\<rparr>) (snd (read_clock w)))"
    by (rule shape_notify [OF assms(1) n]) simp
  ultimately show ?thesis by simp
qed

lemma shape_receive:
  assumes "orderly ev" and "session_receive ev p n w = Some w'"
  shows "shape w' = shape w"
proof -
  from assms(2) obtain s k r dat k1 where s: "objs w p = Some s" "m_kcp s = Some k"
    and k1: "ikcp_recv n k = Some (r, dat, k1)"
    and w': "set_kcp p s k1 w = w' \<or> (\<exists>packet. session_onMsg ev p packet (set_kcp p s k1 w) = Some w')"
    by (auto simp: session_receive_def bind_eq_Some_conv Let_def split: if_splits) blast
  have "shape (set_kcp p s k1 w) = shape w"
    by (rule shape_set_kcp) (use s conv_recv [OF k1] in simp_all)
  with w' show ?thesis using shape_onMsg [OF assms(1)] by fastforce
qed

lemma shape_base_update:
  assumes "orderly ev" and "session_base_update ev p ms w = Some (t, w')"
  shows "shape w' = shape w"
proof -
  from assms(2) obtain s where s: "objs w p = Some s" by (auto simp: session_base_update_def bind_eq_Some_conv)
  show ?thesis
  proof (cases "m_kcp s")
    case None
    with assms(2) s show ?thesis by (simp add: session_base_update_def)
  next
    case (Some k)
    with assms(2) s obtain k1 where k1: "ikcp_update ms k = Some k1"
      and w': "w' = set_kcp p s k1 w \<or> session_receive ev p (ikcp_peeksize k1) (set_kcp p s k1 w) = Some w'"
      by (auto simp: session_base_update_def bind_eq_Some_conv Let_def split: if_splits)
    have "shape (set_kcp p s k1 w) = shape w"
      by (rule shape_set_kcp) (use s Some conv_update [OF k1] in simp_all)
    with w' show ?thesis using shape_receive [OF assms(1)] by fastforce
  qed
qed

lemma shape_set_time:
  "objs w p = Some s \<Longrightarrow> shape (set_obj p (s\<lparr>nUpdateTime := t\<rparr>) w) = shape w"
  by (rule shape_set_obj) simp_all

lemma shape_timed_update:
  assumes "orderly ev" and "timed_update ev p now w = Some w'"
  shows "shape w' = shape w"
  using assms(2) shape_base_update [OF assms(1)]
  by (auto simp: timed_update_def bind_eq_Some_conv shape_set_time)

lemma shape_updateKcp: "orderly ev \<Longrightarrow> updateKcp ev p w = Some w' \<Longrightarrow> shape w' = shape w"
  by (auto simp: updateKcp_def split_beta dest: shape_timed_update)

lemma shape_session_send: "session_send p buf w = Some w' \<Longrightarrow> shape w' = shape w"
  by (auto simp: session_send_def bind_eq_Some_conv dest: conv_send intro!: shape_set_kcp)

lemma shape_flushKcp: "flushKcp p w = Some w' \<Longrightarrow> shape w' = shape w"
  by (auto simp: flushKcp_def bind_eq_Some_conv dest: conv_flush split: option.splits intro!: shape_set_kcp)

lemma shape_sendMsg: "session_sendMsg p t m w = Some w' \<Longrightarrow> shape w' = shape w"
  by (auto simp: session_sendMsg_def session_sendPacket_def bind_eq_Some_conv
      dest!: shape_session_send shape_flushKcp)

section \<open>Opening and closing\<close>

lemma open_session_shape:
  assumes "open_session cid a w = Some (p, w')"
  shows "p = next_obj w \<and> shape w' = ((mapSessions w)(cid \<mapsto> p), gSessionid w, next_obj w + 1,
    (snd (snd (snd (shape w))))(p \<mapsto> (Some cid, Some 10)))"
  using assms
  by (auto simp: open_session_def createConnect_def session_start_def read_clock_def session_init_def onKcp_def
      set_obj_def KcpSession_ctor_def shape_def Let_def conv_simps fun_eq_iff ikcp_create_def)

lemma server_inv_shape:
  "server_inv w \<longleftrightarrow> (case shape w of (m, g, n, ob) \<Rightarrow>
     (\<forall>cid p. m cid = Some p \<longrightarrow> (\<exists>t. ob p = Some (Some cid, Some t)) \<and> cid \<le> g)
     \<and> (\<forall>p. ob p \<noteq> None \<longrightarrow> p < n \<and> (\<exists>cid. m cid = Some p)))"
proof -
  have "objs w p = None \<longleftrightarrow> snd (snd (snd (shape w))) p = None" for p by (simp add: shape_def)
  then show ?thesis by (simp add: server_inv_def session_ok_shape) (simp add: shape_def)
qed

lemma open_session_inv:
  assumes "server_inv w" and "open_session cid a w = Some (p, w')" and "mapSessions w cid = None"
    and "cid \<le> gSessionid w"
  shows "server_inv w'"
proof -
  from open_session_shape [OF assms(2)] have p: "p = next_obj w"
    and sh: "shape w' = ((mapSessions w)(cid \<mapsto> p), gSessionid w, next_obj w + 1,
      (snd (snd (snd (shape w))))(p \<mapsto> (Some cid, Some 10)))" by auto
  obtain m g n ob where w: "shape w = (m, g, n, ob)" by (cases "shape w") auto
  then have e: "mapSessions w = m" "gSessionid w = g" "next_obj w = n" by (auto simp: shape_def)
  have old: "m c = Some q \<Longrightarrow> (\<exists>t. ob q = Some (Some c, Some t)) \<and> c \<le> g"
    "ob q \<noteq> None \<Longrightarrow> q < n \<and> (\<exists>c. m c = Some q)" for c q
    using assms(1) w by (auto simp: server_inv_shape)
  have "ob n = None" using old(2) [of n] by (cases "ob n") simp_all
  then have other: "q \<noteq> n" if "m c = Some q" for c q using old(1) [OF that] by auto
  have sh': "shape w' = (m(cid \<mapsto> n), g, n + 1, ob(n \<mapsto> (Some cid, Some 10)))" using sh p e w by simp
  have "(\<exists>t. (ob(n \<mapsto> (Some cid, Some 10))) q = Some (Some c, Some t)) \<and> c \<le> g"
    if "(m(cid \<mapsto> n)) c = Some q" for c q
    using that old(1) [of c q] other [of c q] assms(4) e(2) by (auto split: if_splits)
  moreover have "q < n + 1 \<and> (\<exists>c. (m(cid \<mapsto> n)) c = Some q)"
    if "(ob(n \<mapsto> (Some cid, Some 10))) q \<noteq> None" for q
  proof (cases "q = n")
    case False
    with that old(2) [of q] obtain c where c: "q < n" "m c = Some q" by auto
    with assms(3) e(1) have "c \<noteq> cid" by auto
    with c show ?thesis by auto
  qed auto
  ultimately show ?thesis unfolding server_inv_shape sh' prod.case by blast
qed

lemma release_shape:
  assumes "orderly ev" and "kcp_release ev p w = Some w'"
  shows "mapSessions w' = mapSessions w" "gSessionid w' = gSessionid w" "next_obj w' = next_obj w"
    "snd (snd (snd (shape w'))) = (snd (snd (snd (shape w))))(p := None)"
proof -
  from assms(2) obtain s w1 where s: "objs w p = Some s"
    and n: "notify ev (OnClose p) (set_obj p (session_over (destory s)) w) = Some w1"
    and w': "w' = w1\<lparr>objs := (objs w1)(p := None)\<rparr>"
    by (auto simp: kcp_release_def destroyConnect_def bind_eq_Some_conv)
  have e: "shape w1 = shape (set_obj p (session_over (destory s)) w)" by (rule shape_notify [OF assms(1) n]) simp
  have r: "snd (snd (snd (shape w1))) = (snd (snd (snd (shape w))))(p \<mapsto> (None, None))"
    unfolding e by (auto simp: shape_def set_obj_def session_over_def destory_def fun_eq_iff)
  show "mapSessions w' = mapSessions w" "gSessionid w' = gSessionid w" "next_obj w' = next_obj w"
    using e w' by (simp_all add: shape_def set_obj_def)
  show "snd (snd (snd (shape w'))) = (snd (snd (snd (shape w))))(p := None)"
  proof
    fix q
    have "snd (snd (snd (shape w'))) q = (if q = p then None else snd (snd (snd (shape w1))) q)"
      using w' by (simp add: shape_def)
    then show "snd (snd (snd (shape w'))) q = ((snd (snd (snd (shape w))))(p := None)) q" using r by simp
  qed
qed

text \<open>Removing a session: its object and its entry, in either order.\<close>

lemma remove_inv:
  assumes "server_inv w" and "mapSessions w cid = Some p"
    and "mapSessions w' = (mapSessions w)(cid := None)" and "gSessionid w' = gSessionid w"
    and "next_obj w' = next_obj w" and "snd (snd (snd (shape w'))) = (snd (snd (snd (shape w))))(p := None)"
  shows "server_inv w'"
proof -
  obtain m g n ob where w: "shape w = (m, g, n, ob)" by (cases "shape w") auto
  then have e: "mapSessions w = m" "gSessionid w = g" "next_obj w = n" by (auto simp: shape_def)
  have old: "m c = Some q \<Longrightarrow> (\<exists>t. ob q = Some (Some c, Some t)) \<and> c \<le> g"
    "ob q \<noteq> None \<Longrightarrow> q < n \<and> (\<exists>c. m c = Some q)" for c q
    using assms(1) w by (auto simp: server_inv_shape)
  have "shape w' = (m(cid := None), g, n, ob(p := None))"
    using assms(3-6) e w by (simp add: shape_def)
  moreover have "q \<noteq> p" if "m c = Some q" "c \<noteq> cid" for c q
    using old(1) [OF that(1)] old(1) [of cid p] assms(2) that(2) e(1) by auto
  moreover have "\<exists>c. c \<noteq> cid \<and> m c = Some q" if "ob q \<noteq> None" "q \<noteq> p" for q
    using old(2) [OF that(1)] assms(2) that(2) e(1) by (metis option.inject)
  ultimately show ?thesis
    using old by (auto simp: server_inv_shape) blast+
qed

lemma closeSession_inv:
  assumes "orderly ev" and "server_inv w" and "closeSession ev p w = Some w'"
  shows "server_inv w'"
proof -
  from assms(3) obtain s where s: "objs w p = Some s" by (auto simp: closeSession_def bind_eq_Some_conv)
  from assms(2) s obtain cid where cid: "mapSessions w cid = Some p" "session_ok w cid p"
    by (auto simp: server_inv_def)
  with s have id: "getSessionId s = cid" by (auto simp: session_ok_def getSessionId_def)
  let ?w = "w\<lparr>mapSessions := (mapSessions w)(cid := None)\<rparr>"
  have r: "kcp_release ev p ?w = Some w'" using assms(3) s id cid(1) by (simp add: closeSession_def)
  from release_shape [OF assms(1) r] show ?thesis
    by (intro remove_inv [OF assms(2) cid(1)]) (simp_all add: shape_def)
qed

lemma notify_inv:
  assumes "orderly ev" and "server_inv w" and "notify ev c w = Some w'"
  shows "server_inv w'"
proof -
  have "ev c (w\<lparr>calls := calls w @ [c]\<rparr>) = Some w'" using assms(3) by (simp add: notify_def)
  with assms(1) consider "shape w' = shape w"
    | p w1 w2 where "shape w1 = shape w" "closeSession ev p w1 = Some w2" "shape w' = shape w2"
    unfolding orderly_def by (metis shape_calls)
  then show ?thesis
  proof cases
    case 1
    then show ?thesis using assms(2) server_inv_cong by blast
  next
    case 2
    then have "server_inv w2" using assms(2) server_inv_cong closeSession_inv [OF assms(1)] by blast
    then show ?thesis using 2(3) server_inv_cong by blast
  qed
qed

lemma session_update_inv:
  assumes "orderly ev" and "server_inv w" and "session_update ev p w = Some w'"
  shows "server_inv w'"
proof -
  from assms(3) obtain s s2 :: KcpSession and w2 where
    "(if fst (read_clock w) \<ge> nUpdateTime s then timed_update ev p (fst (read_clock w)) (snd (read_clock w))
      else Some (snd (read_clock w))) = Some w2"
    and w': "(if fst (read_clock w) > nTalkTime s2 + nTimeout s2 then notify ev (OnUdpTimeout p) w2
      else Some w2) = Some w'"
    unfolding session_update_def Let_def split_beta bind_eq_Some_conv by (elim exE conjE) (rule that, assumption+)
  then have "shape w2 = shape w"
    by (auto dest: shape_timed_update [OF assms(1)] split: if_splits)
  then have "server_inv w2" using assms(2) server_inv_cong by blast
  with w' show ?thesis using notify_inv [OF assms(1)] by (auto split: if_splits)
qed

lemma route_datagram_inv:
  assumes "orderly ev" and "server_inv w" and "route_datagram ev cid d w = Some w'"
  shows "server_inv w'"
proof (cases "mapSessions w cid")
  case None
  with assms(2,3) show ?thesis by (simp add: route_datagram_def)
next
  case (Some p)
  with assms(3) obtain s k r k1 where s: "objs w p = Some s" "m_kcp s = Some k"
    and k1: "ikcp_input d k = Some (r, k1)"
    and w': "(if r = 0 then updateKcp ev p (set_kcp p s k1 w)
      else do { w2 \<leftarrow> kcp_release ev p (set_kcp p s k1 w); _ \<leftarrow> mapSessions w2 cid;
                Some (w2\<lparr>mapSessions := (mapSessions w2)(cid := None)\<rparr>) }) = Some w'"
    by (auto simp: route_datagram_def bind_eq_Some_conv Let_def)
  have sh: "shape (set_kcp p s k1 w) = shape w"
    by (rule shape_set_kcp) (use s conv_input [OF k1] in simp_all)
  then have inv: "server_inv (set_kcp p s k1 w)" using assms(2) server_inv_cong by blast
  show ?thesis
  proof (cases "r = 0")
    case True
    then have "updateKcp ev p (set_kcp p s k1 w) = Some w'" using w' by simp
    from server_inv_cong [OF shape_updateKcp [OF assms(1) this]] inv show ?thesis by simp
  next
    case False
    with w' obtain w2 where w2: "kcp_release ev p (set_kcp p s k1 w) = Some w2"
      "w' = w2\<lparr>mapSessions := (mapSessions w2)(cid := None)\<rparr>"
      by (auto simp: bind_eq_Some_conv)
    have m: "mapSessions (set_kcp p s k1 w) cid = Some p" using Some sh by (simp add: shape_def)
    show ?thesis
      by (rule remove_inv [OF inv m]) (use release_shape [OF assms(1) w2(1)] w2(2) in \<open>simp_all add: shape_def\<close>)
  qed
qed

section \<open>Reachable worlds\<close>

text \<open>A server from its start: datagrams of any content from any address, timer ticks, messages sent and sessions
  closed by the application between callbacks. Fewer than \<open>2 ^ 32\<close> sessions are opened.\<close>

definition world_init :: "(nat \<Rightarrow> u32) \<Rightarrow> kcp_world" where
  "world_init clk = \<lparr>objs = Map.empty, next_obj = 0, mapSessions = Map.empty, gSessionid = 0, udp_out = [],
     readings = clk, reading = 0, calls = []\<rparr>"

inductive kcp_reach :: "kcp_handler \<Rightarrow> kcp_world \<Rightarrow> bool" for ev where
  reach_init: "kcp_reach ev (world_init clk)"
| reach_message: "kcp_reach ev w \<Longrightarrow> gSessionid w < 0xffffffff \<Longrightarrow> server_onMessage ev a buff len w = Some w'
    \<Longrightarrow> kcp_reach ev w'"
| reach_tick: "kcp_reach ev w \<Longrightarrow> session_update ev p w = Some w' \<Longrightarrow> kcp_reach ev w'"
| reach_send: "kcp_reach ev w \<Longrightarrow> session_sendMsg p t msg w = Some w' \<Longrightarrow> kcp_reach ev w'"
| reach_close: "kcp_reach ev w \<Longrightarrow> closeSession ev p w = Some w' \<Longrightarrow> kcp_reach ev w'"

lemma server_message_inv:
  assumes "orderly ev" and "server_inv w" and "gSessionid w < 0xffffffff"
    and "server_onMessage ev a buff len w = Some w'"
  shows "server_inv w'"
proof (cases "len = int SESSION_PACKET_SIZE \<and> ikcp_getconv buff = 0 \<and> buff ! 4 = SETUP_SESSION_CODE")
  case True
  let ?w1 = "w\<lparr>gSessionid := gSessionid w + 1\<rparr>"
  from assms(4) True obtain p w2 d where o: "open_session (gSessionid w + 1) a ?w1 = Some (p, w2)"
    and n: "notify ev (OnAccept p) (w2\<lparr>udp_out := d\<rparr>) = Some w'"
    by (auto simp: server_onMessage_def Let_def bind_eq_Some_conv SESSION_PACKET_SIZE_def)
  have less: "gSessionid w < gSessionid w + 1" using unat_add_1_u32 [OF assms(3)] by (simp add: word_less_nat_alt)
  have inv1: "server_inv ?w1"
    using assms(2) less by (fastforce simp: server_inv_def session_ok_def)
  have "mapSessions ?w1 (gSessionid w + 1) = None"
    using assms(2) less by simp (metis leD not_None_eq server_inv_def)
  from open_session_inv [OF inv1 o this] have "server_inv w2" by simp
  then have "server_inv (w2\<lparr>udp_out := d\<rparr>)" using server_inv_cong [of "w2\<lparr>udp_out := d\<rparr>" w2] by (simp add: shape_def)
  with server_inv_cong [OF shape_notify [OF assms(1) n]] show ?thesis by simp
next
  case False
  with assms(4) have "w' = w \<or> route_datagram ev (ikcp_getconv buff) (take (nat len) buff) w = Some w'"
    by (auto simp: server_onMessage_def Let_def split: if_splits)
  with route_datagram_inv [OF assms(1,2)] assms(2) show ?thesis by blast
qed

lemma reach_server_inv: "kcp_reach ev w \<Longrightarrow> orderly ev \<Longrightarrow> server_inv w"
proof (induction rule: kcp_reach.induct)
  case (reach_init clk)
  show ?case by (simp add: world_init_def server_inv_def)
next
  case (reach_message w a buff len w')
  then show ?case using server_message_inv by blast
next
  case (reach_tick w p w')
  then show ?case using session_update_inv by blast
next
  case (reach_send w p t msg w')
  then show ?case using server_inv_cong [OF shape_sendMsg] by blast
next
  case (reach_close w p w')
  then show ?case using closeSession_inv by blast
qed

section \<open>Properties\<close>

text \<open>A handler that only takes note of what it is told.\<close>

definition note_only :: kcp_handler where
  "note_only c w = Some w"

lemma orderly_note_only: "orderly note_only"
  by (simp add: orderly_def note_only_def)

text \<open>The handler of \<open>example/cpp/kcp_server.cpp\<close>: it closes a session that has timed out.\<close>

definition close_on_timeout :: kcp_handler where
  "close_on_timeout c w = (case c of OnUdpTimeout p \<Rightarrow> closeSession note_only p w | _ \<Rightarrow> Some w)"

lemma close_on_timeout_closes: "closeSession close_on_timeout p w = closeSession note_only p w"
proof -
  have "kcp_release close_on_timeout p v = kcp_release note_only p v" for v
    by (simp add: kcp_release_def notify_def close_on_timeout_def note_only_def)
  then show ?thesis by (simp add: closeSession_def cong: option.case_cong)
qed

lemma orderly_close_on_timeout: "orderly close_on_timeout"
proof -
  have "shape w' = shape w \<or> (\<exists>p w1 w2. c = OnUdpTimeout p \<and> shape w1 = shape w
      \<and> closeSession close_on_timeout p w1 = Some w2 \<and> shape w' = shape w2)"
    if "close_on_timeout c w = Some w'" for c w w'
    using that by (cases c) (auto simp: close_on_timeout_closes, auto simp: close_on_timeout_def)
  then show ?thesis unfolding orderly_def by blast
qed

text \<open>C5. The sessions of a server are consistent in every reachable state: each entry of the map is a live
  session with that conversation number and a running timer, each live session has exactly one entry, so no
  session is leaked and no entry dangles, whatever datagrams arrive. The application closes sessions between
  callbacks; its event handler opens no session and closes one only in the timeout call for that session, and
  fewer than \<open>2 ^ 32\<close> sessions are opened.\<close>

theorem kcp_sessions_consistent:
  assumes "kcp_reach ev w" and "orderly ev"
  shows "(\<forall>cid p. mapSessions w cid = Some p \<longrightarrow>
        (\<exists>s k. objs w p = Some s \<and> m_kcp s = Some k \<and> conv k = cid \<and> timer s \<noteq> None))
    \<and> (\<forall>p s. objs w p = Some s \<longrightarrow> (\<exists>!cid. mapSessions w cid = Some p))"
proof -
  have inv: "server_inv w" by (rule reach_server_inv [OF assms])
  moreover have "c = c'" if "mapSessions w c = Some p" "mapSessions w c' = Some p" for c c' p
  proof -
    have "session_ok w c p" and "session_ok w c' p" using inv that by (simp_all add: server_inv_def)
    then show ?thesis by (auto simp: session_ok_def)
  qed
  ultimately show ?thesis by (auto simp: server_inv_def session_ok_def)
qed

lemma ikcp_getconv_setup: "ikcp_getconv (0 # 0 # 0 # 0 # bs) = 0"
  by (simp add: ikcp_getconv_def ikcp_decode32u_def of_bytes_def)

lemma setup_opens:
  assumes "ikcp_getconv buff = 0" and "buff ! 4 = SETUP_SESSION_CODE" and "g = gSessionid w + 1"
  shows "\<exists>s. server_onMessage note_only a buff 5 w =
      Some (w\<lparr>gSessionid := g, objs := (objs w)(next_obj w \<mapsto> s), next_obj := next_obj w + 1,
        mapSessions := (mapSessions w)(g \<mapsto> next_obj w), reading := reading w + 1,
        udp_out := udp_out w @ [(a, bytes_of g @ [SETUP_SESSION_CODE])],
        calls := calls w @ [OnAccept (next_obj w)]\<rparr>)
    \<and> m_kcp s = Some (ikcp_nodelay 1 10 2 1 (ikcp_create g)) \<and> m_addr s = a
    \<and> timer s = Some 10 \<and> nTalkTime s = readings w (reading w) \<and> nTimeout s = 30000"
  using assms
  by (intro exI [of _ "\<lparr>m_addr = a, m_kcp = Some (ikcp_nodelay 1 10 2 1 (ikcp_create g)), timer = Some 10,
      nTimeout = 30000, nTalkTime = readings w (reading w), nUpdateTime = 0\<rparr>"])
    (simp add: server_onMessage_def SESSION_PACKET_SIZE_def Let_def open_session_def createConnect_def
      session_start_def read_clock_def session_init_def onKcp_def set_obj_def KcpSession_ctor_def notify_def
      note_only_def)

theorem kcp_sessions_consistent_witness:
  "\<exists>w. kcp_reach close_on_timeout w \<and> mapSessions w 1 = Some 0
    \<and> (\<forall>cid p. mapSessions w cid = Some p \<longrightarrow>
        (\<exists>s k. objs w p = Some s \<and> m_kcp s = Some k \<and> conv k = cid \<and> timer s \<noteq> None))
    \<and> (\<forall>p s. objs w p = Some s \<longrightarrow> (\<exists>!cid. mapSessions w cid = Some p))"
proof -
  let ?w0 = "world_init (\<lambda>n. 0)"
  from setup_opens [of "[0, 0, 0, 0, SETUP_SESSION_CODE]" 1 ?w0 "[127]"] obtain w where
    w: "server_onMessage note_only [127] [0, 0, 0, 0, SETUP_SESSION_CODE] 5 ?w0 = Some w" "mapSessions w 1 = Some 0"
    by (auto simp: ikcp_getconv_setup world_init_def)
  then have w1: "server_onMessage close_on_timeout [127] [0, 0, 0, 0, SETUP_SESSION_CODE] 5 ?w0 = Some w"
    by (simp add: server_onMessage_def SESSION_PACKET_SIZE_def Let_def ikcp_getconv_setup notify_def note_only_def
        close_on_timeout_def)
  have "kcp_reach close_on_timeout w"
    by (rule reach_message [OF reach_init _ w1]) (simp add: world_init_def)
  with w(2) kcp_sessions_consistent [OF this orderly_close_on_timeout] show ?thesis by blast
qed

text \<open>With that handler, the timer of a session that has been silent for longer than its timeout closes the session:
  \<open>onUdpTimeout\<close> and \<open>onClose\<close> are called, its entry is removed and its object deleted, and nothing is accessed
  afterwards (here for a tick before the next update of the control block is due).\<close>

theorem kcp_timeout_closes:
  assumes "server_inv w" and "objs w p = Some s" and "readings w (reading w) < nUpdateTime s"
    and "nTalkTime s + nTimeout s < readings w (reading w)"
  shows "\<exists>cid w'. session_update close_on_timeout p w = Some w' \<and> mapSessions w cid = Some p
    \<and> objs w' = (objs w)(p := None) \<and> mapSessions w' = (mapSessions w)(cid := None)
    \<and> calls w' = calls w @ [OnUdpTimeout p, OnClose p]"
proof -
  from assms(1,2) obtain cid where cid: "mapSessions w cid = Some p" "session_ok w cid p"
    by (auto simp: server_inv_def)
  with assms(2) have "getSessionId s = cid" by (auto simp: session_ok_def getSessionId_def)
  moreover have "\<not> nUpdateTime s \<le> readings w (reading w)" using assms(3) by simp
  ultimately show ?thesis using cid(1) assms(2,4)
    by (intro exI [of _ cid]) (simp add: session_update_def read_clock_def Let_def notify_def close_on_timeout_def
        closeSession_def kcp_release_def note_only_def destroyConnect_def set_obj_def)
qed

text \<open>A setup datagram opens a session: the next number becomes its conversation number, the reply with this
  number goes to the sender, the control block runs in the fast mode with an interval of 10 ms, the timer is
  started and \<open>onAccept\<close> is called.\<close>

theorem kcp_setup_opens_session:
  assumes "length buff \<ge> 5" and "take 5 buff = [0, 0, 0, 0, 110]"
  shows "\<exists>w' s k. server_onMessage note_only a buff 5 w = Some w'
    \<and> mapSessions w' = (mapSessions w)(gSessionid w + 1 \<mapsto> next_obj w) \<and> objs w' (next_obj w) = Some s
    \<and> udp_out w' = udp_out w @ [(a, bytes_of (gSessionid w + 1) @ [110])]
    \<and> calls w' = calls w @ [OnAccept (next_obj w)]
    \<and> m_addr s = a \<and> timer s = Some 10 \<and> m_kcp s = Some k
    \<and> conv k = gSessionid w + 1 \<and> nodelay k = 1 \<and> interval k = 10 \<and> fastresend k = 2 \<and> nocwnd k = 1"
proof -
  obtain bs where b: "buff = [0, 0, 0, 0, 110] @ bs" using assms by (metis append_take_drop_id)
  from setup_opens [of buff "gSessionid w + 1" w a] b show ?thesis
    by (auto simp: ikcp_getconv_setup SETUP_SESSION_CODE_def ikcp_nodelay_def ikcp_create_def Let_def
        clamp_interval_def)
qed

theorem kcp_setup_opens_session_witness:
  "\<exists>w' s k. server_onMessage note_only [9] [0, 0, 0, 0, 110, 77] 5 (world_init (\<lambda>n. 5)) = Some w'
    \<and> mapSessions w' = [1 \<mapsto> 0] \<and> objs w' 0 = Some s
    \<and> udp_out w' = [([9], [1, 0, 0, 0, 110])] \<and> calls w' = [OnAccept 0]
    \<and> m_addr s = [9] \<and> timer s = Some 10 \<and> m_kcp s = Some k
    \<and> conv k = 1 \<and> nodelay k = 1 \<and> interval k = 10 \<and> fastresend k = 2 \<and> nocwnd k = 1"
  using kcp_setup_opens_session [of "[0, 0, 0, 0, 110, 77]" "[9]" "world_init (\<lambda>n. 5)"]
  by (simp add: world_init_def bytes_of_def)

text \<open>Anyone can close a session: a datagram shorter than a KCP head that starts with the number of a session
  closes it, from whatever address it comes.\<close>

theorem kcp_short_datagram_closes:
  assumes "server_inv w" and "mapSessions w cid = Some p" and "ikcp_getconv buff = cid" and "cid \<noteq> 0"
    and "0 < len" and "len < 24"
  shows "\<exists>w'. server_onMessage note_only a buff len w = Some w' \<and> objs w' p = None
    \<and> mapSessions w' = (mapSessions w)(cid := None) \<and> calls w' = calls w @ [OnClose p]"
proof -
  from assms(1,2) have "session_ok w cid p" by (simp add: server_inv_def)
  then obtain s k where s: "objs w p = Some s" "m_kcp s = Some k" by (auto simp: session_ok_def)
  have "nat len < 24" using assms(6) by simp
  then have "length (take (nat len) buff) < 24" by (simp add: min_def)
  then have "ikcp_input (take (nat len) buff) k = Some (-1, k)" by (simp add: ikcp_input_def)
  then show ?thesis
    using assms(2-5) s
    by (simp add: server_onMessage_def route_datagram_def kcp_release_def notify_def note_only_def
        destroyConnect_def set_kcp_def set_obj_def Let_def)
qed

theorem kcp_short_datagram_closes_witness:
  "\<exists>w w'. mapSessions w 1 = Some 0 \<and> server_onMessage note_only [66] [1, 0, 0, 0, 9] 5 w = Some w'
    \<and> objs w' 0 = None \<and> mapSessions w' = Map.empty"
proof -
  let ?w0 = "world_init (\<lambda>n. 0)"
  from setup_opens [of "[0, 0, 0, 0, SETUP_SESSION_CODE]" 1 ?w0 "[127]"] obtain w where
    w: "server_onMessage note_only [127] [0, 0, 0, 0, SETUP_SESSION_CODE] 5 ?w0 = Some w"
      "mapSessions w = [1 \<mapsto> 0]"
    by (auto simp: ikcp_getconv_setup world_init_def)
  have "kcp_reach note_only w"
    by (rule reach_message [OF reach_init _ w(1)]) (simp add: world_init_def)
  from reach_server_inv [OF this orderly_note_only] have inv: "server_inv w" .
  have "ikcp_getconv [1, 0, 0, 0, 9] = 1" by (simp add: ikcp_getconv_def ikcp_decode32u_def of_bytes_def)
  from kcp_short_datagram_closes [OF inv _ this, of 0 5 "[66]"] w(2) obtain w' where
    "server_onMessage note_only [66] [1, 0, 0, 0, 9] 5 w = Some w'" "objs w' 0 = None"
    "mapSessions w' = Map.empty" by auto
  with w(2) show ?thesis by (intro exI [of _ w] exI [of _ w']) simp
qed

text \<open>A message is ready in the receive queue of a session when its timer or a datagram runs \<open>update\<close>.\<close>

definition message_ready :: "u32 \<Rightarrow> IKCPCB \<Rightarrow> IKCPCB \<Rightarrow> byte list \<Rightarrow> IKCPCB \<Rightarrow> bool" where
  "message_ready ms k k1 dat k2 \<longleftrightarrow> ikcp_update ms k = Some k1 \<and> dat \<noteq> []
     \<and> ikcp_peeksize k1 = int (length dat)
     \<and> ikcp_recv (int (length dat)) (k1\<lparr>outputs := []\<rparr>) = Some (int (length dat), dat, k2)"

text \<open>The packet that carries it: the message overwrites the packet from its start.\<close>

definition message_packet :: "byte list \<Rightarrow> ByteBuffer" where
  "message_packet dat =
     \<lparr>rpos = 4, wpos = length dat, storage = dat @ replicate (4 - length dat) 0\<rparr>"

lemma message_packet_put:
  assumes "dat \<noteq> []"
  shows "\<exists>q. put 0 dat (session_createPacket (int (length dat))) = Some q
    \<and> q\<lparr>wpos := length dat\<rparr> = message_packet dat"
  using assms
  by (auto simp: put_def session_createPacket_def UdpPacket_initSize_def UdpPacket_ctor_def UdpPacket_zero_def
      BasePacket_ctor_def BasePacket_zero_def ByteBuffer_ctor_def UDP_PACK_HEAD_SIZE_def message_packet_def
      overwrite_def)

text \<open>With a message ready, \<open>update\<close> calls \<open>onMsg\<close> once, in a world where only this session has changed, and
  then reads the control block of the session again.\<close>

lemma update_calls_onMsg:
  assumes s: "objs w p = Some s" "m_kcp s = Some k" and m: "message_ready ms k k1 dat k2"
  shows "\<exists>w1 s1 t. session_base_update ev p ms w =
      Option.bind (notify ev (OnMsg p t (message_packet dat)) w1)
        (\<lambda>w2. Option.bind (objs w2 p) (\<lambda>s2. Option.bind (m_kcp s2) (\<lambda>k. Some (ikcp_check ms k, w2))))
    \<and> UdpPacket_getMsgType (message_packet dat) = Some t
    \<and> objs w1 = (objs w)(p \<mapsto> s1) \<and> m_kcp s1 = Some (k2\<lparr>outputs := []\<rparr>)
    \<and> mapSessions w1 = mapSessions w \<and> calls w1 = calls w"
proof -
  let ?s1 = "s\<lparr>m_kcp := Some (k1\<lparr>outputs := []\<rparr>)\<rparr>" and ?w1 = "set_kcp p s k1 w"
  let ?s2 = "?s1\<lparr>m_kcp := Some (k2\<lparr>outputs := []\<rparr>)\<rparr>" and ?w2 = "set_kcp p ?s1 k2 ?w1"
  let ?w3 = "set_obj p (?s2\<lparr>nTalkTime := fst (read_clock ?w2)\<rparr>) (snd (read_clock ?w2))"
  from m have d: "dat \<noteq> []" by (simp add: message_ready_def)
  from message_packet_put [OF d] obtain q where q: "put 0 dat (session_createPacket (int (length dat))) = Some q"
    "q\<lparr>wpos := length dat\<rparr> = message_packet dat" by blast
  have "4 \<le> length (storage (message_packet dat))" by (simp add: message_packet_def)
  then obtain t where t: "UdpPacket_getMsgType (message_packet dat) = Some t"
    by (simp add: UdpPacket_getMsgType_def getValue_def size_of_def)
  have "session_receive ev p (int (length dat)) ?w1 = notify ev (OnMsg p t (message_packet dat)) ?w3"
    using m d q t by (simp add: session_receive_def session_onMsg_def message_ready_def Let_def split_beta)
  then have "session_base_update ev p ms w = Option.bind (notify ev (OnMsg p t (message_packet dat)) ?w3)
      (\<lambda>w2. Option.bind (objs w2 p) (\<lambda>s2. Option.bind (m_kcp s2) (\<lambda>k. Some (ikcp_check ms k, w2))))"
    using s m d by (simp add: session_base_update_def message_ready_def Let_def)
  moreover have "objs ?w3 = (objs w)(p \<mapsto> ?s2\<lparr>nTalkTime := fst (read_clock ?w2)\<rparr>)"
    "mapSessions ?w3 = mapSessions w" "calls ?w3 = calls w"
    by (simp_all add: set_obj_def set_kcp_def read_clock_def fun_eq_iff)
  moreover have "m_kcp (?s2\<lparr>nTalkTime := fst (read_clock ?w2)\<rparr>) = Some (k2\<lparr>outputs := []\<rparr>)" by simp
  ultimately show ?thesis using t by blast
qed

text \<open>A session in which a one fragment message waits between two flushes.\<close>

definition demo_kcb :: "byte list \<Rightarrow> IKCPCB" where
  "demo_kcb dat = (ikcp_create 7)
     \<lparr>ts_flush := 10, updated := 1, nrcv_que := 1, rcv_queue := [ikcp_segment_new dat]\<rparr>"

definition demo_world :: "byte list \<Rightarrow> kcp_world" where
  "demo_world dat = (world_init (\<lambda>n. 0))\<lparr>mapSessions := [7 \<mapsto> 0], next_obj := 1,
     objs := [0 \<mapsto> (KcpSession_ctor 30000)\<lparr>m_kcp := Some (demo_kcb dat), timer := Some 10\<rparr>]\<rparr>"

lemma demo_ready:
  assumes "dat \<noteq> []" and "length dat < 4096"
  shows "\<exists>k1 k2. message_ready 0 (demo_kcb dat) k1 dat k2"
proof -
  have l: "unat (word_of_nat (length dat) :: u32) = length dat" using assms(2) by (simp add: unat_word_of_nat_u32)
  then have u: "uint (word_of_nat (length dat) :: u32) = int (length dat)" by (metis of_nat_unat)
  show ?thesis
    using assms
    by (simp add: message_ready_def demo_kcb_def ikcp_update_def update_clock_def itimediff_def ikcp_create_def
        ikcp_peeksize_def ikcp_segment_new_def ikcp_recv_def delete_merged_def u sint_word_of_nat_u32 to_i32_id Let_def)
qed

lemma demo_objs: "objs (demo_world dat) 0 =
    Some ((KcpSession_ctor 30000)\<lparr>m_kcp := Some (demo_kcb dat), timer := Some 10\<rparr>)"
  "mapSessions (demo_world dat) = [7 \<mapsto> 0]" "conv (demo_kcb dat) = 7" "calls (demo_world dat) = []"
  by (simp_all add: demo_world_def demo_kcb_def ikcp_create_def world_init_def)

text \<open>A message that is ready is handed to \<open>onMsg\<close> by the next \<open>update\<close>, with its first four bytes as its type
  and the rest as the data a script reads.\<close>

theorem kcp_update_delivers:
  assumes "objs w p = Some s" and "m_kcp s = Some k" and "message_ready ms k k1 dat k2"
    and "4 \<le> length dat" and "length dat < 2 ^ 31"
  shows "\<exists>t w' packet. session_base_update note_only p ms w = Some (t, w')
    \<and> calls w' = calls w @ [OnMsg p (sint (of_bytes (take 4 dat) :: u32)) packet]
    \<and> readData packet = Some (drop 4 dat)"
proof -
  from update_calls_onMsg [OF assms(1-3), of note_only] obtain w1 s1 t where
    u: "session_base_update note_only p ms w =
      Option.bind (notify note_only (OnMsg p t (message_packet dat)) w1)
        (\<lambda>w2. Option.bind (objs w2 p) (\<lambda>s2. Option.bind (m_kcp s2) (\<lambda>k. Some (ikcp_check ms k, w2))))"
    "UdpPacket_getMsgType (message_packet dat) = Some t" "objs w1 = (objs w)(p \<mapsto> s1)"
    "m_kcp s1 = Some (k2\<lparr>outputs := []\<rparr>)" "calls w1 = calls w" by blast
  have "t = sint (of_bytes (take 4 dat) :: u32)"
    using u(2) assms(4)
    by (auto simp: UdpPacket_getMsgType_def getValue_def message_packet_def size_of_def read_at_def
        EndianConvert_id split: if_splits)
  moreover have "readData (message_packet dat) = Some (drop 4 dat)"
    using assms(4,5) by (simp add: readData_def activeSize_def message_packet_def to_i32_id read_at_def
        to_size_def Let_def flip: of_nat_diff)
  ultimately show ?thesis using u by (auto simp: notify_def note_only_def)
qed

theorem kcp_update_delivers_witness:
  "\<exists>t w' packet. session_base_update note_only 0 0 (demo_world [5, 0, 0, 0, 65, 66]) = Some (t, w')
    \<and> calls w' = [OnMsg 0 5 packet] \<and> readData packet = Some [65, 66]"
proof -
  obtain k1 k2 where "message_ready 0 (demo_kcb [5, 0, 0, 0, 65, 66]) k1 [5, 0, 0, 0, 65, 66] k2"
    using demo_ready [of "[5, 0, 0, 0, 65, 66]"] by auto
  from kcp_update_delivers [OF demo_objs(1) _ this] show ?thesis
    by (simp add: demo_objs of_bytes_def)
qed

text \<open>A peer can crash a server that reads its messages: a message of fewer than four bytes is handed to
  \<open>onMsg\<close> in a packet whose \<open>readData\<close> extends past the storage, because \<open>wpos\<close> is set before \<open>rpos\<close>.\<close>

theorem kcp_short_message_overread:
  assumes "objs w p = Some s" and "m_kcp s = Some k" and "message_ready ms k k1 dat k2"
    and "length dat < 4"
  shows "\<exists>r w' t packet. session_base_update note_only p ms w = Some (r, w')
    \<and> calls w' = calls w @ [OnMsg p t packet] \<and> readData packet = None"
proof -
  from update_calls_onMsg [OF assms(1-3), of note_only] obtain w1 s1 t where
    u: "session_base_update note_only p ms w =
      Option.bind (notify note_only (OnMsg p t (message_packet dat)) w1)
        (\<lambda>w2. Option.bind (objs w2 p) (\<lambda>s2. Option.bind (m_kcp s2) (\<lambda>k. Some (ikcp_check ms k, w2))))"
    "objs w1 = (objs w)(p \<mapsto> s1)" "m_kcp s1 = Some (k2\<lparr>outputs := []\<rparr>)" "calls w1 = calls w" by blast
  have "length dat = 0 \<or> length dat = 1 \<or> length dat = 2 \<or> length dat = 3" using assms(4) by linarith
  then have "readData (message_packet dat) = None"
    by (auto simp: readData_def activeSize_def message_packet_def to_i32_def to_size_def Let_def)
  with u show ?thesis by (auto simp: notify_def note_only_def)
qed

theorem kcp_short_message_overread_witness:
  "\<exists>r w' t packet. session_base_update note_only 0 0 (demo_world [1]) = Some (r, w')
    \<and> calls w' = [OnMsg 0 t packet] \<and> readData packet = None"
proof -
  obtain k1 k2 where "message_ready 0 (demo_kcb [1]) k1 [1] k2" using demo_ready [of "[1]"] by auto
  from kcp_short_message_overread [OF demo_objs(1) _ this] show ?thesis by (simp add: demo_objs)
qed

definition close_on_msg :: kcp_handler where
  "close_on_msg c w = (case c of OnMsg p t packet \<Rightarrow> closeSession note_only p w | _ \<Rightarrow> Some w)"

text \<open>Closing a session from its own message handler is a use after free: \<open>update\<close> continues with the control
  block of the deleted session.\<close>

theorem kcp_close_in_onMsg_undefined:
  assumes "objs w p = Some s" and "m_kcp s = Some k" and "message_ready ms k k1 dat k2"
    and "mapSessions w (conv k) = Some p"
  shows "session_base_update close_on_msg p ms w = None"
proof -
  from update_calls_onMsg [OF assms(1-3), of close_on_msg] obtain w1 s1 t where
    u: "session_base_update close_on_msg p ms w =
      Option.bind (notify close_on_msg (OnMsg p t (message_packet dat)) w1)
        (\<lambda>w2. Option.bind (objs w2 p) (\<lambda>s2. Option.bind (m_kcp s2) (\<lambda>k. Some (ikcp_check ms k, w2))))"
    "objs w1 = (objs w)(p \<mapsto> s1)" "m_kcp s1 = Some (k2\<lparr>outputs := []\<rparr>)" "mapSessions w1 = mapSessions w"
    by blast
  have "conv k2 = conv k"
    using assms(3) conv_recv [of "int (length dat)" "k1\<lparr>outputs := []\<rparr>"] conv_update [of ms k k1]
    by (auto simp: message_ready_def)
  then have "\<exists>w2. notify close_on_msg (OnMsg p t (message_packet dat)) w1 = Some w2 \<and> objs w2 p = None"
    using u(2-4) assms(4)
    by (simp add: notify_def close_on_msg_def closeSession_def getSessionId_def kcp_release_def note_only_def
        destroyConnect_def set_obj_def)
  with u(1) show ?thesis by auto
qed

theorem kcp_close_in_onMsg_undefined_witness:
  "session_base_update close_on_msg 0 0 (demo_world [1, 2, 3, 4]) = None"
proof -
  obtain k1 k2 where "message_ready 0 (demo_kcb [1, 2, 3, 4]) k1 [1, 2, 3, 4] k2"
    using demo_ready [of "[1, 2, 3, 4]"] by auto
  from kcp_close_in_onMsg_undefined [OF demo_objs(1) _ this] show ?thesis by (simp add: demo_objs)
qed

text \<open>A setup reply that arrives twice, as UDP allows, leaks a session of the client: the second session takes
  over the entry of the first, which lives on with its timer; closing the first one then removes the entry of
  the second, which can neither receive nor be closed any more.\<close>

theorem kcp_client_duplicate_reply_leaks:
  assumes "ikcp_getconv buff = cid" and "cid > 0" and "buff ! 4 = 110" and "\<forall>q \<ge> next_obj w. objs w q = None"
    and "p = next_obj w" and "q = p + 1"
  shows "\<exists>w1 w2 w3. client_onMessage note_only a buff 5 w = Some w1
    \<and> client_onMessage note_only a buff 5 w1 = Some w2
    \<and> mapSessions w2 = (mapSessions w)(cid \<mapsto> q) \<and> (\<exists>s. objs w2 p = Some s \<and> timer s = Some 10)
    \<and> closeSession note_only p w2 = Some w3 \<and> mapSessions w3 cid = None
    \<and> (\<exists>s. objs w3 q = Some s \<and> timer s = Some 10) \<and> closeSession note_only q w3 = Some w3"
proof -
  have o: "\<exists>s. client_onMessage note_only a buff 5 v = Some (v\<lparr>objs := (objs v)(next_obj v \<mapsto> s),
      next_obj := next_obj v + 1, reading := reading v + 1, mapSessions := (mapSessions v)(cid \<mapsto> next_obj v),
      calls := calls v @ [OnConnect (next_obj v)]\<rparr>)
    \<and> getSessionId s = cid \<and> timer s = Some 10 \<and> (\<exists>k. m_kcp s = Some k)" for v
    using assms(1-3)
    by (intro exI [of _ "\<lparr>m_addr = a, m_kcp = Some (ikcp_nodelay 1 10 2 1 (ikcp_create cid)), timer = Some 10,
        nTimeout = 30000, nTalkTime = readings v (reading v), nUpdateTime = 0\<rparr>"])
      (simp add: client_onMessage_def SESSION_PACKET_SIZE_def SETUP_SESSION_CODE_def Let_def open_session_def
        createConnect_def session_start_def read_clock_def session_init_def onKcp_def set_obj_def KcpSession_ctor_def
        notify_def note_only_def getSessionId_def conv_simps ikcp_create_def)
  from o [of w] obtain s1 where
    w1: "client_onMessage note_only a buff 5 w = Some (w\<lparr>objs := (objs w)(p \<mapsto> s1), next_obj := p + 1,
      reading := reading w + 1, mapSessions := (mapSessions w)(cid \<mapsto> p), calls := calls w @ [OnConnect p]\<rparr>)"
      (is "_ = Some ?w1") and s1: "getSessionId s1 = cid" "timer s1 = Some 10" "\<exists>k. m_kcp s1 = Some k"
    using assms(5) by auto
  from o [of ?w1] obtain s2 where
    w2: "client_onMessage note_only a buff 5 ?w1 = Some (?w1\<lparr>objs := (objs ?w1)(q \<mapsto> s2), next_obj := q + 1,
      reading := reading ?w1 + 1, mapSessions := (mapSessions ?w1)(cid \<mapsto> q), calls := calls ?w1 @ [OnConnect q]\<rparr>)"
      (is "_ = Some ?w2") and s2: "getSessionId s2 = cid" "timer s2 = Some 10"
    using assms(6) by auto
  have objs2: "objs ?w2 p = Some s1" "objs ?w2 q = Some s2" "mapSessions ?w2 = (mapSessions w)(cid \<mapsto> q)"
    using assms(6) by auto
  have "\<exists>w3. closeSession note_only p ?w2 = Some w3 \<and> mapSessions w3 = (mapSessions w)(cid := None)
      \<and> objs w3 q = Some s2"
    using objs2 s1(1) assms(6)
    by (simp add: closeSession_def kcp_release_def notify_def note_only_def destroyConnect_def set_obj_def)
  then obtain w3 where w3: "closeSession note_only p ?w2 = Some w3" "mapSessions w3 cid = None"
    "objs w3 q = Some s2" by auto
  then have "closeSession note_only q w3 = Some w3" using s2(1) by (simp add: closeSession_def)
  then show ?thesis using w1 w2 w3 s1 s2 objs2 by blast
qed

theorem kcp_client_duplicate_reply_leaks_witness:
  "\<exists>w1 w2 w3. client_onMessage note_only [9] [7, 0, 0, 0, 110] 5 (world_init (\<lambda>n. 0)) = Some w1
    \<and> client_onMessage note_only [9] [7, 0, 0, 0, 110] 5 w1 = Some w2
    \<and> mapSessions w2 = [7 \<mapsto> 1] \<and> (\<exists>s. objs w2 0 = Some s \<and> timer s = Some 10)
    \<and> closeSession note_only 0 w2 = Some w3 \<and> mapSessions w3 7 = None
    \<and> (\<exists>s. objs w3 1 = Some s \<and> timer s = Some 10) \<and> closeSession note_only 1 w3 = Some w3"
proof -
  have "ikcp_getconv [7, 0, 0, 0, 110] = 7" by (simp add: ikcp_getconv_def ikcp_decode32u_def of_bytes_def)
  from kcp_client_duplicate_reply_leaks [OF this, of "world_init (\<lambda>n. 0)" 0 1 "[9]"] show ?thesis
    by (simp add: world_init_def)
qed

end
