(* ===== verification/Binary_Heap.thy ===== *)
theory Binary_Heap
  imports Prelude
begin

text \<open>
  \<open>src/common/Heap.h/.cpp\<close>: the intrusive binary heap of the timers, at the level of its pointers. A node is an
  address, a link is \<^const>\<open>None\<close> for \<open>NULL\<close>, and a dereferenced \<open>NULL\<close> or a loop that does not
  end is \<^const>\<open>None\<close> as a result. The heap holds fewer than \<open>2 ^ 32 - 1\<close> nodes, so that \<open>nelts\<close> and the
  paths are natural numbers. The second half shows that the pointer operations implement a priority queue.
\<close>

section \<open>The pointer structure\<close>

type_synonym addr = nat
type_synonym ptr = "addr option"

record heap_node =
  left :: ptr
  right :: ptr
  parent :: ptr

record heap =
  hmin :: ptr
  nelts :: nat
  node :: "addr \<Rightarrow> heap_node"

definition heap_init :: "heap \<Rightarrow> heap" where
  "heap_init h = h\<lparr>hmin := None, nelts := 0\<rparr>"

definition heap_min :: "heap \<Rightarrow> ptr" where
  "heap_min h = hmin h"

definition upd :: "addr \<Rightarrow> (heap_node \<Rightarrow> heap_node) \<Rightarrow> heap \<Rightarrow> heap" where
  "upd a f h = h\<lparr>node := (node h)(a := f (node h a))\<rparr>"

definition set_parent_if :: "ptr \<Rightarrow> addr \<Rightarrow> heap \<Rightarrow> heap" where
  "set_parent_if p q h = (case p of None \<Rightarrow> h | Some a \<Rightarrow> upd a (\<lambda>n. n\<lparr>parent := Some q\<rparr>) h)"

text \<open>
  \<open>heap_node_swap(heap, p, c)\<close>: the contents are exchanged (\<open>swap_contents\<close>), the old child is linked to the
  old parent (\<open>swap_child\<close>, with the sibling), and the link from above follows (\<open>swap_link\<close>).
\<close>

definition swap_contents :: "addr \<Rightarrow> addr \<Rightarrow> heap \<Rightarrow> heap" where
  "swap_contents p c h =
     (let t = node h p;
          h1 = upd p (\<lambda>_. node h c) h;
          h2 = upd c (\<lambda>_. t) h1
      in upd p (\<lambda>n. n\<lparr>parent := Some c\<rparr>) h2)"

definition swap_child :: "addr \<Rightarrow> addr \<Rightarrow> heap \<Rightarrow> ptr \<times> heap" where
  "swap_child p c h =
     (if left (node h c) = Some c then (right (node h c), upd c (\<lambda>n. n\<lparr>left := Some p\<rparr>) h)
      else (left (node h c), upd c (\<lambda>n. n\<lparr>right := Some p\<rparr>) h))"

definition swap_link :: "addr \<Rightarrow> addr \<Rightarrow> heap \<Rightarrow> heap" where
  "swap_link p c h =
     (case parent (node h c) of
        None \<Rightarrow> h\<lparr>hmin := Some c\<rparr>
      | Some g \<Rightarrow>
          if left (node h g) = Some p then upd g (\<lambda>n. n\<lparr>left := Some c\<rparr>) h
          else upd g (\<lambda>n. n\<lparr>right := Some c\<rparr>) h)"

definition heap_node_swap :: "addr \<Rightarrow> addr \<Rightarrow> heap \<Rightarrow> heap" where
  "heap_node_swap p c h =
     (let (sibling, h4) = swap_child p c (swap_contents p c h);
          h5 = set_parent_if sibling c h4;
          h6 = set_parent_if (left (node h5 p)) p h5;
          h7 = set_parent_if (right (node h6 p)) p h6
      in swap_link p c h7)"

text \<open>The path from the root to a position, and the links followed on it. A \<open>heap_node**\<close> is a slot.\<close>

datatype slot = SMin | SLeft addr | SRight addr

fun read_slot :: "slot \<Rightarrow> heap \<Rightarrow> ptr" where
  "read_slot SMin h = hmin h"
| "read_slot (SLeft a) h = left (node h a)"
| "read_slot (SRight a) h = right (node h a)"

fun write_slot :: "slot \<Rightarrow> ptr \<Rightarrow> heap \<Rightarrow> heap" where
  "write_slot SMin p h = h\<lparr>hmin := p\<rparr>"
| "write_slot (SLeft a) p h = upd a (\<lambda>n. n\<lparr>left := p\<rparr>) h"
| "write_slot (SRight a) p h = upd a (\<lambda>n. n\<lparr>right := p\<rparr>) h"

fun path_loop :: "nat \<Rightarrow> nat \<Rightarrow> nat \<Rightarrow> nat \<times> nat" where
  "path_loop n k path = (if n \<ge> 2 then path_loop (n div 2) (k + 1) (2 * path + n mod 2) else (k, path))"

declare path_loop.simps [simp del]

fun descend :: "nat \<Rightarrow> nat \<Rightarrow> slot \<Rightarrow> slot \<Rightarrow> heap \<Rightarrow> (slot \<times> slot) option" where
  "descend 0 path prev cur h = Some (prev, cur)"
| "descend (Suc k) path prev cur h =
     (case read_slot cur h of
        None \<Rightarrow> None
      | Some a \<Rightarrow> descend k (path div 2) cur (if odd path then SRight a else SLeft a) h)"

text \<open>The loops that restore the order; \<open>lt\<close> is the callback \<open>less_than\<close>.\<close>

partial_function (option) sift_up :: "(addr \<Rightarrow> addr \<Rightarrow> bool) \<Rightarrow> addr \<Rightarrow> heap \<Rightarrow> heap option" where
  "sift_up lt c h =
     (case parent (node h c) of
        None \<Rightarrow> Some h
      | Some p \<Rightarrow> if lt c p then sift_up lt c (heap_node_swap p c h) else Some h)"

definition smallest_child :: "(addr \<Rightarrow> addr \<Rightarrow> bool) \<Rightarrow> addr \<Rightarrow> heap \<Rightarrow> addr" where
  "smallest_child lt c h =
     (let s1 = (case left (node h c) of Some l \<Rightarrow> if lt l c then l else c | None \<Rightarrow> c)
      in case right (node h c) of Some r \<Rightarrow> if lt r s1 then r else s1 | None \<Rightarrow> s1)"

partial_function (option) sift_down :: "(addr \<Rightarrow> addr \<Rightarrow> bool) \<Rightarrow> addr \<Rightarrow> heap \<Rightarrow> heap option" where
  "sift_down lt c h =
     (let s = smallest_child lt c h in
      if s = c then Some h else sift_down lt c (heap_node_swap c s h))"

definition heap_insert :: "(addr \<Rightarrow> addr \<Rightarrow> bool) \<Rightarrow> addr \<Rightarrow> heap \<Rightarrow> heap option" where
  "heap_insert lt a h =
     (let h1 = upd a (\<lambda>_. \<lparr>left = None, right = None, parent = None\<rparr>) h;
          (k, path) = path_loop (1 + nelts h1) 0 0
      in case descend k path SMin SMin h1 of
           None \<Rightarrow> None
         | Some (prev, cur) \<Rightarrow>
             let h2 = upd a (\<lambda>n. n\<lparr>parent := read_slot prev h1\<rparr>) h1;
                 h3 = write_slot cur (Some a) h2
             in sift_up lt a (h3\<lparr>nelts := nelts h3 + 1\<rparr>))"

text \<open>The node \<open>a\<close> is replaced by the node \<open>c\<close>.\<close>

definition replace_node :: "addr \<Rightarrow> addr \<Rightarrow> heap \<Rightarrow> heap" where
  "replace_node a c h =
     (let h1 = upd c (\<lambda>_. node h a) h;
          h2 = set_parent_if (left (node h1 c)) c h1;
          h3 = set_parent_if (right (node h2 c)) c h2
      in case parent (node h3 a) of
           None \<Rightarrow> h3\<lparr>hmin := Some c\<rparr>
         | Some g \<Rightarrow>
             if left (node h3 g) = Some a then upd g (\<lambda>n. n\<lparr>left := Some c\<rparr>) h3
             else upd g (\<lambda>n. n\<lparr>right := Some c\<rparr>) h3)"

definition heap_remove :: "(addr \<Rightarrow> addr \<Rightarrow> bool) \<Rightarrow> addr \<Rightarrow> heap \<Rightarrow> heap option" where
  "heap_remove lt a h =
     (if nelts h = 0 then Some h
      else
        let (k, path) = path_loop (nelts h) 0 0
        in case descend k path SMin SMin h of
             None \<Rightarrow> None
           | Some (prev, mx) \<Rightarrow>
               let h1 = h\<lparr>nelts := nelts h - 1\<rparr>;
                   child = read_slot mx h1;
                   h2 = write_slot mx None h1
               in case child of
                    None \<Rightarrow> None
                  | Some c \<Rightarrow>
                      if c = a then Some (if Some c = hmin h2 then h2\<lparr>hmin := None\<rparr> else h2)
                      else do { h3 \<leftarrow> sift_down lt c (replace_node a c h2); sift_up lt c h3 })"

text \<open>With a \<open>NULL\<close> root, \<open>heap_remove\<close> is called with \<open>NULL\<close>: it returns at once for a count of 0, takes the
  (absent) root for the last node for a count of 1, and walks through \<open>NULL\<close> otherwise.\<close>

definition heap_dequeue :: "(addr \<Rightarrow> addr \<Rightarrow> bool) \<Rightarrow> heap \<Rightarrow> heap option" where
  "heap_dequeue lt h =
     (case hmin h of
        None \<Rightarrow> (if nelts h = 0 then Some h else if nelts h = 1 then Some (h\<lparr>nelts := 0\<rparr>) else None)
      | Some a \<Rightarrow> heap_remove lt a h)"

section \<open>The array view\<close>

text \<open>The nodes of a complete tree are numbered from 1; the children of \<open>i\<close> are \<open>2 * i\<close> and \<open>2 * i + 1\<close>.\<close>

definition link_to :: "(nat \<Rightarrow> addr) \<Rightarrow> nat \<Rightarrow> nat \<Rightarrow> ptr" where
  "link_to f n i = (if 1 \<le> i \<and> i \<le> n then Some (f i) else None)"

definition node_at :: "(nat \<Rightarrow> addr) \<Rightarrow> nat \<Rightarrow> nat \<Rightarrow> heap_node" where
  "node_at f n i = \<lparr>left = link_to f n (2 * i), right = link_to f n (2 * i + 1), parent = link_to f n (i div 2)\<rparr>"

definition heap_rep :: "(nat \<Rightarrow> addr) \<Rightarrow> nat \<Rightarrow> heap \<Rightarrow> bool" where
  "heap_rep f n h \<longleftrightarrow> inj_on f {1..n} \<and> nelts h = n \<and> hmin h = link_to f n 1
     \<and> (\<forall>i\<in>{1..n}. node h (f i) = node_at f n i)"

definition swap_at :: "(nat \<Rightarrow> addr) \<Rightarrow> nat \<Rightarrow> nat \<Rightarrow> nat \<Rightarrow> addr" where
  "swap_at f i j = f(i := f j, j := f i)"

text \<open>The slot that holds the link to position \<open>i\<close>, and the transposition of two positions.\<close>

definition slot_at :: "(nat \<Rightarrow> addr) \<Rightarrow> nat \<Rightarrow> slot" where
  "slot_at f i = (if i \<le> 1 then SMin else if even i then SLeft (f (i div 2)) else SRight (f (i div 2)))"

lemma link_to_swap:
  "1 \<le> p \<Longrightarrow> p \<le> n \<Longrightarrow> 1 \<le> c \<Longrightarrow> c \<le> n \<Longrightarrow>
   link_to (swap_at f p c) n j = link_to f n (if j = p then c else if j = c then p else j)"
  by (auto simp: link_to_def swap_at_def)

lemma swap_at_apply: "swap_at f p c i = f (if i = p then c else if i = c then p else i)"
  by (simp add: swap_at_def)

lemma link_to_in [simp]: "1 \<le> i \<Longrightarrow> i \<le> n \<Longrightarrow> link_to f n i = Some (f i)"
  by (simp add: link_to_def)

lemma link_to_0 [simp]: "link_to f n 0 = None"
  by (simp add: link_to_def)

lemma link_to_out [simp]: "n < i \<Longrightarrow> link_to f n i = None"
  by (simp add: link_to_def)

lemma heap_rep_inj:
  "inj_on f {1..n} \<Longrightarrow> 1 \<le> i \<Longrightarrow> i \<le> n \<Longrightarrow> 1 \<le> j \<Longrightarrow> j \<le> n \<Longrightarrow> f i = f j \<longleftrightarrow> i = j"
  by (auto dest: inj_onD)

lemma link_to_eq_Some:
  "inj_on f {1..n} \<Longrightarrow> 1 \<le> j \<Longrightarrow> j \<le> n \<Longrightarrow> link_to f n i = Some (f j) \<longleftrightarrow> i = j"
  by (auto simp: link_to_def dest: inj_onD)

lemma node_upd_at:
  "inj_on f {1..n} \<Longrightarrow> 1 \<le> i \<Longrightarrow> i \<le> n \<Longrightarrow> 1 \<le> j \<Longrightarrow> j \<le> n \<Longrightarrow>
   node (upd (f j) g h) (f i) = (if i = j then g (node h (f i)) else node h (f i))"
  by (auto simp: upd_def dest: inj_onD)

lemma node_set_parent_at:
  "inj_on f {1..n} \<Longrightarrow> 1 \<le> i \<Longrightarrow> i \<le> n \<Longrightarrow>
   node (set_parent_if (link_to f n j) q h) (f i)
     = (if i = j then (node h (f i))\<lparr>parent := Some q\<rparr> else node h (f i))"
  by (auto simp: set_parent_if_def link_to_def upd_def dest: inj_onD)

lemma upd_fields [simp]: "hmin (upd a g h) = hmin h" "nelts (upd a g h) = nelts h"
  by (simp_all add: upd_def)

lemma set_parent_fields [simp]:
  "hmin (set_parent_if p q h) = hmin h" "nelts (set_parent_if p q h) = nelts h"
  by (simp_all add: set_parent_if_def split: option.split)

lemma heap_rep_node:
  "heap_rep f n h \<Longrightarrow> 1 \<le> i \<Longrightarrow> i \<le> n \<Longrightarrow> node h (f i) = node_at f n i"
  by (simp add: heap_rep_def)

lemma inj_on_swap_at:
  "inj_on f {1..n} \<Longrightarrow> 1 \<le> p \<Longrightarrow> p \<le> n \<Longrightarrow> 1 \<le> c \<Longrightarrow> c \<le> n \<Longrightarrow> inj_on (swap_at f p c) {1..n}"
  by (rule inj_onI) (auto simp: swap_at_def heap_rep_inj split: if_splits)

text \<open>The store after the first three assignments and the link of the sibling, position by position.\<close>

lemma swap_link_at:
  assumes inj: "inj_on f {1..n}" and ip: "1 \<le> i" "i \<le> n" "1 \<le> p" "p \<le> n" and c: "1 \<le> c" "c \<le> n"
    and par: "parent (node h (f c)) = link_to f n (p div 2)"
    and gl: "2 \<le> p \<longrightarrow> left (node h (f (p div 2))) = link_to f n (2 * (p div 2))"
  shows "node (swap_link (f p) (f c) h) (f i) =
     (if i = p div 2 then if p = 2 * i then (node h (f i))\<lparr>left := Some (f c)\<rparr> else (node h (f i))\<lparr>right := Some (f c)\<rparr>
      else node h (f i))"
    and "hmin (swap_link (f p) (f c) h) = (if p = 1 then Some (f c) else hmin h)"
    and "nelts (swap_link (f p) (f c) h) = nelts h"
proof -
  have "p = 1 \<or> 1 \<le> p div 2 \<and> p div 2 \<le> n" using ip by auto
  then consider "p = 1" | "1 \<le> p div 2" "p div 2 \<le> n" by blast
  then have "node (swap_link (f p) (f c) h) (f i) =
     (if i = p div 2 then if p = 2 * i then (node h (f i))\<lparr>left := Some (f c)\<rparr> else (node h (f i))\<lparr>right := Some (f c)\<rparr>
      else node h (f i))
    \<and> hmin (swap_link (f p) (f c) h) = (if p = 1 then Some (f c) else hmin h)
    \<and> nelts (swap_link (f p) (f c) h) = nelts h"
  proof cases
    case 1
    then show ?thesis using ip par by (simp add: swap_link_def)
  next
    case 2
    have "link_to f n (2 * (p div 2)) = Some (f p) \<longleftrightarrow> p = 2 * (p div 2)"
      using link_to_eq_Some [OF inj ip(3,4)] by fastforce
    then show ?thesis
      using 2 ip par gl by (auto simp add: swap_link_def node_upd_at [OF inj])
  qed
  then show "node (swap_link (f p) (f c) h) (f i) =
     (if i = p div 2 then if p = 2 * i then (node h (f i))\<lparr>left := Some (f c)\<rparr> else (node h (f i))\<lparr>right := Some (f c)\<rparr>
      else node h (f i))" "hmin (swap_link (f p) (f c) h) = (if p = 1 then Some (f c) else hmin h)"
     "nelts (swap_link (f p) (f c) h) = nelts h" by blast+
qed

definition sibling_of :: "nat \<Rightarrow> nat" where
  "sibling_of c = (if even c then c + 1 else c - 1)"

lemma sibling_half: "2 \<le> c \<Longrightarrow> sibling_of c div 2 = c div 2"
  by (auto simp: sibling_of_def elim!: evenE oddE)

lemma sibling_facts:
  assumes "2 \<le> c" and "p = c div 2"
  shows "sibling_of c \<noteq> c" "sibling_of c \<noteq> p" "2 * p \<le> sibling_of c" "2 * p \<le> c" "p < c" "1 \<le> p"
    "c = 2 * p \<and> sibling_of c = 2 * p + 1 \<or> c = 2 * p + 1 \<and> sibling_of c = 2 * p"
  using assms by (auto simp: sibling_of_def elim!: evenE oddE)

text \<open>What exchanging two positions does to the array view.\<close>

definition swapped_node :: "(nat \<Rightarrow> addr) \<Rightarrow> nat \<Rightarrow> nat \<Rightarrow> nat \<Rightarrow> nat \<Rightarrow> heap_node" where
  "swapped_node f n p c i =
     (if i = p div 2 then
        if p = 2 * i then (node_at f n i)\<lparr>left := Some (f c)\<rparr> else (node_at f n i)\<lparr>right := Some (f c)\<rparr>
      else if i = c then
        if c = 2 * p then (node_at f n p)\<lparr>left := Some (f p)\<rparr> else (node_at f n p)\<lparr>right := Some (f p)\<rparr>
      else if i = p then (node_at f n c)\<lparr>parent := Some (f c)\<rparr>
      else if i = sibling_of c then (node_at f n i)\<lparr>parent := Some (f c)\<rparr>
      else if i div 2 = c then (node_at f n i)\<lparr>parent := Some (f p)\<rparr>
      else node_at f n i)"

lemma swapped_node_view:
  assumes c: "2 \<le> c" "c \<le> n" and p: "p = c div 2" and i: "1 \<le> i" "i \<le> n"
  shows "node_at (swap_at f p c) n i = swapped_node f n p c (if i = p then c else if i = c then p else i)"
proof -
  note sb = sibling_facts [OF c(1) p]
  have pr: "1 \<le> p" "p \<le> n" "1 \<le> c" "c \<le> n" using c sb by auto
  note view = swap_at_apply node_at_def link_to_swap [OF pr]
  consider "i = c" | "i = p" | "i = p div 2" "i \<noteq> p" "i \<noteq> c" | "i = sibling_of c" "i \<noteq> p" "i \<noteq> c" "i \<noteq> p div 2"
    | "i div 2 = c" "i \<noteq> p" "i \<noteq> c" "i \<noteq> p div 2" "i \<noteq> sibling_of c"
    | "i \<noteq> c" "i \<noteq> p" "i \<noteq> p div 2" "i \<noteq> sibling_of c" "i div 2 \<noteq> c"
    by blast
  then show ?thesis
  proof cases
    case 1
    have ne: "2 * c \<noteq> p" "2 * c + 1 \<noteq> p" "p \<noteq> p div 2" "c \<noteq> p" "p \<noteq> c" "0 < c" "0 < p" using sb by linarith+
    show ?thesis by (simp add: 1 ne [simplified] pr [simplified] p [symmetric] view swapped_node_def)
  next
    case 2
    have "swapped_node f n p c c = (if c = 2 * p then (node_at f n p)\<lparr>left := Some (f p)\<rparr> else (node_at f n p)\<lparr>right := Some (f p)\<rparr>)"
      "2 * p \<noteq> p" "2 * p + 1 \<noteq> p" "p div 2 \<noteq> p" "p div 2 \<noteq> c"
      using sb(4,6) by (auto simp: swapped_node_def)
    then show ?thesis using sb(7) pr by (elim disjE) (simp_all add: swap_at_apply node_at_def link_to_swap 2)
  next
    case 3
    have "2 * i \<le> p" using 3(1) by simp
    then have "2 * i < c" "2 * i + 1 \<noteq> c" "i div 2 < p" "i div 2 < c" using sb(4,6) i(1) by linarith+
    then have ne: "2 * i \<noteq> c" "2 * i + 1 \<noteq> c" "i div 2 \<noteq> p" "i div 2 \<noteq> c" by simp_all
    have ne': "i div 2 \<noteq> 2 * i" "i div 2 \<noteq> 2 * i + 1" using i(1) by linarith+
    have "swapped_node f n p c i
      = (if p = 2 * i then (node_at f n i)\<lparr>left := Some (f c)\<rparr> else (node_at f n i)\<lparr>right := Some (f c)\<rparr>)"
      using 3(1) by (simp add: swapped_node_def)
    moreover have "p = 2 * i \<or> p = 2 * i + 1" using 3(1) by linarith
    ultimately show ?thesis using pr by (elim disjE) (simp_all add: swap_at_apply node_at_def link_to_swap ne [simplified] ne' [simplified] 3(2,3))
  next
    case 4
    have ne: "2 * i \<noteq> p" "2 * i + 1 \<noteq> p" "2 * i \<noteq> c" "2 * i + 1 \<noteq> c" using sb(3,7) pr 4(1) by linarith+
    have "i div 2 = p" "swapped_node f n p c i = (node_at f n i)\<lparr>parent := Some (f c)\<rparr>"
      using 4 sibling_half [OF c(1)] p by (simp_all add: swapped_node_def)
    then show ?thesis by (simp add: view ne [simplified] 4(2,3) pr [simplified])
  next
    case 5
    have ne: "2 * i \<noteq> p" "2 * i + 1 \<noteq> p" "2 * i \<noteq> c" "2 * i + 1 \<noteq> c" using sb(4) pr 5(1) by linarith+
    have "swapped_node f n p c i = (node_at f n i)\<lparr>parent := Some (f p)\<rparr>"
      using 5 by (simp add: swapped_node_def)
    then show ?thesis using sb(5) by (simp add: view ne [simplified] 5(1,2,3) pr [simplified])
  next
    case 6
    have ne: "2 * i \<noteq> p" "2 * i + 1 \<noteq> p" "2 * i \<noteq> c" "2 * i + 1 \<noteq> c" "i div 2 \<noteq> p" using 6(1-4) sb(7) by linarith+
    have "swapped_node f n p c i = node_at f n i"
      using 6 by (simp add: swapped_node_def)
    then show ?thesis by (simp add: view ne [simplified] 6(1,2,5) pr [simplified])
  qed
qed

lemma node_swap_at:
  assumes rep: "heap_rep f n h" and c: "2 \<le> c" "c \<le> n" and p: "p = c div 2"
  shows "1 \<le> i \<Longrightarrow> i \<le> n \<Longrightarrow> node (heap_node_swap (f p) (f c) h) (f i) = swapped_node f n p c i"
    and "hmin (heap_node_swap (f p) (f c) h) = (if p = 1 then Some (f c) else hmin h)"
    and "nelts (heap_node_swap (f p) (f c) h) = nelts h"
proof -
  have inj: "inj_on f {1..n}" using rep by (simp add: heap_rep_def)
  note at = node_upd_at [OF inj] node_set_parent_at [OF inj] heap_rep_node [OF rep] link_to_eq_Some [OF inj]
  define s where "s = sibling_of c"
  note sb = sibling_facts [OF c(1) p, folded s_def]
  have pr: "1 \<le> p" "p \<le> n" "p \<noteq> c" and cr: "1 \<le> c" "c \<le> n" using c sb by auto
  have ne: "2 * c \<noteq> c" "2 * c + 1 \<noteq> c" "2 * c \<noteq> p" "2 * c + 1 \<noteq> p" "2 * c \<noteq> s" "2 * c + 1 \<noteq> s" "c \<noteq> p"
    "p \<noteq> 2 * c" "p \<noteq> 2 * c + 1" "p \<noteq> s" "c \<noteq> s" "c \<noteq> 2 * c" "c \<noteq> 2 * c + 1" "p \<noteq> c" "p div 2 \<noteq> 2 * c" "p div 2 \<noteq> 2 * c + 1" "p div 2 \<noteq> c" "p div 2 \<noteq> p" "p div 2 \<noteq> s"  "(p div 2) div 2 \<noteq> c"
    using sb cr by linarith+
  define h3 where "h3 = swap_contents (f p) (f c) h"
  define h4 where "h4 = (if c = 2 * p then upd (f c) (\<lambda>n. n\<lparr>left := Some (f p)\<rparr>) h3 else upd (f c) (\<lambda>n. n\<lparr>right := Some (f p)\<rparr>) h3)"
  define h5 where "h5 = set_parent_if (link_to f n s) (f c) h4"
  define h6 where "h6 = set_parent_if (link_to f n (2 * c)) (f p) h5"
  define h7 where "h7 = set_parent_if (link_to f n (2 * c + 1)) (f p) h6"
  have h3: "node h3 (f i) = (if i = c then node_at f n p else if i = p then (node_at f n c)\<lparr>parent := Some (f c)\<rparr> else node_at f n i)"
    if "1 \<le> i" "i \<le> n" for i using that by (simp add: h3_def swap_contents_def at Let_def pr [simplified] cr [simplified])
  have h4: "node h4 (f i) = (if i = c then if c = 2 * p then (node h3 (f i))\<lparr>left := Some (f p)\<rparr>
     else (node h3 (f i))\<lparr>right := Some (f p)\<rparr> else node h3 (f i))"
    if "1 \<le> i" "i \<le> n" for i by (simp only: h4_def at(1) [OF that cr] split: if_split) simp
  have h5: "node h5 (f i) = (if i = s then (node h4 (f i))\<lparr>parent := Some (f c)\<rparr> else node h4 (f i))"
    if "1 \<le> i" "i \<le> n" for i using that by (simp only: h5_def at(2))
  have h6: "node h6 (f i) = (if i = 2 * c then (node h5 (f i))\<lparr>parent := Some (f p)\<rparr> else node h5 (f i))"
    if "1 \<le> i" "i \<le> n" for i using that by (simp only: h6_def at(2))
  have h7: "node h7 (f i) = (if i = 2 * c + 1 then (node h6 (f i))\<lparr>parent := Some (f p)\<rparr> else node h6 (f i))"
    if "1 \<le> i" "i \<le> n" for i using that by (simp only: h7_def at(2))
  have "swap_child (f p) (f c) h3 = (link_to f n s, h4)"
  proof -
    have "swap_child (f p) (f c) h3 = (if 2 * p = c then link_to f n (2 * p + 1) else link_to f n (2 * p), h4)"
      by (simp add: swap_child_def h4_def h3 [OF cr] node_at_def link_to_eq_Some [OF inj cr])
    then show ?thesis using sb(7) by auto
  qed
  moreover have l5: "left (node h5 (f p)) = link_to f n (2 * c)" and r6: "right (node h6 (f p)) = link_to f n (2 * c + 1)"
    by (simp_all add: h6 h5 h4 h3 node_at_def pr [simplified] ne [simplified])
  ultimately have swap: "heap_node_swap (f p) (f c) h = swap_link (f p) (f c) h7"
    unfolding heap_node_swap_def Let_def h3_def [symmetric]
    by (simp only: prod.case h5_def [symmetric] l5 h6_def [symmetric] r6 h7_def [symmetric])
  have par: "parent (node h7 (f c)) = link_to f n (p div 2)"
    by (simp only: h7 [OF cr] h6 [OF cr] h5 [OF cr] h4 [OF cr] h3 [OF cr] ne if_False) (simp add: node_at_def)
  have gl: "2 \<le> p \<longrightarrow> left (node h7 (f (p div 2))) = link_to f n (2 * (p div 2))"
    using pr by (simp add: h7 h6 h5 h4 h3 node_at_def ne [simplified])
  note res = swap_link_at [OF inj _ _ pr(1,2) cr par gl]
  show "node (heap_node_swap (f p) (f c) h) (f i) = swapped_node f n p c i" if i: "1 \<le> i" "i \<le> n"
  proof -
    have half: "i div 2 = c \<longleftrightarrow> i = 2 * c \<or> i = 2 * c + 1" by linarith
    note n7 = h7 [OF i] h6 [OF i] h5 [OF i] h4 [OF i] h3 [OF i]
    show ?thesis
    proof (cases "i = p div 2")
      case True
      have ni: "i \<noteq> c" "i \<noteq> s" "i \<noteq> p" "i \<noteq> 2 * c" "i \<noteq> 2 * c + 1" by (simp_all only: True ne not_False_eq_True)
      show ?thesis unfolding swap res(1) [OF i] swapped_node_def n7
        by (simp only: ni True [symmetric] if_True if_False simp_thms)
    next
      case False
      then have "node (heap_node_swap (f p) (f c) h) (f i) = node h7 (f i)"
        unfolding swap res(1) [OF i] by (simp only: if_False)
      also have "\<dots> = swapped_node f n p c i"
        unfolding swapped_node_def n7 half s_def [symmetric] using ne False
        by (cases "i = c"; cases "i = p"; cases "i = s"; cases "i = 2 * c"; cases "i = 2 * c + 1"; simp only: if_True if_False simp_thms)
      finally show ?thesis .
    qed
  qed
  show "hmin (heap_node_swap (f p) (f c) h) = (if p = 1 then Some (f c) else hmin h)"
    "nelts (heap_node_swap (f p) (f c) h) = nelts h" unfolding swap res(2,3) [OF pr(1,2)]
    by (simp_all add: h7_def h6_def h5_def h4_def h3_def swap_contents_def Let_def)
qed

text \<open>The pointer swap is the exchange of two positions.\<close>

lemma heap_node_swap_rep:
  assumes rep: "heap_rep f n h" and c: "2 \<le> c" "c \<le> n" and p: "p = c div 2"
  shows "heap_rep (swap_at f p c) n (heap_node_swap (f p) (f c) h)"
proof -
  have inj: "inj_on f {1..n}" using rep by (simp add: heap_rep_def)
  have pr: "1 \<le> p" "p \<le> n" "1 \<le> c" using c p by auto
  note at = node_swap_at [OF rep c p]
  have "node (heap_node_swap (f p) (f c) h) (swap_at f p c i) = node_at (swap_at f p c) n i" if i: "1 \<le> i" "i \<le> n" for i
    unfolding swapped_node_view [OF c p i] swap_at_apply using i c pr by (simp add: at(1))
  moreover have "hmin (heap_node_swap (f p) (f c) h) = link_to (swap_at f p c) n 1"
    using at(2) rep pr c by (simp add: heap_rep_def swap_at_apply)
  ultimately show ?thesis
    using inj_on_swap_at [OF inj pr(1,2,3) c(2)] at(3) rep by (simp add: heap_rep_def)
qed

end
