(* ===== verification/Heap_Queue.thy ===== *)
theory Heap_Queue
  imports Binary_Heap
begin

text \<open>
  The pointer heap of \<open>src/common/Heap.cpp\<close> is a priority queue: with a comparison by key, \<open>heap_insert\<close> and
  \<open>heap_remove\<close> terminate without following a \<open>NULL\<close>, keep the nodes a complete tree in heap order, and
  \<open>heap_min\<close> is a node of least key. The nodes are seen through the array view of \<open>Binary_Heap\<close>.
\<close>

section \<open>Paths\<close>

lemma slot_read:
  "heap_rep f n h \<Longrightarrow> 1 \<le> i \<Longrightarrow> i \<le> n + 1 \<Longrightarrow> read_slot (slot_at f i) h = link_to f n i"
  by (auto simp: slot_at_def heap_rep_def node_at_def elim!: evenE oddE)

lemma path_to_slot:
  assumes "heap_rep f n h" "1 \<le> i" "i \<le> n + 1" "path_loop i k q = (k', q')"
  shows "descend k' q' SMin SMin h = descend k q (if i = 1 then SMin else slot_at f (i div 2)) (slot_at f i) h"
  using assms
proof (induction i k q rule: path_loop.induct)
  case (1 i k q)
  show ?case
  proof (cases "2 \<le> i")
    case True
    have "i div 2 = 1 \<longleftrightarrow> i = 2 \<or> i = 3" by linarith
    moreover have "path_loop (i div 2) (k + 1) (2 * q + i mod 2) = (k', q')"
      using "1.prems"(4) True by (simp add: path_loop.simps [of i])
    ultimately have "descend k' q' SMin SMin h
      = descend (k + 1) (2 * q + i mod 2) (if i div 2 = 1 then SMin else slot_at f (i div 2 div 2)) (slot_at f (i div 2)) h"
      using "1.IH" [OF True] "1.prems"(1,3) True by simp
    also have "\<dots> = descend k q (slot_at f (i div 2)) (slot_at f i) h"
      using slot_read [OF "1.prems"(1), of "i div 2"] True "1.prems"(3)
      by (auto simp: slot_at_def [of f i] elim!: evenE oddE)
    finally show ?thesis using True by simp
  next
    case False
    then have "i = 1" using "1.prems" by simp
    then show ?thesis using "1.prems"(4) by (simp add: path_loop.simps [of 1] path_loop.simps [of "Suc 0"] slot_at_def)
  qed
qed

lemma descend_to:
  assumes "heap_rep f n h" "1 \<le> i" "i \<le> n + 1" "path_loop i 0 0 = (k, q)"
  shows "descend k q SMin SMin h = Some (if i = 1 then SMin else slot_at f (i div 2), slot_at f i)"
  using path_to_slot [OF assms] by simp

section \<open>Heap order\<close>

definition heap_ord :: "(addr \<Rightarrow> nat) \<Rightarrow> (nat \<Rightarrow> addr) \<Rightarrow> nat \<Rightarrow> bool" where
  "heap_ord K f n \<longleftrightarrow> (\<forall>j. 2 \<le> j \<longrightarrow> j \<le> n \<longrightarrow> K (f (j div 2)) \<le> K (f j))"

text \<open>Order everywhere except between \<open>i\<close> and its neighbours, which are in order with each other.\<close>

definition ord_but :: "(addr \<Rightarrow> nat) \<Rightarrow> (nat \<Rightarrow> addr) \<Rightarrow> nat \<Rightarrow> nat \<Rightarrow> bool" where
  "ord_but K f n i \<longleftrightarrow>
     (\<forall>j. 2 \<le> j \<longrightarrow> j \<le> n \<longrightarrow> j \<noteq> i \<longrightarrow> j div 2 \<noteq> i \<longrightarrow> K (f (j div 2)) \<le> K (f j))
     \<and> (\<forall>j. 2 \<le> i \<longrightarrow> j \<le> n \<longrightarrow> j div 2 = i \<longrightarrow> K (f (i div 2)) \<le> K (f j))"

definition above_children :: "(addr \<Rightarrow> nat) \<Rightarrow> (nat \<Rightarrow> addr) \<Rightarrow> nat \<Rightarrow> nat \<Rightarrow> bool" where
  "above_children K f n i \<longleftrightarrow> (\<forall>j. 2 \<le> j \<longrightarrow> j \<le> n \<longrightarrow> j div 2 = i \<longrightarrow> K (f i) \<le> K (f j))"

lemma heap_ordI:
  assumes "ord_but K f n i" "above_children K f n i" "2 \<le> i \<Longrightarrow> i \<le> n \<Longrightarrow> K (f (i div 2)) \<le> K (f i)"
  shows "heap_ord K f n"
  using assms by (auto simp: ord_but_def above_children_def heap_ord_def)

lemma swap_at_image:
  "1 \<le> p \<Longrightarrow> p \<le> n \<Longrightarrow> 1 \<le> c \<Longrightarrow> c \<le> n \<Longrightarrow> swap_at f p c ` {1..n} = f ` {1..n}"
  by (auto simp: swap_at_def image_iff)

lemma ord_but_edge:
  "ord_but K f n i \<Longrightarrow> 2 \<le> j \<Longrightarrow> j \<le> n \<Longrightarrow> j \<noteq> i \<Longrightarrow> j div 2 \<noteq> i \<Longrightarrow> K (f (j div 2)) \<le> K (f j)"
  by (simp add: ord_but_def)

lemma ord_but_skip:
  "ord_but K f n i \<Longrightarrow> 2 \<le> i \<Longrightarrow> j \<le> n \<Longrightarrow> j div 2 = i \<Longrightarrow> K (f (i div 2)) \<le> K (f j)"
  by (simp add: ord_but_def)

lemma up_step:
  assumes ord: "ord_but K f n i" and i: "2 \<le> i" "i \<le> n" and p: "p = i div 2"
    and less: "K (f i) < K (f p)"
  shows "ord_but K (swap_at f p i) n p" "above_children K (swap_at f p i) n p"
proof -
  have sib: "K (f p) \<le> K (f j)" if "2 \<le> j" "j \<le> n" "j div 2 = p" "j \<noteq> i" for j
    using ord_but_edge [OF ord that(1,2,4)] that p i by fastforce
  show "above_children K (swap_at f p i) n p"
    unfolding above_children_def swap_at_apply using less sib p i by fastforce
  have "K (swap_at f p i (j div 2)) \<le> K (swap_at f p i j)" if j: "2 \<le> j" "j \<le> n" "j \<noteq> p" "j div 2 \<noteq> p" for j
    using ord_but_skip [OF ord i(1) j(2)] ord_but_edge [OF ord j(1,2)] j p by (simp add: swap_at_apply)
  moreover have "K (swap_at f p i (p div 2)) \<le> K (swap_at f p i j)" if j: "2 \<le> p" "j \<le> n" "j div 2 = p" for j
  proof -
    have "K (f (p div 2)) \<le> K (f p)" using ord_but_edge [OF ord j(1)] p i by fastforce
    moreover have "p div 2 \<noteq> p" "p div 2 \<noteq> i" "j \<noteq> p" "2 \<le> j" using j p i by auto
    ultimately show ?thesis using order_trans [OF _ sib [OF _ j(2,3)]] by (cases "j = i") (auto simp: swap_at_apply)
  qed
  ultimately show "ord_but K (swap_at f p i) n p" unfolding ord_but_def by blast
qed

lemma down_step:
  assumes ord: "ord_but K f n i" and s: "2 \<le> s" "s \<le> n" "s div 2 = i"
    and less: "K (f s) < K (f i)" and least: "\<And>j. j \<le> n \<Longrightarrow> j div 2 = i \<Longrightarrow> K (f s) \<le> K (f j)"
  shows "ord_but K (swap_at f i s) n s"
proof -
  have "K (swap_at f i s (j div 2)) \<le> K (swap_at f i s j)" if j: "2 \<le> j" "j \<le> n" "j \<noteq> s" "j div 2 \<noteq> s" for j
    using ord_but_skip [OF ord _ s(2,3)] ord_but_edge [OF ord j(1,2)] least [OF j(2)] j s
    by (cases "j = i"; cases "j div 2 = i") (auto simp: swap_at_apply)
  moreover have "K (swap_at f i s (s div 2)) \<le> K (swap_at f i s j)" if j: "j \<le> n" "j div 2 = s" for j
  proof -
    have "2 \<le> j" "j \<noteq> i" "j \<noteq> s" "s \<noteq> i" using j s by auto
    then show ?thesis using ord_but_edge [OF ord _ j(1)] j s by (simp add: swap_at_apply)
  qed
  ultimately show ?thesis unfolding ord_but_def by blast
qed

section \<open>Restoring the order\<close>

definition agrees :: "(addr \<Rightarrow> addr \<Rightarrow> bool) \<Rightarrow> (addr \<Rightarrow> nat) \<Rightarrow> addr set \<Rightarrow> bool" where
  "agrees lt K S \<longleftrightarrow> (\<forall>x\<in>S. \<forall>y\<in>S. lt x y \<longleftrightarrow> K x < K y)"

lemma agreesD: "agrees lt K (f ` {1..n}) \<Longrightarrow> 1 \<le> i \<Longrightarrow> i \<le> n \<Longrightarrow> 1 \<le> j \<Longrightarrow> j \<le> n \<Longrightarrow> lt (f i) (f j) \<longleftrightarrow> K (f i) < K (f j)"
  by (simp add: agrees_def)

text \<open>The tree holds the nodes \<open>S\<close> in heap order.\<close>

definition heap_queue :: "(addr \<Rightarrow> nat) \<Rightarrow> heap \<Rightarrow> addr set \<Rightarrow> bool" where
  "heap_queue K h S \<longleftrightarrow> (\<exists>f n. heap_rep f n h \<and> heap_ord K f n \<and> S = f ` {1..n})"

lemma sift_up_correct:
  assumes "heap_rep f n h" "ord_but K f n i" "above_children K f n i" "1 \<le> i" "i \<le> n" "agrees lt K (f ` {1..n})"
  shows "\<exists>h'. sift_up lt (f i) h = Some h' \<and> heap_queue K h' (f ` {1..n})"
  using assms
proof (induction i arbitrary: f h rule: less_induct)
  case (less i)
  note rep = less.prems(1) and lt = agreesD [OF less.prems(6)]
  have par: "parent (node h (f i)) = link_to f n (i div 2)"
    using less.prems by (simp add: heap_rep_node node_at_def)
  show ?case
  proof (cases "2 \<le> i \<and> lt (f i) (f (i div 2))")
    case True
    define p where "p = i div 2"
    have p: "1 \<le> p" "p \<le> n" "p < i" and i: "2 \<le> i" using True less.prems by (auto simp: p_def)
    have "sift_up lt (f i) h = sift_up lt (f i) (heap_node_swap (f p) (f i) h)"
      using True par p by (simp add: sift_up.simps [of lt "f i" h] p_def)
    moreover have "swap_at f p i ` {1..n} = f ` {1..n}"
      using swap_at_image p less.prems by blast
    moreover have "K (f i) < K (f p)" using lt [of i p] p True less.prems by (simp add: p_def)
    note up_step [OF less.prems(2) i less.prems(5) p_def this]
    moreover have "swap_at f p i p = f i" by (simp add: swap_at_apply)
    ultimately show ?thesis
      using less.IH [OF p(3) heap_node_swap_rep [OF rep i less.prems(5) p_def]] p less.prems(6) by simp
  next
    case False
    then have "sift_up lt (f i) h = Some h"
      using par less.prems by (subst sift_up.simps) (cases "i = 1", simp_all)
    moreover have "heap_ord K f n"
      using False lt [of i "i div 2"] less.prems by (intro heap_ordI) auto
    ultimately show ?thesis using rep by (auto simp: heap_queue_def)
  qed
qed

lemma smallest_child_at:
  assumes rep: "heap_rep f n h" and i: "1 \<le> i" "i \<le> n" and lt: "agrees lt K (f ` {1..n})"
  obtains "smallest_child lt (f i) h = f i" "above_children K f n i"
  | s where "smallest_child lt (f i) h = f s" "2 \<le> s" "s \<le> n" "s div 2 = i" "K (f s) < K (f i)"
      "\<And>j. j \<le> n \<Longrightarrow> j div 2 = i \<Longrightarrow> K (f s) \<le> K (f j)"
proof -
  note ltD = agreesD [OF lt]
  have links: "left (node h (f i)) = link_to f n (2 * i)" "right (node h (f i)) = link_to f n (2 * i + 1)"
    using rep i by (simp_all add: heap_rep_node node_at_def)
  have child: "j div 2 = i \<longleftrightarrow> j = 2 * i \<or> j = 2 * i + 1" for j by linarith
  define l where "l = (2 * i \<le> n \<and> K (f (2 * i)) < K (f i))"
  define s1 where "s1 = (if l then 2 * i else i)"
  have s1: "1 \<le> s1" "s1 \<le> n" using i by (auto simp: s1_def l_def)
  define r where "r = (2 * i + 1 \<le> n \<and> K (f (2 * i + 1)) < K (f s1))"
  have sm: "smallest_child lt (f i) h = (if r then f (2 * i + 1) else f s1)"
    unfolding smallest_child_def Let_def links r_def
    using i s1 ltD [of "2 * i" i] ltD [of "2 * i + 1" s1] by (auto simp: s1_def l_def link_to_def)
  show ?thesis
  proof (cases r)
    case True
    then show ?thesis using sm i by (intro that(2) [of "2 * i + 1"]) (auto simp: child r_def s1_def l_def split: if_splits)
  next
    case False
    show ?thesis
    proof (cases l)
      case True
      then show ?thesis using sm i False by (intro that(2) [of "2 * i"]) (auto simp: child r_def s1_def l_def)
    next
      case l: False
      then show ?thesis using sm False by (intro that(1)) (auto simp: above_children_def child r_def s1_def l_def)
    qed
  qed
qed

lemma sift_down_correct:
  assumes "heap_rep f n h" "ord_but K f n i" "1 \<le> i" "i \<le> n" "agrees lt K (f ` {1..n})"
  shows "\<exists>h' f' i'. sift_down lt (f i) h = Some h' \<and> heap_rep f' n h' \<and> ord_but K f' n i' \<and> above_children K f' n i'
    \<and> 1 \<le> i' \<and> i' \<le> n \<and> f' i' = f i \<and> f' ` {1..n} = f ` {1..n}"
  using assms
proof (induction "n - i" arbitrary: f h i rule: less_induct)
  case less
  note rep = less.prems(1)
  have inj: "inj_on f {1..n}" using rep by (simp add: heap_rep_def)
  show ?case
  proof (rule smallest_child_at [OF less.prems(1,3,4,5)])
    assume "smallest_child lt (f i) h = f i" "above_children K f n i"
    then show ?thesis using less.prems by (auto simp: sift_down.simps [of lt "f i" h])
  next
    fix s assume sm: "smallest_child lt (f i) h = f s" and s: "2 \<le> s" "s \<le> n" "s div 2 = i"
      and ord: "K (f s) < K (f i)" "\<And>j. j \<le> n \<Longrightarrow> j div 2 = i \<Longrightarrow> K (f s) \<le> K (f j)"
    have "i < s" using s by auto
    moreover have "sift_down lt (f i) h = sift_down lt (f i) (heap_node_swap (f i) (f s) h)"
      using ord(1) by (subst sift_down.simps) (auto simp: Let_def sm)
    moreover have "swap_at f i s ` {1..n} = f ` {1..n}"
      using swap_at_image less.prems s by simp
    moreover note heap_node_swap_rep [OF rep s(1,2) s(3) [symmetric]] down_step [OF less.prems(2) s ord]
    moreover have "swap_at f i s s = f i" by (simp add: swap_at_apply)
    ultimately show ?thesis
      using less.hyps [of s "swap_at f i s" "heap_node_swap (f i) (f s) h"] less.prems s by auto
  qed
qed

section \<open>The operations\<close>

lemma write_slot_simps [simp]:
  "nelts (write_slot sl q h) = nelts h"
  by (cases sl) simp_all

lemma write_slot_node:
  "1 \<le> i \<Longrightarrow> node (write_slot (slot_at f i) q h) x = (if 2 \<le> i \<and> x = f (i div 2) then
     if even i then (node h x)\<lparr>left := q\<rparr> else (node h x)\<lparr>right := q\<rparr> else node h x)"
  by (auto simp: slot_at_def upd_def)

lemma write_slot_hmin:
  "hmin (write_slot (slot_at f i) q h) = (if i \<le> 1 then q else hmin h)"
  by (auto simp: slot_at_def)

text \<open>Linking a new last node, and unlinking the last node, in the array view.\<close>

lemma link_last:
  assumes rep: "heap_rep f n h" and m: "m = n + 1" and a: "a \<notin> f ` {1..n}"
    and new: "node h a = \<lparr>left = None, right = None, parent = None\<rparr>"
  shows "heap_rep (f(m := a)) m
    ((write_slot (slot_at f m) (Some a) (upd a (\<lambda>x. x\<lparr>parent := link_to f n (m div 2)\<rparr>) h))\<lparr>nelts := m\<rparr>)"
  (is "heap_rep ?f m ?h")
proof -
  have ne: "f i \<noteq> a" if "1 \<le> i" "i < m" for i using a that m by auto
  have old_inj: "inj_on f {1..n}" using rep by (simp add: heap_rep_def)
  have inj: "inj_on ?f {1..m}"
  proof (rule inj_onI)
    fix x y assume "x \<in> {1..m}" "y \<in> {1..m}" "?f x = ?f y"
    moreover have "z = m \<or> 1 \<le> z \<and> z \<le> n \<and> ?f z = f z \<and> f z \<noteq> a" if "z \<in> {1..m}" for z
      using that ne [of z] m by (cases "z = m") auto
    moreover have "?f m = a" by simp
    ultimately show "x = y" using heap_rep_inj [OF old_inj] by metis
  qed
  define h1 where "h1 = upd a (\<lambda>x. x\<lparr>parent := link_to f n (m div 2)\<rparr>) h"
  define k where "k = m div 2"
  have half: "m = 2 * k \<and> even m \<or> m = 2 * k + 1 \<and> odd m" unfolding k_def by presburger
  have link: "link_to ?f m j = (if j = m then Some a else link_to f n j)" for j
    using m by (auto simp: link_to_def)
  have old: "node h1 (f i) = node_at f n i" if "1 \<le> i" "i < m" for i
    using that ne [OF that] rep m by (simp add: h1_def upd_def heap_rep_def)
  have node: "node ?h x = (if 2 \<le> m \<and> x = f k then
       if even m then (node h1 x)\<lparr>left := Some a\<rparr> else (node h1 x)\<lparr>right := Some a\<rparr> else node h1 x)" for x
    unfolding h1_def [symmetric] k_def using m by (simp add: write_slot_node)
  have "node ?h (?f i) = node_at ?f m i" if i: "1 \<le> i" "i \<le> m" for i
  proof (cases "i = m")
    case True
    have "2 \<le> m \<Longrightarrow> 1 \<le> k \<and> k < m" unfolding k_def by linarith
    then have "node ?h a = node h1 a" using ne [of k] unfolding node by auto
    moreover have "link_to ?f m k = link_to f n k" "link_to ?f m (2 * m) = None" "link_to ?f m (2 * m + 1) = None"
      using half m by (auto simp: link link_to_def)
    ultimately show ?thesis using True new by (simp add: h1_def upd_def node_at_def k_def)
  next
    case False
    then have i: "1 \<le> i" "i < m" using i by auto
    then have k: "2 \<le> m" "1 \<le> k" "k < m" unfolding k_def by linarith+
    then have "f i = f k \<longleftrightarrow> i = k" using heap_rep_inj [OF old_inj, of i k] i m by simp
    then have "node ?h (f i) = (if i = k then if even m then (node_at f n i)\<lparr>left := Some a\<rparr>
         else (node_at f n i)\<lparr>right := Some a\<rparr> else node_at f n i)"
      unfolding node old [OF i] using k(1) by simp
    moreover have "i div 2 \<noteq> m" "i \<noteq> k \<Longrightarrow> 2 * i \<noteq> m \<and> 2 * i + 1 \<noteq> m" using i by (auto simp: k_def)
    ultimately show ?thesis using False half by (cases "i = k") (auto simp: node_at_def link)
  qed
  moreover have "hmin ?h = link_to ?f m 1"
    using rep m by (auto simp: write_slot_hmin heap_rep_def link_to_def)
  ultimately show ?thesis using inj by (simp add: heap_rep_def)
qed

theorem heap_insert_correct:
  assumes q: "heap_queue K h S" and a: "a \<notin> S" and lt: "agrees lt K (insert a S)"
  shows "\<exists>h'. heap_insert lt a h = Some h' \<and> heap_queue K h' (insert a S)"
proof -
  from q obtain f n where rep: "heap_rep f n h" and ord: "heap_ord K f n" and S: "S = f ` {1..n}"
    by (auto simp: heap_queue_def)
  define h1 where "h1 = upd a (\<lambda>_. \<lparr>left = None, right = None, parent = None\<rparr>) h"
  have rep1: "heap_rep f n h1"
    using rep a S by (auto simp: heap_rep_def h1_def upd_def)
  define m f' where "m = n + 1" and "f' = f(m := a)"
  define h2 where "h2 = (write_slot (slot_at f m) (Some a) (upd a (\<lambda>x. x\<lparr>parent := link_to f n (m div 2)\<rparr>) h1))
    \<lparr>nelts := m\<rparr>"
  have rep2: "heap_rep f' m h2"
    unfolding h2_def f'_def using a S by (intro link_last [OF rep1 m_def]) (simp_all add: h1_def upd_def)
  obtain k p where kp: "path_loop (1 + n) 0 0 = (k, p)" by fastforce
  have prev: "read_slot (if 1 + n = 1 then SMin else slot_at f ((1 + n) div 2)) h1 = link_to f n (m div 2)"
    using slot_read [OF rep1, of "m div 2"] rep1 by (auto simp: heap_rep_def m_def)
  have n: "nelts h1 = n" using rep1 by (simp add: heap_rep_def)
  have path: "descend k p SMin SMin h1 = Some (if 1 + n = 1 then SMin else slot_at f ((1 + n) div 2), slot_at f (1 + n))"
    using descend_to [OF rep1 _ _ kp] by simp
  have step: "heap_insert lt a h = sift_up lt a h2"
    unfolding heap_insert_def Let_def h1_def [symmetric] n kp prod.case path option.case prev
      write_slot_simps upd_fields h2_def m_def by (simp add: add.commute)
  have "{1..m} = insert m {1..n}" by (auto simp: m_def)
  then have img: "f' ` {1..m} = insert a S"
    unfolding f'_def S by (auto simp: m_def)
  have "K (f' (j div 2)) \<le> K (f' j)" if "2 \<le> j" "j < m" for j
  proof -
    have "j div 2 \<noteq> m" "j \<noteq> m" "j \<le> n" using that by (auto simp: m_def)
    then show ?thesis using ord that(1) by (simp add: heap_ord_def f'_def)
  qed
  then have "ord_but K f' m m" "above_children K f' m m"
    by (auto simp: ord_but_def above_children_def)
  from sift_up_correct [OF rep2 this _ _ lt [folded img]] show ?thesis
    unfolding step img [symmetric] by (simp add: f'_def m_def)
qed

text \<open>Unlinking the last node.\<close>

lemma unlink_last:
  assumes rep: "heap_rep f n h" and n: "n = m + 1"
  shows "heap_rep f m (write_slot (slot_at f n) None (h\<lparr>nelts := m\<rparr>))" (is "heap_rep f _ ?h")
proof -
  have link: "link_to f m j = (if j = n then None else link_to f n j)" for j
    using n by (auto simp: link_to_def)
  define k where "k = n div 2"
  have half: "n = 2 * k \<and> even n \<or> n = 2 * k + 1 \<and> odd n" unfolding k_def by presburger
  have inj: "inj_on f {1..n}" using rep by (simp add: heap_rep_def)
  have "node ?h (f i) = node_at f m i" if i: "1 \<le> i" "i \<le> m" for i
  proof -
    have k: "2 \<le> n" "1 \<le> k" "k \<le> n" and i: "1 \<le> i" "i < n" using i n unfolding k_def by linarith+
    have "f i = f k \<longleftrightarrow> i = k" using heap_rep_inj [OF inj, of i k] k i by simp
    moreover have "node h (f i) = node_at f n i" using rep i by (simp add: heap_rep_node)
    ultimately have "node ?h (f i) = (if i = k then if even n then (node_at f n i)\<lparr>left := None\<rparr>
         else (node_at f n i)\<lparr>right := None\<rparr> else node_at f n i)"
      using k(1) by (auto simp add: write_slot_node k_def [symmetric])
    moreover have "i div 2 \<noteq> n" "i \<noteq> k \<Longrightarrow> 2 * i \<noteq> n \<and> 2 * i + 1 \<noteq> n" using i by (auto simp: k_def)
    moreover have "2 * k = n \<longleftrightarrow> even n" "2 * k + 1 = n \<longleftrightarrow> odd n" using half by auto
    ultimately show ?thesis by (cases "i = k") (simp_all add: node_at_def link)
  qed
  moreover have "inj_on f {1..m}" using rep n by (auto simp: heap_rep_def inj_on_def)
  moreover have "hmin ?h = link_to f m 1"
    using rep n by (auto simp: write_slot_hmin heap_rep_def link_to_def)
  ultimately show ?thesis by (simp add: heap_rep_def)
qed

text \<open>Replacing one node by a node outside the tree.\<close>

lemma replace_node_rep:
  assumes rep: "heap_rep f n h" and i: "1 \<le> i" "i \<le> n" and c: "c \<notin> f ` {1..n}"
  shows "heap_rep (f(i := c)) n (replace_node (f i) c h)" (is "heap_rep ?f n ?h")
proof -
  have inj: "inj_on f {1..n}" using rep by (simp add: heap_rep_def)
  have ne: "f j \<noteq> c" if "1 \<le> j" "j \<le> n" for j using c that by auto
  note at = node_upd_at [OF inj] node_set_parent_at [OF inj] heap_rep_node [OF rep]
  have inj': "inj_on ?f {1..n}" by (rule inj_onI) (use ne heap_rep_inj [OF inj] in \<open>auto split: if_splits\<close>)
  have link: "link_to ?f n j = (if j = i then Some c else link_to f n j)" for j
    using i by (auto simp: link_to_def)
  have set_c: "node (set_parent_if (link_to f n j) q h') c = node h' c" for j q h'
    using ne by (auto simp: set_parent_if_def link_to_def upd_def)
  define h1 where "h1 = upd c (\<lambda>_. node h (f i)) h"
  define h2 where "h2 = set_parent_if (link_to f n (2 * i)) c h1"
  define h3 where "h3 = set_parent_if (link_to f n (2 * i + 1)) c h2"
  define g where "g = i div 2"
  have half: "i = 2 * g \<or> i = 2 * g + 1" unfolding g_def by presburger
  have c3: "node h3 c = node_at f n i" using i at(3) by (simp add: h3_def h2_def set_c) (simp add: h1_def upd_def)
  have n1: "node h1 (f j) = node_at f n j" if "1 \<le> j" "j \<le> n" for j
    using ne that at(3) by (auto simp: h1_def upd_def)
  have n3: "node h3 (f j) = (if j = 2 * i \<or> j = 2 * i + 1 then (node_at f n j)\<lparr>parent := Some c\<rparr> else node_at f n j)"
    if "1 \<le> j" "j \<le> n" for j
    by (simp only: h3_def h2_def at(2) [OF that] n1 [OF that] split: if_split) simp
  have h: "?h = (case link_to f n g of None \<Rightarrow> h3\<lparr>hmin := Some c\<rparr>
     | Some x \<Rightarrow> if left (node h3 x) = Some (f i) then upd x (\<lambda>n. n\<lparr>left := Some c\<rparr>) h3 else upd x (\<lambda>n. n\<lparr>right := Some c\<rparr>) h3)"
  proof -
    have l1: "left (node h1 c) = link_to f n (2 * i)" using i at(3) by (simp add: h1_def upd_def node_at_def)
    have r2: "right (node h2 c) = link_to f n (2 * i + 1)"
      using i at(3) unfolding h2_def set_c by (simp add: h1_def upd_def node_at_def)
    have p3: "parent (node h3 (f i)) = link_to f n g" using i n3 by (simp add: node_at_def g_def)
    show ?thesis
      unfolding replace_node_def Let_def h1_def [symmetric] l1 h2_def [symmetric] r2 h3_def [symmetric] p3 by (rule refl)
  qed
  have fin: "node ?h x = (if 1 \<le> g \<and> x = f g then
     if i = 2 * g then (node h3 x)\<lparr>left := Some c\<rparr> else (node h3 x)\<lparr>right := Some c\<rparr> else node h3 x)"
    "hmin ?h = (if g = 0 then Some c else hmin h)" "nelts ?h = n" for x
  proof -
    have "node ?h x = (if 1 \<le> g \<and> x = f g then
     if i = 2 * g then (node h3 x)\<lparr>left := Some c\<rparr> else (node h3 x)\<lparr>right := Some c\<rparr> else node h3 x)
     \<and> hmin ?h = (if g = 0 then Some c else hmin h3) \<and> nelts ?h = nelts h3"
    proof (cases "g = 0")
      case True
      then show ?thesis unfolding h by simp
    next
      case False
      then have g: "1 \<le> g" "g \<le> n" "g \<noteq> 2 * i" "g \<noteq> 2 * i + 1" using i unfolding g_def by linarith+
      have "left (node h3 (f g)) = Some (f i) \<longleftrightarrow> i = 2 * g"
        using g link_to_eq_Some [OF inj i] by (auto simp: n3 node_at_def)
      then show ?thesis unfolding h using g by (auto simp: upd_def)
    qed
    moreover have "hmin h3 = hmin h" "nelts h3 = n" using rep by (simp_all add: h3_def h2_def h1_def heap_rep_def)
    ultimately show "node ?h x = (if 1 \<le> g \<and> x = f g then
      if i = 2 * g then (node h3 x)\<lparr>left := Some c\<rparr> else (node h3 x)\<lparr>right := Some c\<rparr> else node h3 x)"
      "hmin ?h = (if g = 0 then Some c else hmin h)" "nelts ?h = n" by simp_all
  qed
  have "node ?h (?f j) = node_at ?f n j" if j: "1 \<le> j" "j \<le> n" for j
  proof (cases "j = i")
    case True
    have "\<not> (1 \<le> g \<and> c = f g)" using ne [of g] i unfolding g_def by force
    moreover have "2 * i \<noteq> i" "2 * i + 1 \<noteq> i" "i div 2 \<noteq> i" using i by auto
    ultimately show ?thesis using True by (auto simp add: fin c3 node_at_def link)
  next
    case False
    have g: "1 \<le> g \<Longrightarrow> f j = f g \<longleftrightarrow> j = g" using heap_rep_inj [OF inj j, of g] i unfolding g_def by auto
    have up: "j div 2 = i \<longleftrightarrow> j = 2 * i \<or> j = 2 * i + 1" by linarith
    have down: "node_at ?f n j = (if j = g then if i = 2 * g then (node_at f n j)\<lparr>left := Some c\<rparr>
        else (node_at f n j)\<lparr>right := Some c\<rparr>
      else if j = 2 * i \<or> j = 2 * i + 1 then (node_at f n j)\<lparr>parent := Some c\<rparr> else node_at f n j)"
    proof (cases "j = g")
      case True
      have "j \<noteq> 2 * i" "j \<noteq> 2 * i + 1" "2 * j = i \<or> 2 * j + 1 = i" using True half i by linarith+
      then show ?thesis using True up by (auto simp: node_at_def link)
    next
      case False
      then have "2 * j \<noteq> i" "2 * j + 1 \<noteq> i" unfolding g_def by auto
      then show ?thesis using False by (simp add: node_at_def link up)
    qed
    have gi: "g \<noteq> 2 * i" "g \<noteq> 2 * i + 1" using i unfolding g_def by linarith+
    have "node ?h (f j) = (if j = g then if i = 2 * g then (node h3 (f j))\<lparr>left := Some c\<rparr>
        else (node h3 (f j))\<lparr>right := Some c\<rparr> else node h3 (f j))"
      using g j(1) unfolding fin(1) by auto
    then show ?thesis using False gi unfolding down n3 [OF j] by auto
  qed
  moreover have "hmin ?h = link_to ?f n 1"
    using rep i by (auto simp: fin heap_rep_def link_to_def g_def)
  ultimately show ?thesis using inj' fin(3) by (simp add: heap_rep_def)
qed

text \<open>
  Removal. The key of the removed node may have changed since it was inserted (\<open>Timer::stop\<close> clears the time first):
  only the other nodes have to compare by the keys of the queue.
\<close>

lemma heap_remove_step:
  assumes rep: "heap_rep f n h" and n: "n = m + 1" and i: "1 \<le> i" "i \<le> n"
  shows "i = n \<Longrightarrow> \<exists>h'. heap_remove lt (f i) h = Some h' \<and> heap_rep f m h'"
    and "i \<noteq> n \<Longrightarrow> \<exists>h2. heap_rep (f(i := f n)) m h2 \<and>
      heap_remove lt (f i) h = do { h3 \<leftarrow> sift_down lt (f n) h2; sift_up lt (f n) h3 }"
proof -
  have inj: "inj_on f {1..n}" and nelts: "nelts h = n" using rep by (simp_all add: heap_rep_def)
  have nm: "n \<noteq> 0" "n - 1 = m" using n by simp_all
  define h2 where "h2 = write_slot (slot_at f n) None (h\<lparr>nelts := m\<rparr>)"
  have rep2: "heap_rep f m h2" unfolding h2_def by (rule unlink_last [OF rep n])
  obtain k p where kp: "path_loop n 0 0 = (k, p)" by fastforce
  have path: "descend k p SMin SMin h = Some (if n = 1 then SMin else slot_at f (n div 2), slot_at f n)"
    using descend_to [OF rep _ _ kp] n by simp
  have rd: "read_slot (slot_at f n) (h\<lparr>nelts := m\<rparr>) = Some (f n)"
    using slot_read [OF rep, of n] n by (cases "slot_at f n") simp_all
  have step: "heap_remove lt a h = (if f n = a then Some (if Some (f n) = hmin h2 then h2\<lparr>hmin := None\<rparr> else h2)
      else do { h3 \<leftarrow> sift_down lt (f n) (replace_node a (f n) h2); sift_up lt (f n) h3 })" for a
    using nm(1) unfolding heap_remove_def Let_def nelts kp prod.case path option.case nm(2) rd by (simp add: h2_def)
  have "Some (f n) \<noteq> hmin h2"
    using rep2 heap_rep_inj [OF inj, of n 1] n by (auto simp: heap_rep_def link_to_def)
  then show "i = n \<Longrightarrow> \<exists>h'. heap_remove lt (f i) h = Some h' \<and> heap_rep f m h'"
    using step [of "f i"] rep2 by simp
  assume "i \<noteq> n"
  then have "f n \<noteq> f i" "f n \<notin> f ` {1..m}" "i \<le> m"
    using heap_rep_inj [OF inj, of n] n i by fastforce+
  then show "\<exists>h2. heap_rep (f(i := f n)) m h2 \<and>
      heap_remove lt (f i) h = do { h3 \<leftarrow> sift_down lt (f n) h2; sift_up lt (f n) h3 }"
    using step [of "f i"] replace_node_rep [OF rep2 i(1)] by auto
qed

theorem heap_remove_correct:
  assumes q: "heap_queue K h S" and a: "a \<in> S" and lt: "agrees lt K (S - {a})"
  shows "\<exists>h'. heap_remove lt a h = Some h' \<and> heap_queue K h' (S - {a})"
proof -
  from q obtain f n where rep: "heap_rep f n h" and ord: "heap_ord K f n" and S: "S = f ` {1..n}"
    by (auto simp: heap_queue_def)
  then obtain i where i: "1 \<le> i" "i \<le> n" and ai: "a = f i" using a by auto
  have inj: "inj_on f {1..n}" using rep by (simp add: heap_rep_def)
  define m where "m = n - 1"
  have n: "n = m + 1" using i by (simp add: m_def)
  have rest: "S - {a} = f ` ({1..n} - {i})"
    using inj_on_image_set_diff [OF inj, of "{1..n}" "{i}"] i unfolding S ai by auto
  show ?thesis
  proof (cases "i = n")
    case True
    have "{1..n} - {i} = {1..m}" using n True by auto
    then have "S - {a} = f ` {1..m}" using rest by simp
    moreover have "heap_ord K f m" using ord n by (simp add: heap_ord_def)
    moreover obtain h' where "heap_remove lt a h = Some h'" "heap_rep f m h'"
      using heap_remove_step(1) [OF rep n i True] ai by blast
    ultimately show ?thesis unfolding heap_queue_def by blast
  next
    case False
    define f' where "f' = f(i := f n)"
    have im: "i \<le> m" using False i n by simp
    have img: "f' ` {1..m} = S - {a}"
    proof -
      have "f' ` {1..m} = insert (f n) (f ` ({1..m} - {i}))" using i im by (auto simp: f'_def)
      also have "insert n ({1..m} - {i}) = {1..n} - {i}" using n i False by auto
      then have "insert (f n) (f ` ({1..m} - {i})) = S - {a}" unfolding rest by (metis image_insert)
      finally show ?thesis .
    qed
    obtain h2 where rep2: "heap_rep f' m h2"
      and step: "heap_remove lt a h = do { h3 \<leftarrow> sift_down lt (f n) h2; sift_up lt (f n) h3 }"
      using heap_remove_step(2) [OF rep n i False] ai by (auto simp: f'_def)
    have edge: "K (f (j div 2)) \<le> K (f j)" if "2 \<le> j" "j \<le> m" for j using ord that n by (simp add: heap_ord_def)
    have "K (f' (i div 2)) \<le> K (f' j)" if "2 \<le> i" "j \<le> m" "j div 2 = i" for j
    proof -
      have "2 \<le> j" "j \<noteq> i" "i div 2 \<noteq> i" using that by auto
      moreover have "K (f (i div 2)) \<le> K (f j)" using edge [of i] edge [of j] that im \<open>2 \<le> j\<close> by simp
      ultimately show ?thesis by (simp add: f'_def)
    qed
    moreover have "K (f' (j div 2)) \<le> K (f' j)" if "2 \<le> j" "j \<le> m" "j \<noteq> i" "j div 2 \<noteq> i" for j
      using edge [OF that(1,2)] that(3,4) by (simp add: f'_def)
    ultimately have "ord_but K f' m i" unfolding ord_but_def by blast
    then obtain h3 f'' i' where down: "sift_down lt (f' i) h2 = Some h3" "heap_rep f'' m h3" "ord_but K f'' m i'"
      "above_children K f'' m i'" "1 \<le> i'" "i' \<le> m" "f'' i' = f' i" and img2: "f'' ` {1..m} = f' ` {1..m}"
      using sift_down_correct [OF rep2 _ i(1) im] lt [folded img] by blast
    have "f' i = f n" by (simp add: f'_def)
    then show ?thesis
      using sift_up_correct [OF down(2-6)] lt [folded img] down(1,7) step img img2 by simp
  qed
qed

theorem heap_min_correct:
  assumes "heap_queue K h S"
  shows "heap_min h = None \<longleftrightarrow> S = {}"
    and "heap_min h = Some a \<Longrightarrow> a \<in> S \<and> (\<forall>b\<in>S. K a \<le> K b)"
    and "nelts h = card S"
proof -
  from assms obtain f n where rep: "heap_rep f n h" and ord: "heap_ord K f n" and S: "S = f ` {1..n}"
    by (auto simp: heap_queue_def)
  have least: "1 \<le> i \<Longrightarrow> i \<le> n \<Longrightarrow> K (f 1) \<le> K (f i)" for i
  proof (induction i rule: less_induct)
    case (less i)
    show ?case
    proof (cases "i = 1")
      case False
      then have "K (f (i div 2)) \<le> K (f i)" using ord less.prems by (simp add: heap_ord_def)
      moreover have "i div 2 < i" "1 \<le> i div 2" "i div 2 \<le> n" using False less.prems by linarith+
      ultimately show ?thesis using less.IH by fastforce
    qed simp
  qed
  show "heap_min h = None \<longleftrightarrow> S = {}" "heap_min h = Some a \<Longrightarrow> a \<in> S \<and> (\<forall>b\<in>S. K a \<le> K b)"
    using rep least S by (auto simp: heap_min_def heap_rep_def link_to_def split: if_splits)
  show "nelts h = card S" using rep S by (simp add: heap_rep_def card_image)
qed

lemma heap_init_correct: "heap_queue K (heap_init h) {}"
  unfolding heap_queue_def heap_rep_def heap_ord_def heap_init_def by (rule exI [of _ id], rule exI [of _ 0]) auto

section \<open>Sorting with the heap\<close>

definition key_less :: "(addr \<Rightarrow> nat) \<Rightarrow> addr \<Rightarrow> addr \<Rightarrow> bool" where
  "key_less K a b \<longleftrightarrow> K a < K b"

fun insert_all :: "(addr \<Rightarrow> addr \<Rightarrow> bool) \<Rightarrow> addr list \<Rightarrow> heap \<Rightarrow> heap option" where
  "insert_all lt [] h = Some h"
| "insert_all lt (a # as) h = do { h1 \<leftarrow> heap_insert lt a h; insert_all lt as h1 }"

fun dequeue_all :: "(addr \<Rightarrow> addr \<Rightarrow> bool) \<Rightarrow> nat \<Rightarrow> heap \<Rightarrow> (addr list \<times> heap) option" where
  "dequeue_all lt 0 h = Some ([], h)"
| "dequeue_all lt (Suc n) h =
     do { a \<leftarrow> heap_min h; h1 \<leftarrow> heap_dequeue lt h; (as, h2) \<leftarrow> dequeue_all lt n h1; Some (a # as, h2) }"

lemma agrees_key_less: "agrees (key_less K) K A"
  by (simp add: agrees_def key_less_def)

lemma insert_all_queue:
  "heap_queue K h S \<Longrightarrow> distinct as \<Longrightarrow> set as \<inter> S = {} \<Longrightarrow>
   \<exists>h'. insert_all (key_less K) as h = Some h' \<and> heap_queue K h' (set as \<union> S)"
proof (induction as arbitrary: h S)
  case (Cons a as)
  obtain h1 where h1: "heap_insert (key_less K) a h = Some h1" "heap_queue K h1 (insert a S)"
    using heap_insert_correct [OF Cons.prems(1) _ agrees_key_less, of a] Cons.prems(3) by auto
  then show ?case using Cons.IH [OF h1(2)] Cons.prems by auto
qed simp

lemma dequeue_all_queue:
  "heap_queue K h S \<Longrightarrow> n = card S \<Longrightarrow>
   \<exists>as h'. dequeue_all (key_less K) n h = Some (as, h') \<and> heap_queue K h' {} \<and> set as = S \<and> distinct as
     \<and> sorted (map K as)"
proof (induction n arbitrary: h S)
  case 0
  then have "S = {}" by (auto simp: heap_queue_def)
  then show ?case using 0 by simp
next
  case (Suc n)
  have fin: "finite S" using Suc.prems(2) card_ge_0_finite by force
  then obtain a where a: "heap_min h = Some a"
    using heap_min_correct(1) [OF Suc.prems(1)] Suc.prems(2) by fastforce
  note least = heap_min_correct(2) [OF Suc.prems(1) a]
  obtain h1 where h1: "heap_remove (key_less K) a h = Some h1" "heap_queue K h1 (S - {a})"
    using heap_remove_correct [OF Suc.prems(1) _ agrees_key_less] least by blast
  have "heap_dequeue (key_less K) h = Some h1" using a h1(1) by (simp add: heap_dequeue_def heap_min_def)
  moreover have "n = card (S - {a})" using Suc.prems(2) least fin by simp
  moreover from this obtain as h2 where "dequeue_all (key_less K) n h1 = Some (as, h2)" "heap_queue K h2 {}" "set as = S - {a}"
    "distinct as" "sorted (map K as)"
    using Suc.IH [OF h1(2)] by blast
  ultimately show ?case using a least by (intro exI [of _ "a # as"] exI [of _ h2]) auto
qed

text \<open>C14. The binary heap is a priority queue at the level of its pointers: inserting any distinct nodes into an
  initialised heap and dequeuing as many returns all of them in ascending order of key, never follows a \<open>NULL\<close>,
  terminates, and leaves the heap empty.\<close>

theorem heap_sorts:
  assumes "distinct as"
  shows "\<exists>h bs h'. insert_all (key_less K) as (heap_init h0) = Some h \<and> nelts h = length as
    \<and> dequeue_all (key_less K) (length as) h = Some (bs, h') \<and> set bs = set as \<and> distinct bs \<and> sorted (map K bs)
    \<and> heap_min h' = None \<and> nelts h' = 0"
proof -
  obtain h where h: "insert_all (key_less K) as (heap_init h0) = Some h" "heap_queue K h (set as)"
    using insert_all_queue [OF heap_init_correct assms] by auto
  moreover have "nelts h = length as" using heap_min_correct(3) [OF h(2)] assms by (simp add: distinct_card)
  moreover obtain bs h' where "dequeue_all (key_less K) (length as) h = Some (bs, h')" "heap_queue K h' {}"
    "set bs = set as" "distinct bs" "sorted (map K bs)"
    using dequeue_all_queue [OF h(2), of "length as"] assms by (auto simp: distinct_card)
  ultimately show ?thesis using heap_min_correct(1,3) [of K h' "{}"] by auto
qed

lemma heap_sorts_witness:
  "\<exists>h bs h'. insert_all (key_less (\<lambda>a. 10 - a)) [3, 7, 5] (heap_init \<lparr>hmin = None, nelts = 0, node = \<lambda>_. \<lparr>left = None, right = None, parent = None\<rparr>\<rparr>) = Some h
    \<and> dequeue_all (key_less (\<lambda>a. 10 - a)) 3 h = Some (bs, h') \<and> set bs = {3, 7, 5}"
  using heap_sorts [of "[3, 7, 5]" "\<lambda>a. 10 - a" "\<lparr>hmin = None, nelts = 0, node = \<lambda>_. \<lparr>left = None, right = None, parent = None\<rparr>\<rparr>"]
  by (auto simp: numeral_3_eq_3)

end
