(* ===== verification/Timers.thy ===== *)
theory Timers
  imports Heap_Queue
begin

text \<open>
  \<open>src/common/Timer.h/.cpp\<close>: the timers, kept in the global heap \<open>gRootHeap\<close> in order of \<open>m_time\<close>. A timer
  is named by its heap node (\<open>m_node\<close>, one per object). \<open>XTime::iclock()\<close> is the parameter \<open>clk\<close>: the result
  of the \<open>i\<close>-th reading of the clock. The callbacks are a parameter too, applied to the whole state, since a
  callback may start and stop timers. \<^const>\<open>None\<close> is a dereferenced \<open>NULL\<close>, as in the heap.
\<close>

section \<open>Model\<close>

record timer_state =
  gRootHeap :: heap
  m_time :: "addr \<Rightarrow> u32"
  m_repeat :: "addr \<Rightarrow> u32"
  readings :: nat

definition iclock :: "(nat \<Rightarrow> u32) \<Rightarrow> timer_state \<Rightarrow> u32 \<times> timer_state" where
  "iclock clk s = (clk (readings s), s\<lparr>readings := readings s + 1\<rparr>)"

definition compare_fn :: "timer_state \<Rightarrow> addr \<Rightarrow> addr \<Rightarrow> bool" where
  "compare_fn s a b = (if m_time s a < m_time s b then True else if m_time s b < m_time s a then False else False)"

definition Timer_init :: "timer_state \<Rightarrow> timer_state" where
  "Timer_init s = s\<lparr>gRootHeap := heap_init (gRootHeap s)\<rparr>"

definition Timer_start :: "(nat \<Rightarrow> u32) \<Rightarrow> addr \<Rightarrow> u64 \<Rightarrow> u64 \<Rightarrow> timer_state \<Rightarrow> timer_state option" where
  "Timer_start clk a timeout repeat s =
     (let (now, s1) = iclock clk s;
          s2 = s1\<lparr>m_time := (m_time s1)(a := ucast (timeout + ucast now)), m_repeat := (m_repeat s1)(a := ucast repeat)\<rparr>
      in map_option (\<lambda>h. s2\<lparr>gRootHeap := h\<rparr>) (heap_insert (compare_fn s2) a (gRootHeap s2)))"

definition Timer_stop :: "addr \<Rightarrow> timer_state \<Rightarrow> timer_state option" where
  "Timer_stop a s =
     (if m_time s a = 0 then Some s
      else
        let s1 = s\<lparr>m_time := (m_time s)(a := 0)\<rparr>
        in map_option (\<lambda>h. s1\<lparr>gRootHeap := h\<rparr>) (heap_remove (compare_fn s1) a (gRootHeap s1)))"

text \<open>A new timer is not started; the destructor stops it and frees its node.\<close>

definition Timer_ctor :: "addr \<Rightarrow> timer_state \<Rightarrow> timer_state" where
  "Timer_ctor a s = s\<lparr>m_time := (m_time s)(a := 0), m_repeat := (m_repeat s)(a := 0)\<rparr>"

definition Timer_dtor :: "addr \<Rightarrow> timer_state \<Rightarrow> timer_state option" where
  "Timer_dtor a s = Timer_stop a s"

text \<open>One due timer: it leaves the heap, a repeating one comes back with its next time.\<close>

definition Timer_expire :: "(nat \<Rightarrow> u32) \<Rightarrow> addr \<Rightarrow> timer_state \<Rightarrow> timer_state option" where
  "Timer_expire clk a s =
     do {
       h \<leftarrow> heap_remove (compare_fn s) a (gRootHeap s);
       let s1 = s\<lparr>gRootHeap := h, m_time := (m_time s)(a := 0)\<rparr>;
       if 0 < m_repeat s1 a then
         let (now, s2) = iclock clk s1;
             s3 = s2\<lparr>m_time := (m_time s2)(a := m_repeat s2 a + now)\<rparr>
         in map_option (\<lambda>h. s3\<lparr>gRootHeap := h\<rparr>) (heap_insert (compare_fn s3) a (gRootHeap s3))
       else Some s1
     }"

text \<open>\<open>Timer::update\<close> with \<open>n\<close> rounds left; the result holds the timers whose callback ran, in order.\<close>

fun update_loop ::
  "(addr \<Rightarrow> timer_state \<Rightarrow> timer_state option) \<Rightarrow> (nat \<Rightarrow> u32) \<Rightarrow> nat \<Rightarrow> timer_state \<Rightarrow> (addr list \<times> timer_state) option" where
  "update_loop cb clk 0 s = Some ([], s)"
| "update_loop cb clk (Suc n) s =
     (case heap_min (gRootHeap s) of
        None \<Rightarrow> Some ([], s)
      | Some a \<Rightarrow>
          let (now, s1) = iclock clk s in
          if m_time s1 a \<le> now then
            do {
              s2 \<leftarrow> Timer_expire clk a s1;
              s3 \<leftarrow> cb a s2;
              (fired, s4) \<leftarrow> update_loop cb clk n s3;
              Some (a # fired, s4)
            }
          else Some ([], s1))"

definition Timer_update ::
  "(addr \<Rightarrow> timer_state \<Rightarrow> timer_state option) \<Rightarrow> (nat \<Rightarrow> u32) \<Rightarrow> timer_state \<Rightarrow> (addr list \<times> timer_state) option" where
  "Timer_update cb clk s = update_loop cb clk 10 s"

section \<open>The interface of the queue\<close>

locale prio_queue =
  fixes rep :: "(addr \<Rightarrow> nat) \<Rightarrow> 'q \<Rightarrow> addr set \<Rightarrow> bool"
    and qmin :: "'q \<Rightarrow> addr option"
    and qins qdel :: "(addr \<Rightarrow> addr \<Rightarrow> bool) \<Rightarrow> addr \<Rightarrow> 'q \<Rightarrow> 'q option"
  assumes ins: "rep K q S \<Longrightarrow> a \<notin> S \<Longrightarrow> agrees lt K (insert a S) \<Longrightarrow> \<exists>q'. qins lt a q = Some q' \<and> rep K q' (insert a S)"
    and del: "rep K q S \<Longrightarrow> a \<in> S \<Longrightarrow> agrees lt K (S - {a}) \<Longrightarrow> \<exists>q'. qdel lt a q = Some q' \<and> rep K q' (S - {a})"
    and min_none: "rep K q S \<Longrightarrow> qmin q = None \<longleftrightarrow> S = {}"
    and min_some: "rep K q S \<Longrightarrow> qmin q = Some a \<Longrightarrow> a \<in> S \<and> (\<forall>b\<in>S. K a \<le> K b)"
    and cong: "rep K q S \<Longrightarrow> (\<And>x. x \<in> S \<Longrightarrow> K x = K' x) \<Longrightarrow> rep K' q S"
begin

text \<open>The keys that matter are those of the queue, so an operation on one node may change its key.\<close>

lemma ins_key:
  assumes "rep K q S" "a \<notin> S" "agrees lt K' (insert a S)" "\<And>x. x \<noteq> a \<Longrightarrow> K' x = K x"
  shows "\<exists>q'. qins lt a q = Some q' \<and> rep K' q' (insert a S)"
  using ins [OF cong [OF assms(1), of K'] assms(2,3)] assms(2,4) by metis

lemma del_key:
  assumes "rep K q S" "a \<in> S" "agrees lt K' UNIV" "\<And>x. x \<noteq> a \<Longrightarrow> K' x = K x"
  shows "\<exists>q'. qdel lt a q = Some q' \<and> rep K' q' (S - {a})"
proof -
  have "agrees lt K (S - {a})" using assms(3,4) by (simp add: agrees_def)
  then obtain q' where "qdel lt a q = Some q'" "rep K q' (S - {a})" using del assms(1,2) by blast
  then show ?thesis using cong [of K q' "S - {a}" K'] assms(4) by auto
qed

end

lemma heap_queue_cong:
  assumes "heap_queue K h S" "\<And>x. x \<in> S \<Longrightarrow> K x = K' x"
  shows "heap_queue K' h S"
proof -
  from assms(1) obtain f n where rep: "heap_rep f n h" and ord: "heap_ord K f n" and S: "S = f ` {1..n}"
    by (auto simp: heap_queue_def)
  have eq: "K (f i) = K' (f i)" if "1 \<le> i" "i \<le> n" for i using assms(2) that S by simp
  have "K' (f (j div 2)) \<le> K' (f j)" if "2 \<le> j" "j \<le> n" for j
    using ord that eq [of j] eq [of "j div 2"] by (auto simp: heap_ord_def)
  then show ?thesis unfolding heap_queue_def heap_ord_def using rep S by blast
qed

interpretation hq: prio_queue heap_queue heap_min heap_insert heap_remove
proof unfold_locales
  show "\<exists>q'. heap_insert lt a q = Some q' \<and> heap_queue K q' (insert a S)"
    if "heap_queue K q S" "a \<notin> S" "agrees lt K (insert a S)" for K q S a lt
    using that by (rule heap_insert_correct)
  show "\<exists>q'. heap_remove lt a q = Some q' \<and> heap_queue K q' (S - {a})"
    if "heap_queue K q S" "a \<in> S" "agrees lt K (S - {a})" for K q S a lt
    using that by (rule heap_remove_correct)
  show "heap_min q = None \<longleftrightarrow> S = {}" if "heap_queue K q S" for K q S
    using that by (rule heap_min_correct(1))
  show "a \<in> S \<and> (\<forall>b\<in>S. K a \<le> K b)" if "heap_queue K q S" "heap_min q = Some a" for K q S a
    using that by (rule heap_min_correct(2))
  show "heap_queue K' q S" if "heap_queue K q S" "\<And>x. x \<in> S \<Longrightarrow> K x = K' x" for K q S K'
    using that by (rule heap_queue_cong)
qed

section \<open>The invariant of the timers\<close>

definition deadline :: "timer_state \<Rightarrow> addr \<Rightarrow> nat" where
  "deadline s a = unat (m_time s a)"

text \<open>\<open>S\<close> is the set of the started timers: they are in the heap, and exactly they have a non-zero time.\<close>

definition timers_inv :: "timer_state \<Rightarrow> addr set \<Rightarrow> bool" where
  "timers_inv s S \<longleftrightarrow> heap_queue (deadline s) (gRootHeap s) S \<and> (\<forall>a. m_time s a \<noteq> 0 \<longleftrightarrow> a \<in> S)"

lemma compare_fn_agrees: "agrees (compare_fn s) (deadline s) A"
  by (simp add: agrees_def compare_fn_def deadline_def word_less_nat_alt)

lemma deadline_simps [simp]:
  "deadline (s\<lparr>gRootHeap := h\<rparr>) = deadline s" "deadline (s\<lparr>readings := r\<rparr>) = deadline s"
  "deadline (s\<lparr>m_repeat := R\<rparr>) = deadline s"
  by (simp_all add: deadline_def fun_eq_iff)

lemma start_inv:
  assumes inv: "timers_inv s S" and a: "a \<notin> S" and t: "(ucast (timeout + ucast (clk (readings s))) :: u32) \<noteq> 0"
  shows "\<exists>s'. Timer_start clk a timeout repeat s = Some s' \<and> timers_inv s' (insert a S)
     \<and> m_time s' a = ucast (timeout + ucast (clk (readings s))) \<and> m_repeat s' a = ucast repeat"
proof -
  define s2 where "s2 = s\<lparr>readings := readings s + 1, m_time := (m_time s)(a := ucast (timeout + ucast (clk (readings s)))),
    m_repeat := (m_repeat s)(a := ucast repeat)\<rparr>"
  have "\<exists>q'. heap_insert (compare_fn s2) a (gRootHeap s) = Some q' \<and> heap_queue (deadline s2) q' (insert a S)"
    using inv a by (intro hq.ins_key [of "deadline s"] compare_fn_agrees) (simp_all add: timers_inv_def s2_def deadline_def)
  then obtain h where "heap_insert (compare_fn s2) a (gRootHeap s) = Some h" "heap_queue (deadline s2) h (insert a S)"
    by blast
  then have "Timer_start clk a timeout repeat s = Some (s2\<lparr>gRootHeap := h\<rparr>)" "timers_inv (s2\<lparr>gRootHeap := h\<rparr>) (insert a S)"
    using inv t by (auto simp: Timer_start_def iclock_def s2_def timers_inv_def Let_def)
  then show ?thesis by (simp add: s2_def)
qed

lemma stop_inv:
  assumes inv: "timers_inv s S"
  shows "\<exists>s'. Timer_stop a s = Some s' \<and> timers_inv s' (S - {a}) \<and> m_repeat s' = m_repeat s \<and> readings s' = readings s"
proof (cases "a \<in> S")
  case True
  define s1 where "s1 = s\<lparr>m_time := (m_time s)(a := 0)\<rparr>"
  have "\<exists>q'. heap_remove (compare_fn s1) a (gRootHeap s) = Some q' \<and> heap_queue (deadline s1) q' (S - {a})"
    using inv True by (intro hq.del_key [of "deadline s"] compare_fn_agrees) (simp_all add: timers_inv_def s1_def deadline_def)
  then obtain h where "heap_remove (compare_fn s1) a (gRootHeap s) = Some h" "heap_queue (deadline s1) h (S - {a})"
    by blast
  then have "Timer_stop a s = Some (s1\<lparr>gRootHeap := h\<rparr>)" "timers_inv (s1\<lparr>gRootHeap := h\<rparr>) (S - {a})"
    using inv True by (auto simp: Timer_stop_def s1_def timers_inv_def Let_def)
  then show ?thesis by (simp add: s1_def)
next
  case False
  then show ?thesis using inv by (simp add: Timer_stop_def timers_inv_def)
qed

lemma expire_inv:
  assumes inv: "timers_inv s S" and a: "a \<in> S" and t: "0 < m_repeat s a \<Longrightarrow> m_repeat s a + clk (readings s) \<noteq> 0"
  shows "\<exists>s'. Timer_expire clk a s = Some s' \<and> timers_inv s' (if 0 < m_repeat s a then S else S - {a})
     \<and> m_repeat s' = m_repeat s \<and> (\<forall>b. b \<noteq> a \<longrightarrow> m_time s' b = m_time s b)
     \<and> (0 < m_repeat s a \<longrightarrow> m_time s' a = m_repeat s a + clk (readings s))"
proof -
  have "\<exists>q'. heap_remove (compare_fn s) a (gRootHeap s) = Some q' \<and> heap_queue (deadline s) q' (S - {a})"
    using inv a by (intro hq.del_key [of "deadline s"] compare_fn_agrees) (simp_all add: timers_inv_def)
  then obtain h where rm: "heap_remove (compare_fn s) a (gRootHeap s) = Some h" "heap_queue (deadline s) h (S - {a})"
    by blast
  show ?thesis
  proof (cases "0 < m_repeat s a")
    case True
    define s3 where "s3 = s\<lparr>gRootHeap := h, m_time := (m_time s)(a := 0), readings := readings s + 1,
      m_time := (m_time s)(a := m_repeat s a + clk (readings s))\<rparr>"
    have "\<exists>q'. heap_insert (compare_fn s3) a h = Some q' \<and> heap_queue (deadline s3) q' (insert a (S - {a}))"
      using rm(2) by (intro hq.ins_key [of "deadline s"] compare_fn_agrees) (simp_all add: s3_def deadline_def)
    then obtain h' where ins: "heap_insert (compare_fn s3) a h = Some h'" "heap_queue (deadline s3) h' S"
      using a by (auto simp: insert_absorb)
    have "Timer_expire clk a s = Some (s3\<lparr>gRootHeap := h'\<rparr>)"
      using rm(1) ins(1) True by (simp add: Timer_expire_def iclock_def Let_def s3_def)
    moreover have "timers_inv (s3\<lparr>gRootHeap := h'\<rparr>) S"
      using ins(2) inv t [OF True] a by (simp add: timers_inv_def) (simp add: s3_def)
    ultimately show ?thesis using True by (simp add: s3_def)
  next
    case False
    define s1 where "s1 = s\<lparr>gRootHeap := h, m_time := (m_time s)(a := 0)\<rparr>"
    have "heap_queue (deadline s1) h (S - {a})"
      using rm(2) by (rule hq.cong) (auto simp: s1_def deadline_def)
    then have "timers_inv s1 (S - {a})" using inv by (auto simp: timers_inv_def s1_def)
    moreover have "Timer_expire clk a s = Some s1"
      using rm(1) False by (simp add: Timer_expire_def s1_def Let_def)
    ultimately show ?thesis using False by (simp add: s1_def)
  qed
qed

section \<open>Updates\<close>

text \<open>No sum of a period and a clock reading wraps to 0, the mark of a stopped timer.\<close>

definition timers_ok :: "(nat \<Rightarrow> u32) \<Rightarrow> timer_state \<Rightarrow> addr set \<Rightarrow> bool" where
  "timers_ok clk s S \<longleftrightarrow> timers_inv s S \<and> (\<forall>a i. 0 < m_repeat s a \<longrightarrow> m_repeat s a + clk i \<noteq> 0)"

lemma heap_min_least:
  assumes "timers_inv s S"
  shows "heap_min (gRootHeap s) = None \<longleftrightarrow> S = {}"
    and "heap_min (gRootHeap s) = Some a \<Longrightarrow> a \<in> S \<and> (\<forall>b\<in>S. m_time s a \<le> m_time s b)"
proof -
  have q: "heap_queue (deadline s) (gRootHeap s) S" using assms by (simp add: timers_inv_def)
  show "heap_min (gRootHeap s) = None \<longleftrightarrow> S = {}" using hq.min_none [OF q] .
  show "heap_min (gRootHeap s) = Some a \<Longrightarrow> a \<in> S \<and> (\<forall>b\<in>S. m_time s a \<le> m_time s b)"
    using hq.min_some [OF q] by (simp add: deadline_def word_le_nat_alt)
qed

lemma timers_inv_readings [simp]: "timers_inv (s\<lparr>readings := r\<rparr>) S = timers_inv s S"
  by (simp add: timers_inv_def)

text \<open>What the loop needs of a callback; the callbacks of a script have it (lemma \<open>callbacks_ok_script\<close> below).\<close>

definition callbacks_ok :: "(nat \<Rightarrow> u32) \<Rightarrow> (addr \<Rightarrow> timer_state \<Rightarrow> timer_state option) \<Rightarrow> bool" where
  "callbacks_ok clk cb \<longleftrightarrow> (\<forall>a s S. timers_ok clk s S \<longrightarrow> (\<exists>s' S'. cb a s = Some s' \<and> timers_ok clk s' S'))"

lemma callbacks_okD:
  "callbacks_ok clk cb \<Longrightarrow> timers_ok clk s S \<Longrightarrow> \<exists>s' S'. cb a s = Some s' \<and> timers_ok clk s' S'"
  unfolding callbacks_ok_def by blast

lemma update_loop_ok:
  assumes "timers_ok clk s S"
    and cb: "callbacks_ok clk cb"
  shows "\<exists>fired s' S'. update_loop cb clk n s = Some (fired, s') \<and> length fired \<le> n \<and> timers_ok clk s' S'
     \<and> (length fired < n \<longrightarrow> (\<forall>b\<in>S'. clk (readings s' - 1) < m_time s' b))"
  using assms(1)
proof (induction n arbitrary: s S)
  case 0
  then show ?case by auto
next
  case (Suc n)
  have inv: "timers_inv s S" using Suc.prems by (simp add: timers_ok_def)
  show ?case
  proof (cases "heap_min (gRootHeap s)")
    case None
    then have "S = {}" using heap_min_least(1) [OF inv] by simp
    then show ?thesis using None Suc.prems by auto
  next
    case (Some a)
    define s1 where "s1 = s\<lparr>readings := readings s + 1\<rparr>"
    have a: "a \<in> S" "\<forall>b\<in>S. m_time s a \<le> m_time s b" using heap_min_least(2) [OF inv Some] by auto
    have ok1: "timers_ok clk s1 S" using Suc.prems by (simp add: timers_ok_def s1_def)
    show ?thesis
    proof (cases "m_time s a \<le> clk (readings s)")
      case False
      then have "update_loop cb clk (Suc n) s = Some ([], s1)" using Some by (simp add: iclock_def s1_def)
      moreover have "\<forall>b\<in>S. clk (readings s1 - 1) < m_time s1 b" using a False by (force simp: s1_def)
      ultimately show ?thesis using ok1 by auto
    next
      case True
      obtain s2 where s2: "Timer_expire clk a s1 = Some s2" "timers_inv s2 (if 0 < m_repeat s1 a then S else S - {a})"
        "m_repeat s2 = m_repeat s1"
        using expire_inv [of s1 S a clk] ok1 a by (auto simp: timers_ok_def)
      then have "timers_ok clk s2 (if 0 < m_repeat s1 a then S else S - {a})" using ok1 by (simp add: timers_ok_def)
      then obtain s3 S3 where s3: "cb a s2 = Some s3" "timers_ok clk s3 S3" using callbacks_okD [OF cb] by blast
      obtain fired s4 S4 where "update_loop cb clk n s3 = Some (fired, s4)" "length fired \<le> n" "timers_ok clk s4 S4"
        "length fired < n \<longrightarrow> (\<forall>b\<in>S4. clk (readings s4 - 1) < m_time s4 b)"
        using Suc.IH [OF s3(2)] by blast
      moreover from this have "update_loop cb clk (Suc n) s = Some (a # fired, s4)"
        using Some True s2(1) s3(1) by (simp add: iclock_def s1_def)
      ultimately show ?thesis by fastforce
    qed
  qed
qed

text \<open>With idle callbacks and timers that do not repeat, at a fixed time \<open>c\<close>.\<close>

definition due :: "u32 \<Rightarrow> timer_state \<Rightarrow> addr set \<Rightarrow> addr set" where
  "due c s S = {b \<in> S. m_time s b \<le> c}"

lemma update_loop_fires:
  assumes "timers_inv s S" "finite S" "\<forall>a\<in>S. m_repeat s a = 0"
  shows "\<exists>fired s'. update_loop (\<lambda>_. Some) (\<lambda>_. c) n s = Some (fired, s') \<and> timers_inv s' (S - set fired)
     \<and> m_repeat s' = m_repeat s \<and> (\<forall>b\<in>S - set fired. m_time s' b = m_time s b)
     \<and> distinct fired \<and> set fired \<subseteq> due c s S \<and> sorted (map (m_time s) fired)
     \<and> length fired = min n (card (due c s S)) \<and> (\<forall>a\<in>set fired. \<forall>b\<in>S - set fired. m_time s a \<le> m_time s b)"
  using assms
proof (induction n arbitrary: s S)
  case 0
  then show ?case by auto
next
  case (Suc n)
  note inv = Suc.prems(1)
  show ?case
  proof (cases "heap_min (gRootHeap s)")
    case None
    then have "S = {}" using heap_min_least(1) [OF inv] by simp
    then show ?thesis using None Suc.prems by (auto simp: due_def)
  next
    case (Some a)
    define s1 where "s1 = s\<lparr>readings := readings s + 1\<rparr>"
    have a: "a \<in> S" "\<forall>b\<in>S. m_time s a \<le> m_time s b" using heap_min_least(2) [OF inv Some] by auto
    show ?thesis
    proof (cases "m_time s a \<le> c")
      case False
      then have "due c s S = {}" using a by (force simp: due_def)
      then show ?thesis using Some False inv by (simp add: iclock_def)
    next
      case True
      obtain s2 where s2: "Timer_expire (\<lambda>_. c) a s1 = Some s2" "timers_inv s2 (S - {a})"
        "m_repeat s2 = m_repeat s" "\<forall>b. b \<noteq> a \<longrightarrow> m_time s2 b = m_time s b"
        using expire_inv [of s1 S a "\<lambda>_. c"] inv a Suc.prems(3) by (auto simp: s1_def)
      have due: "due c s S = insert a (due c s2 (S - {a}))" using s2(4) a(1) True by (auto simp: due_def)
      have fin: "finite (due c s2 (S - {a}))" "a \<notin> due c s2 (S - {a})" using Suc.prems(2) by (auto simp: due_def)
      have rest: "finite (S - {a})" "\<forall>b\<in>S - {a}. m_repeat s2 b = 0" using Suc.prems(2,3) s2(3) by auto
      obtain fired s4 where r: "update_loop (\<lambda>_. Some) (\<lambda>_. c) n s2 = Some (fired, s4)" "timers_inv s4 (S - {a} - set fired)"
        "m_repeat s4 = m_repeat s2" "\<forall>b\<in>S - {a} - set fired. m_time s4 b = m_time s2 b"
        "distinct fired" "set fired \<subseteq> due c s2 (S - {a})" "sorted (map (m_time s2) fired)"
        "length fired = min n (card (due c s2 (S - {a})))"
        "\<forall>x\<in>set fired. \<forall>b\<in>S - {a} - set fired. m_time s2 x \<le> m_time s2 b"
        using Suc.IH [OF s2(2) rest] by (elim exE conjE) (rule that)
      have ne: "x \<in> set fired \<Longrightarrow> x \<noteq> a \<and> x \<in> S" for x using r(6) by (auto simp: due_def)
      have eq: "map (m_time s2) fired = map (m_time s) fired" using ne s2(4) by simp
      have "update_loop (\<lambda>_. Some) (\<lambda>_. c) (Suc n) s = Some (a # fired, s4)"
        using Some True s2(1) r(1) by (simp add: iclock_def s1_def)
      moreover have rest: "S - {a} - set fired = S - set (a # fired)" by auto
      have "timers_inv s4 (S - set (a # fired))" using r(2) unfolding rest .
      moreover have "m_repeat s4 = m_repeat s" using r(3) s2(3) by simp
      moreover have "\<forall>b\<in>S - set (a # fired). m_time s4 b = m_time s b" using r(4) s2(4) unfolding rest by auto
      moreover have "distinct (a # fired)" using r(5) ne by auto
      moreover have "set (a # fired) \<subseteq> due c s S" using r(6) due by auto
      moreover have "sorted (map (m_time s) (a # fired))" using r(7) eq a(2) ne by auto
      moreover have "length (a # fired) = min (Suc n) (card (due c s S))" using r(8) fin by (simp add: due)
      moreover have "\<forall>x\<in>set (a # fired). \<forall>b\<in>S - set (a # fired). m_time s x \<le> m_time s b"
        using r(9) a(2) ne s2(4) by auto
      ultimately show ?thesis by blast
    qed
  qed
qed

section \<open>Properties\<close>

text \<open>What the program does with its timers outside of \<open>update\<close>, and what a callback does: calls of the four operations.
  A call is proper if it starts or creates only a timer that is stopped and no deadline wraps to 0, now or in a later
  period. The \<open>std::function\<close> object of a timer is not modelled.\<close>

datatype timer_call = Start addr u64 u64 | Stop addr | New addr | Delete addr

fun run_call :: "(nat \<Rightarrow> u32) \<Rightarrow> timer_call \<Rightarrow> timer_state \<Rightarrow> timer_state option" where
  "run_call clk (Start a timeout repeat) s = Timer_start clk a timeout repeat s"
| "run_call clk (Stop a) s = Timer_stop a s"
| "run_call clk (New a) s = Some (Timer_ctor a s)"
| "run_call clk (Delete a) s = Timer_dtor a s"

fun call_ok :: "(nat \<Rightarrow> u32) \<Rightarrow> timer_call \<Rightarrow> timer_state \<Rightarrow> bool" where
  "call_ok clk (Start a timeout repeat) s \<longleftrightarrow>
     m_time s a = 0 \<and> (ucast (timeout + ucast (clk (readings s))) :: u32) \<noteq> 0
     \<and> (\<forall>i. (ucast repeat :: u32) \<noteq> 0 \<longrightarrow> ucast repeat + clk i \<noteq> 0)"
| "call_ok clk (New a) s \<longleftrightarrow> m_time s a = 0"
| "call_ok clk (Stop a) s \<longleftrightarrow> True"
| "call_ok clk (Delete a) s \<longleftrightarrow> True"

fun run_calls :: "(nat \<Rightarrow> u32) \<Rightarrow> timer_call list \<Rightarrow> timer_state \<Rightarrow> timer_state option" where
  "run_calls clk [] s = Some s"
| "run_calls clk (c # cs) s = do { s1 \<leftarrow> run_call clk c s; run_calls clk cs s1 }"

fun calls_ok :: "(nat \<Rightarrow> u32) \<Rightarrow> timer_call list \<Rightarrow> timer_state \<Rightarrow> bool" where
  "calls_ok clk [] s \<longleftrightarrow> True"
| "calls_ok clk (c # cs) s \<longleftrightarrow>
     call_ok clk c s \<and> (case run_call clk c s of None \<Rightarrow> True | Some s1 \<Rightarrow> calls_ok clk cs s1)"

text \<open>The callbacks: \<open>script a s\<close> are the calls that the callback of timer \<open>a\<close> makes when it runs in state \<open>s\<close>.\<close>

definition callback :: "(nat \<Rightarrow> u32) \<Rightarrow> (addr \<Rightarrow> timer_state \<Rightarrow> timer_call list) \<Rightarrow> addr \<Rightarrow> timer_state \<Rightarrow> timer_state option" where
  "callback clk script a s = run_calls clk (script a s) s"

definition script_ok :: "(nat \<Rightarrow> u32) \<Rightarrow> (addr \<Rightarrow> timer_state \<Rightarrow> timer_call list) \<Rightarrow> bool" where
  "script_ok clk script \<longleftrightarrow> (\<forall>a s. calls_ok clk (script a s) s)"

text \<open>The states the program reaches by proper calls and updates.\<close>

inductive timers_reach ::
  "(addr \<Rightarrow> timer_state \<Rightarrow> timer_call list) \<Rightarrow> (nat \<Rightarrow> u32) \<Rightarrow> timer_state \<Rightarrow> bool" for script clk where
  init: "\<forall>a. m_time s a = 0 \<and> m_repeat s a = 0 \<Longrightarrow> timers_reach script clk (Timer_init s)"
| call: "timers_reach script clk s \<Longrightarrow> call_ok clk c s \<Longrightarrow> run_call clk c s = Some s' \<Longrightarrow> timers_reach script clk s'"
| update: "timers_reach script clk s \<Longrightarrow> Timer_update (callback clk script) clk s = Some (fired, s') \<Longrightarrow>
    timers_reach script clk s'"

lemma start_only_repeat:
  "Timer_start clk a timeout repeat s = Some s' \<Longrightarrow> m_repeat s' = (m_repeat s)(a := ucast repeat)"
  by (auto simp: Timer_start_def iclock_def Let_def)

lemma start_only_time:
  "Timer_start clk a timeout repeat s = Some s' \<Longrightarrow> m_time s' = (m_time s)(a := ucast (timeout + ucast (clk (readings s))))"
  by (auto simp: Timer_start_def iclock_def Let_def)

lemma run_call_ok:
  assumes ok: "timers_ok clk s S" and c: "call_ok clk c s"
  shows "\<exists>s' S'. run_call clk c s = Some s' \<and> timers_ok clk s' S'"
proof (cases c)
  case (Start a timeout repeat)
  then have "a \<notin> S" using ok c by (auto simp: timers_ok_def timers_inv_def)
  then obtain s' where s': "Timer_start clk a timeout repeat s = Some s'" "timers_inv s' (insert a S)"
    using start_inv [of s S a timeout clk repeat] ok c Start by (auto simp: timers_ok_def)
  then have "timers_ok clk s' (insert a S)"
    using start_only_repeat [OF s'(1)] ok c Start by (force simp: timers_ok_def word_gt_0)
  then show ?thesis using s'(1) Start by auto
next
  case (Stop a)
  then show ?thesis using stop_inv [of s S a] ok by (auto simp: timers_ok_def)
next
  case (New a)
  have "deadline (Timer_ctor a s) = deadline s"
    using c New by (simp add: Timer_ctor_def deadline_def fun_eq_iff)
  then have "timers_ok clk (Timer_ctor a s) S"
    using ok c New by (auto simp: timers_ok_def timers_inv_def Timer_ctor_def)
  then show ?thesis using New by auto
next
  case (Delete a)
  then show ?thesis using stop_inv [of s S a] ok by (auto simp: timers_ok_def Timer_dtor_def)
qed

lemma run_calls_ok:
  "timers_ok clk s S \<Longrightarrow> calls_ok clk cs s \<Longrightarrow> \<exists>s' S'. run_calls clk cs s = Some s' \<and> timers_ok clk s' S'"
proof (induction cs arbitrary: s S)
  case (Cons c cs)
  from run_call_ok [OF Cons.prems(1), of c] Cons.prems(2) obtain s1 S1 where
    "run_call clk c s = Some s1" "timers_ok clk s1 S1" by auto
  with Cons.IH [of s1 S1] Cons.prems(2) show ?case by auto
qed auto

lemma callbacks_ok_script: "script_ok clk script \<Longrightarrow> callbacks_ok clk (callback clk script)"
  using run_calls_ok by (auto simp: callbacks_ok_def script_ok_def callback_def)

lemma timers_reach_ok:
  assumes "script_ok clk script"
  shows "timers_reach script clk s \<Longrightarrow> \<exists>S. timers_ok clk s S"
proof (induction rule: timers_reach.induct)
  case (init s)
  then have "timers_inv (Timer_init s) {}"
    by (simp add: timers_inv_def Timer_init_def heap_init_correct)
  then show ?case using init by (auto simp: timers_ok_def Timer_init_def)
next
  case (call s c s')
  then show ?case using run_call_ok by fastforce
next
  case (update s fired s')
  then obtain S where "timers_ok clk s S" by blast
  from update_loop_ok [OF this callbacks_ok_script [OF assms], where n = 10] update.hyps(2)
  show ?case by (auto simp: Timer_update_def)
qed

text \<open>C4. As long as the program and its callbacks make only proper calls (a timer is started or created only while it
  is stopped, and no deadline wraps to 0), every state that calls and updates reach holds in the heap exactly the timers
  whose \<open>m_time\<close> is set, in heap order and with the right count, and no further proper call and no update, with the
  callbacks it runs, dereferences \<open>NULL\<close>.\<close>

theorem timers_reachable_safe:
  assumes "timers_reach script clk s"
    and "script_ok clk script"
  shows "heap_queue (deadline s) (gRootHeap s) {a. m_time s a \<noteq> 0}
    \<and> nelts (gRootHeap s) = card {a. m_time s a \<noteq> 0}
    \<and> (call_ok clk c s \<longrightarrow> run_call clk c s \<noteq> None)
    \<and> Timer_update (callback clk script) clk s \<noteq> None"
proof (intro conjI impI)
  obtain S where ok: "timers_ok clk s S" using timers_reach_ok [OF assms(2,1)] by blast
  then have inv: "timers_inv s S" by (simp add: timers_ok_def)
  then have S: "S = {a. m_time s a \<noteq> 0}" by (auto simp: timers_inv_def)
  then show q: "heap_queue (deadline s) (gRootHeap s) {a. m_time s a \<noteq> 0}" using inv by (simp add: timers_inv_def)
  show "nelts (gRootHeap s) = card {a. m_time s a \<noteq> 0}" using heap_min_correct(3) [OF q] .
  show "run_call clk c s \<noteq> None" if "call_ok clk c s" using run_call_ok [OF ok that] by auto
  show "Timer_update (callback clk script) clk s \<noteq> None"
    using update_loop_ok [OF ok callbacks_ok_script [OF assms(2)], of 10] by (auto simp: Timer_update_def)
qed

definition no_timers :: timer_state where
  "no_timers = \<lparr>gRootHeap = \<lparr>hmin = None, nelts = 0, node = \<lambda>_. \<lparr>left = None, right = None, parent = None\<rparr>\<rparr>,
     m_time = \<lambda>_. 0, m_repeat = \<lambda>_. 0, readings = 0\<rparr>"

text \<open>For the witnesses: two timers started at time 5 with the deadlines 12 and 8, a clock that then shows 9, and a
  callback that makes calls: when timer 2 fires, it stops timer 1 and starts itself again.\<close>

definition demo_clk :: "nat \<Rightarrow> u32" where
  "demo_clk i = (if i < 2 then 5 else 9)"

definition demo_timers :: timer_state where
  "demo_timers = the (run_calls demo_clk [Start 1 7 0, Start 2 3 0] (Timer_init no_timers))"

definition demo_script :: "addr \<Rightarrow> timer_state \<Rightarrow> timer_call list" where
  "demo_script a s = (if a = 2 \<and> m_time s 2 = 0 then [Stop 1, Start 2 4 0] else [])"

lemma stop_other_time: "Timer_stop a s = Some s' \<Longrightarrow> b \<noteq> a \<Longrightarrow> m_time s' b = m_time s b"
  by (auto simp: Timer_stop_def Let_def split: if_splits)

lemma demo_script_ok: "script_ok demo_clk demo_script"
proof -
  have "m_time s' 2 = 0" if "Timer_stop 1 s = Some s'" "m_time s 2 = 0" for s s'
    using stop_other_time [OF that(1), of 2] that(2) by simp
  then show ?thesis
    by (auto simp: script_ok_def demo_script_def demo_clk_def split: option.split)
qed

lemma demo_timers_reach: "timers_reach script demo_clk demo_timers"
  and demo_timers_times: "m_time demo_timers = (\<lambda>a. if a = 1 then 12 else if a = 2 then 8 else 0)"
  and demo_timers_repeat: "m_repeat demo_timers = (\<lambda>_. 0)"
proof -
  let ?s0 = "Timer_init no_timers"
  have s0: "timers_inv ?s0 {}" by (simp add: timers_inv_def Timer_init_def heap_init_correct no_timers_def)
  have z: "m_time ?s0 a = 0" "readings ?s0 = 0" for a by (simp_all add: no_timers_def Timer_init_def)
  have r0: "timers_reach script demo_clk ?s0" by (rule timers_reach.init) (simp add: no_timers_def)
  obtain s1 where s1: "Timer_start demo_clk 1 7 0 ?s0 = Some s1" "timers_inv s1 {1}" "m_time s1 1 = 12"
    using start_inv [OF s0, of 1 7 demo_clk 0] z by (auto simp: demo_clk_def)
  have rd: "readings s1 = 1" using s1(1) z by (auto simp: Timer_start_def iclock_def Let_def)
  have r1: "timers_reach script demo_clk s1"
    using timers_reach.call [OF r0, of "Start 1 7 0"] s1(1) z by (simp add: demo_clk_def)
  obtain s2 where s2: "Timer_start demo_clk 2 3 0 s1 = Some s2" "timers_inv s2 {1, 2}" "m_time s2 2 = 8"
    using start_inv [OF s1(2), of 2 3 demo_clk 0] rd by (auto simp: insert_commute demo_clk_def)
  have "m_time s1 2 \<noteq> 0 \<longleftrightarrow> 2 \<in> {1 :: addr}" using s1(2) unfolding timers_inv_def by blast
  then have r2: "timers_reach script demo_clk s2"
    using timers_reach.call [OF r1, of "Start 2 3 0"] s2(1) rd by (simp add: demo_clk_def)
  have demo: "demo_timers = s2" using s1(1) s2(1) by (simp add: demo_timers_def)
  then show "timers_reach script demo_clk demo_timers" using r2 by simp
  have "m_time s2 1 = 12" using s1(3) start_only_time [OF s2(1)] by simp
  moreover have "a \<noteq> 1 \<Longrightarrow> a \<noteq> 2 \<Longrightarrow> m_time s2 a = 0" for a using s2(2) unfolding timers_inv_def by blast
  ultimately show "m_time demo_timers = (\<lambda>a. if a = 1 then 12 else if a = 2 then 8 else 0)"
    using s2(3) demo by (simp add: fun_eq_iff)
  show "m_repeat demo_timers = (\<lambda>_. 0)"
    using start_only_repeat [OF s1(1)] start_only_repeat [OF s2(1)] demo
    by (simp add: fun_eq_iff no_timers_def Timer_init_def)
qed

lemma timers_reachable_safe_witness:
  "heap_queue (deadline demo_timers) (gRootHeap demo_timers) {1, 2} \<and> nelts (gRootHeap demo_timers) = 2
   \<and> Timer_update (callback demo_clk demo_script) demo_clk demo_timers \<noteq> None"
proof -
  have "{a. m_time demo_timers a \<noteq> 0} = {1, 2}" by (auto simp: demo_timers_times)
  then show ?thesis
    using timers_reachable_safe [OF demo_timers_reach demo_script_ok, of "Stop 1"] by simp
qed

text \<open>One \<open>update\<close> runs at most 10 callbacks; if it runs fewer, no started timer was due at its last reading
  of the clock, whatever the callbacks did in between.\<close>

theorem timer_update_bounded:
  assumes "timers_reach script clk s"
    and "script_ok clk script"
    and "Timer_update (callback clk script) clk s = Some (fired, s')"
  shows "length fired \<le> 10 \<and> (length fired < 10 \<longrightarrow> (\<forall>b. m_time s' b \<noteq> 0 \<longrightarrow> clk (readings s' - 1) < m_time s' b))"
proof -
  obtain S where ok: "timers_ok clk s S" using timers_reach_ok [OF assms(2,1)] by blast
  obtain S' where "length fired \<le> 10" "timers_ok clk s' S'"
    "length fired < 10 \<longrightarrow> (\<forall>b\<in>S'. clk (readings s' - 1) < m_time s' b)"
    using update_loop_ok [OF ok callbacks_ok_script [OF assms(2)], of 10] assms(3) by (auto simp: Timer_update_def)
  then show ?thesis by (auto simp: timers_ok_def timers_inv_def)
qed

lemma timer_update_bounded_witness:
  "\<exists>fired s'. Timer_update (callback demo_clk demo_script) demo_clk demo_timers = Some (fired, s') \<and> length fired \<le> 10"
proof -
  obtain S where "timers_ok demo_clk demo_timers S"
    using timers_reach_ok [OF demo_script_ok demo_timers_reach] by blast
  then obtain fired s' where "Timer_update (callback demo_clk demo_script) demo_clk demo_timers = Some (fired, s')"
    using update_loop_ok [OF _ callbacks_ok_script [OF demo_script_ok], where n = 10] unfolding Timer_update_def by blast
  then show ?thesis
    using timer_update_bounded [OF demo_timers_reach demo_script_ok] by blast
qed

text \<open>C11. The timers fire in order and none is lost: in a reachable state (see above) in which no started timer
  repeats, with callbacks that leave the timers alone and a clock that shows the same time \<open>c\<close> throughout, one
  \<open>update\<close> fires exactly the due timers, or the 10 earliest of them, each once and in
  order of their deadlines, and it stops these and no others.\<close>

theorem timer_update_fires_due:
  assumes "timers_reach script clk s"
    and "script_ok clk script"
    and "\<forall>a. m_time s a \<noteq> 0 \<longrightarrow> m_repeat s a = 0"
  shows "\<exists>fired s'. Timer_update (\<lambda>_. Some) (\<lambda>_. c) s = Some (fired, s')
     \<and> distinct fired \<and> set fired \<subseteq> {a. m_time s a \<noteq> 0 \<and> m_time s a \<le> c}
     \<and> length fired = min 10 (card {a. m_time s a \<noteq> 0 \<and> m_time s a \<le> c})
     \<and> sorted (map (m_time s) fired)
     \<and> (\<forall>a\<in>set fired. \<forall>b. m_time s b \<noteq> 0 \<longrightarrow> b \<notin> set fired \<longrightarrow> m_time s a \<le> m_time s b)
     \<and> m_time s' = (\<lambda>a. if a \<in> set fired then 0 else m_time s a)"
proof -
  obtain S where ok: "timers_ok clk s S" using timers_reach_ok [OF assms(2,1)] by blast
  then have inv: "timers_inv s S" by (simp add: timers_ok_def)
  then have S: "S = {a. m_time s a \<noteq> 0}" by (auto simp: timers_inv_def)
  have due: "due c s S = {a. m_time s a \<noteq> 0 \<and> m_time s a \<le> c}" by (auto simp: due_def S)
  have "finite S" using inv by (auto simp: timers_inv_def heap_queue_def)
  then obtain fired s' where r: "update_loop (\<lambda>_. Some) (\<lambda>_. c) 10 s = Some (fired, s')" "timers_inv s' (S - set fired)"
    "\<forall>b\<in>S - set fired. m_time s' b = m_time s b" "distinct fired" "set fired \<subseteq> due c s S" "sorted (map (m_time s) fired)"
    "length fired = min 10 (card (due c s S))" "\<forall>a\<in>set fired. \<forall>b\<in>S - set fired. m_time s a \<le> m_time s b"
    using update_loop_fires [OF inv, of c 10] assms(3) S by blast
  have "m_time s' a = (if a \<in> set fired then 0 else m_time s a)" for a
    using r(2,3) by (cases "a \<in> S") (auto simp: timers_inv_def S)
  then have "m_time s' = (\<lambda>a. if a \<in> set fired then 0 else m_time s a)" by (simp add: fun_eq_iff)
  then show ?thesis using r(1,4-8) unfolding due by (auto simp: Timer_update_def S)
qed

lemma timer_update_fires_due_witness:
  "\<exists>fired s'. Timer_update (\<lambda>_. Some) (\<lambda>_. 9) demo_timers = Some (fired, s') \<and> fired = [2] \<and> m_time s' 2 = 0 \<and> m_time s' 1 = 12"
proof -
  have due: "{a. m_time demo_timers a \<noteq> 0 \<and> m_time demo_timers a \<le> 9} = {2}"
    by (auto simp: demo_timers_times)
  have "\<forall>a. m_time demo_timers a \<noteq> 0 \<longrightarrow> m_repeat demo_timers a = 0" by (simp add: demo_timers_repeat)
  from timer_update_fires_due [OF demo_timers_reach demo_script_ok this, of 9]
  obtain fired s' where r: "Timer_update (\<lambda>_. Some) (\<lambda>_. 9) demo_timers = Some (fired, s')"
    "set fired \<subseteq> {2}" "length fired = 1" "m_time s' = (\<lambda>a. if a \<in> set fired then 0 else m_time demo_timers a)"
    unfolding due by auto
  then have "fired = [2]" by (cases fired) auto
  then show ?thesis using r by (simp add: demo_timers_times)
qed

text \<open>The empty heap, one node inserted twice.\<close>

lemma path_loop_12 [simp]: "path_loop (Suc 0) 0 0 = (0, 0)" "path_loop 2 0 0 = (1, 0)" "path_loop (Suc (Suc 0)) 0 0 = (1, 0)"
  by (simp_all add: path_loop.simps numeral_2_eq_2)

lemma heap_insert_twice:
  assumes "nelts h = 0" "hmin h = None" "\<not> lt2 a a"
  shows "\<exists>h1 h2. heap_insert lt1 a h = Some h1 \<and> heap_insert lt2 a h1 = Some h2
    \<and> hmin h2 = Some a \<and> nelts h2 = 2 \<and> left (node h2 a) = Some a"
proof -
  define n0 where "n0 = \<lparr>left = None, right = None, parent = None\<rparr>"
  define h1 where "h1 = h\<lparr>node := (node h)(a := n0), hmin := Some a, nelts := 1\<rparr>"
  have "heap_insert lt1 a h = sift_up lt1 a h1"
    using assms by (simp add: heap_insert_def upd_def h1_def n0_def)
  also have "\<dots> = Some h1" by (subst sift_up.simps) (simp add: h1_def n0_def)
  finally have 1: "heap_insert lt1 a h = Some h1" .
  define h2 where "h2 = h1\<lparr>node := (node h1)(a := \<lparr>left = Some a, right = None, parent = Some a\<rparr>), nelts := 2\<rparr>"
  have "heap_insert lt2 a h1 = sift_up lt2 a h2"
    by (simp add: heap_insert_def upd_def h1_def h2_def n0_def numeral_2_eq_2)
  also have "\<dots> = Some h2" by (subst sift_up.simps) (simp add: h2_def assms(3))
  finally show ?thesis using 1 by (simp add: h2_def h1_def)
qed

text \<open>C26. Starting a timer that is already started corrupts the heap: \<open>Timer::start\<close> inserts its node a second time,
  which makes the node its own child and parent. With an empty heap before, stopping that timer then empties the root
  but leaves a count of 1, and the next \<open>start\<close> of any timer dereferences \<open>NULL\<close>.\<close>

theorem timer_double_start_crashes:
  assumes "timers_inv s {}" and "(ucast (t2 + ucast (clk (readings s + 1))) :: u32) \<noteq> 0"
  shows "\<exists>s1 s2 s3. Timer_start clk a t1 r1 s = Some s1 \<and> Timer_start clk a t2 r2 s1 = Some s2
    \<and> Timer_stop a s2 = Some s3 \<and> Timer_start clk b t3 r3 s3 = None"
proof -
  have h: "nelts (gRootHeap s) = 0" "hmin (gRootHeap s) = None"
    using assms(1) heap_min_correct(1,3) [of "deadline s" "gRootHeap s" "{}"] by (auto simp: timers_inv_def heap_min_def)
  have nlt: "\<not> compare_fn s' a a" for s' by (simp add: compare_fn_def)
  define f1 where "f1 = compare_fn (s\<lparr>readings := readings s + 1, m_time := (m_time s)(a := ucast (t1 + ucast (clk (readings s)))),
    m_repeat := (m_repeat s)(a := ucast r1)\<rparr>)"
  define f2 where "f2 = compare_fn (s\<lparr>readings := readings s + 2, m_time := (m_time s)(a := ucast (t2 + ucast (clk (readings s + 1)))),
    m_repeat := (m_repeat s)(a := ucast r2)\<rparr>)"
  obtain h1 h2 where ins: "heap_insert f1 a (gRootHeap s) = Some h1" "heap_insert f2 a h1 = Some h2"
    "hmin h2 = Some a" "nelts h2 = 2" "left (node h2 a) = Some a"
    using heap_insert_twice [OF h, of f2 a f1] nlt by (auto simp: f2_def)
  define s1 where "s1 = s\<lparr>readings := readings s + 1, m_time := (m_time s)(a := ucast (t1 + ucast (clk (readings s)))),
    m_repeat := (m_repeat s)(a := ucast r1), gRootHeap := h1\<rparr>"
  have s1: "Timer_start clk a t1 r1 s = Some s1" "gRootHeap s1 = h1" "readings s1 = readings s + 1"
    "m_time s1 = (m_time s)(a := ucast (t1 + ucast (clk (readings s))))"
    using ins(1) by (simp_all add: Timer_start_def iclock_def f1_def Let_def s1_def)
  define s1' where "s1' = s1\<lparr>readings := readings s1 + 1, m_time := (m_time s1)(a := ucast (t2 + ucast (clk (readings s1)))),
    m_repeat := (m_repeat s1)(a := ucast r2)\<rparr>"
  have "f2 = compare_fn s1'"
    by (simp add: f2_def compare_fn_def fun_eq_iff s1'_def s1(3,4))
  then have s2: "Timer_start clk a t2 r2 s1 = Some (s1'\<lparr>gRootHeap := h2\<rparr>)" "m_time s1' a \<noteq> 0"
    using ins(2) s1(2,3) assms(2) by (simp_all add: Timer_start_def iclock_def Let_def s1'_def)
  have "heap_remove lt a h2 = Some (h2\<lparr>nelts := 1, node := (node h2)(a := (node h2 a)\<lparr>left := None\<rparr>), hmin := None\<rparr>)" for lt
    using ins(3-5) by (simp add: heap_remove_def upd_def)
  then have "\<exists>s3. Timer_stop a (s1'\<lparr>gRootHeap := h2\<rparr>) = Some s3 \<and> hmin (gRootHeap s3) = None \<and> nelts (gRootHeap s3) = 1"
    using s2(2) by (simp add: Timer_stop_def Let_def)
  then obtain s3 where s3: "Timer_stop a (s1'\<lparr>gRootHeap := h2\<rparr>) = Some s3" "hmin (gRootHeap s3) = None" "nelts (gRootHeap s3) = 1"
    by blast
  have "heap_insert lt b (gRootHeap s3) = None" for lt
    using s3(2,3) by (simp add: heap_insert_def)
  then have "Timer_start clk b t3 r3 s3 = None"
    unfolding Timer_start_def iclock_def Let_def by simp
  then show ?thesis using s1(1) s2(1) s3(1) by blast
qed

lemma timer_double_start_crashes_witness:
  "\<exists>s1 s2 s3. Timer_start (\<lambda>_. 5) 1 10 0 (Timer_init no_timers) = Some s1 \<and> Timer_start (\<lambda>_. 5) 1 20 0 s1 = Some s2
    \<and> Timer_stop 1 s2 = Some s3 \<and> Timer_start (\<lambda>_. 5) 2 10 0 s3 = None"
  by (rule timer_double_start_crashes) (simp_all add: timers_inv_def Timer_init_def heap_init_correct no_timers_def)

text \<open>The deadline is kept in 32 bits and 0 marks a stopped timer: a timer whose deadline wraps to 0 is in the
  heap, so that it expires at the next update, and \<open>stop\<close> (also the one of the destructor) leaves it there.\<close>

theorem timer_wrapped_not_stopped:
  assumes "timers_inv s S" and "a \<notin> S" and "(ucast (timeout + ucast (clk (readings s))) :: u32) = 0"
  shows "\<exists>s'. Timer_start clk a timeout repeat s = Some s' \<and> heap_queue (deadline s') (gRootHeap s') (insert a S)
    \<and> heap_min (gRootHeap s') = Some a \<and> Timer_stop a s' = Some s'"
proof -
  define s2 where "s2 = s\<lparr>readings := readings s + 1, m_time := (m_time s)(a := ucast (timeout + ucast (clk (readings s)))),
    m_repeat := (m_repeat s)(a := ucast repeat)\<rparr>"
  have "\<exists>q'. heap_insert (compare_fn s2) a (gRootHeap s) = Some q' \<and> heap_queue (deadline s2) q' (insert a S)"
    using assms(1,2) by (intro hq.ins_key [of "deadline s"] compare_fn_agrees) (simp_all add: timers_inv_def s2_def deadline_def)
  then obtain h where h: "heap_insert (compare_fn s2) a (gRootHeap s) = Some h" "heap_queue (deadline s2) h (insert a S)"
    by blast
  obtain b where b: "heap_min h = Some b" using hq.min_none [OF h(2)] by auto
  then have "b \<in> insert a S" "deadline s2 b \<le> deadline s2 a" using hq.min_some [OF h(2)] by auto
  moreover have "deadline s2 a = 0" using assms(3) by (simp add: s2_def deadline_def)
  moreover have "c \<in> S \<Longrightarrow> deadline s2 c \<noteq> 0" for c
    using assms(1,2) by (auto simp: s2_def deadline_def timers_inv_def unat_eq_zero)
  ultimately have "b = a" by (metis insertE le_zero_eq)
  moreover have "Timer_start clk a timeout repeat s = Some (s2\<lparr>gRootHeap := h\<rparr>)"
    using h(1) by (simp add: Timer_start_def iclock_def s2_def Let_def)
  ultimately show ?thesis using b h(2) assms(3) by (intro exI [of _ "s2\<lparr>gRootHeap := h\<rparr>"]) (simp add: Timer_stop_def, simp add: s2_def)
qed

lemma timer_wrapped_not_stopped_witness:
  "\<exists>s'. Timer_start (\<lambda>_. 0xFFFFFFFF) 4 1 0 (Timer_init no_timers) = Some s' \<and> Timer_stop 4 s' = Some s'"
  using timer_wrapped_not_stopped [of "Timer_init no_timers" "{}" 4 1 "\<lambda>_. 0xFFFFFFFF" 0]
  by (auto simp: timers_inv_def Timer_init_def heap_init_correct no_timers_def)

end
