(* ===== verification/Message_Buffer.thy ===== *)
theory Message_Buffer
  imports Prelude
begin

text \<open>
  \<open>src/network/MessageBuffer.h\<close>: the receive buffer that each socket lends to libuv. A pointer into
  the storage is modelled by the bytes that follow it; \<open>active\<close> are the bytes between the two
  positions, which is all a consumer may look at.
\<close>

section \<open>The buffer and its operations\<close>

definition MESSAGE_BUFFER_SIZE :: nat where
  "MESSAGE_BUFFER_SIZE = 4096"

record MessageBuffer =
  mb_wpos :: nat
  mb_rpos :: nat
  mb_storage :: "byte list"

definition MessageBuffer_ctor :: "nat \<Rightarrow> MessageBuffer" where
  "MessageBuffer_ctor initialSize =
     \<lparr>mb_wpos = 0, mb_rpos = 0, mb_storage = replicate initialSize 0\<rparr>"

definition Reset :: "MessageBuffer \<Rightarrow> MessageBuffer" where
  "Reset mb = mb\<lparr>mb_wpos := 0, mb_rpos := 0\<rparr>"

definition Resize :: "nat \<Rightarrow> MessageBuffer \<Rightarrow> MessageBuffer" where
  "Resize bytes mb = mb\<lparr>mb_storage := resize bytes 0 (mb_storage mb)\<rparr>"

definition GetReadPointer :: "MessageBuffer \<Rightarrow> byte list" where
  "GetReadPointer mb = drop (mb_rpos mb) (mb_storage mb)"

definition GetWritePointer :: "MessageBuffer \<Rightarrow> byte list" where
  "GetWritePointer mb = drop (mb_wpos mb) (mb_storage mb)"

definition ReadCompleted :: "nat \<Rightarrow> MessageBuffer \<Rightarrow> MessageBuffer" where
  "ReadCompleted bytes mb = mb\<lparr>mb_rpos := mb_rpos mb + bytes\<rparr>"

definition WriteCompleted :: "nat \<Rightarrow> MessageBuffer \<Rightarrow> MessageBuffer" where
  "WriteCompleted bytes mb = mb\<lparr>mb_wpos := mb_wpos mb + bytes\<rparr>"

definition GetActiveSize :: "MessageBuffer \<Rightarrow> nat" where
  "GetActiveSize mb = to_size (int (mb_wpos mb) - int (mb_rpos mb))"

definition GetRemainingSpace :: "MessageBuffer \<Rightarrow> nat" where
  "GetRemainingSpace mb = to_size (int (length (mb_storage mb)) - int (mb_wpos mb))"

definition GetBufferSize :: "MessageBuffer \<Rightarrow> nat" where
  "GetBufferSize mb = length (mb_storage mb)"

text \<open>\<open>memmove\<close> of the active bytes to the front; \<^const>\<open>None\<close> if the block lies outside of the storage.\<close>

definition Normalize :: "MessageBuffer \<Rightarrow> MessageBuffer option" where
  "Normalize mb =
     (if mb_rpos mb \<noteq> 0 then
        do { mb1 \<leftarrow>
               (if mb_rpos mb \<noteq> mb_wpos mb then
                  (if mb_rpos mb + GetActiveSize mb \<le> length (mb_storage mb)
                   then Some (mb\<lparr>mb_storage :=
                          overwrite 0 (take (GetActiveSize mb) (GetReadPointer mb)) (mb_storage mb)\<rparr>)
                   else None)
                else Some mb);
             Some (mb1\<lparr>mb_wpos := to_size (int (mb_wpos mb1) - int (mb_rpos mb1)), mb_rpos := 0\<rparr>) }
      else Some mb)"

definition EnsureFreeSpace :: "MessageBuffer \<Rightarrow> MessageBuffer" where
  "EnsureFreeSpace mb =
     (if GetRemainingSpace mb = 0
      then mb\<lparr>mb_storage := resize (length (mb_storage mb) * 3 div 2) 0 (mb_storage mb)\<rparr>
      else mb)"

definition Write :: "byte list \<Rightarrow> MessageBuffer \<Rightarrow> MessageBuffer option" where
  "Write data mb =
     (if length data > 0 then
        (if mb_wpos mb + length data \<le> length (mb_storage mb)
         then Some (WriteCompleted (length data)
                (mb\<lparr>mb_storage := overwrite (mb_wpos mb) data (mb_storage mb)\<rparr>))
         else None)
      else Some mb)"

definition Move :: "MessageBuffer \<Rightarrow> byte list \<times> MessageBuffer" where
  "Move mb = (mb_storage mb, mb\<lparr>mb_wpos := 0, mb_rpos := 0, mb_storage := []\<rparr>)"

definition MessageBuffer_assign_copy :: "MessageBuffer \<Rightarrow> MessageBuffer \<Rightarrow> MessageBuffer" where
  "MessageBuffer_assign_copy this right =
     this\<lparr>mb_wpos := mb_wpos right, mb_rpos := mb_rpos right, mb_storage := mb_storage right\<rparr>"

definition MessageBuffer_assign_move ::
  "MessageBuffer \<Rightarrow> MessageBuffer \<Rightarrow> MessageBuffer \<times> MessageBuffer" where
  "MessageBuffer_assign_move this right =
     (let this1 = this\<lparr>mb_wpos := mb_wpos right, mb_rpos := mb_rpos right\<rparr>;
          (st, right1) = Move right
      in (this1\<lparr>mb_storage := st\<rparr>, right1))"

section \<open>Invariant and active bytes\<close>

definition wf_mb :: "MessageBuffer \<Rightarrow> bool" where
  "wf_mb mb \<longleftrightarrow> mb_rpos mb \<le> mb_wpos mb \<and> mb_wpos mb \<le> length (mb_storage mb)
     \<and> length (mb_storage mb) < 2 ^ 63"

definition active :: "MessageBuffer \<Rightarrow> byte list" where
  "active mb = drop (mb_rpos mb) (take (mb_wpos mb) (mb_storage mb))"

lemma GetActiveSize_active [simp]: "wf_mb mb \<Longrightarrow> GetActiveSize mb = length (active mb)"
  by (simp add: wf_mb_def GetActiveSize_def active_def to_size_id)

lemma take_GetReadPointer:
  "wf_mb mb \<Longrightarrow> n \<le> length (active mb) \<Longrightarrow> take n (GetReadPointer mb) = take n (active mb)"
  by (simp add: wf_mb_def GetReadPointer_def active_def drop_take)

lemma copy_from_GetReadPointer:
  "wf_mb mb \<Longrightarrow> n \<le> length (active mb) \<Longrightarrow> copy_from n (GetReadPointer mb) = Some (take n (active mb))"
  by (simp add: copy_from_def take_GetReadPointer) (auto simp: wf_mb_def GetReadPointer_def active_def)

lemma active_GetReadPointer:
  "wf_mb mb \<Longrightarrow> active mb = take (length (active mb)) (GetReadPointer mb)"
  "wf_mb mb \<Longrightarrow> length (active mb) \<le> length (GetReadPointer mb)"
  by (simp_all add: take_GetReadPointer) (auto simp: wf_mb_def GetReadPointer_def active_def)

lemma ReadCompleted_active [simp]: "active (ReadCompleted n mb) = drop n (active mb)"
  by (simp add: ReadCompleted_def active_def add.commute)

lemma ReadCompleted_wf: "wf_mb mb \<Longrightarrow> n \<le> length (active mb) \<Longrightarrow> wf_mb (ReadCompleted n mb)"
  by (auto simp: wf_mb_def ReadCompleted_def active_def)

lemma ReadCompleted_sel [simp]:
  "mb_storage (ReadCompleted n mb) = mb_storage mb" "mb_wpos (ReadCompleted n mb) = mb_wpos mb"
  by (simp_all add: ReadCompleted_def)

lemma GetRemainingSpace_wf:
  "wf_mb mb \<Longrightarrow> GetRemainingSpace mb = length (mb_storage mb) - mb_wpos mb"
  by (simp add: wf_mb_def GetRemainingSpace_def to_size_id)

lemma Normalize_active:
  assumes "wf_mb mb"
  shows "\<exists>mb'. Normalize mb = Some mb' \<and> wf_mb mb' \<and> mb_rpos mb' = 0 \<and> active mb' = active mb"
proof (cases "mb_rpos mb = 0 \<or> mb_rpos mb = mb_wpos mb")
  case True
  with assms show ?thesis
    by (auto simp: Normalize_def wf_mb_def active_def to_size_def)
next
  case False
  let ?a = "active mb"
  have la: "length ?a = mb_wpos mb - mb_rpos mb" "mb_rpos mb + length ?a \<le> length (mb_storage mb)"
    using assms by (auto simp: active_def wf_mb_def)
  have sz: "to_size (int (mb_wpos mb) - int (mb_rpos mb)) = length ?a"
    using assms GetActiveSize_active [OF assms] by (simp add: GetActiveSize_def)
  from False la sz assms have
    "Normalize mb = Some (mb\<lparr>mb_storage := overwrite 0 ?a (mb_storage mb),
        mb_wpos := length ?a, mb_rpos := 0\<rparr>)"
    by (simp add: Normalize_def take_GetReadPointer)
  then show ?thesis using assms la by (auto simp: wf_mb_def active_def overwrite_def)
qed

lemma EnsureFreeSpace_active:
  "wf_mb mb \<Longrightarrow> active (EnsureFreeSpace mb) = active mb"
  by (simp add: EnsureFreeSpace_def active_def wf_mb_def resize_def)

lemma Write_active:
  assumes "wf_mb mb" and "length data \<le> GetRemainingSpace mb"
  shows "\<exists>mb'. Write data mb = Some mb' \<and> wf_mb mb' \<and> active mb' = active mb @ data"
proof -
  have room: "mb_wpos mb + length data \<le> length (mb_storage mb)"
    using assms by (auto simp: GetRemainingSpace_wf wf_mb_def)
  then have "take (mb_wpos mb + length data) (overwrite (mb_wpos mb) data (mb_storage mb))
      = take (mb_wpos mb) (mb_storage mb) @ data"
    by (rule take_overwrite_end)
  with room assms(1) show ?thesis
    by (auto simp: Write_def WriteCompleted_def wf_mb_def active_def)
qed

end
