(* ===== verification/Stream_Loop.thy ===== *)
theory Stream_Loop
  imports Prelude
begin

text \<open>
  The receive loops \<open>while (buffer->GetActiveSize() > 0) { ... }\<close> of the connection classes, and the
  contract under which such a loop implements a byte-wise specification. A loop may not return and
  its body may be undefined, so its result is an \<open>outcome\<close>; fuel counts iterations.
\<close>

section \<open>Loops with fuel\<close>

datatype 'a outcome = Returns 'a | Undefined | Out_of_fuel

fun run_loop :: "nat \<Rightarrow> ('s \<Rightarrow> bool) \<Rightarrow> ('s \<Rightarrow> 's option) \<Rightarrow> 's \<Rightarrow> 's outcome" where
  "run_loop fuel guard body s =
     (if \<not> guard s then Returns s
      else case fuel of
          0 \<Rightarrow> Out_of_fuel
        | Suc n \<Rightarrow> (case body s of None \<Rightarrow> Undefined | Some s' \<Rightarrow> run_loop n guard body s'))"

declare run_loop.simps [simp del]

lemma run_loop_done [simp]: "\<not> guard s \<Longrightarrow> run_loop fuel guard body s = Returns s"
  by (subst run_loop.simps) simp

lemma run_loop_0 [simp]: "guard s \<Longrightarrow> run_loop 0 guard body s = Out_of_fuel"
  by (subst run_loop.simps) simp

lemma run_loop_Suc [simp]:
  "guard s \<Longrightarrow> run_loop (Suc n) guard body s =
     (case body s of None \<Rightarrow> Undefined | Some s' \<Rightarrow> run_loop n guard body s')"
  by (subst run_loop.simps) simp

lemma run_loop_mono:
  "run_loop n guard body s = Returns t \<Longrightarrow> n \<le> m \<Longrightarrow> run_loop m guard body s = Returns t"
proof (induction n arbitrary: m s)
  case 0
  then show ?case by (cases "guard s") auto
next
  case (Suc n)
  then obtain k where "m = Suc k" "n \<le> k" by (cases m) auto
  with Suc show ?case by (cases "guard s") (auto split: option.splits)
qed

lemma run_loop_invariant:
  assumes "\<And>s s'. P s \<Longrightarrow> body s = Some s' \<Longrightarrow> P s'"
  shows "P s \<Longrightarrow> run_loop fuel guard body s = Returns t \<Longrightarrow> P t"
proof (induction fuel arbitrary: s)
  case 0
  then show ?case by (cases "guard s") auto
next
  case (Suc n)
  then show ?case by (cases "guard s") (auto split: option.splits intro: assms)
qed

section \<open>Feeding bytes to a specification\<close>

text \<open>\<open>feed a b\<close> is the state after one more byte, \<^const>\<open>None\<close> if the receiver is stuck.\<close>

fun feeds :: "('a \<Rightarrow> 'c \<Rightarrow> 'a option) \<Rightarrow> 'a \<Rightarrow> 'c list \<Rightarrow> 'a option" where
  "feeds feed a [] = Some a"
| "feeds feed a (b # bs) = Option.bind (feed a b) (\<lambda>a'. feeds feed a' bs)"

lemma feeds_append: "feeds feed a (xs @ ys) = Option.bind (feeds feed a xs) (\<lambda>a'. feeds feed a' ys)"
  by (induction xs arbitrary: a) (auto simp: bind_eq_None_conv split: Option.bind_split)

text \<open>
  The contract of a receive loop. \<open>input\<close> are the bytes still to be consumed, \<open>spec_of\<close> is the
  specification state. Each iteration leaves the final specification state unchanged, and makes
  progress unless the receiver is stuck on the next byte.
\<close>

locale stream_loop =
  fixes guard :: "'s \<Rightarrow> bool"
    and body :: "'s \<Rightarrow> 's option"
    and input :: "'s \<Rightarrow> byte list"
    and spec_of :: "'s \<Rightarrow> 'a"
    and feed :: "'a \<Rightarrow> byte \<Rightarrow> 'a option"
    and inv :: "'s \<Rightarrow> bool"
    and work :: "'s \<Rightarrow> nat"
  assumes guard_input: "inv s \<Longrightarrow> guard s \<longleftrightarrow> input s \<noteq> []"
    and body_feeds: "inv s \<Longrightarrow> input s \<noteq> [] \<Longrightarrow>
      \<exists>s'. body s = Some s' \<and> inv s' \<and> feeds feed (spec_of s') (input s') = feeds feed (spec_of s) (input s)"
    and body_work: "inv s \<Longrightarrow> input s \<noteq> [] \<Longrightarrow> feed (spec_of s) (hd (input s)) \<noteq> None \<Longrightarrow>
      body s = Some s' \<Longrightarrow> work s' < work s"
begin

lemma loop_returns:
  "inv s \<Longrightarrow> feeds feed (spec_of s) (input s) = Some a \<Longrightarrow> work s \<le> fuel \<Longrightarrow>
   \<exists>s'. run_loop fuel guard body s = Returns s' \<and> inv s' \<and> input s' = [] \<and> spec_of s' = a"
proof (induction fuel arbitrary: s)
  case (0 s)
  have "input s = []"
  proof (rule ccontr)
    assume ne: "input s \<noteq> []"
    then have "feed (spec_of s) (hd (input s)) \<noteq> None"
      using "0.prems"(2) by (cases "input s") (auto simp: bind_eq_Some_conv)
    with ne "0.prems"(1,3) body_work [of s] body_feeds [of s] show False by fastforce
  qed
  with "0.prems" guard_input show ?case by simp
next
  case (Suc n s)
  show ?case
  proof (cases "input s = []")
    case True
    with Suc.prems guard_input show ?thesis by simp
  next
    case False
    then have ok: "feed (spec_of s) (hd (input s)) \<noteq> None"
      using Suc.prems(2) by (cases "input s") (auto simp: bind_eq_Some_conv)
    from body_feeds [OF Suc.prems(1) False] obtain s1
      where s1: "body s = Some s1" "inv s1" "feeds feed (spec_of s1) (input s1) = Some a"
      using Suc.prems(2) by auto
    from body_work [OF Suc.prems(1) False ok s1(1)] Suc.prems(3) have "work s1 \<le> n" by simp
    from Suc.IH [OF s1(2,3) this] guard_input [OF Suc.prems(1)] False s1(1) show ?thesis by simp
  qed
qed

lemma loop_stuck:
  "inv s \<Longrightarrow> feeds feed (spec_of s) (input s) = None \<Longrightarrow>
   run_loop fuel guard body s = Out_of_fuel"
proof (induction fuel arbitrary: s)
  case (0 s)
  then have "input s \<noteq> []" by auto
  with "0.prems"(1) guard_input show ?case by simp
next
  case (Suc n s)
  then have ne: "input s \<noteq> []" by auto
  with body_feeds [OF Suc.prems(1) ne] guard_input [OF Suc.prems(1)] Suc.prems(2) Suc.IH
  show ?case by auto
qed

end

section \<open>A connection that receives several chunks\<close>

text \<open>\<open>TcpSocketBase::echo_read\<close> (\<open>src/network/TcpSocket.cpp\<close>) for a positive \<open>nread\<close>: the chunk is loaded into the
  receive buffer, the connection's \<open>on_msgbuffer\<close> runs its loop, and the buffer is reset.\<close>

fun run_reads ::
  "nat \<Rightarrow> ('s \<Rightarrow> bool) \<Rightarrow> ('s \<Rightarrow> 's option) \<Rightarrow> ('c \<Rightarrow> 's \<Rightarrow> 's) \<Rightarrow> ('s \<Rightarrow> 's) \<Rightarrow> 'c list \<Rightarrow> 's \<Rightarrow> 's outcome"
where
  "run_reads fuel guard body load finish [] s = Returns s"
| "run_reads fuel guard body load finish (chunk # chunks) s =
     (case run_loop fuel guard body (load chunk s) of
        Returns s1 \<Rightarrow> run_reads fuel guard body load finish chunks (finish s1)
      | Undefined \<Rightarrow> Undefined
      | Out_of_fuel \<Rightarrow> Out_of_fuel)"

text \<open>Between two reads the connection is \<open>idle\<close>; \<open>ok\<close> are the chunks that fit into the buffer, and
  \<open>bound\<close> iterations are enough for each of them.\<close>

locale chunked_loop = stream_loop +
  fixes load :: "byte list \<Rightarrow> 'a \<Rightarrow> 'a"
    and finish :: "'a \<Rightarrow> 'a"
    and idle :: "'a \<Rightarrow> bool"
    and ok :: "byte list \<Rightarrow> bool"
    and bound :: nat
  assumes load_loaded: "idle s \<Longrightarrow> ok chunk \<Longrightarrow>
      inv (load chunk s) \<and> input (load chunk s) = chunk \<and> spec_of (load chunk s) = spec_of s
      \<and> work (load chunk s) \<le> bound"
    and finish_idle: "idle s \<Longrightarrow> ok chunk \<Longrightarrow> run_loop fuel guard body (load chunk s) = Returns s' \<Longrightarrow>
      inv s' \<Longrightarrow> idle (finish s') \<and> spec_of (finish s') = spec_of s'"
begin

lemma read_returns:
  assumes "idle s" and "ok chunk" and "feeds feed (spec_of s) chunk = Some a" and "bound \<le> fuel"
  shows "\<exists>s'. run_loop fuel guard body (load chunk s) = Returns s' \<and> idle (finish s')
    \<and> spec_of (finish s') = a"
proof -
  from loop_returns [of "load chunk s" a fuel] load_loaded [OF assms(1,2)] assms(3,4) obtain s'
    where "run_loop fuel guard body (load chunk s) = Returns s'" "inv s'" "spec_of s' = a" by auto
  with finish_idle [OF assms(1,2)] show ?thesis by blast
qed

lemma reads_return:
  "idle s \<Longrightarrow> \<forall>chunk\<in>set chunks. ok chunk \<Longrightarrow> feeds feed (spec_of s) (concat chunks) = Some a \<Longrightarrow>
   bound \<le> fuel \<Longrightarrow>
   \<exists>s'. run_reads fuel guard body load finish chunks s = Returns s' \<and> idle s' \<and> spec_of s' = a"
proof (induction chunks arbitrary: s)
  case (Cons chunk chunks)
  from Cons.prems(3) obtain a1 where a1: "feeds feed (spec_of s) chunk = Some a1"
    "feeds feed a1 (concat chunks) = Some a"
    by (auto simp: feeds_append bind_eq_Some_conv)
  from read_returns [OF Cons.prems(1) _ a1(1) Cons.prems(4)] Cons.prems(2) obtain s'
    where s': "run_loop fuel guard body (load chunk s) = Returns s'" "idle (finish s')"
      "spec_of (finish s') = a1" by auto
  from Cons.IH [OF s'(2)] Cons.prems(2,4) a1(2) s' show ?case by auto
qed simp

lemma reads_stuck:
  "idle s \<Longrightarrow> \<forall>chunk\<in>set chunks. ok chunk \<Longrightarrow> feeds feed (spec_of s) (concat chunks) = None \<Longrightarrow>
   bound \<le> fuel \<Longrightarrow> run_reads fuel guard body load finish chunks s = Out_of_fuel"
proof (induction chunks arbitrary: s)
  case (Cons chunk chunks)
  show ?case
  proof (cases "feeds feed (spec_of s) chunk")
    case None
    with Cons.prems load_loaded [of s chunk] loop_stuck [of "load chunk s" fuel] show ?thesis by simp
  next
    case (Some a1)
    with read_returns [OF Cons.prems(1) _ Some Cons.prems(4)] Cons.prems(2) obtain s'
      where s': "run_loop fuel guard body (load chunk s) = Returns s'" "idle (finish s')"
        "spec_of (finish s') = a1" by auto
    from Cons.IH [OF s'(2)] Cons.prems(2,3,4) Some s' show ?thesis by (auto simp: feeds_append)
  qed
qed simp

end

end
