(* ===== verification/Net_Connect.thy ===== *)
theory Net_Connect
  imports Packets Message_Buffer Stream_Loop
begin

text \<open>
  \<open>src/network/NetConnect.cpp\<close>: a TCP connection that carries length-prefixed messages, with
  \<open>TcpSocketBase::echo_read\<close> of \<open>src/network/TcpSocket.cpp\<close>, which feeds it. The model records what the
  connection hands to \<open>NetEvent::onMsg\<close> in the order of the calls; the handler itself is the
  application's and does not touch the receive state.
\<close>

section \<open>The receive path\<close>

record NetConnect =
  mReadPacket :: "NetPacket option"
  mBuffer :: MessageBuffer
  on_msgs :: "(int \<times> NetPacket) list"

text \<open>\<open>createPacket\<close>; the constructor empties the recycled storage first (lemma \<open>NetPacket_ctor_eq\<close>).\<close>

definition NetConnect_createPacket :: NetPacket where
  "NetConnect_createPacket = NetPacket_ctor []"

text \<open>The part of an iteration that copies body bytes, for a head of \<open>h\<close> bytes and a declared body length
  \<open>mark\<close>. The mixed \<open>int32\<close> and \<open>size_t\<close> arithmetic is truncated to \<open>int32 needsize\<close>.\<close>

definition read_body ::
  "nat \<Rightarrow> int \<Rightarrow> 'a ByteBuffer_scheme \<Rightarrow> MessageBuffer
     \<Rightarrow> ('a ByteBuffer_scheme \<times> MessageBuffer) option" where
  "read_body h mark p buffer =
     (let needsize = to_i32 (mark + int h - int (wpos p)) in
      if needsize > 0 then
        let wsize = (if int (GetActiveSize buffer) \<ge> needsize then needsize
                     else to_i32 (int (GetActiveSize buffer)))
        in if wsize > 0 then
             do { bs \<leftarrow> copy_from (nat wsize) (GetReadPointer buffer);
                  p1 \<leftarrow> append bs p;
                  Some (p1, ReadCompleted (nat wsize) buffer) }
           else Some (p, buffer)
      else Some (p, buffer))"

text \<open>One iteration of the loop of \<open>on_msgbuffer\<close>.\<close>

definition on_msgbuffer_body :: "NetConnect \<Rightarrow> NetConnect option" where
  "on_msgbuffer_body c =
     (let buffer = mBuffer c;
          p = (case mReadPacket c of
                 None \<Rightarrow> NetConnect_createPacket\<lparr>wpos := 0\<rparr>
               | Some p \<Rightarrow> p)
      in
      if \<not> NetPacket_isHeadFull p then
        do { (rlen, p1) \<leftarrow> NetPacket_readHead (GetReadPointer buffer) (GetActiveSize buffer) p;
             Some (c\<lparr>mReadPacket := Some p1, mBuffer := ReadCompleted rlen buffer\<rparr>) }
      else
        do { mark \<leftarrow> NetPacket_getMarkLen p;
             (p1, buffer1) \<leftarrow> read_body MSG_HEAD_SIZE mark p buffer;
             mark1 \<leftarrow> NetPacket_getMarkLen p1;
             if wpos p1 = to_size (mark1 + int MSG_HEAD_SIZE) then
               do { msgtype \<leftarrow> NetPacket_getMsgType p1;
                    Some (c\<lparr>mReadPacket := None, mBuffer := buffer1,
                            on_msgs := on_msgs c @ [(msgtype, p1)]\<rparr>) }
             else Some (c\<lparr>mReadPacket := Some p1, mBuffer := buffer1\<rparr>) })"

definition on_msgbuffer :: "nat \<Rightarrow> NetConnect \<Rightarrow> NetConnect outcome" where
  "on_msgbuffer fuel c = run_loop fuel (\<lambda>c. GetActiveSize (mBuffer c) > 0) on_msgbuffer_body c"

text \<open>\<open>echo_read\<close> for a positive \<open>nread\<close>: libuv has stored the bytes \<open>chunk\<close> at the start of the buffer
  (\<open>alloc_buffer\<close> lent it the whole storage).\<close>

definition echo_read :: "nat \<Rightarrow> byte list \<Rightarrow> NetConnect \<Rightarrow> NetConnect outcome" where
  "echo_read fuel chunk c =
     (let filled = (mBuffer c)\<lparr>mb_storage := overwrite 0 chunk (mb_storage (mBuffer c))\<rparr>;
          c1 = c\<lparr>mBuffer := WriteCompleted (length chunk) filled\<rparr>
      in case on_msgbuffer fuel c1 of
           Returns c2 \<Rightarrow> Returns (c2\<lparr>mBuffer := Reset (mBuffer c2)\<rparr>)
         | Undefined \<Rightarrow> Undefined
         | Out_of_fuel \<Rightarrow> Out_of_fuel)"

fun echo_reads :: "nat \<Rightarrow> byte list list \<Rightarrow> NetConnect \<Rightarrow> NetConnect outcome" where
  "echo_reads fuel [] c = Returns c"
| "echo_reads fuel (chunk # chunks) c =
     (case echo_read fuel chunk c of
        Returns c1 \<Rightarrow> echo_reads fuel chunks c1
      | Undefined \<Rightarrow> Undefined
      | Out_of_fuel \<Rightarrow> Out_of_fuel)"

definition NetConnect_ctor :: "nat \<Rightarrow> NetConnect" where
  "NetConnect_ctor buffersize =
     \<lparr>mReadPacket = None,
      mBuffer = Resize buffersize (MessageBuffer_ctor MESSAGE_BUFFER_SIZE),
      on_msgs = []\<rparr>"

section \<open>The send path\<close>

text \<open>\<open>sendMsg(msgtype, pack)\<close> moves the script's packet into a new one; the result is the packet that is
  queued on the socket and the emptied argument.\<close>

definition sendMsg_packet :: "int \<Rightarrow> NetPacket \<Rightarrow> (NetPacket \<times> NetPacket) option" where
  "sendMsg_packet msgtype pack =
     (let (packet, pack1) = BasePacket_moveData NetPacket_zero pack NetConnect_createPacket in
      do { packet1 \<leftarrow> NetPacket_writeHead msgtype packet; Some (packet1, pack1) })"

definition sendMsg_bytes :: "int \<Rightarrow> byte list \<Rightarrow> NetPacket option" where
  "sendMsg_bytes msgtype msg =
     do { pack \<leftarrow> append msg NetConnect_createPacket; NetPacket_writeHead msgtype pack }"

section \<open>Specification of the wire format\<close>

text \<open>A message on the wire, and the receiver as a state machine over single bytes: the messages
  delivered so far and the bytes of the unfinished one. A message without a body is delivered only
  when the next byte arrives, and a length that is negative as an \<open>int32\<close> blocks the receiver.\<close>

definition encode_msg :: "int \<times> byte list \<Rightarrow> byte list" where
  "encode_msg m =
     bytes_of (word_of_nat (length (snd m)) :: u32) @ bytes_of (word_of_int (fst m) :: u32) @ snd m"

definition msg_len :: "byte list \<Rightarrow> int" where
  "msg_len pend = sint (of_bytes (take 4 pend) :: u32)"

definition msg_of :: "byte list \<Rightarrow> int \<times> byte list" where
  "msg_of pend = (sint (of_bytes (take 4 (drop 4 pend)) :: u32), drop 8 pend)"

definition frame_feed ::
  "(int \<times> byte list) list \<times> byte list \<Rightarrow> byte \<Rightarrow> ((int \<times> byte list) list \<times> byte list) option" where
  "frame_feed a b =
     (case a of (ms, pend) \<Rightarrow>
        if length pend < 8 then Some (ms, pend @ [b])
        else if msg_len pend < 0 then None
        else if msg_len pend = 0 then Some (ms @ [msg_of pend], [b])
        else if int (length pend) + 1 = 8 + msg_len pend then Some (ms @ [msg_of (pend @ [b])], [])
        else Some (ms, pend @ [b]))"

definition pending_bytes :: "NetConnect \<Rightarrow> byte list" where
  "pending_bytes c =
     (case mReadPacket c of None \<Rightarrow> [] | Some p \<Rightarrow> take (wpos p) (storage p))"

definition delivered :: "NetConnect \<Rightarrow> (int \<times> byte list) list" where
  "delivered c = map (\<lambda>(t, p). (t, drop MSG_HEAD_SIZE (storage p))) (on_msgs c)"

definition frame_state :: "NetConnect \<Rightarrow> (int \<times> byte list) list \<times> byte list" where
  "frame_state c = (delivered c, pending_bytes c)"

section \<open>Feeding several bytes\<close>

lemma msg_len_append [simp]: "4 \<le> length pend \<Longrightarrow> msg_len (pend @ xs) = msg_len pend"
  by (simp add: msg_len_def)

lemma msg_len_range: "- (2 ^ 31) \<le> msg_len pend \<and> msg_len pend < 2 ^ 31"
  using sint_greater_eq [of "of_bytes (take 4 pend) :: u32"]
    sint_less [of "of_bytes (take 4 pend) :: u32"] by (simp add: msg_len_def)

lemma feeds_head:
  "length pend + length xs \<le> 8 \<Longrightarrow> feeds frame_feed (ms, pend) xs = Some (ms, pend @ xs)"
  by (induction xs arbitrary: pend) (auto simp: frame_feed_def)

lemma feeds_body:
  "8 \<le> length pend \<Longrightarrow> 0 < msg_len pend \<Longrightarrow> int (length pend + length xs) < 8 + msg_len pend \<Longrightarrow>
   feeds frame_feed (ms, pend) xs = Some (ms, pend @ xs)"
  by (induction xs arbitrary: pend) (auto simp: frame_feed_def)

lemma feeds_body_complete:
  assumes "8 \<le> length pend" and "0 < msg_len pend" and "xs \<noteq> []"
    and "int (length pend + length xs) = 8 + msg_len pend"
  shows "feeds frame_feed (ms, pend) xs = Some (ms @ [msg_of (pend @ xs)], [])"
proof -
  obtain ys y where xs: "xs = ys @ [y]" using assms(3) by (metis rev_exhaust)
  have "feeds frame_feed (ms, pend) ys = Some (ms, pend @ ys)"
    using assms xs by (intro feeds_body) auto
  moreover have "frame_feed (ms, pend @ ys) y = Some (ms @ [msg_of (pend @ xs)], [])"
    using assms xs by (auto simp: frame_feed_def)
  ultimately show ?thesis by (simp add: xs feeds_append)
qed

section \<open>The receive loop refines the specification\<close>

definition packet_ok :: "NetPacket \<Rightarrow> bool" where
  "packet_ok p \<longleftrightarrow> rpos p = 8 \<and>
     (if wpos p < 8 then length (storage p) = 8
      else wpos p = length (storage p)
        \<and> (wpos p = 8 \<or> int (wpos p) < 8 + msg_len (storage p)))"

definition conn_inv :: "NetConnect \<Rightarrow> bool" where
  "conn_inv c \<longleftrightarrow> wf_mb (mBuffer c) \<and> length (mb_storage (mBuffer c)) < 2 ^ 31
     \<and> (\<forall>p. mReadPacket c = Some p \<longrightarrow> packet_ok p)"

definition current_packet :: "NetConnect \<Rightarrow> NetPacket" where
  "current_packet c =
     (case mReadPacket c of None \<Rightarrow> NetConnect_createPacket\<lparr>wpos := 0\<rparr> | Some p \<Rightarrow> p)"

definition conn_work :: "NetConnect \<Rightarrow> nat" where
  "conn_work c = 2 * length (active (mBuffer c)) + (if mReadPacket c = None then 0 else 1)"

lemma NetPacket_ctor_eq:
  "NetPacket_ctor recycled = \<lparr>rpos = 8, wpos = 8, storage = replicate 8 0\<rparr>"
  by (simp add: NetPacket_ctor_def NetPacket_zero_def BasePacket_ctor_def BasePacket_zero_def
      ByteBuffer_ctor_def MSG_HEAD_SIZE_def)

lemma current_packet_ok: "conn_inv c \<Longrightarrow> packet_ok (current_packet c)"
  by (auto simp: conn_inv_def current_packet_def packet_ok_def NetConnect_createPacket_def
      NetPacket_ctor_eq split: option.split)

lemma pending_current: "pending_bytes c = take (wpos (current_packet c)) (storage (current_packet c))"
  by (auto simp: pending_bytes_def current_packet_def split: option.split)

lemma active_less: "conn_inv c \<Longrightarrow> length (active (mBuffer c)) < 2 ^ 31"
  by (auto simp: conn_inv_def active_def)

lemma getMarkLen_msg_len:
  "8 \<le> length (storage p) \<Longrightarrow> NetPacket_getMarkLen p = Some (msg_len (storage p))"
  by (simp add: NetPacket_getMarkLen_def getValue_def msg_len_def MSG_LEN_POS_def size_of_def)

lemma getMsgType_msg_of:
  "8 \<le> length (storage p) \<Longrightarrow> NetPacket_getMsgType p = Some (fst (msg_of (storage p)))"
  by (simp add: NetPacket_getMsgType_def getValue_def msg_of_def MSG_TYPE_POS_def size_of_def read_at_def)

text \<open>An iteration that reads a part of the head.\<close>

lemma body_head:
  assumes inv: "conn_inv c" and act: "active (mBuffer c) \<noteq> []"
    and head: "wpos (current_packet c) < 8"
  shows "\<exists>n p1. on_msgbuffer_body c = Some (c\<lparr>mReadPacket := Some p1, mBuffer := ReadCompleted n (mBuffer c)\<rparr>)
    \<and> packet_ok p1 \<and> 0 < n \<and> n \<le> length (active (mBuffer c))
    \<and> wpos (current_packet c) + n \<le> 8
    \<and> take (wpos p1) (storage p1) = pending_bytes c @ take n (active (mBuffer c))"
proof -
  let ?p = "current_packet c" and ?bs = "active (mBuffer c)"
  define k where "k = 8 - wpos ?p"
  have k: "0 < k" "wpos ?p + k = 8" using head by (simp_all add: k_def)
  let ?n = "min k (length ?bs)"
  let ?p1 = "?p\<lparr>storage := overwrite (wpos ?p) (take ?n ?bs) (storage ?p), wpos := wpos ?p + ?n\<rparr>"
  from inv have wf: "wf_mb (mBuffer c)" by (simp add: conn_inv_def)
  from current_packet_ok [OF inv] head have st: "length (storage ?p) = 8" and r8: "rpos ?p = 8"
    by (simp_all add: packet_ok_def)
  have bs: "copy_from ?n (GetReadPointer (mBuffer c)) = Some (take ?n ?bs)" "GetActiveSize (mBuffer c) = length ?bs"
    using wf by (simp_all add: copy_from_GetReadPointer)
  have rs: "to_i32 (int MSG_HEAD_SIZE - int (wpos ?p)) = int k"
    using head by (simp add: MSG_HEAD_SIZE_def to_i32_id k_def)
  have nn: "(if length ?bs \<ge> nat (int k) then nat (int k) else length ?bs) = ?n" by (simp add: min_def)
  have rh: "NetPacket_readHead (GetReadPointer (mBuffer c)) (length ?bs) ?p = Some (?n, ?p1)"
    unfolding NetPacket_readHead_def rs Let_def nn bs(1) using k st by (simp add: put_def)
  have nf: "\<not> NetPacket_isHeadFull ?p"
    using head by (simp add: NetPacket_isHeadFull_def MSG_HEAD_SIZE_def)
  have eq: "on_msgbuffer_body c =
      Some (c\<lparr>mReadPacket := Some ?p1, mBuffer := ReadCompleted ?n (mBuffer c)\<rparr>)"
    using nf rh bs(2) by (simp add: on_msgbuffer_body_def Let_def current_packet_def [symmetric])
  have tk: "take (wpos ?p1) (storage ?p1) = take (wpos ?p) (storage ?p) @ take ?n ?bs"
    using take_overwrite_end [of "wpos ?p" "take ?n ?bs" "storage ?p"] k st by simp
  have "packet_ok ?p1"
    using k st r8 by (auto simp: packet_ok_def)
  with eq tk act k show ?thesis
    by (intro exI [of _ ?n] exI [of _ ?p1]) (auto simp: pending_current)
qed

text \<open>An iteration that reads a part of the body.\<close>

lemma needsize_eq:
  assumes "packet_ok p" and "8 \<le> wpos p" and "0 < msg_len (storage p)"
  shows "to_i32 (msg_len (storage p) + int MSG_HEAD_SIZE - int (wpos p))
    = msg_len (storage p) + 8 - int (wpos p)"
    and "0 < msg_len (storage p) + 8 - int (wpos p)"
  using assms msg_len_range [of "storage p"]
  by (auto simp: packet_ok_def MSG_HEAD_SIZE_def intro!: to_i32_id)

lemma to_size_len_eq:
  "- (2 ^ 31) \<le> l \<Longrightarrow> l < 2 ^ 31 \<Longrightarrow> w < 2 ^ 33 \<Longrightarrow>
   w = to_size (l + int MSG_HEAD_SIZE) \<longleftrightarrow> int w = l + 8"
proof (cases "0 \<le> l + 8")
  case True
  moreover assume "l < 2 ^ 31"
  ultimately show ?thesis by (auto simp: to_size_def MSG_HEAD_SIZE_def)
next
  case False
  moreover assume "- (2 ^ 31) \<le> l" "w < 2 ^ 33"
  moreover from calculation have "(l + 8 + 2 ^ 64) mod 2 ^ 64 = l + 8 + 2 ^ 64"
    by (intro mod_pos_pos_trivial) auto
  then have "(l + 8) mod 2 ^ 64 = l + 8 + 2 ^ 64"
    by (simp only: mod_add_self2)
  ultimately show ?thesis by (auto simp: to_size_def MSG_HEAD_SIZE_def)
qed

text \<open>The loop body once the head is complete, with the model's virtual calls evaluated.\<close>

lemma body_full_eq:
  assumes inv: "conn_inv c" and act: "active (mBuffer c) \<noteq> []"
    and full: "8 \<le> wpos (current_packet c)"
  defines "p \<equiv> current_packet c" and "bs \<equiv> active (mBuffer c)"
  defines "len \<equiv> msg_len (storage p)"
  defines "k \<equiv> (if 0 < len then min (nat (len + 8 - int (wpos p))) (length bs) else 0)"
  defines "p1 \<equiv> p\<lparr>storage := storage p @ take k bs, wpos := wpos p + k\<rparr>"
  shows "on_msgbuffer_body c = Some
     (if int (wpos p + k) = len + 8
      then c\<lparr>mReadPacket := None, mBuffer := ReadCompleted k (mBuffer c),
             on_msgs := on_msgs c @ [(fst (msg_of (storage p)), p1)]\<rparr>
      else c\<lparr>mReadPacket := Some p1, mBuffer := ReadCompleted k (mBuffer c)\<rparr>)"
proof -
  from inv have wf: "wf_mb (mBuffer c)" by (simp add: conn_inv_def)
  have ok: "packet_ok p" using current_packet_ok [OF inv] by (simp add: p_def)
  then have st: "wpos p = length (storage p)" "8 \<le> length (storage p)"
    using full by (auto simp: packet_ok_def p_def split: if_splits)
  have act': "bs \<noteq> []" "length bs < 2 ^ 31" using act active_less [OF inv] by (simp_all add: bs_def)
  have k_le: "k \<le> length bs" by (simp add: k_def)
  have rp: "copy_from k (GetReadPointer (mBuffer c)) = Some (take k bs)"
    using wf k_le by (simp add: copy_from_GetReadPointer bs_def)
  have hf: "NetPacket_isHeadFull p"
    using full by (simp add: NetPacket_isHeadFull_def MSG_HEAD_SIZE_def p_def)
  have mark: "NetPacket_getMarkLen p = Some len"
    using st by (simp add: getMarkLen_msg_len len_def)
  have mark1: "NetPacket_getMarkLen p1 = Some len"
    using st by (simp add: getMarkLen_msg_len len_def p1_def)
  have mt: "NetPacket_getMsgType p1 = Some (fst (msg_of (storage p)))"
    using st by (simp add: getMsgType_msg_of p1_def msg_of_def)
  have rng: "- (2 ^ 31) \<le> len" "len < 2 ^ 31" using msg_len_range by (simp_all add: len_def)
  have w: "wpos p < 2 ^ 32"
    using ok full rng(2) by (auto simp: packet_ok_def p_def len_def)
  have sz: "wpos p1 = to_size (len + int MSG_HEAD_SIZE) \<longleftrightarrow> int (wpos p + k) = len + 8"
    using to_size_len_eq [OF rng, of "wpos p1"] w k_le act'(2) by (simp add: p1_def)
  have ga: "GetActiveSize (mBuffer c) = length bs" using wf by (simp add: bs_def)
  have part: "read_body MSG_HEAD_SIZE len p (mBuffer c) = Some (p1, ReadCompleted k (mBuffer c))"
  proof (cases "0 < len")
    case True
    note need = needsize_eq [OF ok _ True [unfolded len_def], folded len_def]
    have n1: "to_i32 (len + int MSG_HEAD_SIZE - int (wpos p)) = len + 8 - int (wpos p)"
      and n2: "0 < len + 8 - int (wpos p)"
      using need full by (simp_all add: p_def)
    have ti: "to_i32 (int (length bs)) = int (length bs)"
      using act'(2) by (intro to_i32_id) auto
    have ws: "(if int (length bs) \<ge> len + 8 - int (wpos p) then len + 8 - int (wpos p)
        else int (length bs)) = int k" and "0 < k"
      using True n2 act'(1) by (auto simp: k_def min_def)
    moreover have "append (take k bs) p = Some p1"
      using st k_le by (simp add: append_def p1_def)
    ultimately show ?thesis
      using n2 rp by (simp only: read_body_def ga n1 ti ws Let_def if_True) simp
  next
    case False
    have "to_i32 (len + int MSG_HEAD_SIZE - int (wpos p)) \<le> 0"
    proof -
      have "wpos p = 8" using ok full False by (auto simp: packet_ok_def p_def len_def)
      then show ?thesis using False rng by (simp add: MSG_HEAD_SIZE_def to_i32_id)
    qed
    then show ?thesis using False by (simp add: read_body_def Let_def p1_def k_def ReadCompleted_def)
  qed
  show ?thesis
    using hf mark mark1 mt sz part
    by (simp add: on_msgbuffer_body_def Let_def current_packet_def [symmetric] p_def [symmetric])
qed

lemma conn_inv_update:
  assumes "conn_inv c" and "n \<le> length (active (mBuffer c))" and "\<forall>p. q = Some p \<longrightarrow> packet_ok p"
  shows "conn_inv (c\<lparr>mReadPacket := q, mBuffer := ReadCompleted n (mBuffer c)\<rparr>)"
    and "conn_inv (c\<lparr>mReadPacket := q, mBuffer := ReadCompleted n (mBuffer c), on_msgs := m\<rparr>)"
  using assms by (auto simp: conn_inv_def ReadCompleted_wf)

lemma frame_state_update:
  "frame_state (c\<lparr>mReadPacket := Some p, mBuffer := b\<rparr>) = (delivered c, take (wpos p) (storage p))"
  "frame_state (c\<lparr>mReadPacket := None, mBuffer := b, on_msgs := on_msgs c @ [(t, p)]\<rparr>)
     = (delivered c @ [(t, drop 8 (storage p))], [])"
  by (simp_all add: frame_state_def delivered_def pending_bytes_def MSG_HEAD_SIZE_def)

lemma frame_state_eq: "frame_state c = (delivered c, pending_bytes c)"
  by (simp add: frame_state_def)

lemma work_update:
  assumes "conn_inv c" and "n \<le> length (active (mBuffer c))"
    and "0 < n \<or> (q = None \<and> mReadPacket c \<noteq> None)"
  shows "conn_work (c\<lparr>mReadPacket := q, mBuffer := ReadCompleted n (mBuffer c)\<rparr>) < conn_work c"
    and "conn_work (c\<lparr>mReadPacket := q, mBuffer := ReadCompleted n (mBuffer c), on_msgs := m\<rparr>)
      < conn_work c"
  using assms by (auto simp: conn_work_def)

text \<open>One iteration respects the specification.\<close>

lemma body_step_head:
  assumes inv: "conn_inv c" and act: "active (mBuffer c) \<noteq> []"
    and head: "wpos (current_packet c) < 8"
  shows "\<exists>c'. on_msgbuffer_body c = Some c' \<and> conn_inv c' \<and> conn_work c' < conn_work c
    \<and> feeds frame_feed (frame_state c') (active (mBuffer c'))
      = feeds frame_feed (frame_state c) (active (mBuffer c))"
proof -
  from body_head [OF inv act head] obtain n p1 where
    b: "on_msgbuffer_body c = Some (c\<lparr>mReadPacket := Some p1, mBuffer := ReadCompleted n (mBuffer c)\<rparr>)"
    and p1: "packet_ok p1" and n: "0 < n" "n \<le> length (active (mBuffer c))"
      "wpos (current_packet c) + n \<le> 8"
    and pend: "take (wpos p1) (storage p1) = pending_bytes c @ take n (active (mBuffer c))"
    by blast
  let ?bs = "active (mBuffer c)"
  have "length (pending_bytes c) + length (take n ?bs) \<le> 8"
    using n by (simp add: pending_current)
  then have "feeds frame_feed (frame_state c) (take n ?bs) = Some (delivered c, pending_bytes c @ take n ?bs)"
    by (simp only: frame_state_eq feeds_head)
  then have "feeds frame_feed (frame_state c) (take n ?bs @ drop n ?bs)
      = feeds frame_feed (delivered c, pending_bytes c @ take n ?bs) (drop n ?bs)"
    by (simp only: feeds_append) simp
  then have f: "feeds frame_feed (delivered c, pending_bytes c @ take n ?bs) (drop n ?bs)
      = feeds frame_feed (frame_state c) ?bs"
    by simp
  show ?thesis
    by (intro exI conjI, rule b)
      (use inv p1 n f pend in \<open>simp_all add: conn_inv_update work_update frame_state_update\<close>)
qed

lemma full_packet:
  assumes "conn_inv c" and "8 \<le> wpos (current_packet c)"
  shows "mReadPacket c = Some (current_packet c)"
    and "wpos (current_packet c) = length (storage (current_packet c))"
    and "pending_bytes c = storage (current_packet c)"
    and "rpos (current_packet c) = 8"
  using assms current_packet_ok [OF assms(1)]
  by (auto simp: current_packet_def pending_bytes_def packet_ok_def NetConnect_createPacket_def
      NetPacket_ctor_eq split: option.splits if_splits)

lemma msg_of_snd: "8 \<le> length pend \<Longrightarrow> drop 8 (pend @ xs) = snd (msg_of (pend @ xs))
    \<and> fst (msg_of pend) = fst (msg_of (pend @ xs))"
  by (simp add: msg_of_def)

lemma feeds_take_drop:
  "feeds f a (take k bs) = Some a' \<Longrightarrow> feeds f a' (drop k bs) = feeds f a bs"
  using feeds_append [of f a "take k bs" "drop k bs"] by simp

lemma body_step_positive:
  assumes inv: "conn_inv c" and act: "active (mBuffer c) \<noteq> []"
    and full: "8 \<le> wpos (current_packet c)" and pos: "0 < msg_len (storage (current_packet c))"
  shows "\<exists>c'. on_msgbuffer_body c = Some c' \<and> conn_inv c' \<and> conn_work c' < conn_work c
    \<and> feeds frame_feed (frame_state c') (active (mBuffer c'))
      = feeds frame_feed (frame_state c) (active (mBuffer c))"
proof -
  let ?p = "current_packet c" and ?bs = "active (mBuffer c)"
  note fp = full_packet [OF inv full]
  define len where "len = msg_len (storage ?p)"
  define k where "k = min (nat (len + 8 - int (wpos ?p))) (length ?bs)"
  let ?p1 = "?p\<lparr>storage := storage ?p @ take k ?bs, wpos := wpos ?p + k\<rparr>"
  have room: "int (wpos ?p) < len + 8"
    using current_packet_ok [OF inv] full pos by (auto simp: packet_ok_def len_def)
  have k: "0 < k" "k \<le> length ?bs" "int (wpos ?p + k) \<le> len + 8"
    using room act by (auto simp: k_def)
  have st: "8 \<le> length (storage ?p)" using full fp(2) by simp
  have b: "on_msgbuffer_body c = Some
     (if int (wpos ?p + k) = len + 8
      then c\<lparr>mReadPacket := None, mBuffer := ReadCompleted k (mBuffer c),
             on_msgs := on_msgs c @ [(fst (msg_of (storage ?p)), ?p1)]\<rparr>
      else c\<lparr>mReadPacket := Some ?p1, mBuffer := ReadCompleted k (mBuffer c)\<rparr>)"
    using body_full_eq [OF inv act full] pos by (simp add: k_def len_def)
  show ?thesis
  proof (cases "int (wpos ?p + k) = len + 8")
    case True
    have "feeds frame_feed (frame_state c) (take k ?bs)
        = Some (delivered c @ [msg_of (storage ?p @ take k ?bs)], [])"
      using True k st pos fp act
      by (simp only: frame_state_eq) (intro feeds_body_complete, auto simp: len_def)
    note f = feeds_take_drop [OF this]
    show ?thesis
      by (intro exI conjI, rule b)
        (use True inv k f msg_of_snd [OF st, of "take k ?bs"] in
          \<open>simp_all add: conn_inv_update work_update frame_state_update\<close>)
  next
    case False
    have "feeds frame_feed (frame_state c) (take k ?bs) = Some (delivered c, storage ?p @ take k ?bs)"
      using False k st pos fp
      by (simp only: frame_state_eq) (intro feeds_body, auto simp: len_def)
    note f = feeds_take_drop [OF this]
    have ok: "packet_ok ?p1"
      using False k st fp by (auto simp: packet_ok_def len_def)
    show ?thesis
      by (intro exI conjI, rule b)
        (use False ok inv k f fp in \<open>simp_all add: conn_inv_update work_update frame_state_update\<close>)
  qed
qed

lemma body_step_nonpositive:
  assumes inv: "conn_inv c" and act: "active (mBuffer c) \<noteq> []"
    and full: "8 \<le> wpos (current_packet c)" and npos: "msg_len (storage (current_packet c)) \<le> 0"
  shows "\<exists>c'. on_msgbuffer_body c = Some c' \<and> conn_inv c'
    \<and> (frame_feed (frame_state c) (hd (active (mBuffer c))) \<noteq> None \<longrightarrow> conn_work c' < conn_work c)
    \<and> feeds frame_feed (frame_state c') (active (mBuffer c'))
      = feeds frame_feed (frame_state c) (active (mBuffer c))"
proof -
  let ?p = "current_packet c"
  note fp = full_packet [OF inv full]
  obtain x xs where bs: "active (mBuffer c) = x # xs" using act by (cases "active (mBuffer c)") auto
  have w8: "wpos ?p = 8" "length (storage ?p) = 8"
    using current_packet_ok [OF inv] full npos fp(2) by (auto simp: packet_ok_def)
  have rc: "ReadCompleted 0 (mBuffer c) = mBuffer c" by (simp add: ReadCompleted_def)
  have b: "on_msgbuffer_body c = Some
     (if msg_len (storage ?p) = 0
      then c\<lparr>mReadPacket := None, mBuffer := mBuffer c,
             on_msgs := on_msgs c @ [(fst (msg_of (storage ?p)), ?p)]\<rparr>
      else c\<lparr>mReadPacket := Some ?p, mBuffer := mBuffer c\<rparr>)"
    using body_full_eq [OF inv act full] npos w8 by (simp add: rc)
  show ?thesis
  proof (cases "msg_len (storage ?p) = 0")
    case True
    let ?c' = "c\<lparr>mReadPacket := None, on_msgs := on_msgs c @ [(fst (msg_of (storage ?p)), ?p)]\<rparr>"
    have m: "msg_of (storage ?p) = (fst (msg_of (storage ?p)), drop 8 (storage ?p))"
      by (simp add: msg_of_def)
    then have fs: "frame_state ?c' = (delivered c @ [msg_of (storage ?p)], [])"
      by (simp add: frame_state_def delivered_def pending_bytes_def MSG_HEAD_SIZE_def)
    have "conn_inv ?c'" "conn_work ?c' < conn_work c"
      using inv fp(1) by (simp_all add: conn_inv_def conn_work_def)
    moreover have "on_msgbuffer_body c = Some ?c'" using b True by simp
    moreover have "feeds frame_feed (frame_state ?c') (active (mBuffer ?c'))
        = feeds frame_feed (frame_state c) (active (mBuffer c))"
      using True fp w8 by (simp add: fs bs frame_state_eq [of c] frame_feed_def)
    ultimately show ?thesis by blast
  next
    case False
    have "c\<lparr>mReadPacket := Some ?p, mBuffer := mBuffer c\<rparr> = c" using fp(1) by simp
    with False npos b inv fp w8 bs show ?thesis
      by (intro exI [of _ c]) (auto simp: frame_state_eq frame_feed_def)
  qed
qed

interpretation net_loop: stream_loop "\<lambda>c. GetActiveSize (mBuffer c) > 0" on_msgbuffer_body "\<lambda>c. active (mBuffer c)" frame_state frame_feed
  conn_inv conn_work
proof (unfold_locales, goal_cases)
  case (1 c)
  then show ?case by (simp add: conn_inv_def)
next
  case (2 c)
  then show ?case
    by (metis body_step_head body_step_positive body_step_nonpositive not_less)
next
  case (3 c c')
  then show ?case
    by (metis body_step_head body_step_positive body_step_nonpositive not_less option.inject)
qed

section \<open>Receiving chunks\<close>

text \<open>Between two reads the receive buffer is empty; libuv never stores more than its size.\<close>

definition conn_idle :: "nat \<Rightarrow> NetConnect \<Rightarrow> bool" where
  "conn_idle bsize c \<longleftrightarrow> conn_inv c \<and> mb_rpos (mBuffer c) = 0 \<and> mb_wpos (mBuffer c) = 0
     \<and> length (mb_storage (mBuffer c)) = bsize"

definition chunk_ok :: "nat \<Rightarrow> byte list \<Rightarrow> bool" where
  "chunk_ok bsize chunk \<longleftrightarrow> 0 < length chunk \<and> length chunk \<le> bsize"

definition load_chunk :: "byte list \<Rightarrow> NetConnect \<Rightarrow> NetConnect" where
  "load_chunk chunk c = c\<lparr>mBuffer := WriteCompleted (length chunk)
     ((mBuffer c)\<lparr>mb_storage := overwrite 0 chunk (mb_storage (mBuffer c))\<rparr>)\<rparr>"

lemma load_chunk_inv:
  assumes "conn_idle bsize c" and "chunk_ok bsize chunk"
  shows "conn_inv (load_chunk chunk c)" and "active (mBuffer (load_chunk chunk c)) = chunk"
    and "frame_state (load_chunk chunk c) = frame_state c"
    and "conn_work (load_chunk chunk c) \<le> 2 * length chunk + 1"
    and "length (mb_storage (mBuffer (load_chunk chunk c))) = bsize"
proof -
  have st: "length (overwrite 0 chunk (mb_storage (mBuffer c))) = bsize"
    using assms by (auto simp: conn_idle_def chunk_ok_def)
  show "conn_inv (load_chunk chunk c)"
    using assms st by (auto simp: load_chunk_def conn_idle_def conn_inv_def wf_mb_def WriteCompleted_def
        chunk_ok_def)
  show act: "active (mBuffer (load_chunk chunk c)) = chunk"
    using assms by (auto simp: load_chunk_def active_def WriteCompleted_def conn_idle_def overwrite_def)
  show "frame_state (load_chunk chunk c) = frame_state c"
    by (simp add: load_chunk_def frame_state_def delivered_def pending_bytes_def)
  show "conn_work (load_chunk chunk c) \<le> 2 * length chunk + 1"
    by (simp add: conn_work_def act)
  show "length (mb_storage (mBuffer (load_chunk chunk c))) = bsize"
    using st by (simp add: load_chunk_def WriteCompleted_def)
qed

lemma read_body_storage:
  "read_body h mark p buffer = Some (p1, buffer1) \<Longrightarrow> mb_storage buffer1 = mb_storage buffer"
  by (auto simp: read_body_def Let_def bind_eq_Some_conv split: if_splits)

lemma on_msgbuffer_body_storage:
  "on_msgbuffer_body c = Some c' \<Longrightarrow> mb_storage (mBuffer c') = mb_storage (mBuffer c)"
  by (auto simp: on_msgbuffer_body_def Let_def bind_eq_Some_conv dest: read_body_storage
      split: if_splits option.splits)

lemma on_msgbuffer_storage:
  "on_msgbuffer fuel c = Returns c' \<Longrightarrow> mb_storage (mBuffer c') = mb_storage (mBuffer c)"
  unfolding on_msgbuffer_def
  by (rule run_loop_invariant [where P = "\<lambda>x. mb_storage (mBuffer x) = mb_storage (mBuffer c)"])
    (auto dest: on_msgbuffer_body_storage)

lemma echo_read_eq:
  "echo_read fuel chunk c =
     (case on_msgbuffer fuel (load_chunk chunk c) of
        Returns c2 \<Rightarrow> Returns (c2\<lparr>mBuffer := Reset (mBuffer c2)\<rparr>)
      | Undefined \<Rightarrow> Undefined
      | Out_of_fuel \<Rightarrow> Out_of_fuel)"
  by (simp add: echo_read_def load_chunk_def Let_def)

lemma echo_reads_eq:
  "echo_reads fuel chunks c = run_reads fuel (\<lambda>c. GetActiveSize (mBuffer c) > 0) on_msgbuffer_body
     load_chunk (\<lambda>c. c\<lparr>mBuffer := Reset (mBuffer c)\<rparr>) chunks c"
  by (induction chunks arbitrary: c) (auto simp: echo_read_eq on_msgbuffer_def split: outcome.split)

interpretation net_reads: chunked_loop "\<lambda>c. GetActiveSize (mBuffer c) > 0" on_msgbuffer_body
  "\<lambda>c. active (mBuffer c)" frame_state frame_feed conn_inv conn_work
  load_chunk "\<lambda>c. c\<lparr>mBuffer := Reset (mBuffer c)\<rparr>" "conn_idle bsize" "chunk_ok bsize" "2 * bsize + 1"
  for bsize
proof (unfold_locales, goal_cases)
  case (1 c chunk)
  then show ?case
    using load_chunk_inv [OF 1] by (auto simp: chunk_ok_def)
next
  case (2 c chunk fuel c')
  then have "length (mb_storage (mBuffer c')) = bsize"
    using on_msgbuffer_storage [of fuel "load_chunk chunk c" c'] load_chunk_inv(5) [OF 2(1,2)]
    by (simp add: on_msgbuffer_def)
  with 2(4) show ?case
    by (auto simp: conn_idle_def conn_inv_def wf_mb_def Reset_def frame_state_def delivered_def pending_bytes_def)
qed

lemma echo_reads_returns:
  "conn_idle bsize c \<Longrightarrow> \<forall>chunk\<in>set chunks. chunk_ok bsize chunk \<Longrightarrow>
   feeds frame_feed (frame_state c) (concat chunks) = Some a \<Longrightarrow> 2 * bsize + 1 \<le> fuel \<Longrightarrow>
   \<exists>c'. echo_reads fuel chunks c = Returns c' \<and> conn_idle bsize c' \<and> frame_state c' = a"
  by (simp only: echo_reads_eq) (rule net_reads.reads_return)

lemma echo_reads_stuck:
  "conn_idle bsize c \<Longrightarrow> \<forall>chunk\<in>set chunks. chunk_ok bsize chunk \<Longrightarrow>
   feeds frame_feed (frame_state c) (concat chunks) = None \<Longrightarrow> 2 * bsize + 1 \<le> fuel \<Longrightarrow>
   echo_reads fuel chunks c = Out_of_fuel"
  by (simp only: echo_reads_eq) (rule net_reads.reads_stuck)

lemma NetConnect_ctor_idle:
  "bsize < 2 ^ 31 \<Longrightarrow> conn_idle bsize (NetConnect_ctor bsize)"
  "frame_state (NetConnect_ctor bsize) = ([], [])"
  by (simp_all add: conn_idle_def conn_inv_def NetConnect_ctor_def Resize_def MessageBuffer_ctor_def
      wf_mb_def frame_state_def delivered_def pending_bytes_def)

section \<open>Encoding and decoding\<close>

definition msg_valid :: "int \<times> byte list \<Rightarrow> bool" where
  "msg_valid m \<longleftrightarrow> - (2 ^ 31) \<le> fst m \<and> fst m < 2 ^ 31 \<and> length (snd m) < 2 ^ 31"

lemma encode_msg_facts:
  assumes "msg_valid m"
  shows "length (encode_msg m) = 8 + length (snd m)"
    and "msg_len (encode_msg m @ xs) = int (length (snd m))"
    and "msg_of (encode_msg m) = m"
    and "length (take 8 (encode_msg m)) = 8"
    and "msg_len (take 8 (encode_msg m)) = int (length (snd m))"
  using assms
  by (simp_all add: encode_msg_def msg_len_def msg_of_def msg_valid_def of_bytes_bytes_of
      sint_word_of_nat_u32 sint_word_of_int_u32)

lemma feeds_encode:
  assumes "msg_valid m"
  shows "feeds frame_feed (ms, []) (encode_msg m) =
    Some (if snd m = [] then (ms, encode_msg m) else (ms @ [m], []))"
proof (cases "snd m = []")
  case True
  then show ?thesis using encode_msg_facts(1) [OF assms] by (simp add: feeds_head)
next
  case False
  let ?h = "take 8 (encode_msg m)" and ?b = "drop 8 (encode_msg m)"
  note e = encode_msg_facts [OF assms]
  have h: "feeds frame_feed (ms, []) ?h = Some (ms, ?h)" by (simp add: feeds_head)
  have b: "feeds frame_feed (ms, ?h) ?b = Some (ms @ [msg_of (?h @ ?b)], [])"
    using False e(1) e(5) by (intro feeds_body_complete) auto
  then show ?thesis using False feeds_take_drop [OF h] e(3) by simp
qed

text \<open>A message without a body is delivered by the first byte that follows it.\<close>

lemma feeds_after_empty:
  assumes "msg_valid m" and "snd m = []" and "xs \<noteq> []"
  shows "feeds frame_feed (ms, encode_msg m) xs = feeds frame_feed (ms @ [m], []) xs"
proof -
  obtain y ys where "xs = y # ys" using assms(3) by (cases xs) auto
  then show ?thesis
    using encode_msg_facts(1,3) [OF assms(1)] encode_msg_facts(2) [OF assms(1), of "[]"] assms(2)
    by (simp add: frame_feed_def)
qed

text \<open>The receiver after a whole stream: everything is delivered except an empty last message.\<close>

definition settled :: "(int \<times> byte list) list \<Rightarrow> (int \<times> byte list) list \<times> byte list" where
  "settled ms = (if ms \<noteq> [] \<and> snd (last ms) = [] then (butlast ms, encode_msg (last ms)) else (ms, []))"

lemma settled_step:
  assumes "\<forall>m\<in>set ms. msg_valid m" and "xs \<noteq> []"
  shows "feeds frame_feed (settled ms) xs = feeds frame_feed (ms, []) xs"
  using assms feeds_after_empty [of "last ms" xs "butlast ms"] by (simp add: settled_def)

lemma feeds_stream:
  "\<forall>m\<in>set ms. msg_valid m \<Longrightarrow>
   feeds frame_feed ([], []) (concat (map encode_msg ms)) = Some (settled ms)"
proof (induction ms rule: rev_induct)
  case Nil
  then show ?case by (simp add: settled_def)
next
  case (snoc m ms)
  have "encode_msg m \<noteq> []" using encode_msg_facts(1) [of m] snoc.prems by auto
  with snoc show ?case
    by (simp add: feeds_append settled_step feeds_encode) (simp add: settled_def)
qed

text \<open>The sender produces exactly the encoding.\<close>

lemma writeHead_bytes:
  assumes "tight p" and "8 \<le> length (storage p)" and "length (storage p) < 2 ^ 31"
  shows "\<exists>p'. NetPacket_writeHead t p = Some p'
    \<and> NetPacket_sendBytes p' = encode_msg (t, drop 8 (storage p))"
proof -
  obtain k where k: "length (storage p) = 8 + k" using assms(2) le_Suc_ex by blast
  let ?w1 = "word_of_nat k :: u32" and ?w2 = "word_of_int t :: u32"
  have bs: "getBodySize MSG_HEAD_SIZE p = int k"
    using assms k by (simp add: getBodySize_def MSG_HEAD_SIZE_def tight_def to_i32_id)
  have o1: "overwrite 0 (bytes_of ?w1) (storage p) = bytes_of ?w1 @ drop 4 (storage p)"
    by (simp add: overwrite_def)
  have o2: "overwrite 4 (bytes_of ?w2) (bytes_of ?w1 @ drop 4 (storage p))
      = bytes_of ?w1 @ bytes_of ?w2 @ drop 8 (storage p)"
    by (simp add: overwrite_def)
  have "NetPacket_writeHead t p = Some (p\<lparr>storage := bytes_of ?w1 @ bytes_of ?w2 @ drop 8 (storage p)\<rparr>)"
    using k by (simp add: NetPacket_writeHead_def setValue_def put_val_def put_def bs o1 o2
        MSG_LEN_POS_def MSG_TYPE_POS_def)
  then show ?thesis
    using assms k by (auto simp: NetPacket_sendBytes_def encode_msg_def tight_def to_i32_id)
qed

section \<open>Properties\<close>

text \<open>C6. End to end framing: however TCP cuts the byte stream of a sequence of valid messages into reads,
  the connection returns from every read and has called \<open>onMsg\<close> once per message, in order, with the
  type and the body that were sent, provided that the last message has a body.\<close>

theorem net_stream_delivery:
  assumes "\<forall>m\<in>set ms. msg_valid m" and "ms = [] \<or> snd (last ms) \<noteq> []"
    and "\<forall>chunk\<in>set chunks. chunk_ok bsize chunk"
    and "concat chunks = concat (map encode_msg ms)" and "bsize < 2 ^ 31" and "2 * bsize + 1 \<le> fuel"
  shows "\<exists>c. echo_reads fuel chunks (NetConnect_ctor bsize) = Returns c
    \<and> delivered c = ms \<and> pending_bytes c = []"
proof -
  have "feeds frame_feed (frame_state (NetConnect_ctor bsize)) (concat chunks) = Some (ms, [])"
    using feeds_stream [OF assms(1)] assms(2,4) by (auto simp: NetConnect_ctor_idle settled_def)
  from echo_reads_returns [OF NetConnect_ctor_idle(1) [OF assms(5)] assms(3) this assms(6)]
  show ?thesis by (auto simp: frame_state_def)
qed

theorem net_stream_delivery_witness:
  "\<exists>c. echo_reads 8193 [[2, 0, 0, 0, 7], [0, 0, 0, 1, 2, 1, 0, 0], [0, 9, 0, 0, 0, 5]]
     (NetConnect_ctor 4096) = Returns c
   \<and> delivered c = [(7, [1, 2]), (9, [5])] \<and> pending_bytes c = []"
  by (rule net_stream_delivery [where bsize = 4096])
    (simp_all add: msg_valid_def chunk_ok_def encode_msg_def bytes_of_def)

text \<open>A message without a body that ends the received bytes is not delivered: \<open>onMsg\<close> has been called
  for all messages but the last one, whose head waits for the next byte of the stream.\<close>

theorem net_empty_message_delayed:
  assumes "\<forall>m\<in>set (ms @ [(t, [])]). msg_valid m"
    and "\<forall>chunk\<in>set chunks. chunk_ok bsize chunk"
    and "concat chunks = concat (map encode_msg (ms @ [(t, [])]))"
    and "bsize < 2 ^ 31" and "2 * bsize + 1 \<le> fuel"
  shows "\<exists>c. echo_reads fuel chunks (NetConnect_ctor bsize) = Returns c
    \<and> delivered c = ms \<and> pending_bytes c = encode_msg (t, [])"
proof -
  have "feeds frame_feed (frame_state (NetConnect_ctor bsize)) (concat chunks)
      = Some (ms, encode_msg (t, []))"
    using feeds_stream [OF assms(1)] assms(3) by (simp add: NetConnect_ctor_idle settled_def)
  from echo_reads_returns [OF NetConnect_ctor_idle(1) [OF assms(4)] assms(2) this assms(5)]
  show ?thesis by (auto simp: frame_state_def)
qed

theorem net_empty_message_delayed_witness:
  "\<exists>c. echo_reads 8193 [[0, 0, 0, 0, 7, 0, 0, 0]] (NetConnect_ctor 4096) = Returns c
   \<and> delivered c = [] \<and> pending_bytes c = encode_msg (7, [])"
  by (rule net_empty_message_delayed [where bsize = 4096])
    (simp_all add: msg_valid_def chunk_ok_def encode_msg_def bytes_of_def)

text \<open>C21. A peer can hang the event loop: once a head whose length field is negative as an \<open>int32\<close> has been
  received and at least one more byte follows, the receive loop does not return, whatever the fuel.\<close>

theorem net_negative_length_hangs:
  assumes "\<forall>m\<in>set ms. msg_valid m" and "length head = 8" and "msg_len head < 0"
    and "\<forall>chunk\<in>set chunks. chunk_ok bsize chunk"
    and "concat chunks = concat (map encode_msg ms) @ head @ b # rest"
    and "bsize < 2 ^ 31" and "2 * bsize + 1 \<le> fuel"
  shows "echo_reads fuel chunks (NetConnect_ctor bsize) = Out_of_fuel"
proof -
  have h: "feeds frame_feed (ms, []) (head @ b # rest) = None"
    using assms(2,3) by (simp add: feeds_append feeds_head frame_feed_def)
  have "feeds frame_feed (settled ms) (head @ b # rest) = None"
    using settled_step [OF assms(1), of "head @ b # rest"] h by simp
  then have "feeds frame_feed (frame_state (NetConnect_ctor bsize)) (concat chunks) = None"
    using feeds_stream [OF assms(1)] assms(5)
    by (simp add: NetConnect_ctor_idle feeds_append [of _ _ "concat (map encode_msg ms)"])
  from echo_reads_stuck [OF NetConnect_ctor_idle(1) [OF assms(6)] assms(4) this assms(7)]
  show ?thesis .
qed

theorem net_negative_length_hangs_witness:
  "echo_reads 100000 [[0, 0, 0, 128, 7, 0, 0, 0, 65]] (NetConnect_ctor 4096) = Out_of_fuel"
  by (rule net_negative_length_hangs
      [where ms = "[]" and head = "[0, 0, 0, 128, 7, 0, 0, 0]" and b = 65 and rest = "[]" and bsize = 4096])
    (simp_all add: chunk_ok_def msg_len_def of_bytes_def)

text \<open>C10. Memory safety of the receive path: no sequence of reads, whatever a peer sends, makes the
  connection read past the end of its receive buffer or access a packet outside of its storage. (A read
  may still never return: a negative length field makes the loop spin.)\<close>

theorem net_receive_in_bounds:
  assumes "\<forall>chunk\<in>set chunks. chunk_ok bsize chunk" and "bsize < 2 ^ 31" and "2 * bsize + 1 \<le> fuel"
  shows "echo_reads fuel chunks (NetConnect_ctor bsize) \<noteq> Undefined"
proof (cases "feeds frame_feed (frame_state (NetConnect_ctor bsize)) (concat chunks)")
  case None
  from echo_reads_stuck [OF NetConnect_ctor_idle(1) [OF assms(2)] assms(1) None assms(3)]
  show ?thesis by simp
next
  case (Some a)
  from echo_reads_returns [OF NetConnect_ctor_idle(1) [OF assms(2)] assms(1) Some assms(3)]
  show ?thesis by auto
qed

theorem net_receive_in_bounds_witness:
  "echo_reads 8193 [[255, 255, 255], [127, 0, 0, 0, 0, 1]] (NetConnect_ctor 4096) \<noteq> Undefined"
  by (rule net_receive_in_bounds [where bsize = 4096]) (simp_all add: chunk_ok_def)

text \<open>The send path: \<open>sendMsg\<close> turns a packet built by a script into a packet whose bytes on the
  socket are the encoding of its type and body, and leaves the script's packet empty.\<close>

theorem sendMsg_packet_encodes:
  assumes "tight pack" and "8 \<le> length (storage pack)" and "length (storage pack) < 2 ^ 31"
  shows "\<exists>packet pack'. sendMsg_packet t pack = Some (packet, pack')
    \<and> NetPacket_sendBytes packet = encode_msg (t, drop 8 (storage pack))
    \<and> pack' = \<lparr>rpos = 8, wpos = 8, storage = replicate 8 0\<rparr>"
proof -
  have mv: "BasePacket_moveData NetPacket_zero pack NetConnect_createPacket
      = (pack, \<lparr>rpos = 8, wpos = 8, storage = replicate 8 0\<rparr>)"
    by (simp add: BasePacket_moveData_def swapBuffer_def NetConnect_createPacket_def NetPacket_ctor_eq
        NetPacket_zero_def MSG_HEAD_SIZE_def resize_def)
  from writeHead_bytes [OF assms, of t] show ?thesis
    by (auto simp: sendMsg_packet_def mv)
qed

theorem sendMsg_packet_encodes_witness:
  "\<exists>packet pack'. sendMsg_packet 7 \<lparr>rpos = 8, wpos = 10, storage = [0, 0, 0, 0, 0, 0, 0, 0, 1, 2]\<rparr>
     = Some (packet, pack')
   \<and> NetPacket_sendBytes packet = [2, 0, 0, 0, 7, 0, 0, 0, 1, 2]
   \<and> pack' = \<lparr>rpos = 8, wpos = 8, storage = replicate 8 0\<rparr>"
  using sendMsg_packet_encodes
    [of "\<lparr>rpos = 8, wpos = 10, storage = [0, 0, 0, 0, 0, 0, 0, 0, 1, 2]\<rparr>" 7]
  by (simp add: tight_def encode_msg_def bytes_of_def)

end
