(* ===== verification/Web_Socket.thy ===== *)
theory Web_Socket
  imports Net_Connect
begin

text \<open>
  \<open>src/network/WebSocketPacket.h/.cpp\<close> and the frame loop of \<open>src/network/WebSocketConnect.cpp\<close>. The packet adds
  the two head bytes and the position of the frame head inside the 14 bytes reserved for it.
\<close>

section \<open>WebSocketPacket\<close>

definition WS_HEAD_SIZE :: nat where "WS_HEAD_SIZE = 2"
definition WS_MAX_HEAD_SIZE :: nat where "WS_MAX_HEAD_SIZE = 14"

datatype WSFrameType = ERROR_FRAME | INCOMPLETE_FRAME | OPENING_FRAME | CLOSING_FRAME
  | INCOMPLETE_TEXT_FRAME | INCOMPLETE_BINARY_FRAME | TEXT_FRAME | BINARY_FRAME
  | PING_FRAME | PONG_FRAME | CLOSE_FRAME

fun frame_code :: "WSFrameType \<Rightarrow> nat" where
  "frame_code ERROR_FRAME = 0xFF00"
| "frame_code INCOMPLETE_FRAME = 0xFE00"
| "frame_code OPENING_FRAME = 0x3300"
| "frame_code CLOSING_FRAME = 0x3400"
| "frame_code INCOMPLETE_TEXT_FRAME = 0x01"
| "frame_code INCOMPLETE_BINARY_FRAME = 0x02"
| "frame_code TEXT_FRAME = 0x81"
| "frame_code BINARY_FRAME = 0x82"
| "frame_code PING_FRAME = 0x89"
| "frame_code PONG_FRAME = 0x8A"
| "frame_code CLOSE_FRAME = 0x08"

record WebSocketPacket = ByteBuffer +
  m_head :: "byte list"
  m_headpos :: nat

definition WebSocketPacket_zero :: "WebSocketPacket \<Rightarrow> WebSocketPacket" where
  "WebSocketPacket_zero p =
     p\<lparr>storage := resize WS_MAX_HEAD_SIZE 0 (storage p), wpos := WS_MAX_HEAD_SIZE,
       rpos := WS_MAX_HEAD_SIZE, m_headpos := 0\<rparr>"

text \<open>The constructor leaves the two head bytes uninitialised: they are an argument.\<close>

definition WebSocketPacket_ctor :: "byte list \<Rightarrow> WebSocketPacket" where
  "WebSocketPacket_ctor head =
     WebSocketPacket_zero \<lparr>rpos = 0, wpos = 0, storage = [], m_head = head, m_headpos = 0\<rparr>"

definition getFin :: "WebSocketPacket \<Rightarrow> u8" where
  "getFin p = drop_bit 7 (m_head p ! 0) AND 0x01"

definition getOpcode :: "WebSocketPacket \<Rightarrow> u8" where
  "getOpcode p = (m_head p ! 0) AND 0x0F"

definition getMask :: "WebSocketPacket \<Rightarrow> u8" where
  "getMask p = drop_bit 7 (m_head p ! 1) AND 0x01"

definition getPayloadLen :: "WebSocketPacket \<Rightarrow> u8" where
  "getPayloadLen p = (m_head p ! 1) AND 0x7f"

definition calcHeadSize :: "WebSocketPacket \<Rightarrow> nat" where
  "calcHeadSize p =
     (let headlen = WS_HEAD_SIZE;
          headlen1 = (if getPayloadLen p = 126 then headlen + 2
                      else if getPayloadLen p = 127 then headlen + 8 else headlen)
      in if getMask p \<noteq> 0 then headlen1 + 4 else headlen1)"

text \<open>\<open>readFrameHead(pData, size)\<close>, with \<open>data\<close> the bytes behind \<open>pData\<close>: first the two fixed bytes (the
  number of bytes read, the pointer and the size after them, and the packet), then the rest of the head.
  Copying into the two bytes of \<open>__m_head\<close> or from \<open>data\<close> out of bounds is undefined.\<close>

definition readFrameHead_fixed ::
  "byte list \<Rightarrow> nat \<Rightarrow> WebSocketPacket \<Rightarrow> (nat \<times> byte list \<times> nat \<times> WebSocketPacket) option" where
  "readFrameHead_fixed data sz p =
     (let rsize = to_i32 (int WS_HEAD_SIZE - int (wpos p)) in
      if rsize > 0 then
        let n = (if sz \<ge> nat rsize then nat rsize else sz) in
        if wpos p + n > length (m_head p) then None
        else
          do { bs \<leftarrow> copy_from n data;
               let p1 = p\<lparr>m_head := overwrite (wpos p) bs (m_head p), wpos := wpos p + n\<rparr> in
               if wpos p1 = WS_HEAD_SIZE then
                 let hp = WS_MAX_HEAD_SIZE - calcHeadSize p1
                 in Some (n, drop n data, sz - n, p1\<lparr>m_headpos := hp, wpos := hp + WS_HEAD_SIZE\<rparr>)
               else Some (n, data, sz, p1) }
      else Some (0, data, sz, p))"

definition readFrameHead_rest ::
  "byte list \<Rightarrow> nat \<Rightarrow> WebSocketPacket \<Rightarrow> (nat \<times> WebSocketPacket) option" where
  "readFrameHead_rest data sz p =
     (if wpos p \<ge> WS_HEAD_SIZE \<and> sz > 0 then
        let rsize = to_i32 (int WS_MAX_HEAD_SIZE - int (wpos p)) in
        if rsize > 0 then
          let n = (if sz \<ge> nat rsize then nat rsize else sz) in
          do { bs \<leftarrow> copy_from n data;
               p1 \<leftarrow> put (wpos p) bs p;
               Some (n, p1\<lparr>wpos := wpos p1 + n\<rparr>) }
        else Some (0, p)
      else Some (0, p))"

definition readFrameHead :: "byte list \<Rightarrow> nat \<Rightarrow> WebSocketPacket \<Rightarrow> (nat \<times> WebSocketPacket) option" where
  "readFrameHead data sz p =
     do { (readsize, data1, sz1, p1) \<leftarrow> readFrameHead_fixed data sz p;
          (n, p2) \<leftarrow> readFrameHead_rest data1 sz1 p1;
          Some (readsize + n, p2) }"

definition WebSocketPacket_getMarkLen :: "WebSocketPacket \<Rightarrow> int option" where
  "WebSocketPacket_getMarkLen p =
     (let paylen = getPayloadLen p in
      if paylen < 126 then Some (uint paylen)
      else if paylen = 126 then map_option (\<lambda>len :: u16. sint (ucast len :: u32)) (getValue WS_HEAD_SIZE p)
      else map_option (\<lambda>len :: u64. sint (ucast len :: u32)) (getValue WS_HEAD_SIZE p))"

definition WebSocketPacket_isHeadFull :: "WebSocketPacket \<Rightarrow> bool" where
  "WebSocketPacket_isHeadFull p \<longleftrightarrow> wpos p \<ge> WS_MAX_HEAD_SIZE"

definition writeFrameHead :: "int \<Rightarrow> WSFrameType \<Rightarrow> WebSocketPacket \<Rightarrow> WebSocketPacket option" where
  "writeFrameHead bodylen frame_type p =
     do { (bytelength, hp, p1) \<leftarrow>
            (if bodylen \<le> 125 then Some (word_of_int bodylen :: u8, WS_MAX_HEAD_SIZE, p)
             else if bodylen \<le> 0xffff then
               do { p1 \<leftarrow> put_val (WS_MAX_HEAD_SIZE - 2) (word_of_int bodylen :: u16) p;
                    Some (126, WS_MAX_HEAD_SIZE - 2, p1) }
             else
               do { p1 \<leftarrow> put_val (WS_MAX_HEAD_SIZE - 8) (word_of_int bodylen :: u64) p;
                    Some (127, WS_MAX_HEAD_SIZE - 8, p1) });
          p2 \<leftarrow> put_val (hp - 1) bytelength p1;
          p3 \<leftarrow> put_val (hp - 2) (word_of_nat (frame_code frame_type) :: u8) p2;
          Some (p3\<lparr>m_headpos := hp - 2\<rparr>) }"

definition getMaskKey :: "WebSocketPacket \<Rightarrow> u32 option" where
  "getMaskKey p = getValue (WS_MAX_HEAD_SIZE - 4) p"

text \<open>\<open>sendStream\<close> and \<open>sendSize\<close> together.\<close>

definition WebSocketPacket_sendBytes :: "WebSocketPacket \<Rightarrow> byte list" where
  "WebSocketPacket_sendBytes p =
     read_at (m_headpos p) (nat (to_i32 (int (wpos p) - int (m_headpos p)))) (storage p)"

definition setPongPacket :: "WebSocketPacket \<Rightarrow> WebSocketPacket option" where
  "setPongPacket p =
     (if wpos p \<ge> 1 then setValue (m_headpos p) (word_of_nat (frame_code PONG_FRAME) :: u8) p
      else Some p)"

text \<open>\<open>moveData\<close> of a \<open>WebSocketPacket\<close> argument (the head sizes agree).\<close>

definition WebSocketPacket_moveData ::
  "WebSocketPacket \<Rightarrow> WebSocketPacket \<Rightarrow> (WebSocketPacket \<times> WebSocketPacket) option" where
  "WebSocketPacket_moveData packet this =
     (let len = getBodySize WS_MAX_HEAD_SIZE packet;
          (this1, packet1) = BasePacket_moveData WebSocketPacket_zero packet this
      in do { this2 \<leftarrow> writeFrameHead len BINARY_FRAME this1; Some (this2, packet1) })"

section \<open>The frame loop of WebSocketConnect\<close>

text \<open>What the loop does with a complete frame: close the socket, queue a packet, or call \<open>onMsg\<close>.\<close>

datatype ws_event = WsClose | WsSend WebSocketPacket | WsMsg WebSocketPacket

record WebSocketReader =
  ws_readPacket :: "WebSocketPacket option"
  ws_buffer :: MessageBuffer
  ws_events :: "ws_event list"

definition WebSocketConnect_createPacket :: "byte list \<Rightarrow> WebSocketPacket" where
  "WebSocketConnect_createPacket head = WebSocketPacket_ctor head"

fun xor_key :: "byte list \<Rightarrow> nat \<Rightarrow> byte list \<Rightarrow> byte list" where
  "xor_key key i [] = []"
| "xor_key key i (c # cs) = (c XOR key ! (i mod 4)) # xor_key key (Suc i) cs"

definition decodingDatas :: "WebSocketPacket \<Rightarrow> u32 \<Rightarrow> WebSocketPacket option" where
  "decodingDatas p msg_mask =
     do { mark \<leftarrow> WebSocketPacket_getMarkLen p;
          (if rpos p + nat mark \<le> length (storage p)
           then Some (p\<lparr>storage := overwrite (rpos p)
                  (xor_key (bytes_of msg_mask) 0 (read_at (rpos p) (nat mark) (storage p))) (storage p)\<rparr>)
           else None) }"

definition WebSocketConnect_sendMsg_packet ::
  "byte list \<Rightarrow> WebSocketPacket \<Rightarrow> (WebSocketPacket \<times> WebSocketPacket) option" where
  "WebSocketConnect_sendMsg_packet head pack =
     WebSocketPacket_moveData pack (WebSocketConnect_createPacket head)"

definition WebSocketConnect_sendMsg_bytes :: "byte list \<Rightarrow> byte list \<Rightarrow> WebSocketPacket option" where
  "WebSocketConnect_sendMsg_bytes head msg =
     do { pack \<leftarrow> writeFrameHead (int (length msg)) BINARY_FRAME (WebSocketConnect_createPacket head);
          append msg pack }"

text \<open>Dispatch of a complete frame; the uninitialised head of the reply packet is \<open>[0, 0]\<close> here.\<close>

definition ws_dispatch :: "WebSocketPacket \<Rightarrow> ws_event option" where
  "ws_dispatch p =
     do { p1 \<leftarrow> (if getMask p \<noteq> 0
                  then do { key \<leftarrow> getMaskKey p; decodingDatas p key }
                  else Some p);
          (if unat (getOpcode p1) = frame_code CLOSE_FRAME then Some WsClose
           else if unat (getOpcode p1) = frame_code PING_FRAME then
             do { p2 \<leftarrow> setPongPacket p1;
                  (packet, p3) \<leftarrow> WebSocketConnect_sendMsg_packet [0, 0] p2;
                  Some (WsSend packet) }
           else Some (WsMsg p1)) }"

text \<open>One iteration of the loop of \<open>on_msgbuffer\<close> up to the effect of \<open>close\<close> on the handle.\<close>

definition ws_frame_step :: "WebSocketReader \<Rightarrow> WebSocketReader option" where
  "ws_frame_step c =
     (let buffer = ws_buffer c;
          p = (case ws_readPacket c of
                 None \<Rightarrow> (WebSocketConnect_createPacket [0, 0])\<lparr>wpos := 0\<rparr>
               | Some p \<Rightarrow> p)
      in
      if \<not> WebSocketPacket_isHeadFull p then
        do { (rlen, p1) \<leftarrow> readFrameHead (GetReadPointer buffer) (GetActiveSize buffer) p;
             Some (c\<lparr>ws_readPacket := Some p1, ws_buffer := ReadCompleted rlen buffer\<rparr>) }
      else
        do { mark \<leftarrow> WebSocketPacket_getMarkLen p;
             (p1, buffer1) \<leftarrow> read_body WS_MAX_HEAD_SIZE mark p buffer;
             mark1 \<leftarrow> WebSocketPacket_getMarkLen p1;
             if wpos p1 = to_size (mark1 + int WS_MAX_HEAD_SIZE) then
               do { ev \<leftarrow> ws_dispatch p1;
                    Some (c\<lparr>ws_readPacket := None, ws_buffer := buffer1,
                            ws_events := ws_events c @ [ev]\<rparr>) }
             else Some (c\<lparr>ws_readPacket := Some p1, ws_buffer := buffer1\<rparr>) })"

text \<open>\<open>this->close()\<close> is \<open>uv_close\<close> on the socket's handle (\<open>TcpSocketBase::close\<close>), which asserts that the
  handle is not closing already: a second close frame in the bytes of one read fails. The loop itself goes
  on after a close.\<close>

definition ws_closes :: "WebSocketReader \<Rightarrow> nat" where
  "ws_closes c = length (filter (\<lambda>ev. ev = WsClose) (ws_events c))"

definition ws_msgbuffer_body :: "WebSocketReader \<Rightarrow> WebSocketReader option" where
  "ws_msgbuffer_body c =
     do { c1 \<leftarrow> ws_frame_step c; if ws_closes c1 \<le> 1 then Some c1 else None }"

definition ws_msgbuffer :: "nat \<Rightarrow> WebSocketReader \<Rightarrow> WebSocketReader outcome" where
  "ws_msgbuffer fuel c = run_loop fuel (\<lambda>c. GetActiveSize (ws_buffer c) > 0) ws_msgbuffer_body c"

text \<open>A sequence of reads after the handshake (\<open>TcpSocketBase::echo_read\<close> around \<open>on_msgbuffer\<close>). A handle that
  is closing is not read from any more.\<close>

definition ws_load :: "byte list \<Rightarrow> WebSocketReader \<Rightarrow> WebSocketReader" where
  "ws_load chunk c = c\<lparr>ws_buffer := WriteCompleted (length chunk)
     ((ws_buffer c)\<lparr>mb_storage := overwrite 0 chunk (mb_storage (ws_buffer c))\<rparr>)\<rparr>"

definition ws_echo_read :: "nat \<Rightarrow> byte list \<Rightarrow> WebSocketReader \<Rightarrow> WebSocketReader outcome" where
  "ws_echo_read fuel chunk c =
     (case ws_msgbuffer fuel (ws_load chunk c) of
        Returns c1 \<Rightarrow> Returns (c1\<lparr>ws_buffer := Reset (ws_buffer c1)\<rparr>)
      | Undefined \<Rightarrow> Undefined
      | Out_of_fuel \<Rightarrow> Out_of_fuel)"

fun ws_reads :: "nat \<Rightarrow> byte list list \<Rightarrow> WebSocketReader \<Rightarrow> WebSocketReader outcome" where
  "ws_reads fuel [] c = Returns c"
| "ws_reads fuel (chunk # chunks) c =
     (if 0 < ws_closes c then Returns c
      else case ws_echo_read fuel chunk c of
          Returns c1 \<Rightarrow> ws_reads fuel chunks c1
        | Undefined \<Rightarrow> Undefined
        | Out_of_fuel \<Rightarrow> Out_of_fuel)"

definition WebSocketConnect_ctor :: "nat \<Rightarrow> WebSocketReader" where
  "WebSocketConnect_ctor buffersize =
     \<lparr>ws_readPacket = None, ws_buffer = Resize buffersize (MessageBuffer_ctor MESSAGE_BUFFER_SIZE),
      ws_events = []\<rparr>"

end
