(* ===== verification/Web_Socket_Refine.thy ===== *)
theory Web_Socket_Refine
  imports Web_Socket
begin

text \<open>
  Specification of what \<open>WebSocketConnect::on_msgbuffer\<close> does with a byte stream after the handshake, and the
  proof that the loop implements it for every way the stream is cut into reads.
\<close>

section \<open>Specification\<close>

text \<open>The size of a frame head from its first two bytes, the length the code reads from it, and the
  action a complete frame causes. The extended length is looked for at a fixed place of the packet, not
  at the place where the head was stored, so that it reads as 0 except in a masked 64-bit head.\<close>

definition ws_masked :: "byte list \<Rightarrow> bool" where
  "ws_masked raw \<longleftrightarrow> drop_bit 7 (raw ! 1) AND 0x01 \<noteq> (0 :: byte)"

definition ws_paylen :: "byte list \<Rightarrow> byte" where
  "ws_paylen raw = (raw ! 1) AND 0x7f"

definition ws_head_size :: "byte list \<Rightarrow> nat" where
  "ws_head_size raw =
     2 + (if ws_paylen raw = 126 then 2 else if ws_paylen raw = 127 then 8 else 0)
       + (if ws_masked raw then 4 else 0)"

definition ws_mark :: "byte list \<Rightarrow> int" where
  "ws_mark raw =
     (if ws_paylen raw < 126 then uint (ws_paylen raw)
      else if ws_paylen raw = 127 \<and> ws_masked raw then sint (of_bytes (take 4 (drop 2 raw)) :: u32)
      else 0)"

datatype ws_action = CloseSocket | Reply "byte list" | Deliver byte "byte list"

definition ws_action_of :: "byte list \<Rightarrow> ws_action" where
  "ws_action_of raw =
     (let h = ws_head_size raw in
      if raw ! 0 AND 0x0F = 8 then CloseSocket
      else Deliver (raw ! 0)
        (if ws_masked raw then xor_key (take 4 (drop (h - 4) raw)) 0 (drop h raw) else drop h raw))"

definition ws_feed ::
  "ws_action list \<times> byte list \<Rightarrow> byte \<Rightarrow> (ws_action list \<times> byte list) option" where
  "ws_feed a b =
     (case a of (acts, raw) \<Rightarrow>
        if length raw < 2 \<or> length raw < ws_head_size raw then Some (acts, raw @ [b])
        else if ws_mark raw < 0 then None
        else if ws_mark raw = 0 then Some (acts @ [ws_action_of raw], [b])
        else if int (length raw) + 1 = int (ws_head_size raw) + ws_mark raw
             then Some (acts @ [ws_action_of (raw @ [b])], [])
        else Some (acts, raw @ [b]))"

lemma ws_head_size_range: "2 \<le> ws_head_size raw" "ws_head_size raw \<le> 14"
  by (simp_all add: ws_head_size_def)

lemma ws_append [simp]:
  "2 \<le> length raw \<Longrightarrow> ws_masked (raw @ xs) = ws_masked raw"
  "2 \<le> length raw \<Longrightarrow> ws_paylen (raw @ xs) = ws_paylen raw"
  "2 \<le> length raw \<Longrightarrow> ws_head_size (raw @ xs) = ws_head_size raw"
  by (simp_all add: ws_masked_def ws_paylen_def ws_head_size_def nth_append)

lemma ws_mark_append [simp]:
  "2 \<le> length raw \<Longrightarrow> ws_head_size raw \<le> length raw \<Longrightarrow> ws_mark (raw @ xs) = ws_mark raw"
  by (auto simp: ws_mark_def ws_head_size_def)

lemma ws_mark_range: "- (2 ^ 31) \<le> ws_mark raw \<and> ws_mark raw < 2 ^ 31"
proof -
  have "- (2 ^ 31) \<le> uint (ws_paylen raw)" by (rule order_trans [of _ 0]) simp_all
  then show ?thesis
    using sint_greater_eq [of "of_bytes (take 4 (drop 2 raw)) :: u32"]
      sint_less [of "of_bytes (take 4 (drop 2 raw)) :: u32"] uint_lt2p [of "ws_paylen raw"]
    by (auto simp: ws_mark_def)
qed

definition ws_in_head :: "byte list \<Rightarrow> bool" where
  "ws_in_head raw \<longleftrightarrow> length raw < 2 \<or> length raw \<le> ws_head_size raw"

lemma ws_feeds_head:
  "ws_in_head (raw @ xs) \<Longrightarrow> feeds ws_feed (acts, raw) xs = Some (acts, raw @ xs)"
proof (induction xs arbitrary: raw)
  case (Cons x xs)
  have "length raw < 2 \<or> length raw < ws_head_size raw"
    using Cons.prems by (cases "length raw < 2") (auto simp: ws_in_head_def)
  with Cons show ?case by (simp add: ws_feed_def)
qed simp

lemma ws_feeds_body:
  "2 \<le> length raw \<Longrightarrow> ws_head_size raw \<le> length raw \<Longrightarrow> 0 < ws_mark raw \<Longrightarrow>
   int (length raw + length xs) < int (ws_head_size raw) + ws_mark raw \<Longrightarrow>
   feeds ws_feed (acts, raw) xs = Some (acts, raw @ xs)"
  by (induction xs arbitrary: raw) (auto simp: ws_feed_def)

lemma ws_feeds_body_complete:
  assumes "2 \<le> length raw" and "ws_head_size raw \<le> length raw" and "0 < ws_mark raw" and "xs \<noteq> []"
    and "int (length raw + length xs) = int (ws_head_size raw) + ws_mark raw"
  shows "feeds ws_feed (acts, raw) xs = Some (acts @ [ws_action_of (raw @ xs)], [])"
proof -
  obtain ys y where xs: "xs = ys @ [y]" using assms(4) by (metis rev_exhaust)
  have "feeds ws_feed (acts, raw) ys = Some (acts, raw @ ys)"
    using assms xs by (intro ws_feeds_body) auto
  moreover have "ws_feed (acts, raw @ ys) y = Some (acts @ [ws_action_of (raw @ xs)], [])"
    using assms xs by (auto simp: ws_feed_def)
  ultimately show ?thesis by (simp add: xs feeds_append)
qed

section \<open>Representation of a partly received frame\<close>

definition ws_rel :: "byte list \<Rightarrow> WebSocketPacket \<Rightarrow> bool" where
  "ws_rel raw p \<longleftrightarrow> length (m_head p) = 2 \<and> rpos p = 14 \<and>
     (if length raw < 2
      then wpos p = length raw \<and> take (length raw) (m_head p) = raw \<and> storage p = replicate 14 0
      else m_head p = take 2 raw \<and> m_headpos p = 14 - ws_head_size raw
        \<and> wpos p = 14 - ws_head_size raw + length raw
        \<and> storage p = replicate (16 - ws_head_size raw) 0 @ drop 2 raw
            @ replicate (ws_head_size raw - length raw) 0)"

definition ws_raw :: "WebSocketPacket \<Rightarrow> byte list" where
  "ws_raw p =
     (if wpos p < 2 then take (wpos p) (m_head p)
      else m_head p @ drop (m_headpos p + 2) (take (wpos p) (storage p)))"

lemma ws_rel_raw: "ws_rel raw p \<Longrightarrow> ws_raw p = raw"
proof (cases "length raw < 2")
  case False
  assume r: "ws_rel raw p"
  have h: "2 \<le> ws_head_size raw" "ws_head_size raw \<le> 14" by (rule ws_head_size_range)+
  with r False have "\<not> wpos p < 2" by (simp add: ws_rel_def)
  moreover have "m_headpos p + 2 = 16 - ws_head_size raw" using r False h by (simp add: ws_rel_def)
  moreover have "wpos p = 16 - ws_head_size raw + length (drop 2 raw)"
    using r False h by (simp add: ws_rel_def)
  ultimately show ?thesis
    using r False by (simp add: ws_raw_def ws_rel_def)
qed (auto simp: ws_raw_def ws_rel_def)

definition ws_complete_or_short :: "byte list \<Rightarrow> bool" where
  "ws_complete_or_short raw \<longleftrightarrow>
     (2 \<le> length raw \<and> ws_head_size raw < length raw \<longrightarrow>
       int (length raw) < int (ws_head_size raw) + ws_mark raw)"

definition ws_ok :: "WebSocketPacket \<Rightarrow> bool" where
  "ws_ok p \<longleftrightarrow> ws_rel (ws_raw p) p \<and> ws_complete_or_short (ws_raw p)"

definition ws_current :: "WebSocketReader \<Rightarrow> WebSocketPacket" where
  "ws_current c =
     (case ws_readPacket c of None \<Rightarrow> (WebSocketConnect_createPacket [0, 0])\<lparr>wpos := 0\<rparr> | Some p \<Rightarrow> p)"

fun ws_view :: "ws_event \<Rightarrow> ws_action" where
  "ws_view WsClose = CloseSocket"
| "ws_view (WsSend p) = Reply (WebSocketPacket_sendBytes p)"
| "ws_view (WsMsg p) = Deliver (m_head p ! 0) (drop (rpos p) (storage p))"

definition ws_pending :: "WebSocketReader \<Rightarrow> byte list" where
  "ws_pending c = (case ws_readPacket c of None \<Rightarrow> [] | Some p \<Rightarrow> ws_raw p)"

definition ws_state :: "WebSocketReader \<Rightarrow> ws_action list \<times> byte list" where
  "ws_state c = (map ws_view (ws_events c), ws_pending c)"

definition ws_inv :: "WebSocketReader \<Rightarrow> bool" where
  "ws_inv c \<longleftrightarrow> wf_mb (ws_buffer c) \<and> length (mb_storage (ws_buffer c)) < 2 ^ 31
     \<and> (\<forall>p. ws_readPacket c = Some p \<longrightarrow> ws_ok p)"

definition ws_work :: "WebSocketReader \<Rightarrow> nat" where
  "ws_work c = 2 * length (active (ws_buffer c)) + (if ws_readPacket c = None then 0 else 1)"

section \<open>Reading the head\<close>

lemma calcHeadSize_eq:
  "take 2 raw = m_head p \<Longrightarrow> 2 \<le> length raw \<Longrightarrow> calcHeadSize p = ws_head_size raw"
  "take 2 raw = m_head p \<Longrightarrow> 2 \<le> length raw \<Longrightarrow> getPayloadLen p = ws_paylen raw"
  "take 2 raw = m_head p \<Longrightarrow> 2 \<le> length raw \<Longrightarrow> getMask p \<noteq> 0 \<longleftrightarrow> ws_masked raw"
  by (auto simp: calcHeadSize_def getPayloadLen_def getMask_def ws_head_size_def ws_paylen_def ws_masked_def
      WS_HEAD_SIZE_def Let_def dest!: sym [of "take 2 raw"])

lemma readFrameHead_rest_rel:
  assumes rel: "ws_rel raw p" and two: "2 \<le> length raw" and head: "length raw \<le> ws_head_size raw"
    and mem: "sz \<le> length data"
  defines "bs \<equiv> take sz data"
  shows "\<exists>n p1. readFrameHead_rest data sz p = Some (n, p1) \<and> n \<le> length bs
    \<and> ws_rel (raw @ take n bs) p1 \<and> ws_in_head (raw @ take n bs)
    \<and> (length raw < ws_head_size raw \<and> bs \<noteq> [] \<longrightarrow> 0 < n)"
proof (cases "length raw < ws_head_size raw \<and> bs \<noteq> []")
  case False
  have "wpos p = 14 \<or> sz = 0"
    using False rel two head mem ws_head_size_range [of raw] by (auto simp: ws_rel_def bs_def)
  then have "readFrameHead_rest data sz p = Some (0, p)"
    by (auto simp: readFrameHead_rest_def WS_MAX_HEAD_SIZE_def to_i32_id)
  with False rel two head show ?thesis by (auto simp: ws_in_head_def)
next
  case True
  note h = ws_head_size_range [of raw]
  define k where "k = ws_head_size raw - length raw"
  define n where "n = min k (length bs)"
  have w: "wpos p = 14 - ws_head_size raw + length raw" "wpos p + k = 14" "2 \<le> wpos p"
    "wpos p = 14 - ws_head_size raw + 2 + (length raw - 2)"
    using rel two True h by (auto simp: ws_rel_def k_def)
  have st: "storage p = replicate (16 - ws_head_size raw) 0 @ drop 2 raw @ replicate k 0"
    using rel two by (simp add: ws_rel_def k_def)
  have lst: "length (storage p) = 14" using st two h True by (auto simp: k_def)
  have pos: "wpos p = length (replicate (16 - ws_head_size raw) (0::byte) @ drop 2 raw)"
    using w h two by simp
  have rs: "to_i32 (int WS_MAX_HEAD_SIZE - int (wpos p)) = int k"
    using w by (simp add: WS_MAX_HEAD_SIZE_def to_i32_id)
  have lb: "length bs = sz" using mem by (simp add: bs_def)
  have n: "(if sz \<ge> nat (int k) then nat (int k) else sz) = n" "n \<le> k" "0 < n" "n \<le> length bs"
    using True lb by (auto simp: n_def k_def)
  have cp: "copy_from n data = Some (take n bs)"
    using n(4) mem by (simp add: copy_from_def bs_def min_absorb1)
  have ov: "overwrite (wpos p) (take n bs) (storage p)
      = replicate (16 - ws_head_size raw) 0 @ drop 2 raw @ take n bs @ replicate (k - n) 0"
    using n by (simp add: overwrite_def st pos del: append_assoc)
  let ?p1 = "p\<lparr>storage := overwrite (wpos p) (take n bs) (storage p), wpos := wpos p + n\<rparr>"
  have "readFrameHead_rest data sz p = Some (n, ?p1)"
    unfolding readFrameHead_rest_def Let_def rs n(1) cp
    using True w(2,3) n(2-4) lst lb by (auto simp add: WS_HEAD_SIZE_def put_def)
  moreover have "ws_rel (raw @ take n bs) ?p1"
    using rel two w n ov by (simp add: ws_rel_def k_def)
  moreover have "ws_in_head (raw @ take n bs)"
    using n two by (auto simp: ws_in_head_def k_def)
  ultimately show ?thesis using n True by blast
qed

lemma readFrameHead_rel:
  assumes rel: "ws_rel raw p" and head: "length raw < 2 \<or> length raw < ws_head_size raw"
    and sz: "0 < sz" and mem: "sz \<le> length data"
  defines "bs \<equiv> take sz data"
  shows "\<exists>n p1. readFrameHead data sz p = Some (n, p1) \<and> 0 < n \<and> n \<le> length bs
    \<and> ws_rel (raw @ take n bs) p1 \<and> ws_in_head (raw @ take n bs)"
proof (cases "2 \<le> length raw")
  case True
  with rel have "2 \<le> wpos p" using ws_head_size_range [of raw] by (simp add: ws_rel_def)
  moreover have "wpos p \<le> 14"
    using rel True head ws_head_size_range [of raw] by (auto simp: ws_rel_def)
  ultimately have "readFrameHead_fixed data sz p = Some (0, data, sz, p)"
    by (simp add: readFrameHead_fixed_def WS_HEAD_SIZE_def to_i32_id)
  with readFrameHead_rest_rel [OF rel True _ mem] True head sz mem show ?thesis
    by (auto simp: readFrameHead_def bs_def)
next
  case False
  define k where "k = 2 - length raw"
  define n where "n = min k (length bs)"
  let ?raw = "raw @ take n bs"
  let ?p1 = "p\<lparr>m_head := overwrite (wpos p) (take n bs) (m_head p), wpos := wpos p + n\<rparr>"
  have p: "wpos p = length raw" "take (length raw) (m_head p) = raw" "storage p = replicate 14 0"
    "length (m_head p) = 2" "rpos p = 14"
    using rel False by (simp_all add: ws_rel_def)
  have lb: "length bs = sz" using mem by (simp add: bs_def)
  have n: "0 < n" "n \<le> length bs" "n \<le> k" "length raw + k = 2" using False sz lb by (auto simp: n_def k_def)
  have cp: "copy_from n data = Some (take n bs)"
    using n(2) mem by (simp add: copy_from_def bs_def min_absorb1)
  have rs: "to_i32 (int WS_HEAD_SIZE - int (wpos p)) = int k"
    using p False by (simp add: WS_HEAD_SIZE_def to_i32_id k_def)
  have nn: "(if sz \<ge> nat (int k) then nat (int k) else sz) = n" by (auto simp: n_def lb)
  have k0: "0 < k" and fit: "\<not> length (m_head p) < wpos p + n" using n p by simp_all
  have hd: "take (length ?raw) (overwrite (wpos p) (take n bs) (m_head p)) = ?raw"
    "length (overwrite (wpos p) (take n bs) (m_head p)) = 2"
    using take_overwrite_end [of "length raw" "take n bs" "m_head p"] p n by simp_all
  have fixed: "readFrameHead_fixed data sz p =
      (if wpos ?p1 = WS_HEAD_SIZE
       then Some (n, drop n data, sz - n, ?p1\<lparr>m_headpos := WS_MAX_HEAD_SIZE - calcHeadSize ?p1,
              wpos := WS_MAX_HEAD_SIZE - calcHeadSize ?p1 + WS_HEAD_SIZE\<rparr>)
       else Some (n, data, sz, ?p1))"
    unfolding readFrameHead_fixed_def Let_def rs nn cp using k0 fit by simp
  show ?thesis
  proof (cases "n = k")
    case True
    have two: "length ?raw = 2" using True n by simp
    let ?hp = "14 - ws_head_size ?raw"
    let ?p2 = "?p1\<lparr>m_headpos := ?hp, wpos := ?hp + 2\<rparr>"
    have hs: "calcHeadSize ?p1 = ws_head_size ?raw"
      by (rule calcHeadSize_eq) (use hd two n True p in \<open>simp_all add: k_def\<close>)
    have fx: "readFrameHead_fixed data sz p = Some (n, drop n data, sz - n, ?p2)"
      unfolding fixed hs using True n p by (simp add: WS_HEAD_SIZE_def WS_MAX_HEAD_SIZE_def)
    have r2: "ws_rel ?raw ?p2"
      using hd two p ws_head_size_range [of ?raw] n True
      by (simp add: ws_rel_def k_def flip: replicate_add)
    have db: "take (sz - n) (drop n data) = drop n bs" by (simp add: bs_def drop_take)
    from readFrameHead_rest_rel [OF r2, of "sz - n" "drop n data"] two ws_head_size_range [of ?raw] diff_le_mono [OF mem, of n]
    obtain m p3 where m: "readFrameHead_rest (drop n data) (sz - n) ?p2 = Some (m, p3)" "m \<le> length bs - n"
      "ws_rel (?raw @ take m (drop n bs)) p3" "ws_in_head (?raw @ take m (drop n bs))"
      unfolding db by auto
    moreover have "take n bs @ take m (drop n bs) = take (n + m) bs" by (simp add: take_add)
    ultimately show ?thesis using fx n
      by (intro exI [of _ "n + m"] exI [of _ p3]) (auto simp: readFrameHead_def)
  next
    case False
    then have short: "length ?raw < 2" using n by simp
    then have "readFrameHead_fixed data sz p = Some (n, data, sz, ?p1)"
      using False n p by (simp only: fixed) (simp add: WS_HEAD_SIZE_def)
    moreover have "readFrameHead_rest data sz ?p1 = Some (0, ?p1)"
      using short p n by (simp add: readFrameHead_rest_def WS_HEAD_SIZE_def)
    moreover have "ws_rel ?raw ?p1"
      using short hd p n(2) by (simp add: ws_rel_def min_absorb2)
    ultimately show ?thesis using n short by (auto simp: readFrameHead_def ws_in_head_def)
  qed
qed

section \<open>Accessors of a packet with a complete head\<close>

lemma ws_rel_full:
  assumes "ws_rel raw p" and "2 \<le> length raw" and "ws_head_size raw \<le> length raw"
  shows "storage p = replicate (16 - ws_head_size raw) 0 @ drop 2 raw" and "wpos p = length (storage p)"
    and "m_head p = take 2 raw" and "rpos p = 14" and "14 \<le> wpos p"
    and "wpos p = 14 + (length raw - ws_head_size raw)"
    and "drop 14 (storage p) = drop (ws_head_size raw) raw"
  using assms ws_head_size_range [of raw] by (auto simp: ws_rel_def le_add_diff_inverse2 simp flip: add_2_eq_Suc')

lemma isHeadFull_rel:
  "ws_rel raw p \<Longrightarrow> WebSocketPacket_isHeadFull p \<longleftrightarrow> 2 \<le> length raw \<and> ws_head_size raw \<le> length raw"
  using ws_head_size_range [of raw]
  by (cases "length raw < 2") (auto simp: ws_rel_def WebSocketPacket_isHeadFull_def WS_MAX_HEAD_SIZE_def)

lemma paylen_cases: "ws_paylen raw < 126 \<or> ws_paylen raw = 126 \<or> ws_paylen raw = 127"
proof -
  have "ws_paylen raw \<le> 127" by (simp add: ws_paylen_def word_and_le1)
  then show ?thesis by unat_arith
qed

lemma from_le_append: "from_le (xs @ ys) = from_le xs + 256 ^ length xs * from_le ys"
  by (induction xs) (simp_all add: algebra_simps)

lemma from_le_zeros [simp]: "from_le (replicate n 0) = 0"
  by (induction n) simp_all

lemma ucast_of_bytes_u32:
  "length bs = 8 \<Longrightarrow> (ucast (of_bytes bs :: u64) :: u32) = of_bytes (take 4 bs)"
proof -
  assume l: "length bs = 8"
  have "from_le bs = from_le (take 4 bs @ drop 4 bs)" by simp
  also have "\<dots> = from_le (take 4 bs) + 4294967296 * from_le (drop 4 bs)"
    using l by (simp only: from_le_append) simp
  finally have e: "from_le bs = from_le (take 4 bs) + 4294967296 * from_le (drop 4 bs)" .
  have z: "(4294967296 :: u32) = 0" by simp
  have "(ucast (of_bytes bs :: u64) :: u32) = word_of_nat (from_le bs)"
    by (simp add: of_bytes_def unsigned_of_nat word_of_nat_eq_iff take_bit_take_bit)
  then show ?thesis
    by (simp only: e of_bytes_def of_nat_add of_nat_mult of_nat_numeral z) simp
qed

lemma getMarkLen_rel:
  assumes rel: "ws_rel raw p" and two: "2 \<le> length raw" and full: "ws_head_size raw \<le> length raw"
  shows "WebSocketPacket_getMarkLen p = Some (ws_mark raw)"
proof -
  note st = ws_rel_full [OF assms]
  have pl: "getPayloadLen p = ws_paylen raw" by (rule calcHeadSize_eq) (use st two in simp_all)
  consider "ws_paylen raw < 126" | "ws_paylen raw = 126" | "ws_paylen raw = 127" "ws_masked raw"
    | "ws_paylen raw = 127" "\<not> ws_masked raw" using paylen_cases by blast
  then show ?thesis
  proof cases
    case 1
    then show ?thesis by (simp add: WebSocketPacket_getMarkLen_def pl ws_mark_def)
  next
    case 2
    then have "read_at 2 2 (storage p) = replicate 2 0"
      using st(1) by (simp add: ws_head_size_def read_at_def min_def)
    with 2 st two show ?thesis
      by (simp add: WebSocketPacket_getMarkLen_def pl ws_mark_def getValue_def size_of_def WS_HEAD_SIZE_def
          of_bytes_def)
  next
    case 3
    then have "read_at 2 8 (storage p) = take 8 (drop 2 raw)" and "12 \<le> length raw - 2"
      using st(1) full by (simp_all add: ws_head_size_def read_at_def)
    with 3 st two show ?thesis
      by (simp add: WebSocketPacket_getMarkLen_def pl ws_mark_def getValue_def size_of_def WS_HEAD_SIZE_def
          ucast_of_bytes_u32 min_def)
  next
    case 4
    then have "read_at 2 8 (storage p) = replicate 4 0 @ take 4 (drop 2 raw)" and "8 \<le> length raw - 2"
      using st(1) full by (simp_all add: ws_head_size_def read_at_def min_def)
    moreover from this have "(ucast (of_bytes (read_at 2 8 (storage p)) :: u64) :: u32) = 0"
      by (subst ucast_of_bytes_u32) (simp_all add: of_bytes_def)
    ultimately show ?thesis using 4 st two
      by (simp add: WebSocketPacket_getMarkLen_def pl ws_mark_def getValue_def size_of_def WS_HEAD_SIZE_def)
  qed
qed

lemma getMaskKey_rel:
  assumes rel: "ws_rel raw p" and two: "2 \<le> length raw" and full: "ws_head_size raw \<le> length raw"
    and masked: "ws_masked raw"
  shows "\<exists>key. getMaskKey p = Some key \<and> bytes_of key = take 4 (drop (ws_head_size raw - 4) raw)"
proof -
  note st = ws_rel_full [OF rel two full] and h = ws_head_size_range [of raw]
  have h6: "6 \<le> ws_head_size raw" using masked by (simp add: ws_head_size_def)
  obtain k where k: "ws_head_size raw = k + 6" "k \<le> 8"
    using h6 h(2) le_Suc_ex [of 6 "ws_head_size raw"] by auto
  have "read_at 10 4 (storage p) = take 4 (drop (ws_head_size raw - 4) raw)"
    using st(1) k by (simp add: read_at_def)
  moreover have "length (take 4 (drop (ws_head_size raw - 4) raw)) = 4" using full h6 by simp
  ultimately show ?thesis using st(2,5)
    by (simp add: getMaskKey_def getValue_def size_of_def WS_MAX_HEAD_SIZE_def bytes_of_of_bytes)
qed

lemma length_xor_key [simp]: "length (xor_key key i cs) = length cs"
  by (induction cs arbitrary: i) simp_all

text \<open>Dispatch of a complete frame. The opcode is masked with \<open>0x0F\<close>, so that \<open>PING_FRAME\<close> never matches.\<close>

lemma ws_dispatch_rel:
  assumes rel: "ws_rel raw p" and two: "2 \<le> length raw" and full: "ws_head_size raw \<le> length raw"
    and len: "int (length raw) = int (ws_head_size raw) + ws_mark raw"
  shows "\<exists>ev. ws_dispatch p = Some ev \<and> ws_view ev = ws_action_of raw"
proof -
  note st = ws_rel_full [OF rel two full]
  have m: "getMask p \<noteq> 0 \<longleftrightarrow> ws_masked raw" by (rule calcHeadSize_eq) (use st two in simp_all)
  have hd: "m_head p ! 0 = raw ! 0" using st(3) two by simp
  have op: "unat (raw ! 0 AND 15) \<noteq> 137" "unat (raw ! 0 AND 15) = 8 \<longleftrightarrow> raw ! 0 AND 15 = 8"
  proof -
    have "raw ! 0 AND 15 \<le> 15" by (rule word_and_le1)
    then show "unat (raw ! 0 AND 15) \<noteq> 137" by unat_arith
    show "unat (raw ! 0 AND 15) = 8 \<longleftrightarrow> raw ! 0 AND 15 = 8"
      by (simp add: word_unat_eq_iff)
  qed
  show ?thesis
  proof (cases "ws_masked raw")
    case False
    with m st hd op show ?thesis
      by (simp add: ws_dispatch_def getOpcode_def ws_action_of_def Let_def)
  next
    case True
    from getMaskKey_rel [OF rel two full True] obtain key where
      key: "getMaskKey p = Some key" "bytes_of key = take 4 (drop (ws_head_size raw - 4) raw)" by blast
    have n: "nat (ws_mark raw) = length raw - ws_head_size raw" using len by linarith
    have ls: "length (storage p) = 14 + (length raw - ws_head_size raw)" using st by simp
    have rd: "read_at 14 (length raw - ws_head_size raw) (storage p) = drop (ws_head_size raw) raw"
      using st(7) by (simp add: read_at_def)
    let ?x = "xor_key (bytes_of key) 0 (drop (ws_head_size raw) raw)"
    have "decodingDatas p key = Some (p\<lparr>storage := overwrite 14 ?x (storage p)\<rparr>)"
      using st(4) ls rd n by (simp add: decodingDatas_def getMarkLen_rel [OF rel two full])
    moreover have "drop 14 (overwrite 14 ?x (storage p)) = ?x"
      using ls by (simp add: overwrite_def)
    ultimately show ?thesis using True m st hd op key
      by (simp add: ws_dispatch_def getOpcode_def ws_action_of_def Let_def)
  qed
qed

section \<open>One iteration of the loop\<close>

lemma ws_createPacket_rel: "ws_rel [] ((WebSocketConnect_createPacket [0, 0])\<lparr>wpos := 0\<rparr>)"
  by (simp add: ws_rel_def WebSocketConnect_createPacket_def WebSocketPacket_ctor_def WebSocketPacket_zero_def
      WS_MAX_HEAD_SIZE_def)

lemma ws_current_rel:
  "ws_inv c \<Longrightarrow> ws_rel (ws_pending c) (ws_current c) \<and> ws_complete_or_short (ws_pending c)"
  by (auto simp: ws_inv_def ws_pending_def ws_current_def ws_ok_def ws_createPacket_rel
      ws_complete_or_short_def split: option.split)

lemma ws_state_update:
  assumes "ws_rel raw p"
  shows "ws_state (c\<lparr>ws_readPacket := Some p, ws_buffer := b\<rparr>) = (map ws_view (ws_events c), raw)"
    and "ws_state (c\<lparr>ws_readPacket := None, ws_buffer := b, ws_events := ws_events c @ [ev]\<rparr>)
      = (map ws_view (ws_events c) @ [ws_view ev], [])"
  using ws_rel_raw [OF assms] by (simp_all add: ws_state_def ws_pending_def)

lemma ws_inv_update:
  assumes "ws_inv c" and "n \<le> length (active (ws_buffer c))"
    and "\<forall>p. q = Some p \<longrightarrow> (\<exists>raw. ws_rel raw p \<and> ws_complete_or_short raw)"
  shows "ws_inv (c\<lparr>ws_readPacket := q, ws_buffer := ReadCompleted n (ws_buffer c)\<rparr>)"
    and "ws_inv (c\<lparr>ws_readPacket := q, ws_buffer := ReadCompleted n (ws_buffer c), ws_events := e\<rparr>)"
  using assms by (auto simp: ws_inv_def ReadCompleted_wf ws_ok_def dest: ws_rel_raw)

lemma ws_work_update:
  assumes "n \<le> length (active (ws_buffer c))"
    and "0 < n \<or> (q = None \<and> ws_readPacket c \<noteq> None)"
  shows "ws_work (c\<lparr>ws_readPacket := q, ws_buffer := ReadCompleted n (ws_buffer c)\<rparr>) < ws_work c"
    and "ws_work (c\<lparr>ws_readPacket := q, ws_buffer := ReadCompleted n (ws_buffer c), ws_events := e\<rparr>)
      < ws_work c"
  using assms by (auto simp: ws_work_def)

text \<open>What an iteration has to establish, given that it consumes \<open>n\<close> bytes.\<close>

definition ws_step_ok :: "WebSocketReader \<Rightarrow> WebSocketReader \<Rightarrow> bool" where
  "ws_step_ok c c' \<longleftrightarrow> ws_frame_step c = Some c' \<and> ws_inv c'
    \<and> (ws_feed (ws_state c) (hd (active (ws_buffer c))) \<noteq> None \<longrightarrow> ws_work c' < ws_work c)
    \<and> feeds ws_feed (ws_state c') (active (ws_buffer c')) = feeds ws_feed (ws_state c) (active (ws_buffer c))"

lemma ws_step_head:
  assumes inv: "ws_inv c" and act: "active (ws_buffer c) \<noteq> []"
    and head: "length (ws_pending c) < 2 \<or> length (ws_pending c) < ws_head_size (ws_pending c)"
  shows "\<exists>c'. ws_step_ok c c'"
proof -
  let ?bs = "active (ws_buffer c)" and ?raw = "ws_pending c"
  from inv have wf: "wf_mb (ws_buffer c)" by (simp add: ws_inv_def)
  note rel = conjunct1 [OF ws_current_rel [OF inv]]
  from readFrameHead_rel [OF rel head, of "length ?bs" "GetReadPointer (ws_buffer c)"] act
    active_GetReadPointer [OF wf] obtain n p1 where
    r: "readFrameHead (GetReadPointer (ws_buffer c)) (length ?bs) (ws_current c) = Some (n, p1)"
      "0 < n" "n \<le> length ?bs" "ws_rel (?raw @ take n ?bs) p1" "ws_in_head (?raw @ take n ?bs)" by auto
  have cs: "ws_complete_or_short (?raw @ take n ?bs)"
    using r(5) by (auto simp: ws_complete_or_short_def ws_in_head_def)
  have b: "ws_frame_step c = Some (c\<lparr>ws_readPacket := Some p1, ws_buffer := ReadCompleted n (ws_buffer c)\<rparr>)"
    using wf head r(1) isHeadFull_rel [OF rel]
    by (auto simp: ws_frame_step_def Let_def ws_current_def [symmetric])
  have "feeds ws_feed (ws_state c) (take n ?bs) = Some (map ws_view (ws_events c), ?raw @ take n ?bs)"
    using ws_feeds_head [OF r(5)] by (simp add: ws_state_def)
  note f = feeds_take_drop [OF this]
  have "ws_step_ok c (c\<lparr>ws_readPacket := Some p1, ws_buffer := ReadCompleted n (ws_buffer c)\<rparr>)"
    unfolding ws_step_ok_def
    using b r inv f cs ws_work_update(1) [of n c "Some p1"] ws_inv_update(1) [OF inv r(3), of "Some p1"]
    by (auto simp: ws_state_update(1) [OF r(4)])
  then show ?thesis by blast
qed

text \<open>The body part: \<open>k\<close> bytes of the payload are copied.\<close>

definition ws_take :: "WebSocketReader \<Rightarrow> nat" where
  "ws_take c = (if 0 < ws_mark (ws_pending c)
     then min (nat (int (ws_head_size (ws_pending c)) + ws_mark (ws_pending c) - int (length (ws_pending c))))
            (length (active (ws_buffer c)))
     else 0)"

lemma ws_read_body:
  assumes inv: "ws_inv c" and act: "active (ws_buffer c) \<noteq> []"
    and two: "2 \<le> length (ws_pending c)" and full: "ws_head_size (ws_pending c) \<le> length (ws_pending c)"
  shows "\<exists>p1. read_body WS_MAX_HEAD_SIZE (ws_mark (ws_pending c)) (ws_current c) (ws_buffer c)
      = Some (p1, ReadCompleted (ws_take c) (ws_buffer c))
    \<and> ws_rel (ws_pending c @ take (ws_take c) (active (ws_buffer c))) p1"
proof -
  let ?raw = "ws_pending c" and ?p = "ws_current c" and ?bs = "active (ws_buffer c)" and ?k = "ws_take c"
  let ?p1 = "?p\<lparr>storage := storage ?p @ take ?k ?bs, wpos := wpos ?p + ?k\<rparr>"
  from inv have wf: "wf_mb (ws_buffer c)" by (simp add: ws_inv_def)
  note rel = conjunct1 [OF ws_current_rel [OF inv]] and cs = conjunct2 [OF ws_current_rel [OF inv]]
  note st = ws_rel_full [OF rel two full] and h = ws_head_size_range [of ?raw]
  have lb: "length ?bs < 2 ^ 31" using inv by (auto simp: ws_inv_def active_def)
  have k_le: "?k \<le> length ?bs" by (simp add: ws_take_def)
  have r1: "ws_rel (?raw @ take ?k ?bs) ?p1"
    using rel two full h k_le by (simp add: ws_rel_def min_absorb2)
  define need where "need = int (ws_head_size ?raw) + ws_mark ?raw - int (length ?raw)"
  have nd: "ws_mark ?raw + int WS_MAX_HEAD_SIZE - int (wpos ?p) = need"
    using st(6) full by (simp add: need_def WS_MAX_HEAD_SIZE_def)
  have "read_body WS_MAX_HEAD_SIZE (ws_mark ?raw) ?p (ws_buffer c)
      = Some (?p1, ReadCompleted ?k (ws_buffer c))"
  proof (cases "0 < ws_mark ?raw")
    case True
    have n0: "0 < need"
      using cs two full True by (auto simp: ws_complete_or_short_def need_def)
    have ti: "to_i32 need = need" "to_i32 (int (length ?bs)) = int (length ?bs)"
      using n0 full lb ws_mark_range [of ?raw] by (auto intro!: to_i32_id simp: need_def)
    have ws: "(if int (length ?bs) \<ge> need then need else int (length ?bs)) = int ?k" and k0: "0 < ?k"
      using True n0 act by (auto simp: ws_take_def need_def min_def)
    have ap: "append (take ?k ?bs) ?p = Some ?p1"
      using st(2) k_le by (simp add: append_def)
    have ga: "GetActiveSize (ws_buffer c) = length ?bs" using wf by simp
    have rp: "copy_from ?k (GetReadPointer (ws_buffer c)) = Some (take ?k ?bs)"
      using wf k_le by (simp add: copy_from_GetReadPointer)
    show ?thesis
      unfolding read_body_def nd Let_def ti ga ws using n0 k0 ap rp by simp
  next
    case False
    have "length ?raw = ws_head_size ?raw"
      using cs two full False by (auto simp: ws_complete_or_short_def)
    then have "to_i32 need = ws_mark ?raw"
      using ws_mark_range [of ?raw] by (auto simp: need_def intro: to_i32_id)
    with False show ?thesis
      unfolding read_body_def nd Let_def by (simp add: ws_take_def ReadCompleted_def)
  qed
  with r1 show ?thesis by blast
qed

lemma to_size_ws_len:
  assumes "- (2 ^ 31) \<le> l" and "l < 2 ^ 31" and "w < 2 ^ 33"
  shows "w = to_size (l + int WS_MAX_HEAD_SIZE) \<longleftrightarrow> int w = l + 14"
proof (cases "0 \<le> l + 14")
  case True
  with assms show ?thesis by (auto simp: to_size_def WS_MAX_HEAD_SIZE_def)
next
  case False
  with assms have "(l + 14 + 2 ^ 64) mod 2 ^ 64 = l + 14 + 2 ^ 64"
    by (intro mod_pos_pos_trivial) auto
  then have "(l + 14) mod 2 ^ 64 = l + 14 + 2 ^ 64" by (simp only: mod_add_self2)
  with assms False show ?thesis by (auto simp: to_size_def WS_MAX_HEAD_SIZE_def)
qed

lemma ws_full_body:
  assumes inv: "ws_inv c" and act: "active (ws_buffer c) \<noteq> []"
    and two: "2 \<le> length (ws_pending c)" and full: "ws_head_size (ws_pending c) \<le> length (ws_pending c)"
  defines "raw1 \<equiv> ws_pending c @ take (ws_take c) (active (ws_buffer c))"
    and "b1 \<equiv> ReadCompleted (ws_take c) (ws_buffer c)"
  shows "\<exists>p1 ev. ws_rel raw1 p1 \<and>
     (if int (length raw1) = int (ws_head_size raw1) + ws_mark raw1
      then ws_view ev = ws_action_of raw1 \<and> ws_frame_step c =
        Some (c\<lparr>ws_readPacket := None, ws_buffer := b1, ws_events := ws_events c @ [ev]\<rparr>)
      else ws_frame_step c = Some (c\<lparr>ws_readPacket := Some p1, ws_buffer := b1\<rparr>))"
proof -
  note rel = conjunct1 [OF ws_current_rel [OF inv]]
  from ws_read_body [OF inv act two full] obtain p1 where
    p1: "read_body WS_MAX_HEAD_SIZE (ws_mark (ws_pending c)) (ws_current c) (ws_buffer c) = Some (p1, b1)"
      "ws_rel raw1 p1" unfolding raw1_def b1_def by blast
  have hf: "WebSocketPacket_isHeadFull (ws_current c)" using isHeadFull_rel [OF rel] two full by simp
  have eqs: "ws_mark raw1 = ws_mark (ws_pending c)" "ws_head_size raw1 = ws_head_size (ws_pending c)"
    "2 \<le> length raw1" "ws_head_size raw1 \<le> length raw1"
    using two full by (simp_all add: raw1_def)
  note m = getMarkLen_rel [OF rel two full] and m1 = getMarkLen_rel [OF p1(2) eqs(3,4)]
  have w: "wpos p1 = 14 + (length raw1 - ws_head_size raw1)"
    using ws_rel_full [OF p1(2) eqs(3,4)] by blast
  have sm: "length raw1 < 2 ^ 32 + 2 ^ 31"
  proof -
    have "length (ws_pending c) < 2 ^ 32"
      using ws_current_rel [OF inv] ws_mark_range [of "ws_pending c"] ws_head_size_range [of "ws_pending c"]
      by (cases "ws_head_size (ws_pending c) < length (ws_pending c)") (auto simp: ws_complete_or_short_def two)
    moreover have "length (active (ws_buffer c)) < 2 ^ 31" using inv by (auto simp: ws_inv_def active_def)
    ultimately show ?thesis by (simp add: raw1_def)
  qed
  have sz: "wpos p1 = to_size (ws_mark raw1 + int WS_MAX_HEAD_SIZE)
      \<longleftrightarrow> int (length raw1) = int (ws_head_size raw1) + ws_mark raw1"
    using to_size_ws_len [of "ws_mark raw1" "wpos p1"] ws_mark_range [of raw1] w sm eqs(4) by auto
  have body: "ws_frame_step c =
      (if int (length raw1) = int (ws_head_size raw1) + ws_mark raw1
       then do { ev \<leftarrow> ws_dispatch p1;
             Some (c\<lparr>ws_readPacket := None, ws_buffer := b1, ws_events := ws_events c @ [ev]\<rparr>) }
       else Some (c\<lparr>ws_readPacket := Some p1, ws_buffer := b1\<rparr>))"
    using hf m m1 p1(1) sz by (simp add: ws_frame_step_def Let_def ws_current_def [symmetric])
  show ?thesis
  proof (cases "int (length raw1) = int (ws_head_size raw1) + ws_mark raw1")
    case True
    with ws_dispatch_rel [OF p1(2) eqs(3,4)] p1(2) body show ?thesis by auto
  next
    case False
    with p1(2) body show ?thesis by auto
  qed
qed

lemma ws_step_full:
  assumes inv: "ws_inv c" and act: "active (ws_buffer c) \<noteq> []"
    and two: "2 \<le> length (ws_pending c)" and full: "ws_head_size (ws_pending c) \<le> length (ws_pending c)"
  shows "\<exists>c'. ws_step_ok c c'"
proof -
  let ?raw = "ws_pending c" and ?bs = "active (ws_buffer c)" and ?k = "ws_take c"
  let ?raw1 = "?raw @ take ?k ?bs"
  let ?acts = "map ws_view (ws_events c)"
  note cs = conjunct2 [OF ws_current_rel [OF inv]]
  have rp: "ws_readPacket c \<noteq> None" using two by (cases "ws_readPacket c") (auto simp: ws_pending_def)
  have k_le: "?k \<le> length ?bs" by (simp add: ws_take_def)
  have eqs: "ws_mark ?raw1 = ws_mark ?raw" "ws_head_size ?raw1 = ws_head_size ?raw"
    using two full by simp_all
  from ws_full_body [OF inv act two full] obtain p1 ev where rel1: "ws_rel ?raw1 p1" and
    b: "if int (length ?raw1) = int (ws_head_size ?raw1) + ws_mark ?raw1
      then ws_view ev = ws_action_of ?raw1 \<and> ws_frame_step c =
        Some (c\<lparr>ws_readPacket := None, ws_buffer := ReadCompleted ?k (ws_buffer c),
               ws_events := ws_events c @ [ev]\<rparr>)
      else ws_frame_step c = Some (c\<lparr>ws_readPacket := Some p1, ws_buffer := ReadCompleted ?k (ws_buffer c)\<rparr>)"
    by blast
  have st: "ws_state c = (?acts, ?raw)" by (simp add: ws_state_def)
  obtain x xs where bs: "?bs = x # xs" using act by (cases ?bs) auto
  show ?thesis
  proof (cases "int (length ?raw1) = int (ws_head_size ?raw1) + ws_mark ?raw1")
    case True
    let ?c' = "c\<lparr>ws_readPacket := None, ws_buffer := ReadCompleted ?k (ws_buffer c), ws_events := ws_events c @ [ev]\<rparr>"
    have "ws_inv ?c'" using ws_inv_update(2) [OF inv k_le, of None] by simp
    moreover have "ws_work ?c' < ws_work c" using ws_work_update(2) [OF k_le, of None] rp by simp
    moreover have "feeds ws_feed (?acts @ [ws_action_of ?raw1], []) (drop ?k ?bs) = feeds ws_feed (?acts, ?raw) ?bs"
    proof (cases "0 < ws_mark ?raw")
      case pos: True
      have k0: "take ?k ?bs \<noteq> []"
        using cs pos two full act by (auto simp: ws_take_def ws_complete_or_short_def)
      show ?thesis
        by (rule feeds_take_drop, rule ws_feeds_body_complete)
          (use True pos two full k0 eqs in \<open>simp_all\<close>)
    next
      case False
      then have k0: "?k = 0" by (simp add: ws_take_def)
      with True full have "ws_mark ?raw = 0" using False by auto
      then show ?thesis using k0 two full by (simp add: bs ws_feed_def)
    qed
    ultimately have "ws_step_ok c ?c'"
      using True b by (simp add: ws_step_ok_def st ws_state_update(2) [OF rel1])
    then show ?thesis by blast
  next
    case False
    let ?c' = "c\<lparr>ws_readPacket := Some p1, ws_buffer := ReadCompleted ?k (ws_buffer c)\<rparr>"
    have le: "int (length ?raw1) \<le> int (ws_head_size ?raw) + ws_mark ?raw \<or> ?k = 0"
      using full by (auto simp: ws_take_def)
    have cs1: "ws_complete_or_short ?raw1"
      using le False cs eqs by (auto simp: ws_complete_or_short_def)
    have i: "ws_inv ?c'" using ws_inv_update(1) [OF inv k_le, of "Some p1"] rel1 cs1 by auto
    show ?thesis
    proof (cases "0 < ws_mark ?raw")
      case True
      have k0: "0 < ?k"
        using cs True two full act by (auto simp: ws_take_def ws_complete_or_short_def)
      have "feeds ws_feed (?acts, ?raw1) (drop ?k ?bs) = feeds ws_feed (?acts, ?raw) ?bs"
        by (rule feeds_take_drop, rule ws_feeds_body)
          (use True False le k0 eqs two full in \<open>simp_all\<close>)
      with i False b ws_work_update(1) [OF k_le, of "Some p1"] k0 have "ws_step_ok c ?c'"
        by (simp add: ws_step_ok_def st ws_state_update(1) [OF rel1])
      then show ?thesis by blast
    next
      case npos: False
      then have k0: "?k = 0" by (simp add: ws_take_def)
      have "ws_mark ?raw \<noteq> 0"
        using False npos cs k0 two full by (auto simp: ws_complete_or_short_def)
      with npos k0 i False b two full have "ws_step_ok c ?c'"
        using ws_state_update(1) [OF rel1]
        by (simp add: ws_step_ok_def st bs ws_feed_def)
      then show ?thesis by blast
    qed
  qed
qed

lemma ws_step: "ws_inv c \<Longrightarrow> active (ws_buffer c) \<noteq> [] \<Longrightarrow> \<exists>c'. ws_step_ok c c'"
  by (metis ws_step_full ws_step_head not_less)

interpretation ws_loop: stream_loop "\<lambda>c. GetActiveSize (ws_buffer c) > 0" ws_frame_step
  "\<lambda>c. active (ws_buffer c)" ws_state ws_feed ws_inv ws_work
proof (unfold_locales, goal_cases)
  case (1 c)
  then show ?case by (simp add: ws_inv_def)
next
  case (2 c)
  then show ?case using ws_step [of c] by (auto simp: ws_step_ok_def)
next
  case (3 c c')
  then show ?case using ws_step [of c] by (auto simp: ws_step_ok_def)
qed

section \<open>Receiving chunks\<close>

definition ws_idle :: "nat \<Rightarrow> WebSocketReader \<Rightarrow> bool" where
  "ws_idle bsize c \<longleftrightarrow> ws_inv c \<and> mb_rpos (ws_buffer c) = 0 \<and> mb_wpos (ws_buffer c) = 0
     \<and> length (mb_storage (ws_buffer c)) = bsize"

lemma ws_load_inv:
  assumes "ws_idle bsize c" and "chunk_ok bsize chunk"
  shows "ws_inv (ws_load chunk c)" and "active (ws_buffer (ws_load chunk c)) = chunk"
    and "ws_state (ws_load chunk c) = ws_state c"
    and "ws_work (ws_load chunk c) \<le> 2 * bsize + 1"
    and "length (mb_storage (ws_buffer (ws_load chunk c))) = bsize"
proof -
  have st: "length (overwrite 0 chunk (mb_storage (ws_buffer c))) = bsize"
    using assms by (auto simp: ws_idle_def chunk_ok_def)
  show "ws_inv (ws_load chunk c)"
    using assms st by (auto simp: ws_load_def ws_idle_def ws_inv_def wf_mb_def WriteCompleted_def chunk_ok_def)
  show act: "active (ws_buffer (ws_load chunk c)) = chunk"
    using assms by (auto simp: ws_load_def active_def WriteCompleted_def ws_idle_def overwrite_def)
  show "ws_state (ws_load chunk c) = ws_state c"
    by (simp add: ws_load_def ws_state_def ws_pending_def)
  show "ws_work (ws_load chunk c) \<le> 2 * bsize + 1"
    using assms(2) by (simp add: ws_work_def act chunk_ok_def)
  show "length (mb_storage (ws_buffer (ws_load chunk c))) = bsize"
    using st by (simp add: ws_load_def WriteCompleted_def)
qed

lemma ws_body_storage:
  "ws_frame_step c = Some c' \<Longrightarrow> mb_storage (ws_buffer c') = mb_storage (ws_buffer c)"
  by (auto simp: ws_frame_step_def Let_def bind_eq_Some_conv dest: read_body_storage
      split: if_splits option.splits)

lemma ws_loop_storage:
  "run_loop fuel (\<lambda>c. GetActiveSize (ws_buffer c) > 0) ws_frame_step c = Returns c' \<Longrightarrow>
   mb_storage (ws_buffer c') = mb_storage (ws_buffer c)"
  by (rule run_loop_invariant [where P = "\<lambda>x. mb_storage (ws_buffer x) = mb_storage (ws_buffer c)"])
    (auto dest: ws_body_storage)

interpretation ws_chunks: chunked_loop "\<lambda>c. GetActiveSize (ws_buffer c) > 0" ws_frame_step
  "\<lambda>c. active (ws_buffer c)" ws_state ws_feed ws_inv ws_work
  ws_load "\<lambda>c. c\<lparr>ws_buffer := Reset (ws_buffer c)\<rparr>" "ws_idle bsize" "chunk_ok bsize" "2 * bsize + 1"
  for bsize
proof (unfold_locales, goal_cases)
  case (1 c chunk)
  then show ?case using ws_load_inv [OF 1] by simp
next
  case (2 c chunk fuel c')
  then have "length (mb_storage (ws_buffer c')) = bsize"
    using ws_loop_storage [of fuel "ws_load chunk c" c'] ws_load_inv(5) [OF 2(1,2)] by simp
  with 2(4) show ?case
    by (auto simp: ws_idle_def ws_inv_def wf_mb_def Reset_def ws_state_def ws_pending_def)
qed

lemma ws_ctor_idle:
  "bsize < 2 ^ 31 \<Longrightarrow> ws_idle bsize (WebSocketConnect_ctor bsize)"
  "ws_state (WebSocketConnect_ctor bsize) = ([], [])"
  by (simp_all add: ws_idle_def ws_inv_def WebSocketConnect_ctor_def Resize_def MessageBuffer_ctor_def
      wf_mb_def ws_state_def ws_pending_def)

text \<open>The loop with the check of \<open>close\<close> agrees with the loop without it as long as the socket is closed at
  most once, since the events of a connection only grow.\<close>

lemma ws_frame_step_closes: "ws_frame_step c = Some c' \<Longrightarrow> ws_closes c \<le> ws_closes c'"
  by (auto simp: ws_frame_step_def ws_closes_def Let_def bind_eq_Some_conv split: if_splits option.splits)

lemma ws_loop_checked:
  "run_loop fuel guard ws_frame_step c = Returns c' \<Longrightarrow> ws_closes c' \<le> 1 \<Longrightarrow>
   run_loop fuel guard ws_msgbuffer_body c = Returns c'"
proof (induction fuel arbitrary: c)
  case 0
  then show ?case by (cases "guard c") auto
next
  case (Suc n)
  show ?case
  proof (cases "guard c")
    case True
    with Suc.prems(1) obtain c1 where c1: "ws_frame_step c = Some c1" "run_loop n guard ws_frame_step c1 = Returns c'"
      by (auto split: option.splits)
    have "ws_closes c1 \<le> ws_closes c'"
      by (rule run_loop_invariant [where P = "\<lambda>x. ws_closes c1 \<le> ws_closes x", OF _ _ c1(2)])
        (auto dest: ws_frame_step_closes)
    with True c1 Suc.prems(2) Suc.IH [OF c1(2)] show ?thesis by (simp add: ws_msgbuffer_body_def)
  qed (use Suc.prems in auto)
qed

lemma ws_loop_second_close:
  "run_loop fuel guard ws_frame_step c = Returns c' \<Longrightarrow> ws_closes c \<le> 1 \<Longrightarrow> 1 < ws_closes c' \<Longrightarrow>
   run_loop fuel guard ws_msgbuffer_body c = Undefined"
proof (induction fuel arbitrary: c)
  case 0
  then show ?case by (cases "guard c") auto
next
  case (Suc n)
  then have "guard c" by (cases "guard c") auto
  with Suc.prems(1) obtain c1 where c1: "ws_frame_step c = Some c1" "run_loop n guard ws_frame_step c1 = Returns c'"
    by (auto split: option.splits)
  with \<open>guard c\<close> Suc.IH [OF c1(2)] Suc.prems(3) show ?case by (simp add: ws_msgbuffer_body_def)
qed

lemma ws_feed_more:
  "ws_feed (acts, raw) b = Some (acts', raw') \<Longrightarrow> \<exists>more. acts' = acts @ more \<and> (more = [] \<longrightarrow> raw' \<noteq> [])"
  by (auto simp: ws_feed_def split: if_splits)

lemma ws_feeds_more:
  "feeds ws_feed (acts, raw) xs = Some (acts', raw') \<Longrightarrow>
   \<exists>more. acts' = acts @ more \<and> (xs \<noteq> [] \<and> more = [] \<longrightarrow> raw' \<noteq> [])"
proof (induction xs arbitrary: acts raw)
  case (Cons x xs)
  from Cons.prems obtain acts1 raw1 where a1: "ws_feed (acts, raw) x = Some (acts1, raw1)"
    "feeds ws_feed (acts1, raw1) xs = Some (acts', raw')" by (auto simp: bind_eq_Some_conv)
  from ws_feed_more [OF a1(1)] Cons.IH [OF a1(2)] a1(2) show ?case by (cases "xs = []") auto
qed simp

lemma ws_closes_state: "ws_closes c = length (filter (\<lambda>a. a = CloseSocket) (fst (ws_state c)))"
proof -
  have "(ws_view ev = CloseSocket) = (ev = WsClose)" for ev by (cases ev) simp_all
  then show ?thesis by (simp add: ws_closes_def ws_state_def filter_map comp_def)
qed

lemma no_close: "CloseSocket \<notin> set acts \<Longrightarrow> filter (\<lambda>a. a = CloseSocket) acts = []"
  by (auto simp: filter_empty_conv)

lemma one_close: "CloseSocket \<notin> set (butlast acts) \<Longrightarrow> length (filter (\<lambda>a. a = CloseSocket) acts) \<le> 1"
  by (cases acts rule: rev_cases) (simp_all add: no_close)

text \<open>Reads of bytes whose only close frame, if any, comes last.\<close>

lemma ws_reads_return:
  "ws_idle bsize c \<Longrightarrow> \<forall>chunk\<in>set chunks. chunk_ok bsize chunk \<Longrightarrow>
   feeds ws_feed (ws_state c) (concat chunks) = Some (acts, raw) \<Longrightarrow> 2 * bsize + 1 \<le> fuel \<Longrightarrow>
   CloseSocket \<notin> set (butlast acts) \<Longrightarrow> CloseSocket \<notin> set acts \<or> raw = [] \<Longrightarrow>
   \<exists>c'. ws_reads fuel chunks c = Returns c' \<and> ws_state c' = (acts, raw)"
proof (induction chunks arbitrary: c)
  case (Cons chunk chunks)
  obtain acts0 raw0 where s0: "ws_state c = (acts0, raw0)" by fastforce
  from Cons.prems(3) obtain acts1 raw1 where a1: "feeds ws_feed (ws_state c) chunk = Some (acts1, raw1)"
    "feeds ws_feed (acts1, raw1) (concat chunks) = Some (acts, raw)"
    by (auto simp: feeds_append bind_eq_Some_conv)
  have ne: "concat (chunk # chunks) \<noteq> []" using Cons.prems(2) by (simp add: chunk_ok_def)
  from ws_feeds_more [of acts0 raw0 "concat (chunk # chunks)" acts raw] Cons.prems(3) s0 ne
  obtain more where more: "acts = acts0 @ more" "more = [] \<longrightarrow> raw \<noteq> []" by auto
  have open0: "ws_closes c = 0"
    using more Cons.prems(5,6) s0 by (cases more rule: rev_cases) (auto simp: ws_closes_state no_close butlast_append)
  from ws_chunks.read_returns [OF Cons.prems(1) _ a1(1) Cons.prems(4)] Cons.prems(2) obtain s'
    where s': "run_loop fuel (\<lambda>c. GetActiveSize (ws_buffer c) > 0) ws_frame_step (ws_load chunk c) = Returns s'"
      "ws_idle bsize (s'\<lparr>ws_buffer := Reset (ws_buffer s')\<rparr>)"
      "ws_state (s'\<lparr>ws_buffer := Reset (ws_buffer s')\<rparr>) = (acts1, raw1)" by auto
  from ws_feeds_more [OF a1(2)] obtain more1 where "acts = acts1 @ more1" by blast
  then have "CloseSocket \<notin> set (butlast acts1)"
    using Cons.prems(5) by (auto simp: butlast_append dest: in_set_butlastD split: if_splits)
  then have "ws_closes (s'\<lparr>ws_buffer := Reset (ws_buffer s')\<rparr>) \<le> 1"
    using s'(3) one_close [of acts1] by (simp add: ws_closes_state)
  then have "ws_closes s' \<le> 1" by (simp add: ws_closes_def)
  from ws_loop_checked [OF s'(1) this] have
    "ws_echo_read fuel chunk c = Returns (s'\<lparr>ws_buffer := Reset (ws_buffer s')\<rparr>)"
    by (simp add: ws_echo_read_def ws_msgbuffer_def)
  with Cons.IH [OF s'(2)] Cons.prems(2,4-6) a1(2) s'(3) open0 show ?case by auto
qed simp

section \<open>Frames of a client\<close>

text \<open>A client frame with a masking key and at most 125 bytes of payload: the first byte (FIN and
  opcode), the key and the payload.\<close>

type_synonym client_frame = "byte \<times> byte list \<times> byte list"

fun frame_ok :: "client_frame \<Rightarrow> bool" where
  "frame_ok (b0, key, payload) \<longleftrightarrow> length key = 4 \<and> length payload \<le> 125"

fun encode_frame :: "client_frame \<Rightarrow> byte list" where
  "encode_frame (b0, key, payload) =
     [b0, 0x80 OR word_of_nat (length payload)] @ key @ xor_key key 0 payload"

fun frame_action :: "client_frame \<Rightarrow> ws_action" where
  "frame_action (b0, key, payload) = (if b0 AND 0x0F = 8 then CloseSocket else Deliver b0 payload)"

fun frame_payload :: "client_frame \<Rightarrow> byte list" where
  "frame_payload (b0, key, payload) = payload"

lemma xor_key_xor_key [simp]: "xor_key key i (xor_key key i cs) = cs"
  by (induction cs arbitrary: i) (simp_all add: xor.assoc)

lemma mask_len:
  assumes "n \<le> 125"
  shows "(0x80 OR word_of_nat n :: byte) AND 0x7f = word_of_nat n"
    and "drop_bit 7 (0x80 OR word_of_nat n :: byte) AND 0x01 = 1"
    and "word_of_nat n < (126 :: byte)" and "uint (word_of_nat n :: byte) = int n"
proof -
  have "n \<in> set [0..<126]" using assms by simp
  moreover have "\<forall>n\<in>set [0..<126]. (0x80 OR word_of_nat n :: byte) AND 0x7f = word_of_nat n
      \<and> drop_bit 7 (0x80 OR word_of_nat n :: byte) AND 0x01 = 1"
    by code_simp
  ultimately show "(0x80 OR word_of_nat n :: byte) AND 0x7f = word_of_nat n"
    and "drop_bit 7 (0x80 OR word_of_nat n :: byte) AND 0x01 = 1" by blast+
  show "uint (word_of_nat n :: byte) = int n" using assms by (simp add: unsigned_of_nat take_bit_nat_eq_self)
  then show "word_of_nat n < (126 :: byte)" using assms by (simp add: word_less_def)
qed

lemma encode_frame_facts:
  assumes "frame_ok fr"
  shows "ws_masked (encode_frame fr @ xs)" and "ws_head_size (encode_frame fr @ xs) = 6"
    and "ws_mark (encode_frame fr @ xs) = int (length (frame_payload fr))"
    and "length (encode_frame fr) = 6 + length (frame_payload fr)"
    and "ws_action_of (encode_frame fr) = frame_action fr"
proof -
  obtain b0 key payload where fr: "fr = (b0, key, payload)" by (cases fr) auto
  with assms have l: "length key = 4" "length payload \<le> 125" by simp_all
  note ml = mask_len [OF l(2)]
  have raw1: "(encode_frame fr @ ys) ! 1 = 0x80 OR word_of_nat (length payload)" for ys
    by (simp add: fr)
  have m: "ws_masked (encode_frame fr @ ys)" for ys
    unfolding ws_masked_def raw1 ml(2) by simp
  have p: "ws_paylen (encode_frame fr @ ys) = word_of_nat (length payload)" for ys
    unfolding ws_paylen_def raw1 ml(1) ..
  have ne: "word_of_nat (length payload) \<noteq> (126 :: byte)" "word_of_nat (length payload) \<noteq> (127 :: byte)"
    using ml(3) by auto
  have h: "ws_head_size (encode_frame fr @ ys) = 6" for ys
    using m [of ys] ne by (simp add: ws_head_size_def p del: encode_frame.simps)
  show "ws_masked (encode_frame fr @ xs)" by (rule m)
  show "ws_head_size (encode_frame fr @ xs) = 6" by (rule h)
  show "ws_mark (encode_frame fr @ xs) = int (length (frame_payload fr))"
    using ml(3,4) p [of xs] by (simp add: ws_mark_def) (simp add: fr)
  show "length (encode_frame fr) = 6 + length (frame_payload fr)" by (simp add: fr l)
  show "ws_action_of (encode_frame fr) = frame_action fr"
    using m [of "[]"] h [of "[]"] l by (simp add: ws_action_of_def fr)
qed

lemma ws_feeds_frame:
  assumes "frame_ok fr"
  shows "feeds ws_feed (acts, []) (encode_frame fr) =
    Some (if frame_payload fr = [] then (acts, encode_frame fr) else (acts @ [frame_action fr], []))"
proof -
  note e = encode_frame_facts [OF assms] and e0 = encode_frame_facts(1-3) [OF assms, of "[]", simplified]
  let ?h = "take 6 (encode_frame fr)" and ?b = "drop 6 (encode_frame fr)"
  have lh: "length ?h = 6" using e(4) by simp
  have hh: "ws_masked ?h" "ws_head_size ?h = 6" "ws_mark ?h = int (length (frame_payload fr))"
  proof -
    have two: "2 \<le> length ?h" using lh by simp
    show m: "ws_masked ?h" using e0(1) ws_append(1) [OF two, of ?b] by simp
    show h: "ws_head_size ?h = 6" using e0(2) ws_append(3) [OF two, of ?b] by simp
    show "ws_mark ?h = int (length (frame_payload fr))"
      using e0(3) ws_mark_append [OF two, of ?b] h lh by simp
  qed
  have h: "feeds ws_feed (acts, []) ?h = Some (acts, ?h)"
    using ws_feeds_head [of "[]" ?h acts] lh hh by (simp add: ws_in_head_def)
  show ?thesis
  proof (cases "frame_payload fr = []")
    case True
    then have "encode_frame fr = ?h" using e(4) by simp
    with h True show ?thesis by simp
  next
    case False
    have "feeds ws_feed (acts, ?h) ?b = Some (acts @ [ws_action_of (?h @ ?b)], [])"
      using False e(4) hh lh by (intro ws_feeds_body_complete) auto
    then show ?thesis using False feeds_take_drop [OF h] e(5) by simp
  qed
qed

lemma ws_feeds_after_empty:
  assumes "frame_ok fr" and "frame_payload fr = []" and "xs \<noteq> []"
  shows "feeds ws_feed (acts, encode_frame fr) xs = feeds ws_feed (acts @ [frame_action fr], []) xs"
proof -
  obtain y ys where "xs = y # ys" using assms(3) by (cases xs) auto
  then show ?thesis
    using encode_frame_facts(1-3) [OF assms(1), of "[]"] encode_frame_facts(4,5) [OF assms(1)] assms(2)
    by (simp add: ws_feed_def)
qed

definition ws_settled :: "client_frame list \<Rightarrow> ws_action list \<times> byte list" where
  "ws_settled frs =
     (if frs \<noteq> [] \<and> frame_payload (last frs) = []
      then (map frame_action (butlast frs), encode_frame (last frs)) else (map frame_action frs, []))"

lemma ws_settled_step:
  assumes "\<forall>fr\<in>set frs. frame_ok fr" and "xs \<noteq> []"
  shows "feeds ws_feed (ws_settled frs) xs = feeds ws_feed (map frame_action frs, []) xs"
proof (cases "frs \<noteq> [] \<and> frame_payload (last frs) = []")
  case True
  then have "map frame_action frs = map frame_action (butlast frs) @ [frame_action (last frs)]"
    by (metis append_butlast_last_id map_append list.simps(8,9))
  with True assms ws_feeds_after_empty [of "last frs" xs "map frame_action (butlast frs)"] show ?thesis
    by (simp add: ws_settled_def)
qed (auto simp: ws_settled_def)

lemma ws_feeds_stream:
  "\<forall>fr\<in>set frs. frame_ok fr \<Longrightarrow>
   feeds ws_feed ([], []) (concat (map encode_frame frs)) = Some (ws_settled frs)"
proof (induction frs rule: rev_induct)
  case Nil
  then show ?case by (simp add: ws_settled_def)
next
  case (snoc fr frs)
  have "encode_frame fr \<noteq> []" using encode_frame_facts(4) [of fr] snoc.prems by auto
  with snoc show ?case
    by (simp add: feeds_append ws_settled_step ws_feeds_frame) (simp add: ws_settled_def)
qed

section \<open>Properties\<close>

text \<open>C3. After the handshake, however TCP cuts a sequence of masked client frames of at most 125 bytes into
  reads, the server acts on exactly these frames, in order: it closes the socket on opcode 8 and hands
  the unmasked payload to \<open>onMsg\<close> otherwise, provided that the last frame has a payload and that no frame
  before the last one is a close frame.\<close>

theorem ws_stream_delivery:
  assumes "\<forall>fr\<in>set frs. frame_ok fr" and "frs = [] \<or> frame_payload (last frs) \<noteq> []"
    and "\<forall>fr\<in>set (butlast frs). frame_action fr \<noteq> CloseSocket"
    and "\<forall>chunk\<in>set chunks. chunk_ok bsize chunk"
    and "concat chunks = concat (map encode_frame frs)" and "bsize < 2 ^ 31" and "2 * bsize + 1 \<le> fuel"
  shows "\<exists>c. ws_reads fuel chunks (WebSocketConnect_ctor bsize) = Returns c
    \<and> map ws_view (ws_events c) = map frame_action frs \<and> ws_pending c = []"
proof -
  have "feeds ws_feed (ws_state (WebSocketConnect_ctor bsize)) (concat chunks) = Some (map frame_action frs, [])"
    using ws_feeds_stream [OF assms(1)] assms(2,5) by (auto simp: ws_ctor_idle ws_settled_def)
  moreover have "CloseSocket \<notin> set (butlast (map frame_action frs))"
    using assms(3) by (auto simp: map_butlast [symmetric])
  ultimately show ?thesis
    using ws_reads_return [OF ws_ctor_idle(1) [OF assms(6)] assms(4) _ assms(7)] by (fastforce simp: ws_state_def)
qed

theorem ws_stream_delivery_witness:
  "\<exists>c. ws_reads 8193 [[0x82], [0x82, 1, 2, 3], [4, 0x11, 0x20, 0x81, 0x81, 0, 0, 0, 1, 7]]
     (WebSocketConnect_ctor 4096) = Returns c
   \<and> map ws_view (ws_events c) = [Deliver 0x82 [0x10, 0x22], Deliver 0x81 [7]] \<and> ws_pending c = []"
  using ws_stream_delivery [where bsize = 4096 and fuel = 8193
      and frs = "[(0x82, [1, 2, 3, 4], [0x10, 0x22]), (0x81, [0, 0, 0, 1], [7])]"
      and chunks = "[[0x82], [0x82, 1, 2, 3], [4, 0x11, 0x20, 0x81, 0x81, 0, 0, 0, 1, 7]]"]
  by (simp add: chunk_ok_def)

text \<open>C34. Two close frames that arrive in one read abort the server: the loop goes on after the first, and the second closes
  the handle again, which fails an assertion of libuv. This holds for every sequence of masked frames of at most 125
  bytes with at least two close frames that fits into one read and whose last frame has a payload.\<close>

theorem ws_second_close_aborts:
  assumes "\<forall>fr\<in>set frs. frame_ok fr" and "frs = [] \<or> frame_payload (last frs) \<noteq> []"
    and "1 < length (filter (\<lambda>fr. frame_action fr = CloseSocket) frs)"
    and "chunk_ok bsize (concat (map encode_frame frs))" and "bsize < 2 ^ 31" and "2 * bsize + 1 \<le> fuel"
  shows "ws_reads fuel (concat (map encode_frame frs) # later) (WebSocketConnect_ctor bsize) = Undefined"
proof -
  let ?chunk = "concat (map encode_frame frs)"
  have "feeds ws_feed (ws_state (WebSocketConnect_ctor bsize)) ?chunk = Some (map frame_action frs, [])"
    using ws_feeds_stream [OF assms(1)] assms(2) by (auto simp: ws_ctor_idle ws_settled_def)
  from ws_chunks.read_returns [OF ws_ctor_idle(1) [OF assms(5)] assms(4) this assms(6)] obtain s' where
    s': "run_loop fuel (\<lambda>c. GetActiveSize (ws_buffer c) > 0) ws_frame_step (ws_load ?chunk (WebSocketConnect_ctor bsize))
        = Returns s'" "ws_state (s'\<lparr>ws_buffer := Reset (ws_buffer s')\<rparr>) = (map frame_action frs, [])" by blast
  have "1 < ws_closes (s'\<lparr>ws_buffer := Reset (ws_buffer s')\<rparr>)"
    using s'(2) assms(3) by (simp add: ws_closes_state filter_map comp_def)
  then have "1 < ws_closes s'" by (simp add: ws_closes_def)
  moreover have "ws_closes (WebSocketConnect_ctor bsize) = 0"
    "ws_closes (ws_load ?chunk (WebSocketConnect_ctor bsize)) \<le> 1"
    by (simp_all add: ws_closes_def ws_load_def WebSocketConnect_ctor_def)
  ultimately show ?thesis
    using ws_loop_second_close [OF s'(1)] by (simp add: ws_echo_read_def ws_msgbuffer_def)
qed

theorem ws_second_close_aborts_witness:
  "ws_reads 8193 [[0x88, 0x82, 0, 0, 0, 0, 3, 0xE8, 0x88, 0x82, 0, 0, 0, 0, 3, 0xE8]] (WebSocketConnect_ctor 4096)
     = Undefined"
  using ws_second_close_aborts [of "[(0x88, [0, 0, 0, 0], [3, 0xE8]), (0x88, [0, 0, 0, 0], [3, 0xE8])]" 4096 8193 "[]"]
  by (simp add: chunk_ok_def)

text \<open>C22. A ping is never answered: whatever bytes a peer sends, the frame loop queues no packet, because the
  opcode is masked to four bits before it is compared with \<open>PING_FRAME\<close> (\<open>0x89\<close>).\<close>

theorem ws_ping_not_answered:
  assumes "ws_reads fuel chunks (WebSocketConnect_ctor bsize) = Returns c"
  shows "WsSend packet \<notin> set (ws_events c)"
proof -
  define P where "P c \<longleftrightarrow> (\<forall>q. WsSend q \<notin> set (ws_events c))" for c :: WebSocketReader
  have disp: "ws_dispatch p \<noteq> Some (WsSend q)" for p q
  proof -
    have "unat (b AND 0x0F) \<noteq> 137" for b :: byte
      using word_and_le1 [of b 15] by unat_arith
    then show ?thesis
      by (auto simp: ws_dispatch_def getOpcode_def bind_eq_Some_conv split: if_splits)
  qed
  have step: "P x \<Longrightarrow> ws_msgbuffer_body x = Some y \<Longrightarrow> P y" for x y
    using disp by (auto simp: ws_msgbuffer_body_def ws_frame_step_def P_def Let_def bind_eq_Some_conv split: if_splits)
  have loop: "P x \<Longrightarrow> run_loop fuel (\<lambda>c. GetActiveSize (ws_buffer c) > 0) ws_msgbuffer_body x = Returns y \<Longrightarrow> P y"
    for x y by (rule run_loop_invariant [where P = P]) (rule step)
  have "P x \<Longrightarrow> ws_reads fuel chunks x = Returns y \<Longrightarrow> P y" for x y
  proof (induction chunks arbitrary: x)
    case (Cons chunk chunks)
    have pl: "P (ws_load chunk x)" using Cons.prems(1) by (simp add: P_def ws_load_def)
    show ?case
    proof (cases "0 < ws_closes x")
      case False
      with Cons.prems(2) obtain x1 where
      x1: "run_loop fuel (\<lambda>c. GetActiveSize (ws_buffer c) > 0) ws_msgbuffer_body (ws_load chunk x) = Returns x1"
        "ws_reads fuel chunks (x1\<lparr>ws_buffer := Reset (ws_buffer x1)\<rparr>) = Returns y"
        by (auto simp: ws_echo_read_def ws_msgbuffer_def split: outcome.splits)
      have "P (x1\<lparr>ws_buffer := Reset (ws_buffer x1)\<rparr>)" using loop [OF pl x1(1)] by (simp add: P_def)
      from Cons.IH [OF this x1(2)] show ?thesis .
    qed (use Cons.prems in auto)
  qed simp
  moreover have "P (WebSocketConnect_ctor bsize)" by (simp add: P_def WebSocketConnect_ctor_def)
  ultimately show ?thesis using assms by (auto simp: P_def)
qed

theorem ws_ping_not_answered_witness:
  "\<exists>c. ws_reads 8193 [[0x89, 0x81, 0, 0, 0, 0, 7]] (WebSocketConnect_ctor 4096) = Returns c
    \<and> WsSend (WebSocketConnect_createPacket [0, 0]) \<notin> set (ws_events c)"
proof -
  have "feeds ws_feed (ws_state (WebSocketConnect_ctor 4096)) (concat [encode_frame (0x89, [0, 0, 0, 0], [7])])
      = Some (ws_settled [(0x89, [0, 0, 0, 0], [7])])"
    using ws_feeds_stream [of "[(0x89, [0, 0, 0, 0], [7])]"] by (simp add: ws_ctor_idle)
  then obtain c where c: "ws_reads 8193 [[0x89, 0x81, 0, 0, 0, 0, 7]] (WebSocketConnect_ctor 4096) = Returns c"
    using ws_reads_return [OF ws_ctor_idle(1), of 4096 "[[0x89, 0x81, 0, 0, 0, 0, 7]]" "[Deliver 0x89 [7]]" "[]" 8193]
    by (auto simp: chunk_ok_def ws_settled_def)
  from c ws_ping_not_answered [OF c] show ?thesis by blast
qed

text \<open>C23. A frame with an extended 16-bit length loses its payload: with the length field 126, whatever the two
  length bytes say, the frame is delivered with an empty payload as soon as the next byte arrives, and the
  bytes that follow the head are taken for the next frame.\<close>

theorem ws_extended_length_lost:
  assumes "b0 AND 0x0F \<noteq> 8" and "raw = b0 # len # rest" and "len AND 0x7f = 126"
    and "length raw = ws_head_size raw"
    and "\<forall>chunk\<in>set chunks. chunk_ok bsize chunk" and "concat chunks = raw @ [x]"
    and "bsize < 2 ^ 31" and "2 * bsize + 1 \<le> fuel"
  shows "\<exists>c. ws_reads fuel chunks (WebSocketConnect_ctor bsize) = Returns c
    \<and> map ws_view (ws_events c) = [Deliver b0 []] \<and> ws_pending c = [x]"
proof -
  have pl: "ws_paylen raw = 126" using assms(2,3) by (simp add: ws_paylen_def)
  have h: "feeds ws_feed ([], []) raw = Some ([], raw)"
    using ws_feeds_head [of "[]" raw "[]"] assms(4) by (simp add: ws_in_head_def)
  have "ws_mark raw = 0" by (simp add: ws_mark_def pl)
  moreover have "ws_action_of raw = Deliver b0 []"
    using assms(1,2,4) by (simp add: ws_action_of_def Let_def)
  moreover have "2 \<le> length raw" using assms(2) by simp
  ultimately have "feeds ws_feed (ws_state (WebSocketConnect_ctor bsize)) (concat chunks) = Some ([Deliver b0 []], [x])"
    using assms(4,6) by (simp add: ws_ctor_idle feeds_append h ws_feed_def)
  from ws_reads_return [OF ws_ctor_idle(1) [OF assms(7)] assms(5) this assms(8)]
  show ?thesis by (auto simp: ws_state_def)
qed

theorem ws_extended_length_lost_witness:
  "\<exists>c. ws_reads 8193 [[0x82, 0xFE, 0, 200, 1, 2, 3, 4], [65]] (WebSocketConnect_ctor 4096) = Returns c
   \<and> map ws_view (ws_events c) = [Deliver 0x82 []] \<and> ws_pending c = [65]"
  by (rule ws_extended_length_lost [where raw = "[0x82, 0xFE, 0, 200, 1, 2, 3, 4]" and bsize = 4096
        and len = "0xFE" and rest = "[0, 200, 1, 2, 3, 4]"])
    (simp_all add: chunk_ok_def ws_head_size_def ws_paylen_def ws_masked_def)

definition ws_server_frame :: "byte list \<Rightarrow> byte list" where
  "ws_server_frame msg =
     (let n = length msg in
      0x82 # (if n \<le> 125 then [word_of_nat n]
              else if n \<le> 0xffff then 126 # to_le 2 n else 127 # to_le 8 n) @ msg)"

text \<open>The send path: \<open>sendMsg(msg, len)\<close> queues a binary frame. The extended length is written in the byte
  order of the machine (least significant byte first), where the protocol wants network order.\<close>

theorem ws_sendMsg_frame:
  assumes "length msg + 10 < 2 ^ 31"
  shows "\<exists>pack. WebSocketConnect_sendMsg_bytes head msg = Some pack
    \<and> WebSocketPacket_sendBytes pack = ws_server_frame msg"
proof -
  have e14: "WebSocketConnect_createPacket head =
      \<lparr>rpos = 14, wpos = 14, storage = replicate 14 0, m_head = head, m_headpos = 0\<rparr>"
    by (simp add: WebSocketConnect_createPacket_def WebSocketPacket_ctor_def WebSocketPacket_zero_def
        WS_MAX_HEAD_SIZE_def)
  have r14: "replicate 14 (0::byte) = [0, 0, 0, 0, 0, 0, 0, 0, 0, 0, 0, 0, 0, 0]"
    by (simp add: numeral_eq_Suc)
  have w: "unat (word_of_int (int n) :: u16) = n" if "n \<le> 0xffff" for n
    using that by (simp add: unsigned_of_nat take_bit_nat_eq_self)
  have w8: "unat (word_of_int (int n) :: u64) = n" if "n < 2 ^ 31" for n
    using that by (simp add: unsigned_of_nat take_bit_nat_eq_self)
  consider "length msg \<le> 125" | "125 < length msg" "length msg \<le> 0xffff" | "0xffff < length msg" by linarith
  then show ?thesis
  proof cases
    case 1
    then show ?thesis
      by (simp add: WebSocketConnect_sendMsg_bytes_def writeFrameHead_def e14 r14 put_val_def put_def append_def
          overwrite_def bytes_of_def WS_MAX_HEAD_SIZE_def WebSocketPacket_sendBytes_def read_at_def
          ws_server_frame_def Let_def to_i32_id)
  next
    case 2
    then show ?thesis using w [of "length msg"]
      by (simp add: WebSocketConnect_sendMsg_bytes_def writeFrameHead_def e14 r14 put_val_def put_def append_def
          overwrite_def bytes_of_def WS_MAX_HEAD_SIZE_def WebSocketPacket_sendBytes_def read_at_def
          ws_server_frame_def Let_def to_i32_id)
  next
    case 3
    then show ?thesis using w8 [of "length msg"] assms
      by (simp add: WebSocketConnect_sendMsg_bytes_def writeFrameHead_def e14 r14 put_val_def put_def append_def
          overwrite_def bytes_of_def WS_MAX_HEAD_SIZE_def WebSocketPacket_sendBytes_def read_at_def
          ws_server_frame_def Let_def to_i32_id)
  qed
qed

theorem ws_sendMsg_frame_witness:
  "\<exists>pack. WebSocketConnect_sendMsg_bytes [0, 0] (replicate 200 7) = Some pack
    \<and> WebSocketPacket_sendBytes pack = ws_server_frame (replicate 200 7)"
  by (rule ws_sendMsg_frame) simp

end
