(* ===== verification/Sha1.thy ===== *)
theory Sha1
  imports Prelude
begin

text \<open>
  \<open>src/common/sha1.h/.cpp\<close>: the incremental SHA-1 of the WebSocket handshake, statement by statement, and its
  equivalence with the definition of the digest in FIPS 180-1. An \<open>unsigned\<close> is 32 bits wide. The message block is
  not initialised by the constructor: its content is a parameter there.
\<close>

section \<open>Model\<close>

record sha1 =
  H :: "u32 list"
  Length_Low :: u32
  Length_High :: u32
  Message_Block :: "byte list"
  Message_Block_Index :: nat
  Computed :: bool
  Corrupted :: bool

definition SHA1_Reset :: "sha1 \<Rightarrow> sha1" where
  "SHA1_Reset s = s\<lparr>Length_Low := 0, Length_High := 0, Message_Block_Index := 0,
     H := [0x67452301, 0xEFCDAB89, 0x98BADCFE, 0x10325476, 0xC3D2E1F0], Computed := False, Corrupted := False\<rparr>"

definition SHA1_ctor :: "sha1 \<Rightarrow> sha1" where
  "SHA1_ctor s = SHA1_Reset s"

definition CircularShift :: "nat \<Rightarrow> u32 \<Rightarrow> u32" where
  "CircularShift bits w = (push_bit bits w AND 0xFFFFFFFF) OR (drop_bit (32 - bits) (w AND 0xFFFFFFFF))"

definition sha1_K :: "u32 list" where
  "sha1_K = [0x5A827999, 0x6ED9EBA1, 0x8F1BBCDC, 0xCA62C1D6]"

text \<open>The word sequence: the first loop reads the block, the second one appends.\<close>

definition W_first :: "byte list \<Rightarrow> nat \<Rightarrow> u32" where
  "W_first mb t = (((push_bit 24 (ucast (mb ! (t * 4))) OR push_bit 16 (ucast (mb ! (t * 4 + 1))))
     OR push_bit 8 (ucast (mb ! (t * 4 + 2)))) OR ucast (mb ! (t * 4 + 3)))"

definition W_next :: "u32 list \<Rightarrow> nat \<Rightarrow> u32 list" where
  "W_next W t = W @ [CircularShift 1 (((W ! (t - 3) XOR W ! (t - 8)) XOR W ! (t - 14)) XOR W ! (t - 16))]"

definition W_words :: "byte list \<Rightarrow> u32 list" where
  "W_words mb = foldl W_next (map (W_first mb) [0..<16]) [16..<80]"

type_synonym regs = "u32 \<times> u32 \<times> u32 \<times> u32 \<times> u32"

fun sha1_round :: "(u32 \<Rightarrow> u32 \<Rightarrow> u32 \<Rightarrow> u32) \<Rightarrow> u32 \<Rightarrow> u32 list \<Rightarrow> regs \<Rightarrow> nat \<Rightarrow> regs" where
  "sha1_round f k W (A, B, C, D, E) t =
     (let temp = CircularShift 5 A + f B C D + E + W ! t + k in (temp AND 0xFFFFFFFF, A, CircularShift 30 B, C, D))"

definition ProcessMessageBlock :: "sha1 \<Rightarrow> sha1" where
  "ProcessMessageBlock s =
     (let W = W_words (Message_Block s);
          r0 = (H s ! 0, H s ! 1, H s ! 2, H s ! 3, H s ! 4);
          r1 = foldl (sha1_round (\<lambda>B C D. (B AND C) OR (NOT B AND D)) (sha1_K ! 0) W) r0 [0..<20];
          r2 = foldl (sha1_round (\<lambda>B C D. B XOR C XOR D) (sha1_K ! 1) W) r1 [20..<40];
          r3 = foldl (sha1_round (\<lambda>B C D. (B AND C) OR (B AND D) OR (C AND D)) (sha1_K ! 2) W) r2 [40..<60];
          (A, B, C, D, E) = foldl (sha1_round (\<lambda>B C D. B XOR C XOR D) (sha1_K ! 3) W) r3 [60..<80]
      in s\<lparr>H := [(H s ! 0 + A) AND 0xFFFFFFFF, (H s ! 1 + B) AND 0xFFFFFFFF, (H s ! 2 + C) AND 0xFFFFFFFF,
            (H s ! 3 + D) AND 0xFFFFFFFF, (H s ! 4 + E) AND 0xFFFFFFFF], Message_Block_Index := 0\<rparr>)"

definition put_octet :: "byte \<Rightarrow> sha1 \<Rightarrow> sha1" where
  "put_octet b s = s\<lparr>Message_Block := (Message_Block s)[Message_Block_Index s := b], Message_Block_Index := Message_Block_Index s + 1\<rparr>"

definition count_octet :: "sha1 \<Rightarrow> sha1" where
  "count_octet s =
     (let s1 = s\<lparr>Length_Low := (Length_Low s + 8) AND 0xFFFFFFFF\<rparr> in
      if Length_Low s1 = 0 then
        let s2 = s1\<lparr>Length_High := (Length_High s1 + 1) AND 0xFFFFFFFF\<rparr>
        in if Length_High s2 = 0 then s2\<lparr>Corrupted := True\<rparr> else s2
      else s1)"

definition input_octet :: "byte \<Rightarrow> sha1 \<Rightarrow> sha1" where
  "input_octet b s =
     (let s1 = count_octet (put_octet (b AND 0xFF) s)
      in if Message_Block_Index s1 = 64 then ProcessMessageBlock s1 else s1)"

fun octets_loop :: "byte list \<Rightarrow> sha1 \<Rightarrow> sha1" where
  "octets_loop [] s = s"
| "octets_loop (b # bs) s = (if Corrupted s then s else octets_loop bs (input_octet b s))"

definition SHA1_Input :: "byte list \<Rightarrow> sha1 \<Rightarrow> sha1" where
  "SHA1_Input bs s =
     (if bs = [] then s else if Computed s \<or> Corrupted s then s\<lparr>Corrupted := True\<rparr> else octets_loop bs s)"

text \<open>\<open>operator<<\<close> on a C string: its octets up to the first zero, one by one.\<close>

definition SHA1_Input_octet :: "byte \<Rightarrow> sha1 \<Rightarrow> sha1" where
  "SHA1_Input_octet b s = SHA1_Input [b] s"

fun SHA1_put_string :: "byte list \<Rightarrow> sha1 \<Rightarrow> sha1" where
  "SHA1_put_string [] s = s"
| "SHA1_put_string (b # bs) s = (if b = 0 then s else SHA1_put_string bs (SHA1_Input_octet b s))"

function zero_fill :: "nat \<Rightarrow> sha1 \<Rightarrow> sha1" where
  "zero_fill n s = (if Message_Block_Index s < n then zero_fill n (put_octet 0 s) else s)"
  by pat_completeness auto
termination by (relation "measure (\<lambda>(n, s). n - Message_Block_Index s)") (auto simp: put_octet_def)

declare zero_fill.simps [simp del]

definition length_octets :: "sha1 \<Rightarrow> byte list" where
  "length_octets s =
     [ucast (drop_bit 24 (Length_High s) AND 0xFF), ucast (drop_bit 16 (Length_High s) AND 0xFF),
      ucast (drop_bit 8 (Length_High s) AND 0xFF), ucast (Length_High s AND 0xFF),
      ucast (drop_bit 24 (Length_Low s) AND 0xFF), ucast (drop_bit 16 (Length_Low s) AND 0xFF),
      ucast (drop_bit 8 (Length_Low s) AND 0xFF), ucast (Length_Low s AND 0xFF)]"

definition PadMessage :: "sha1 \<Rightarrow> sha1" where
  "PadMessage s =
     (let s1 = (if 55 < Message_Block_Index s
                then zero_fill 56 (ProcessMessageBlock (zero_fill 64 (put_octet 0x80 s)))
                else zero_fill 56 (put_octet 0x80 s))
      in ProcessMessageBlock (s1\<lparr>Message_Block := take 56 (Message_Block s1) @ length_octets s1\<rparr>))"

definition SHA1_Result :: "sha1 \<Rightarrow> u32 list option \<times> sha1" where
  "SHA1_Result s =
     (if Corrupted s then (None, s)
      else let s1 = (if Computed s then s else (PadMessage s)\<lparr>Computed := True\<rparr>)
           in (Some (map ((!) (H s1)) [0..<5]), s1))"

section \<open>The digest of the standard\<close>

text \<open>FIPS 180-1: padding to blocks of 64 octets, the word schedule as a recursive function of the block, the round
  functions and constants by the number of the round, and the compression function on five words.\<close>

definition octets64 :: "nat \<Rightarrow> byte list" where
  "octets64 n = map (\<lambda>i. word_of_nat (n div 256 ^ (7 - i))) [0..<8]"

definition sha1_pad :: "byte list \<Rightarrow> byte list" where
  "sha1_pad m = m @ [0x80] @ replicate ((119 - length m mod 64) mod 64) 0 @ octets64 (8 * length m)"

fun blocks64 :: "byte list \<Rightarrow> byte list list" where
  "blocks64 m = (if length m < 64 then [] else take 64 m # blocks64 (drop 64 m))"

declare blocks64.simps [simp del]

fun sched :: "byte list \<Rightarrow> nat \<Rightarrow> u32" where
  "sched mb t = (if t < 16 then word_rcat [mb ! (4 * t), mb ! (4 * t + 1), mb ! (4 * t + 2), mb ! (4 * t + 3)]
     else word_rotl 1 (sched mb (t - 3) XOR sched mb (t - 8) XOR sched mb (t - 14) XOR sched mb (t - 16)))"

declare sched.simps [simp del]

definition sha1_f :: "nat \<Rightarrow> u32 \<Rightarrow> u32 \<Rightarrow> u32 \<Rightarrow> u32" where
  "sha1_f t B C D =
     (if t < 20 then (B AND C) OR (NOT B AND D) else if t < 40 then B XOR C XOR D
      else if t < 60 then (B AND C) OR (B AND D) OR (C AND D) else B XOR C XOR D)"

definition sha1_k :: "nat \<Rightarrow> u32" where
  "sha1_k t = (if t < 20 then 0x5A827999 else if t < 40 then 0x6ED9EBA1 else if t < 60 then 0x8F1BBCDC else 0xCA62C1D6)"

fun spec_round :: "byte list \<Rightarrow> nat \<Rightarrow> regs \<Rightarrow> regs" where
  "spec_round mb t (A, B, C, D, E) =
     (word_rotl 5 A + sha1_f t B C D + E + sched mb t + sha1_k t, A, word_rotl 30 B, C, D)"

fun compress :: "u32 list \<Rightarrow> byte list \<Rightarrow> u32 list" where
  "compress h mb =
     (case fold (spec_round mb) [0..<80] (h ! 0, h ! 1, h ! 2, h ! 3, h ! 4) of
        (A, B, C, D, E) \<Rightarrow> [h ! 0 + A, h ! 1 + B, h ! 2 + C, h ! 3 + D, h ! 4 + E])"

declare compress.simps [simp del]

definition sha1_digest :: "byte list \<Rightarrow> u32 list" where
  "sha1_digest m = foldl compress [0x67452301, 0xEFCDAB89, 0x98BADCFE, 0x10325476, 0xC3D2E1F0] (blocks64 (sha1_pad m))"

section \<open>The compression function\<close>

lemma mask32 [simp]: "(x :: u32) AND 0xFFFFFFFF = x"
proof -
  have "(0xFFFFFFFF :: u32) = - 1" by simp
  then show ?thesis by (simp only: and.right_neutral)
qed

lemma mask8 [simp]: "(x :: byte) AND 0xFF = x"
proof -
  have "(0xFF :: byte) = - 1" by simp
  then show ?thesis by (simp only: and.right_neutral)
qed

lemma CircularShift_rotl: "0 < n \<Longrightarrow> n < 32 \<Longrightarrow> CircularShift n w = word_rotl n w"
proof (rule bit_word_eqI)
  fix i assume n: "0 < n" "n < 32" and i: "i < LENGTH(32)"
  show "bit (CircularShift n w) i \<longleftrightarrow> bit (word_rotl n w) i"
  proof (cases "n \<le> i")
    case True
    then have "(i + (32 - n)) mod 32 = i - n" "\<not> bit w (32 - n + i)" using n i by (auto dest: bit_imp_le_length simp: mod_if)
    then show ?thesis using n i True
      by (simp add: CircularShift_def bit_word_rotl_iff bit_push_bit_iff bit_drop_bit_eq bit_or_iff)
  next
    case False
    then have "(i + (32 - n)) mod 32 = 32 - n + i" using n i by (simp add: mod_if ac_simps)
    then show ?thesis using n i False
      by (simp add: CircularShift_def bit_word_rotl_iff bit_push_bit_iff bit_drop_bit_eq bit_or_iff)
  qed
qed

lemma W_first_rcat: "W_first mb t = word_rcat [mb ! (4 * t), mb ! (4 * t + 1), mb ! (4 * t + 2), mb ! (4 * t + 3)]"
proof -
  have sum: "push_bit 24 (ucast a) OR push_bit 16 (ucast b) OR push_bit 8 (ucast c) OR ucast d
     = (ucast a * 2 ^ 24 + ucast b * 2 ^ 16 + ucast c * 2 ^ 8 + ucast d :: u32)" for a b c d :: byte
  proof -
    have "push_bit 24 (ucast a) + push_bit 16 (ucast b) = (push_bit 24 (ucast a) OR push_bit 16 (ucast b) :: u32)"
      by (rule disjunctive_add) (auto simp: bit_simps dest: bit_imp_le_length)
    moreover have "(push_bit 24 (ucast a) OR push_bit 16 (ucast b)) + push_bit 8 (ucast c)
       = ((push_bit 24 (ucast a) OR push_bit 16 (ucast b)) OR push_bit 8 (ucast c) :: u32)"
      by (rule disjunctive_add) (auto simp: bit_simps dest: bit_imp_le_length)
    moreover have "((push_bit 24 (ucast a) OR push_bit 16 (ucast b)) OR push_bit 8 (ucast c)) + ucast d
       = (((push_bit 24 (ucast a) OR push_bit 16 (ucast b)) OR push_bit 8 (ucast c)) OR ucast d :: u32)"
      by (rule disjunctive_add) (auto simp: bit_simps dest: bit_imp_le_length)
    ultimately show ?thesis by (simp add: push_bit_eq_mult or.assoc)
  qed
  show ?thesis
    unfolding W_first_def or.assoc sum by (simp add: word_rcat_def mult.commute algebra_simps)
qed

lemma length_W: "length (foldl W_next W ts) = length W + length ts"
  by (induction ts arbitrary: W) (simp_all add: W_next_def)

lemma W_words_nth:
  "n \<le> 80 \<Longrightarrow> 16 \<le> n \<Longrightarrow> t < n \<Longrightarrow> foldl W_next (map (W_first mb) [0..<16]) [16..<n] ! t = sched mb t"
proof (induction n arbitrary: t)
  case (Suc n)
  show ?case
  proof (cases "16 \<le> n")
    case True
    let ?W = "foldl W_next (map (W_first mb) [0..<16]) [16..<n]"
    have len: "length ?W = n" using True by (simp add: length_W)
    have IH: "j < n \<Longrightarrow> ?W ! j = sched mb j" for j using Suc True by simp
    have "foldl W_next (map (W_first mb) [0..<16]) [16..<Suc n] = W_next ?W n" using True by simp
    moreover have "W_next ?W n ! t = sched mb t"
    proof (cases "t = n")
      case True
      then show ?thesis using IH len \<open>16 \<le> n\<close>
        by (simp add: W_next_def nth_append CircularShift_rotl sched.simps [of mb n] xor.assoc)
    next
      case False
      then show ?thesis using Suc.prems(3) IH len by (simp add: W_next_def nth_append)
    qed
    ultimately show ?thesis by simp
  next
    case False
    then have "n = 15" using Suc.prems by simp
    then show ?thesis using Suc.prems(3) by (simp add: sched.simps [of mb t] W_first_rcat)
  qed
qed simp

lemma W_sched: "t < 80 \<Longrightarrow> W_words mb ! t = sched mb t"
  unfolding W_words_def by (rule W_words_nth) simp_all

lemma rounds_eq:
  assumes "\<And>t. t \<in> set ts \<Longrightarrow> t < 80 \<and> sha1_f t = f \<and> sha1_k t = k"
  shows "foldl (sha1_round f k (W_words mb)) r ts = fold (spec_round mb) ts r"
  using assms
proof (induction ts arbitrary: r)
  case (Cons t ts)
  obtain A B C D E where r: "r = (A, B, C, D, E)" by (metis prod_cases5)
  have "sha1_round f k (W_words mb) r t = spec_round mb t r"
    using Cons.prems [of t] by (simp add: r CircularShift_rotl W_sched Let_def)
  then show ?case using Cons by simp
qed simp

lemma ProcessMessageBlock_compress:
  "ProcessMessageBlock s = s\<lparr>H := compress (H s) (Message_Block s), Message_Block_Index := 0\<rparr>"
proof -
  have split: "[0..<80] = [0..<20] @ [20..<40] @ [40..<60] @ [60..<80]"
    using upt_add_eq_append [of 0 20 60] upt_add_eq_append [of 20 40 40] upt_add_eq_append [of 40 60 20] by simp
  have "foldl (sha1_round (\<lambda>B C D. (B AND C) OR (NOT B AND D)) (sha1_K ! 0) (W_words mb)) r [0..<20] = fold (spec_round mb) [0..<20] r"
    "foldl (sha1_round (\<lambda>B C D. B XOR C XOR D) (sha1_K ! 1) (W_words mb)) r [20..<40] = fold (spec_round mb) [20..<40] r"
    "foldl (sha1_round (\<lambda>B C D. (B AND C) OR (B AND D) OR (C AND D)) (sha1_K ! 2) (W_words mb)) r [40..<60] = fold (spec_round mb) [40..<60] r"
    "foldl (sha1_round (\<lambda>B C D. B XOR C XOR D) (sha1_K ! 3) (W_words mb)) r [60..<80] = fold (spec_round mb) [60..<80] r" for mb r
    by (rule rounds_eq; auto simp: sha1_f_def sha1_k_def sha1_K_def fun_eq_iff numeral_2_eq_2 numeral_3_eq_3)+
  then show ?thesis
    unfolding ProcessMessageBlock_def Let_def compress.simps split fold_append comp_def
    by (simp split: prod.split)
qed

section \<open>The padding\<close>

lemma blocks64_concat:
  "\<forall>b\<in>set bs. length b = 64 \<Longrightarrow> length p < 64 \<Longrightarrow> blocks64 (concat bs @ p) = bs"
  by (induction bs) (simp_all add: blocks64.simps)

text \<open>The state after the octets \<open>concat bs @ p\<close>: the full blocks are digested, the rest is in the message block.\<close>

abbreviation IV :: "u32 list" where
  "IV \<equiv> [0x67452301, 0xEFCDAB89, 0x98BADCFE, 0x10325476, 0xC3D2E1F0]"

definition absorbed :: "sha1 \<Rightarrow> byte list list \<Rightarrow> byte list \<Rightarrow> bool" where
  "absorbed s bs p \<longleftrightarrow> (\<forall>b\<in>set bs. length b = 64) \<and> length p < 64 \<and> length (Message_Block s) = 64
     \<and> Message_Block_Index s = length p \<and> take (length p) (Message_Block s) = p \<and> H s = foldl compress IV bs"

definition counted :: "sha1 \<Rightarrow> nat \<Rightarrow> bool" where
  "counted s n \<longleftrightarrow> unat (Length_Low s) + 2 ^ 32 * unat (Length_High s) = 8 * n \<and> 8 * n < 2 ^ 64"

lemma put_octet_absorbed:
  assumes "absorbed s bs p"
  shows "length p < 63 \<Longrightarrow> absorbed (put_octet b s) bs (p @ [b])"
    and "length p = 63 \<Longrightarrow> Message_Block_Index (put_octet b s) = 64 \<and> Message_Block (put_octet b s) = p @ [b]
      \<and> absorbed (ProcessMessageBlock (put_octet b s)) (bs @ [p @ [b]]) []"
proof -
  note a = assms [unfolded absorbed_def]
  have len: "length (Message_Block (put_octet b s)) = 64" using a by (simp add: put_octet_def)
  have tk: "take (Suc (length p)) (Message_Block (put_octet b s)) = p @ [b]"
    using a by (simp add: put_octet_def take_Suc_conv_app_nth take_update_cancel)
  show "absorbed (put_octet b s) bs (p @ [b])" if "length p < 63"
    using a tk len that by (simp add: absorbed_def) (simp add: put_octet_def)
  assume "length p = 63"
  then have "Message_Block (put_octet b s) = p @ [b]" using tk len by simp
  then show "Message_Block_Index (put_octet b s) = 64 \<and> Message_Block (put_octet b s) = p @ [b]
      \<and> absorbed (ProcessMessageBlock (put_octet b s)) (bs @ [p @ [b]]) []"
    using a \<open>length p = 63\<close> by (auto simp: absorbed_def ProcessMessageBlock_compress put_octet_def)
qed

lemma put_octet_fields [simp]:
  "Length_Low (put_octet b s) = Length_Low s" "Length_High (put_octet b s) = Length_High s"
  "Computed (put_octet b s) = Computed s" "Corrupted (put_octet b s) = Corrupted s"
  by (simp_all add: put_octet_def)

lemma count_octet_frame [simp]:
  "H (count_octet s) = H s" "Message_Block (count_octet s) = Message_Block s"
  "Message_Block_Index (count_octet s) = Message_Block_Index s" "Computed (count_octet s) = Computed s"
  by (simp_all add: count_octet_def Let_def)

lemma absorbed_count [simp]: "absorbed (count_octet s) bs p = absorbed s bs p"
  by (simp add: absorbed_def)

lemma count_octet_counted:
  assumes c: "counted s n" and n: "8 * (n + 1) < 2 ^ 64"
  shows "counted (count_octet s) (n + 1) \<and> Corrupted (count_octet s) = Corrupted s"
proof -
  define l h where "l = unat (Length_Low s)" and "h = unat (Length_High s)"
  have lh: "l + 2 ^ 32 * h = 8 * n" using c by (simp add: counted_def l_def h_def)
  have bounds: "l < 2 ^ 32" "h < 2 ^ 32"
    using unsigned_less [of "Length_Low s"] unsigned_less [of "Length_High s"] by (simp_all add: l_def h_def)
  have "8 dvd l + 2 ^ 32 * h" "8 dvd 2 ^ 32 * h" using lh by simp_all
  then have "8 dvd l" by (simp only: dvd_add_left_iff)
  then obtain q where q: "l = 8 * q" by (auto elim: dvdE)
  have low: "unat (Length_Low s + 8) = (l + 8) mod 2 ^ 32" by (simp add: l_def unat_word_ariths(1))
  show ?thesis
  proof (cases "l + 8 = 2 ^ 32")
    case True
    then have z: "Length_Low s + 8 = 0" using low by (simp add: unat_eq_zero [symmetric])
    have "h + 1 < 2 ^ 32" using True lh n by simp
    then have hi: "unat (Length_High s + 1) = h + 1" by (simp add: h_def unat_word_ariths(1))
    then have "Length_High s + 1 \<noteq> 0" by (metis add_is_0 one_neq_zero unsigned_0)
    then show ?thesis using z hi lh True n by (auto simp: count_octet_def counted_def Let_def)
  next
    case False
    then have l8: "l + 8 < 2 ^ 32" using bounds(1) q by simp
    then have lo: "unat (Length_Low s + 8) = l + 8" using low by simp
    then have "Length_Low s + 8 \<noteq> 0" by (metis add_is_0 zero_neq_numeral unsigned_0)
    then show ?thesis using lo lh n by (simp add: count_octet_def counted_def Let_def h_def [symmetric])
  qed
qed

definition hashed :: "sha1 \<Rightarrow> byte list \<Rightarrow> bool" where
  "hashed s m \<longleftrightarrow> (\<exists>bs p. m = concat bs @ p \<and> absorbed s bs p) \<and> counted s (length m) \<and> \<not> Computed s \<and> \<not> Corrupted s"

lemma hashedI:
  "absorbed s bs p \<Longrightarrow> m = concat bs @ p \<Longrightarrow> counted s (length m) \<Longrightarrow> \<not> Computed s \<Longrightarrow> \<not> Corrupted s \<Longrightarrow> hashed s m"
  unfolding hashed_def by blast

lemma hashed_Reset: "length (Message_Block s) = 64 \<Longrightarrow> hashed (SHA1_Reset s) []"
  by (simp add: hashed_def SHA1_Reset_def absorbed_def counted_def exI [of _ "[]"])

lemma input_octet_hashed:
  assumes h: "hashed s m" and n: "8 * (length m + 1) < 2 ^ 64"
  shows "hashed (input_octet b s) (m @ [b])"
proof -
  obtain bs p where m: "m = concat bs @ p" and a: "absorbed s bs p" using h by (auto simp: hashed_def)
  let ?s = "count_octet (put_octet b s)"
  have "counted (put_octet b s) (length m)" using h by (simp add: hashed_def counted_def)
  then have c: "counted ?s (length (m @ [b]))" "\<not> Corrupted ?s" "\<not> Computed ?s"
    using count_octet_counted [of "put_octet b s" "length m"] n h by (simp_all add: hashed_def)
  have lp: "length p < 64" using a by (simp add: absorbed_def)
  have idx: "Message_Block_Index ?s = length p + 1" using a by (simp add: absorbed_def put_octet_def)
  show ?thesis
  proof (cases "length p = 63")
    case False
    then have "absorbed ?s bs (p @ [b])" using put_octet_absorbed(1) [OF a] lp by simp
    moreover have "input_octet b s = ?s" using False idx by (simp add: input_octet_def Let_def)
    ultimately show ?thesis using c m by (auto simp: hashed_def)
  next
    case True
    have eq: "input_octet b s = ProcessMessageBlock ?s" using True idx by (simp add: input_octet_def Let_def)
    have "absorbed (ProcessMessageBlock ?s) (bs @ [p @ [b]]) []"
      using put_octet_absorbed(2) [OF a True, of b] by (auto simp: absorbed_def ProcessMessageBlock_compress)
    then show ?thesis
      unfolding eq by (rule hashedI) (use c m in \<open>simp_all add: ProcessMessageBlock_compress counted_def\<close>)
  qed
qed

lemma input_hashed:
  "hashed s m \<Longrightarrow> 8 * length (m @ bs) < 2 ^ 64 \<Longrightarrow> hashed (SHA1_Input bs s) (m @ bs)"
proof -
  have loop: "hashed s m \<Longrightarrow> 8 * length (m @ bs) < 2 ^ 64 \<Longrightarrow> hashed (octets_loop bs s) (m @ bs)" for s m
  proof (induction bs arbitrary: s m)
    case (Cons b bs)
    then have "hashed (input_octet b s) (m @ [b])" by (intro input_octet_hashed) simp_all
    then show ?case using Cons.IH [of "input_octet b s" "m @ [b]"] Cons.prems by (simp add: hashed_def)
  qed simp
  then show "hashed s m \<Longrightarrow> 8 * length (m @ bs) < 2 ^ 64 \<Longrightarrow> hashed (SHA1_Input bs s) (m @ bs)"
    by (auto simp: SHA1_Input_def hashed_def)
qed

lemma zero_fill_absorbed:
  "absorbed s bs p \<Longrightarrow> length p \<le> n \<Longrightarrow> n < 64 \<Longrightarrow> absorbed (zero_fill n s) bs (p @ replicate (n - length p) 0)"
proof (induction n s arbitrary: p rule: zero_fill.induct)
  case (1 n s)
  have idx: "Message_Block_Index s = length p" using "1.prems" by (simp add: absorbed_def)
  show ?case
  proof (cases "length p < n")
    case True
    then have "replicate (n - length p) (0 :: byte) = 0 # replicate (n - length (p @ [0])) 0"
      by (simp add: Suc_diff_Suc flip: replicate_Suc)
    then show ?thesis using "1.IH" [of "p @ [0]"] put_octet_absorbed(1) [OF "1.prems"(1), of 0] "1.prems" True idx
      by (simp add: zero_fill.simps [of n s])
  next
    case False
    then show ?thesis using "1.prems" idx by (simp add: zero_fill.simps [of n s])
  qed
qed

lemma zero_fill_frame [simp]:
  "Length_Low (zero_fill n s) = Length_Low s" "Length_High (zero_fill n s) = Length_High s"
  by (induction n s rule: zero_fill.induct; subst zero_fill.simps; simp)+

lemma zero_fill_Suc:
  "Message_Block_Index s \<le> n \<Longrightarrow> zero_fill (Suc n) s = put_octet 0 (zero_fill n s)"
proof (induction n s rule: zero_fill.induct)
  case (1 n s)
  show ?case
  proof (cases "Message_Block_Index s < n")
    case True
    then have "zero_fill (Suc n) (put_octet 0 s) = put_octet 0 (zero_fill n (put_octet 0 s))"
      using "1.IH" by (simp add: put_octet_def)
    then show ?thesis using True by (simp add: zero_fill.simps [of "Suc n" s] zero_fill.simps [of n s])
  next
    case False
    then have "\<not> Message_Block_Index (put_octet 0 s) < Suc n" using "1.prems" by (simp add: put_octet_def)
    then show ?thesis using False "1.prems"
      by (simp add: zero_fill.simps [of "Suc n" s] zero_fill.simps [of n s] zero_fill.simps [of "Suc n" "put_octet 0 s"])
  qed
qed

lemma zero_fill_all:
  assumes a: "absorbed s bs p"
  shows "absorbed (ProcessMessageBlock (zero_fill 64 (put_octet b s))) (bs @ [p @ [b] @ replicate (63 - length p) 0]) []"
proof (cases "length p = 63")
  case True
  have "zero_fill 64 (put_octet b s) = put_octet b s"
    using put_octet_absorbed(2) [OF a True, of b] by (simp add: zero_fill.simps [of 64 "put_octet b s"])
  then show ?thesis using put_octet_absorbed(2) [OF a True, of b] True by simp
next
  case False
  then have lp: "length p < 63" using a by (simp add: absorbed_def)
  let ?z = "zero_fill 63 (put_octet b s)" and ?q = "p @ [b] @ replicate (62 - length p) 0"
  note a1 = put_octet_absorbed(1) [OF a lp, of b]
  have a2: "absorbed ?z bs ?q" using zero_fill_absorbed [OF a1, of 63] lp by simp
  have "Message_Block_Index (put_octet b s) \<le> 63" using a1 lp by (simp add: absorbed_def)
  then have "zero_fill 64 (put_octet b s) = put_octet 0 ?z" using zero_fill_Suc [of _ 63] by simp
  moreover have "length ?q = 63" using lp by simp
  moreover have "?q @ [0] = p @ [b] @ replicate (63 - length p) 0"
    using lp by (simp add: replicate_append_same Suc_diff_le flip: replicate_Suc)
  ultimately show ?thesis using put_octet_absorbed(2) [OF a2, of 0] by metis
qed

lemma low_octet: "(ucast (drop_bit k (w :: u32) AND 0xFF) :: byte) = word_of_nat (unat w div 2 ^ k)"
proof -
  have "unat w < 2 ^ 32" using unsigned_less [of w] by simp
  then have wl: "unat w mod 4294967296 = unat w" by simp
  have "drop_bit k w AND 0xFF = take_bit 8 (drop_bit k w)" by (simp add: take_bit_eq_mask mask_eq_exp_minus_1)
  then have "unat (drop_bit k w AND 0xFF) = unat w div 2 ^ k mod 2 ^ 8"
    by (simp only: unsigned_take_bit_eq unsigned_drop_bit_eq) (simp add: take_bit_eq_mod drop_bit_eq_div wl)
  moreover have "(ucast (drop_bit k w AND 0xFF) :: byte) = word_of_nat (unat (drop_bit k w AND 0xFF))"
    by simp
  ultimately show ?thesis by (simp add: word_of_nat_eq_iff take_bit_eq_mod)
qed

lemma octets64_list: "octets64 x = map (\<lambda>w. word_of_nat w) [x div 2 ^ 56, x div 2 ^ 48, x div 2 ^ 40, x div 2 ^ 32,
    x div 2 ^ 24, x div 2 ^ 16, x div 2 ^ 8, x div 2 ^ 0]"
  by (simp add: octets64_def upt_rec)

lemma length_octets_counted:
  assumes "counted s n"
  shows "length_octets s = octets64 (8 * n)"
proof -
  define l h where "l = unat (Length_Low s)" and "h = unat (Length_High s)"
  have lh: "8 * n = l + 2 ^ 32 * h" using assms by (simp add: counted_def l_def h_def)
  have l: "l < 2 ^ 32" unfolding l_def using unsigned_less [of "Length_Low s"] by simp
  have hi: "(l + 2 ^ 32 * h) div (2 ^ 32 * d) = h div d" for d
    using l by (simp add: div_mult2_eq)
  have lo: "(word_of_nat ((l + 2 ^ 32 * h) div 2 ^ k) :: byte) = word_of_nat (l div 2 ^ k)" if "k \<le> 24" for k
  proof -
    have "(l + 2 ^ 32 * h) div 2 ^ k = l div 2 ^ k + 2 ^ (32 - k) * h"
    proof -
      have "(2 :: nat) ^ 32 = 2 ^ k * 2 ^ (32 - k)" using that by (simp flip: power_add)
      then have eq: "l + 2 ^ 32 * h = l + 2 ^ k * (2 ^ (32 - k) * h)" by (simp only: mult.assoc)
      show ?thesis unfolding eq by simp
    qed
    moreover have "(32 :: nat) - k = 8 + (24 - k)" using that by simp
    then have "(2 :: nat) ^ (32 - k) = 2 ^ 8 * 2 ^ (24 - k)" by (simp only: power_add)
    ultimately have eq: "(l + 2 ^ 32 * h) div 2 ^ k = l div 2 ^ k + 2 ^ 8 * (2 ^ (24 - k) * h)" by (simp only: mult.assoc)
    show ?thesis unfolding eq word_of_nat_eq_iff take_bit_eq_mod by simp
  qed
  have his: "8 * n div 2 ^ 56 = h div 2 ^ 24" "8 * n div 2 ^ 48 = h div 2 ^ 16" "8 * n div 2 ^ 40 = h div 2 ^ 8"
    "8 * n div 2 ^ 32 = h div 2 ^ 0"
    using hi [of "2 ^ 24"] hi [of "2 ^ 16"] hi [of "2 ^ 8"] hi [of 1] lh by simp_all
  have los: "(word_of_nat (8 * n div 2 ^ k) :: byte) = word_of_nat (l div 2 ^ k)" if "k \<le> 24" for k
    using lo [OF that] lh by simp
  have "length_octets s = map (\<lambda>w. word_of_nat w) [h div 2 ^ 24, h div 2 ^ 16, h div 2 ^ 8, h div 2 ^ 0,
      l div 2 ^ 24, l div 2 ^ 16, l div 2 ^ 8, l div 2 ^ 0]"
    using low_octet [of _ "Length_High s"] low_octet [of _ "Length_Low s"]
      low_octet [of 0 "Length_High s"] low_octet [of 0 "Length_Low s"]
    unfolding length_octets_def l_def h_def by simp
  then show ?thesis
    unfolding octets64_list his using los [of 24] los [of 16] los [of 8] los [of 0] by simp
qed

lemma PadMessage_digest:
  assumes "hashed s m"
  shows "H (PadMessage s) = sha1_digest m"
proof -
  obtain bs p where m: "m = concat bs @ p" and a: "absorbed s bs p" and c: "counted s (length m)"
    using assms by (auto simp: hashed_def)
  have lp: "length p < 64" and bs: "\<forall>b\<in>set bs. length b = 64" using a by (simp_all add: absorbed_def)
  have "64 dvd length (concat bs)" using bs by (induction bs) simp_all
  then have lm: "length m mod 64 = length p" using m lp by (auto elim!: dvdE)
  have idx: "Message_Block_Index s = length p" using a by (simp add: absorbed_def)
  have fin: "H (ProcessMessageBlock (s1\<lparr>Message_Block := take 56 (Message_Block s1) @ length_octets s1\<rparr>))
     = foldl compress IV (blocks64 (concat bs' @ z @ octets64 (8 * length m)))"
    if "absorbed s1 bs' z" "length z = 56" "counted s1 (length m)" for s1 bs' z
  proof -
    have "blocks64 (concat (bs' @ [z @ octets64 (8 * length m)]) @ []) = bs' @ [z @ octets64 (8 * length m)]"
      using that by (intro blocks64_concat) (auto simp: absorbed_def octets64_def)
    then show ?thesis
      using that length_octets_counted [OF that(3)] by (simp add: ProcessMessageBlock_compress absorbed_def)
  qed
  show ?thesis
  proof (cases "55 < length p")
    case False
    have "(119 - length p) mod 64 = 55 - length p" using False by (simp add: mod_if)
    then have "sha1_pad m = concat bs @ (p @ [0x80] @ replicate (55 - length p) 0) @ octets64 (8 * length m)"
      by (simp add: sha1_pad_def lm) (simp add: m)
    moreover have "absorbed (zero_fill 56 (put_octet 0x80 s)) bs (p @ [0x80] @ replicate (55 - length p) 0)"
    proof -
      have "absorbed (put_octet 0x80 s) bs (p @ [0x80])" using put_octet_absorbed(1) [OF a] False by simp
      then show ?thesis using zero_fill_absorbed [of _ bs "p @ [0x80]" 56] False by fastforce
    qed
    ultimately show ?thesis using fin [of _ bs] c False idx
      by (simp add: sha1_digest_def PadMessage_def Let_def counted_def)
  next
    case True
    have "(119 - length p) mod 64 = 63 - length p + 56" using True lp by simp
    then have "sha1_pad m = concat (bs @ [p @ [0x80] @ replicate (63 - length p) 0]) @ replicate 56 0 @ octets64 (8 * length m)"
      unfolding sha1_pad_def lm \<open>(119 - length p) mod 64 = _\<close> replicate_add by (simp add: m)
    moreover have "absorbed (zero_fill 56 (ProcessMessageBlock (zero_fill 64 (put_octet 0x80 s))))
       (bs @ [p @ [0x80] @ replicate (63 - length p) 0]) (replicate 56 0)"
      using zero_fill_absorbed [OF zero_fill_all [OF a], of 56] by simp
    moreover have "counted (zero_fill 56 (ProcessMessageBlock (zero_fill 64 (put_octet 0x80 s)))) (length m)"
      using c by (simp add: counted_def ProcessMessageBlock_compress)
    ultimately show ?thesis using fin [of _ "bs @ [p @ [0x80] @ replicate (63 - length p) 0]" "replicate 56 0"] True idx
      by (simp add: sha1_digest_def PadMessage_def Let_def)
  qed
qed

lemma length_digest: "length (sha1_digest m) = 5"
proof -
  have "length (foldl compress IV bs) = 5" for bs
    by (induction bs rule: rev_induct) (auto simp: compress.simps split: prod.split)
  then show ?thesis by (simp add: sha1_digest_def)
qed

lemma SHA1_Result_digest:
  assumes "length (Message_Block s) = 64" and "8 * length (concat chunks) < 2 ^ 64"
  shows "fst (SHA1_Result (fold SHA1_Input chunks (SHA1_ctor s))) = Some (sha1_digest (concat chunks))"
proof -
  have "hashed s' m \<Longrightarrow> 8 * length (m @ concat chunks) < 2 ^ 64 \<Longrightarrow> hashed (fold SHA1_Input chunks s') (m @ concat chunks)"
    for s' m
    using input_hashed by (induction chunks arbitrary: s' m) force+
  from this [of "SHA1_ctor s" "[]"] have h: "hashed (fold SHA1_Input chunks (SHA1_ctor s)) (concat chunks)"
    using hashed_Reset [OF assms(1)] assms(2) by (simp add: SHA1_ctor_def)
  then show ?thesis using PadMessage_digest [OF h] map_nth [of "sha1_digest (concat chunks)"]
    by (simp add: SHA1_Result_def hashed_def Let_def length_digest)
qed

lemma SHA1_put_string_inputs: "0 \<notin> set bs \<Longrightarrow> SHA1_put_string bs s = fold SHA1_Input (map (\<lambda>b. [b]) bs) s"
  by (induction bs arbitrary: s) (auto simp: SHA1_Input_octet_def)

section \<open>Properties\<close>

text \<open>C8. The incremental implementation computes the SHA-1 digest of FIPS 180-1: for every sequence of inputs, of any
  sizes, to a freshly reset object, \<open>Result\<close> returns the digest of their concatenation. The total length is limited by
  the 64-bit counter of its bits. The words of the message schedule, the four round loops, the block buffer and the
  two-block padding are those of the code; the digest is defined independently of them.\<close>

theorem sha1_equals_standard:
  assumes "length (Message_Block s) = 64" and "8 * length (concat chunks) < 2 ^ 64"
  shows "fst (SHA1_Result (fold SHA1_Input chunks (SHA1_ctor s))) = Some (sha1_digest (concat chunks))"
  using assms by (rule SHA1_Result_digest)

text \<open>The string of the first test vector of the standard, hashed in two pieces.\<close>

definition blank_sha1 :: sha1 where
  "blank_sha1 = \<lparr>H = [], Length_Low = 0, Length_High = 0, Message_Block = replicate 64 0, Message_Block_Index = 0,
     Computed = False, Corrupted = False\<rparr>"

lemma sha1_equals_standard_witness:
  "fst (SHA1_Result (fold SHA1_Input [[0x61], [0x62, 0x63]] (SHA1_ctor blank_sha1))) = Some (sha1_digest [0x61, 0x62, 0x63])"
  using sha1_equals_standard [of blank_sha1 "[[0x61], [0x62, 0x63]]"] by (simp add: blank_sha1_def)

end
