(* ===== verification/Base64.thy ===== *)
theory Base64
  imports Prelude "HOL-Library.Char_ord"
begin

text \<open>
  \<open>src/common/base64.cpp\<close>: the base 64 coder of the WebSocket handshake with its two small arrays and index
  variables, its equivalence with the coding of RFC 4648, and the round trip. A \<open>std::string\<close> is a list of
  octets. The arrays are not initialised in the code: their content is a parameter.
\<close>

section \<open>Model\<close>

definition base64_chars :: "byte list" where
  "base64_chars = map of_char ''ABCDEFGHIJKLMNOPQRSTUVWXYZabcdefghijklmnopqrstuvwxyz0123456789+/''"

definition is_base64 :: "byte \<Rightarrow> bool" where
  "is_base64 c \<longleftrightarrow> (of_char CHR ''a'' \<le> c \<and> c \<le> of_char CHR ''z'' \<or> of_char CHR ''A'' \<le> c \<and> c \<le> of_char CHR ''Z''
     \<or> of_char CHR ''0'' \<le> c \<and> c \<le> of_char CHR ''9'') \<or> c = of_char CHR ''+'' \<or> c = of_char CHR ''/''"

text \<open>Three octets to four indices and back; an \<open>unsigned char\<close> element keeps the low 8 bits.\<close>

definition array_4_of_3 :: "byte list \<Rightarrow> byte list" where
  "array_4_of_3 a =
     [drop_bit 2 (a ! 0 AND 0xFC),
      push_bit 4 (a ! 0 AND 0x03) + drop_bit 4 (a ! 1 AND 0xF0),
      push_bit 2 (a ! 1 AND 0x0F) + drop_bit 6 (a ! 2 AND 0xC0),
      a ! 2 AND 0x3F]"

definition array_3_of_4 :: "byte list \<Rightarrow> byte list" where
  "array_3_of_4 a =
     [push_bit 2 (a ! 0) + drop_bit 4 (a ! 1 AND 0x30),
      push_bit 4 (a ! 1 AND 0x0F) + drop_bit 2 (a ! 2 AND 0x3C),
      push_bit 6 (a ! 2 AND 0x03) + a ! 3]"

definition pick :: "byte \<Rightarrow> byte" where
  "pick i = base64_chars ! unat i"

text \<open>\<open>base64_chars.find(c)\<close> stored in an \<open>unsigned char\<close>: \<open>npos\<close> becomes \<open>0xFF\<close>.\<close>

fun find_from :: "byte \<Rightarrow> nat \<Rightarrow> byte list \<Rightarrow> nat option" where
  "find_from c n [] = None"
| "find_from c n (d # ds) = (if c = d then Some n else find_from c (n + 1) ds)"

definition find_char :: "byte \<Rightarrow> byte" where
  "find_char c = (case find_from c 0 base64_chars of Some n \<Rightarrow> word_of_nat n | None \<Rightarrow> 0xFF)"

fun encode_loop :: "byte list \<Rightarrow> nat \<Rightarrow> byte list \<Rightarrow> byte list \<Rightarrow> nat \<times> byte list \<times> byte list" where
  "encode_loop [] i a3 ret = (i, a3, ret)"
| "encode_loop (b # bs) i a3 ret =
     (let a3' = a3[i := b] in
      if i + 1 = 3 then encode_loop bs 0 a3' (ret @ map pick (array_4_of_3 a3')) else encode_loop bs (i + 1) a3' ret)"

definition base64_encode :: "byte list \<Rightarrow> byte list \<Rightarrow> byte list" where
  "base64_encode a3 bs =
     (let (i, a3, ret) = encode_loop bs 0 a3 [] in
      if i = 0 then ret
      else let a3' = take i a3 @ replicate (3 - i) 0
           in ret @ map pick (take (i + 1) (array_4_of_3 a3')) @ replicate (3 - i) (of_char CHR ''=''))"

fun decode_loop :: "byte list \<Rightarrow> nat \<Rightarrow> byte list \<Rightarrow> byte list \<Rightarrow> nat \<times> byte list \<times> byte list" where
  "decode_loop [] i a4 ret = (i, a4, ret)"
| "decode_loop (c # cs) i a4 ret =
     (if c = of_char CHR ''='' \<or> \<not> is_base64 c then (i, a4, ret)
      else let a4' = a4[i := c] in
        if i + 1 = 4 then decode_loop cs 0 (map find_char a4') (ret @ array_3_of_4 (map find_char a4'))
        else decode_loop cs (i + 1) a4' ret)"

definition base64_decode :: "byte list \<Rightarrow> byte list \<Rightarrow> byte list" where
  "base64_decode a4 cs =
     (let (i, a4, ret) = decode_loop cs 0 a4 [] in
      if i = 0 then ret
      else let a4' = map find_char (take i a4 @ replicate (4 - i) 0) in ret @ take (i - 1) (array_3_of_4 a4'))"

section \<open>The coding of RFC 4648\<close>

definition sextet :: "nat \<Rightarrow> nat \<Rightarrow> byte" where
  "sextet x k = base64_chars ! (x div 64 ^ k mod 64)"

fun rfc_encode :: "byte list \<Rightarrow> byte list" where
  "rfc_encode [] = []"
| "rfc_encode [a] = (let x = unat a * 65536 in [sextet x 3, sextet x 2, of_char CHR ''='', of_char CHR ''=''])"
| "rfc_encode [a, b] = (let x = unat a * 65536 + unat b * 256 in [sextet x 3, sextet x 2, sextet x 1, of_char CHR ''=''])"
| "rfc_encode (a # b # c # bs) =
     (let x = unat a * 65536 + unat b * 256 + unat c in [sextet x 3, sextet x 2, sextet x 1, sextet x 0] @ rfc_encode bs)"

section \<open>Octets and sextets\<close>

lemma byte_lt: "unat (a :: byte) < 256"
  using unsigned_less [of a] by simp

lemma and_nat: "unat ((a :: byte) AND 0x03) = unat a mod 4" "unat (a AND 0x0F) = unat a mod 16" "unat (a AND 0x3F) = unat a mod 64"
proof -
  have "a AND 0x03 = take_bit 2 a" "a AND 0x0F = take_bit 4 a" "a AND 0x3F = take_bit 6 a"
    by (simp_all add: take_bit_eq_mask mask_eq_exp_minus_1)
  then show "unat (a AND 0x03) = unat a mod 4" "unat (a AND 0x0F) = unat a mod 16" "unat (a AND 0x3F) = unat a mod 64"
    by (simp_all only: unsigned_take_bit_eq) (simp_all add: take_bit_eq_mod)
qed

lemma drop_nat: "unat (drop_bit k (a :: byte)) = unat a div 2 ^ k"
  by (simp only: unsigned_drop_bit_eq) (simp add: take_bit_eq_mod drop_bit_eq_div byte_lt)

lemma drop_and_nat:
  "unat (drop_bit 2 ((a :: byte) AND 0xFC)) = unat a div 4" "unat (drop_bit 4 (a AND 0xF0)) = unat a div 16"
  "unat (drop_bit 6 (a AND 0xC0)) = unat a div 64" "unat (drop_bit 4 (a AND 0x30)) = unat a div 16 mod 4"
  "unat (drop_bit 2 (a AND 0x3C)) = unat a div 4 mod 16"
proof -
  have masks: "drop_bit 2 (0xFC :: byte) = 0x3F" "drop_bit 4 (0xF0 :: byte) = 0x0F" "drop_bit 6 (0xC0 :: byte) = 0x03"
    "drop_bit 4 (0x30 :: byte) = 0x03" "drop_bit 2 (0x3C :: byte) = 0x0F"
    by (simp_all add: drop_bit_eq_div)
  have small: "unat a div 4 < 64" "unat a div 16 < 16" "unat a div 64 < 4" using byte_lt [of a] by linarith+
  show "unat (drop_bit 2 (a AND 0xFC)) = unat a div 4" "unat (drop_bit 4 (a AND 0xF0)) = unat a div 16"
    "unat (drop_bit 6 (a AND 0xC0)) = unat a div 64" "unat (drop_bit 4 (a AND 0x30)) = unat a div 16 mod 4"
    "unat (drop_bit 2 (a AND 0x3C)) = unat a div 4 mod 16"
    using small by (simp_all only: drop_bit_and masks and_nat drop_nat) simp_all
qed

lemma push_nat: "unat (push_bit k (a :: byte)) = unat a * 2 ^ k mod 256"
  by (simp only: unsigned_push_bit_eq) (simp add: take_bit_eq_mod push_bit_eq_mult)

lemma add_nat: "unat ((a :: byte) + b) = (unat a + unat b) mod 256"
  by (simp add: unat_word_ariths(1))

lemma nths: "[a, b, c] ! 0 = a" "[a, b, c] ! 1 = b" "[a, b, c] ! 2 = c"
  "[a, b, c, d] ! 0 = a" "[a, b, c, d] ! 1 = b" "[a, b, c, d] ! 2 = c" "[a, b, c, d] ! 3 = d"
  by simp_all

lemma four_of_three:
  "map unat (array_4_of_3 [a, b, c]) =
     [unat a div 4, unat a mod 4 * 16 + unat b div 16, unat b mod 16 * 4 + unat c div 64, unat c mod 64]"
proof -
  have "unat a mod 4 * 16 + unat b div 16 < 256" "unat b mod 16 * 4 + unat c div 64 < 256"
    using byte_lt [of b] byte_lt [of c] by linarith+
  then show ?thesis
    by (simp only: array_4_of_3_def nths list.map push_nat add_nat and_nat drop_and_nat) simp
qed

lemma three_of_four:
  assumes "p < 64" "q < 64" "r < 64" "t < 64"
  shows "map unat (array_3_of_4 [word_of_nat p, word_of_nat q, word_of_nat r, word_of_nat t])
     = [p * 4 + q div 16, q mod 16 * 16 + r div 4, r mod 4 * 64 + t]"
proof -
  have u: "unat (word_of_nat p :: byte) = p" "unat (word_of_nat q :: byte) = q" "unat (word_of_nat r :: byte) = r"
    "unat (word_of_nat t :: byte) = t"
    using assms by (simp_all add: unsigned_of_nat take_bit_eq_mod)
  have "p * 4 + q div 16 < 256" "q mod 16 * 16 + r div 4 < 256" "r mod 4 * 64 + t < 256" "q div 16 < 4" "r div 4 < 16"
    using assms by linarith+
  then show ?thesis
    by (simp only: array_3_of_4_def nths list.map push_nat add_nat and_nat drop_and_nat u) simp
qed

text \<open>The three octets as a number of four sextets.\<close>

lemma digit_split: "r < k \<Longrightarrow> (m * k + r) div k = m" "r < k \<Longrightarrow> (m * k + r) mod (k * n) = m mod n * k + (r :: nat)"
  by (simp_all add: mod_mult2_eq)

lemma sextet_digits:
  assumes "a < 256" "b < 256" "c < 256"
  defines "x \<equiv> a * 65536 + b * 256 + (c :: nat)"
  shows "x div 64 ^ 3 mod 64 = a div 4" "x div 64 ^ 2 mod 64 = a mod 4 * 16 + b div 16"
    "x div 64 ^ 1 mod 64 = b mod 16 * 4 + c div 64" "x div 64 ^ 0 mod 64 = c mod 64"
proof -
  have high: "b * 256 + c < 65536" "b div 16 < 16" "c div 64 < 4" "a div 4 < 64" using assms by linarith+
  have "x div 64 ^ 3 = x div 65536 div 4" by (simp add: div_mult2_eq [symmetric])
  moreover have "x div 65536 = a" using digit_split(1) [OF high(1), of a] by (simp add: x_def add.assoc)
  ultimately show "x div 64 ^ 3 mod 64 = a div 4" using high by simp
  have x256: "x div 256 = a * 256 + b" using digit_split(1) [OF assms(3), of "a * 256 + b"] by (simp add: x_def)
  have "x div 64 ^ 2 = x div 256 div 16" by (simp add: div_mult2_eq [symmetric])
  also have "\<dots> = a * 16 + b div 16" using x256 by simp
  finally show "x div 64 ^ 2 mod 64 = a mod 4 * 16 + b div 16" using digit_split(2) [OF high(2), of a 4] by simp
  have "x div 64 ^ 1 = (a * 256 + b) * 4 + c div 64" by (simp add: x_def)
  then have "x div 64 ^ 1 mod 64 = (a * 256 + b) mod 16 * 4 + c div 64"
    using digit_split(2) [OF high(3), of "a * 256 + b" 16] by simp
  also have "(a * 256 + b) mod 16 = b mod 16" using mod_mult_self3 [of "a * 16" 16 b] by (simp add: mult.commute)
  finally show "x div 64 ^ 1 mod 64 = b mod 16 * 4 + c div 64" .
  show "x div 64 ^ 0 mod 64 = c mod 64" using mod_mult_self3 [of "a * 1024 + b * 4" 64 c] by (simp add: x_def mult.commute)
qed

lemma group_sextets:
  "map pick (array_4_of_3 [a, b, c]) = (let x = unat a * 65536 + unat b * 256 + unat c in [sextet x 3, sextet x 2, sextet x 1, sextet x 0])"
proof -
  have "map pick (array_4_of_3 [a, b, c]) = map ((!) base64_chars) (map unat (array_4_of_3 [a, b, c]))"
    by (simp add: pick_def)
  then show ?thesis
    by (simp only: four_of_three sextet_def Let_def sextet_digits [OF byte_lt byte_lt byte_lt]) simp
qed

section \<open>Encoding\<close>

lemma list3: "length xs = 3 \<Longrightarrow> \<exists>x y z. xs = [x, y, z]"
  by (auto simp add: numeral_3_eq_3 length_Suc_conv)

lemma list4: "length xs = 4 \<Longrightarrow> \<exists>x y z w. xs = [x, y, z, w]"
  by (auto simp add: numeral_eq_Suc length_Suc_conv)

lemma encode_loop_rfc:
  "length a3 = 3 \<Longrightarrow> encode_loop bs 0 a3 ret = (i, a3', ret') \<Longrightarrow>
   ret' @ (if i = 0 then [] else map pick (take (i + 1) (array_4_of_3 (take i a3' @ replicate (3 - i) 0)))
      @ replicate (3 - i) (of_char CHR ''='')) = ret @ rfc_encode bs"
proof (induction bs arbitrary: a3 ret rule: rfc_encode.induct)
  case 1
  then show ?case by simp
next
  case (2 a)
  obtain x y z where "a3 = [x, y, z]" using list3 [OF "2.prems"(1)] by blast
  then have "i = 1" "a3' = [a, y, z]" "ret' = ret" using "2.prems"(2) by (auto simp: Let_def)
  moreover have "map pick (take 2 (array_4_of_3 [a, 0, 0])) = take 2 (map pick (array_4_of_3 [a, 0, 0]))"
    by (simp add: take_map)
  ultimately show ?case by (simp add: group_sextets Let_def numeral_2_eq_2)
next
  case (3 a b)
  obtain x y z where "a3 = [x, y, z]" using list3 [OF "3.prems"(1)] by blast
  then have "i = 2" "a3' = [a, b, z]" "ret' = ret" using "3.prems"(2) by (auto simp: Let_def)
  moreover have "map pick (take 3 (array_4_of_3 [a, b, 0])) = take 3 (map pick (array_4_of_3 [a, b, 0]))"
    by (simp add: take_map)
  ultimately show ?case by (simp add: group_sextets Let_def numeral_3_eq_3 numeral_2_eq_2)
next
  case (4 a b c bs)
  obtain x y z where "a3 = [x, y, z]" using list3 [OF "4.prems"(1)] by blast
  then have "encode_loop bs 0 [a, b, c] (ret @ map pick (array_4_of_3 [a, b, c])) = (i, a3', ret')"
    using "4.prems"(2) by (simp add: Let_def)
  from "4.IH" [OF _ _ this] show ?case by (simp add: group_sextets Let_def)
qed

lemma base64_encode_eq: "length a3 = 3 \<Longrightarrow> base64_encode a3 bs = rfc_encode bs"
  using encode_loop_rfc [of a3 bs "[]"] by (auto simp: base64_encode_def Let_def split: prod.split)

text \<open>\<open>base64_encode\<close> is the base 64 coding of RFC 4648, whatever its arrays held before.\<close>

theorem base64_encode_rfc:
  assumes "length a3 = 3"
  shows "base64_encode a3 bs = rfc_encode bs"
  using assms by (rule base64_encode_eq)

lemma base64_encode_rfc_witness:
  "base64_encode [1, 2, 3] [0x4D, 0x61] = rfc_encode [0x4D, 0x61]"
  by (rule base64_encode_rfc) simp

section \<open>Decoding\<close>

lemma base64_chars_codes:
  "base64_chars = [65, 66, 67, 68, 69, 70, 71, 72, 73, 74, 75, 76, 77, 78, 79, 80, 81, 82, 83, 84, 85, 86, 87, 88, 89, 90, 97, 98, 99, 100, 101, 102, 103, 104, 105, 106, 107, 108, 109, 110, 111, 112, 113, 114, 115, 116, 117, 118, 119, 120, 121, 122, 48, 49, 50, 51, 52, 53, 54, 55, 56, 57, 43, 47]"
  by (simp add: base64_chars_def of_char_def)

lemma eq_code: "(of_char CHR ''='' :: byte) = 61"
  by (simp add: of_char_def)

lemma find_from_nth: "distinct ds \<Longrightarrow> i < length ds \<Longrightarrow> find_from (ds ! i) n ds = Some (n + i)"
  by (induction ds arbitrary: i n) (auto simp: nth_Cons split: nat.split)

lemma alphabet:
  assumes "i < 64"
  shows "is_base64 (base64_chars ! i)" "base64_chars ! i \<noteq> 61" "find_char (base64_chars ! i) = word_of_nat i"
proof -
  have len: "i < length base64_chars" using assms by (simp add: base64_chars_def)
  then have mem: "base64_chars ! i \<in> set base64_chars" by (rule nth_mem)
  have "list_all is_base64 base64_chars" 
    by (simp add: base64_chars_codes is_base64_def of_char_def)
  then have "\<forall>d\<in>set base64_chars. is_base64 d" by (simp only: list_all_iff)
  then show "is_base64 (base64_chars ! i)" using mem by blast
  have "61 \<notin> set base64_chars" by (simp add: base64_chars_codes)
  then show "base64_chars ! i \<noteq> 61" using mem by metis
  have "distinct base64_chars" by (simp add: base64_chars_codes)
  from find_from_nth [OF this len, of 0] show "find_char (base64_chars ! i) = word_of_nat i"
    by (simp add: find_char_def)
qed

text \<open>What the decoder makes of a group of four letters of the alphabet.\<close>

lemma decode_group:
  assumes "length a4 = 4" "p < 64" "q < 64" "r < 64" "t < 64"
  shows "decode_loop (base64_chars ! p # base64_chars ! q # base64_chars ! r # base64_chars ! t # cs) 0 a4 ret
    = decode_loop cs 0 [word_of_nat p, word_of_nat q, word_of_nat r, word_of_nat t]
        (ret @ array_3_of_4 [word_of_nat p, word_of_nat q, word_of_nat r, word_of_nat t])"
proof -
  obtain x y z w where "a4 = [x, y, z, w]" using list4 [OF assms(1)] by blast
  then show ?thesis using assms by (simp add: alphabet Let_def)
qed

lemma word_of_unats: "map unat xs = ns \<Longrightarrow> xs = map (word_of_nat :: nat \<Rightarrow> byte) ns"
  by (auto simp: comp_def)

lemma three_back:
  assumes "a < 256" "b < 256" "c < 256"
  defines "x \<equiv> a * 65536 + b * 256 + (c :: nat)"
  shows "array_3_of_4 (map (\<lambda>k. word_of_nat (x div 64 ^ k mod 64)) [3, 2, 1, 0]) = [word_of_nat a, word_of_nat b, word_of_nat c]"
proof -
  note d = sextet_digits [OF assms(1-3), folded x_def]
  have lt: "a div 4 < 64" "a mod 4 * 16 + b div 16 < 64" "b mod 16 * 4 + c div 64 < 64" "c mod 64 < 64"
    using assms(1-3) by linarith+
  have "map unat (array_3_of_4 [word_of_nat (a div 4), word_of_nat (a mod 4 * 16 + b div 16),
      word_of_nat (b mod 16 * 4 + c div 64), word_of_nat (c mod 64)]) = [a, b, c]"
  proof -
    have "b div 16 < 16" "c div 64 < 4" using assms(2,3) by linarith+
    then have "(a mod 4 * 16 + b div 16) div 16 = a mod 4" "(a mod 4 * 16 + b div 16) mod 16 = b div 16"
      "(b mod 16 * 4 + c div 64) div 4 = b mod 16" "(b mod 16 * 4 + c div 64) mod 4 = c div 64"
      by simp_all
    then show ?thesis unfolding three_of_four [OF lt] by simp
  qed
  from word_of_unats [OF this] show ?thesis
    unfolding list.map d by simp
qed

lemma decode_loop_rfc:
  "length a4 = 4 \<Longrightarrow> decode_loop (rfc_encode bs) 0 a4 ret = (i, a4', ret') \<Longrightarrow>
   ret' @ (if i = 0 then [] else take (i - 1) (array_3_of_4 (map find_char (take i a4' @ replicate (4 - i) 0)))) = ret @ bs"
proof (induction bs arbitrary: a4 ret rule: rfc_encode.induct)
  case 1
  then show ?case by simp
next
  case (2 a)
  obtain y0 y1 y2 y3 where a4: "a4 = [y0, y1, y2, y3]" using list4 [OF "2.prems"(1)] by blast
  define x where "x = unat a * 65536"
  have "i = 2" "a4' = [base64_chars ! (x div 64 ^ 3 mod 64), base64_chars ! (x div 64 ^ 2 mod 64), y2, y3]" "ret' = ret"
    using "2.prems"(2) unfolding a4 by (simp_all add: x_def [symmetric] Let_def sextet_def alphabet)
  moreover have "take 1 (array_3_of_4 [word_of_nat (x div 64 ^ 3 mod 64), word_of_nat (x div 64 ^ 2 mod 64), r, t]) = [a]" for r t
    using three_back [OF byte_lt [of a], of 0 0] by (simp add: x_def array_3_of_4_def)
  ultimately show ?case by (simp add: alphabet numeral_2_eq_2)
next
  case (3 a b)
  obtain y0 y1 y2 y3 where a4: "a4 = [y0, y1, y2, y3]" using list4 [OF "3.prems"(1)] by blast
  define x where "x = unat a * 65536 + unat b * 256"
  have "i = 3" "a4' = [base64_chars ! (x div 64 ^ 3 mod 64), base64_chars ! (x div 64 ^ 2 mod 64),
      base64_chars ! (x div 64 ^ 1 mod 64), y3]" "ret' = ret"
    using "3.prems"(2) unfolding a4 by (simp_all add: x_def [symmetric] Let_def sextet_def alphabet)
  moreover have "take 2 (array_3_of_4 [word_of_nat (x div 64 ^ 3 mod 64), word_of_nat (x div 64 ^ 2 mod 64),
      word_of_nat (x div 64 ^ 1 mod 64), t]) = [a, b]" for t
    using three_back [OF byte_lt [of a] byte_lt [of b], of 0] by (simp add: x_def array_3_of_4_def)
  ultimately show ?case by (simp add: alphabet)
next
  case (4 a b c bs)
  define x where "x = unat a * 65536 + unat b * 256 + unat c"
  let ?g = "[word_of_nat (x div 64 ^ 3 mod 64), word_of_nat (x div 64 ^ 2 mod 64),
      word_of_nat (x div 64 ^ 1 mod 64), word_of_nat (x div 64 ^ 0 mod 64)] :: byte list"
  have enc: "rfc_encode (a # b # c # bs) = base64_chars ! (x div 64 ^ 3 mod 64) # base64_chars ! (x div 64 ^ 2 mod 64)
      # base64_chars ! (x div 64 ^ 1 mod 64) # base64_chars ! (x div 64 ^ 0 mod 64) # rfc_encode bs"
    by (simp add: x_def Let_def sextet_def)
  have three: "array_3_of_4 ?g = [a, b, c]"
    using three_back [OF byte_lt [of a] byte_lt [of b] byte_lt [of c]] by (simp add: x_def)
  have "decode_loop (rfc_encode (a # b # c # bs)) 0 a4 ret = decode_loop (rfc_encode bs) 0 ?g (ret @ array_3_of_4 ?g)"
    unfolding enc by (rule decode_group [OF "4.prems"(1)]) simp_all
  then have "decode_loop (rfc_encode bs) 0 ?g (ret @ [a, b, c]) = (i, a4', ret')"
    using "4.prems"(2) by (simp only: three)
  from "4.IH" [OF refl _ this] show ?case by simp
qed

text \<open>C16. Decoding what was encoded gives the octets back, for every input length and whatever the arrays held.\<close>

theorem base64_roundtrip:
  assumes "length a3 = 3" and "length a4 = 4"
  shows "base64_decode a4 (base64_encode a3 bs) = bs"
proof -
  note enc = base64_encode_eq [OF assms(1)]
  show ?thesis
    unfolding enc base64_decode_def Let_def using decode_loop_rfc [OF assms(2), of bs "[]"] by (auto split: prod.split)
qed

lemma base64_roundtrip_witness:
  "base64_decode [9, 9, 9, 9] (base64_encode [1, 2, 3] [0x4D, 0x61, 0x6E, 0x00]) = [0x4D, 0x61, 0x6E, 0x00]"
  by (rule base64_roundtrip) simp_all

end
