(* ===== verification/Ws_Handshake.thy ===== *)
theory Ws_Handshake
  imports Web_Socket_Refine Sha1 Base64
begin

text \<open>
  \<open>src/network/WebSocketConnect.cpp\<close>, the part before the frames: \<open>parseHandshake\<close>, \<open>respondHandshake\<close> and the first
  branch of \<open>on_msgbuffer\<close>, with \<open>Tools::format\<close>. It joins the digest, the coder and the frame loop. Strings are
  lists of octets. \<^const>\<open>None\<close> stands for undefined behaviour: a text without a terminating zero in the read buffer,
  and \<open>line[line.size() - 1]\<close> on an empty line.
\<close>

section \<open>Model\<close>

definition str :: "string \<Rightarrow> byte list" where
  "str s = map of_char s"

text \<open>A C string in memory, and \<open>std::getline\<close> with a delimiter until the end of the stream.\<close>

definition c_string :: "byte list \<Rightarrow> byte list option" where
  "c_string mem = (if 0 \<in> set mem then Some (takeWhile (\<lambda>b. b \<noteq> 0) mem) else None)"

function getline_all :: "byte \<Rightarrow> byte list \<Rightarrow> byte list list" where
  "getline_all d s = (if s = [] then [] else
     takeWhile (\<lambda>b. b \<noteq> d) s # getline_all d (drop (length (takeWhile (\<lambda>b. b \<noteq> d) s) + 1) s))"
  by pat_completeness auto
termination by (relation "measure (\<lambda>(d, s). length s)") auto

declare getline_all.simps [simp del]

abbreviation getlines :: "byte list \<Rightarrow> byte list list" where
  "getlines \<equiv> getline_all 10"

fun find_colon :: "byte list \<Rightarrow> nat option" where
  "find_colon (a # b # s) = (if a = 58 \<and> b = 32 then Some 0 else map_option Suc (find_colon (b # s)))"
| "find_colon _ = None"

definition header_line :: "byte list \<Rightarrow> (byte list \<Rightarrow> byte list option) \<Rightarrow> (byte list \<Rightarrow> byte list option) option" where
  "header_line line m =
     (if line = [13] then Some m
      else if line = [] then None
      else if last line \<noteq> 13 then Some m
      else
        (case find_colon line of
           Some pos \<Rightarrow> Some (m(take pos line \<mapsto> take (length line - 1 - (pos + 2)) (drop (pos + 2) line)))
         | None \<Rightarrow> Some (m(line \<mapsto> take (length line - 1 - 1) (drop 1 line)))))"

fun header_lines :: "byte list list \<Rightarrow> (byte list \<Rightarrow> byte list option) \<Rightarrow> (byte list \<Rightarrow> byte list option) option" where
  "header_lines [] m = Some m"
| "header_lines (line # lines) m = do { m1 \<leftarrow> header_line line m; header_lines lines m1 }"

datatype conn_event = ConnClose | ConnWrite "byte list" | ConnHandshake

record ws_connection =
  m_strKey :: "byte list"
  m_strHost :: "byte list"
  m_isHandshake :: bool
  reader :: WebSocketReader
  conn_events :: "conn_event list"

definition parseHandshake :: "byte list \<Rightarrow> nat \<Rightarrow> ws_connection \<Rightarrow> (bool \<times> ws_connection) option" where
  "parseHandshake pData len c =
     (if len < 2 then Some (False, c)
      else do {
        s \<leftarrow> c_string pData;
        let lines = getlines s;
        let line = (case lines of [] \<Rightarrow> [] | l # ls \<Rightarrow> l);
        if take 3 line \<noteq> str ''GET'' then Some (False, c)
        else do {
          m \<leftarrow> header_lines (tl lines) Map.empty;
          case m (str ''Host'') of
            None \<Rightarrow> Some (False, c)
          | Some host \<Rightarrow>
              (case m (str ''Sec-WebSocket-Key'') of
                 None \<Rightarrow> Some (False, c)
               | Some key \<Rightarrow> Some (True, c\<lparr>m_strHost := host, m_strKey := key\<rparr>))
        }
      })"

definition crlf :: "byte list" where
  "crlf = [13, 10]"

definition ackHandshake :: "byte list \<Rightarrow> byte list \<Rightarrow> byte list" where
  "ackHandshake accept_key host =
     str ''HTTP/1.1 101 Switching Protocols'' @ crlf @ str ''Upgrade: websocket'' @ crlf @ str ''Connection: Upgrade'' @ crlf
     @ str ''Sec-WebSocket-Accept: '' @ accept_key @ crlf @ str ''WebSocket-Location: ws://'' @ host @ str ''/'' @ crlf
     @ str ''WebSocket-Protocol: WebManagerSocket'' @ crlf @ crlf"

text \<open>
  \<open>Tools::format\<close>, given the text the format and its arguments stand for. The constructor \<open>std::string("", len + 1)\<close>
  copies \<open>len + 1\<close> bytes from a literal of one byte: \<open>behind\<close> is what lies behind it in memory. The argument list is
  used twice without being restarted, which works only where a \<open>va_list\<close> is passed by value (\<open>by_value\<close>).
\<close>

record platform =
  by_value :: bool
  behind :: "byte list"

definition Tools_format :: "platform \<Rightarrow> byte list \<Rightarrow> byte list option" where
  "Tools_format pf text =
     (let len = length text in
      if len + 1 \<le> length (0 # behind pf) \<and> by_value pf then Some (overwrite 0 (text @ [0]) (take (len + 1) (0 # behind pf)))
      else None)"

definition htonl :: "u32 \<Rightarrow> u32" where
  "htonl w = of_bytes (rev (bytes_of w))"

definition s_key :: "byte list" where
  "s_key = str ''258EAFA5-E914-47DA-95CA-C5AB0DC85B11''"

text \<open>The local objects: the message block of the digest and the arrays of the coder, with whatever they hold.\<close>

definition handshake_key :: "sha1 \<Rightarrow> byte list \<Rightarrow> ws_connection \<Rightarrow> byte list option" where
  "handshake_key sha a3 c =
     (let server_key = m_strKey c @ s_key;
          (res, _) = SHA1_Result (SHA1_put_string server_key (SHA1_ctor sha))
      in do {
        digest \<leftarrow> res;
        let message_digest = map htonl digest;
        Some (base64_encode a3 (concat (map bytes_of message_digest)))
      })"

definition respondHandshake :: "platform \<Rightarrow> sha1 \<Rightarrow> byte list \<Rightarrow> ws_connection \<Rightarrow> byte list option" where
  "respondHandshake pf sha a3 c =
     do { server_key \<leftarrow> handshake_key sha a3 c; Tools_format pf (ackHandshake server_key (m_strHost c)) }"

text \<open>\<open>on_msgbuffer\<close>: the handshake, or the frame loop with its fuel.\<close>

definition ws_on_msgbuffer :: "platform \<Rightarrow> sha1 \<Rightarrow> byte list \<Rightarrow> nat \<Rightarrow> ws_connection \<Rightarrow> ws_connection outcome" where
  "ws_on_msgbuffer pf sha a3 fuel c =
     (if \<not> m_isHandshake c then
        (case parseHandshake (GetReadPointer (ws_buffer (reader c))) (GetActiveSize (ws_buffer (reader c))) c of
           None \<Rightarrow> Undefined
         | Some (False, c1) \<Rightarrow> Returns (c1\<lparr>conn_events := conn_events c1 @ [ConnClose]\<rparr>)
         | Some (True, c1) \<Rightarrow>
             (case respondHandshake pf sha a3 c1 of
                None \<Rightarrow> Undefined
              | Some msg \<Rightarrow>
                  Returns (c1\<lparr>m_isHandshake := True,
                    conn_events := conn_events c1 @ [ConnWrite (take (length msg - 1) msg), ConnHandshake]\<rparr>)))
      else
        (case ws_msgbuffer fuel (reader c) of
           Returns r \<Rightarrow> Returns (c\<lparr>reader := r\<rparr>)
         | Out_of_fuel \<Rightarrow> Out_of_fuel
         | Undefined \<Rightarrow> Undefined))"

text \<open>A new connection and its first read (\<open>TcpSocketBase::echo_read\<close>).\<close>

definition ws_connection_ctor :: "nat \<Rightarrow> ws_connection" where
  "ws_connection_ctor buffersize =
     \<lparr>m_strKey = [], m_strHost = [], m_isHandshake = False, reader = WebSocketConnect_ctor buffersize, conn_events = []\<rparr>"

definition ws_first_read :: "platform \<Rightarrow> sha1 \<Rightarrow> byte list \<Rightarrow> nat \<Rightarrow> byte list \<Rightarrow> ws_connection outcome" where
  "ws_first_read pf sha a3 buffersize chunk =
     (let c = ws_connection_ctor buffersize in ws_on_msgbuffer pf sha a3 0 (c\<lparr>reader := ws_load chunk (reader c)\<rparr>))"

section \<open>The text of a request\<close>

definition header :: "byte list \<times> byte list \<Rightarrow> byte list" where
  "header h = fst h @ [58, 32] @ snd h @ [13]"

definition header_ok :: "byte list \<times> byte list \<Rightarrow> bool" where
  "header_ok h \<longleftrightarrow> 58 \<notin> set (fst h) \<and> 10 \<notin> set (fst h) \<and> 0 \<notin> set (fst h) \<and> 10 \<notin> set (snd h) \<and> 0 \<notin> set (snd h)"

definition request_start :: "byte list \<Rightarrow> (byte list \<times> byte list) list \<Rightarrow> byte list" where
  "request_start rl hs = rl @ crlf @ concat (map (\<lambda>h. header h @ [10]) hs)"

definition request_line_ok :: "byte list \<Rightarrow> bool" where
  "request_line_ok rl \<longleftrightarrow> take 3 rl = str ''GET'' \<and> 10 \<notin> set rl \<and> 0 \<notin> set rl"

definition accept_key :: "byte list \<Rightarrow> byte list" where
  "accept_key key = rfc_encode (concat (map (\<lambda>w. rev (bytes_of w)) (sha1_digest (key @ s_key))))"

lemma getline_all_item: "d \<notin> set l \<Longrightarrow> getline_all d (l @ d # s) = l # getline_all d s"
proof -
  assume "d \<notin> set l"
  then have "takeWhile (\<lambda>b. b \<noteq> d) (l @ d # s) = l" by (induction l) auto
  then show ?thesis by (subst getline_all.simps) simp
qed

lemma getline_all_last: "d \<notin> set l \<Longrightarrow> getline_all d l = (if l = [] then [] else [l])"
proof -
  assume "d \<notin> set l"
  then have tw: "takeWhile (\<lambda>b. b \<noteq> d) l = l" by (induction l) auto
  show ?thesis unfolding getline_all.simps [of d l] tw by (simp add: getline_all.simps [of d "[]"])
qed

lemma header_no_nl: "header_ok h \<Longrightarrow> 10 \<notin> set (header h)"
  by (simp add: header_ok_def header_def)

lemma getlines_request:
  assumes "request_line_ok rl" "\<forall>h\<in>set hs. header_ok h"
  shows "getlines (request_start rl hs @ rest) = (rl @ [13]) # map header hs @ getlines rest"
proof -
  have "getlines (concat (map (\<lambda>h. header h @ [10]) hs) @ rest) = map header hs @ getlines rest"
    using assms(2)
  proof (induction hs)
    case (Cons h hs)
    then show ?case using getline_all_item [OF header_no_nl [of h]] by simp
  qed simp
  then show ?thesis
    using getline_all_item [of 10 "rl @ [13]"] assms(1) by (simp add: request_start_def crlf_def request_line_ok_def)
qed

lemma find_colon_name: "58 \<notin> set n \<Longrightarrow> find_colon (n @ 58 # 32 # s) = Some (length n)"
proof (induction n)
  case (Cons a n)
  then show ?case by (cases n) auto
qed simp

lemma header_line_ok: "header_ok h \<Longrightarrow> header_line (header h) m = Some (m(fst h \<mapsto> snd h))"
  using find_colon_name [of "fst h" "snd h @ [13]"] by (simp add: header_line_def header_def header_ok_def)

lemma header_lines_ok:
  "\<forall>h\<in>set hs. header_ok h \<Longrightarrow> header_lines (map header hs @ ls) m = header_lines ls (m ++ map_of (rev hs))"
proof (induction hs arbitrary: m)
  case (Cons h hs)
  have "m(fst h \<mapsto> snd h) ++ map_of (rev hs) = m ++ map_of (rev (h # hs))"
    by (cases h) (simp add: map_add_assoc [symmetric] fun_eq_iff map_add_def split: option.split)
  then show ?case using Cons by (simp add: header_line_ok)
qed simp

lemma c_string_zero: "0 \<notin> set s \<Longrightarrow> c_string (s @ 0 # mem) = Some s"
  by (simp add: c_string_def takeWhile_append)

lemma request_no_zero:
  "request_line_ok rl \<Longrightarrow> \<forall>h\<in>set hs. header_ok h \<Longrightarrow> 0 \<notin> set (request_start rl hs)"
  by (auto simp: request_start_def request_line_ok_def header_ok_def header_def crlf_def)

lemma parse_start:
  assumes rl: "request_line_ok rl" and hs: "\<forall>h\<in>set hs. header_ok h" and rest: "0 \<notin> set rest"
    and len: "2 \<le> len"
  shows "parseHandshake ((request_start rl hs @ rest) @ 0 # mem) len c =
    do { m \<leftarrow> header_lines (getlines rest) (map_of (rev hs));
         (case m (str ''Host'') of None \<Rightarrow> Some (False, c)
          | Some host \<Rightarrow> (case m (str ''Sec-WebSocket-Key'') of None \<Rightarrow> Some (False, c)
                           | Some key \<Rightarrow> Some (True, c\<lparr>m_strHost := host, m_strKey := key\<rparr>))) }"
proof -
  have "c_string ((request_start rl hs @ rest) @ 0 # mem) = Some (request_start rl hs @ rest)"
    using request_no_zero [OF rl hs] rest by (intro c_string_zero) simp
  moreover have "take 3 (rl @ [13]) = str ''GET''"
  proof -
    have "3 \<le> length rl" using rl by (auto simp: request_line_ok_def str_def dest: arg_cong [where f = length])
    then show ?thesis using rl by (simp add: request_line_ok_def)
  qed
  ultimately show ?thesis
    using len header_lines_ok [OF hs, of _ Map.empty]
    by (simp add: parseHandshake_def getlines_request [OF rl hs] Let_def)
qed

lemma bytes_of_htonl: "bytes_of (htonl w) = rev (bytes_of w)"
  unfolding htonl_def by (rule bytes_of_of_bytes) simp_all

lemma handshake_key_eq:
  assumes arrays: "length (Message_Block sha) = 64" "length a3 = 3"
    and key: "0 \<notin> set (m_strKey c)" "length (m_strKey c) \<le> 2 ^ 32"
  shows "handshake_key sha a3 c = Some (accept_key (m_strKey c))"
proof -
  let ?k = "m_strKey c @ s_key"
  have no_zero: "0 \<notin> set ?k" using key by (simp add: s_key_def str_def of_char_def)
  have "length s_key = 36" by (simp add: s_key_def str_def)
  moreover have "concat (map (\<lambda>b. [b]) xs) = xs" for xs :: "byte list" by (induction xs) simp_all
  ultimately have "fst (SHA1_Result (SHA1_put_string ?k (SHA1_ctor sha))) = Some (sha1_digest ?k)"
    using SHA1_Result_digest [OF arrays(1), of "map (\<lambda>b. [b]) ?k"] SHA1_put_string_inputs [OF no_zero] key(2) by simp
  then obtain sha' where sha': "SHA1_Result (SHA1_put_string ?k (SHA1_ctor sha)) = (Some (sha1_digest ?k), sha')"
    by (metis prod.collapse)
  have "concat (map bytes_of (map htonl (sha1_digest ?k))) = concat (map (\<lambda>w. rev (bytes_of w)) (sha1_digest ?k))"
    by (simp add: bytes_of_htonl comp_def)
  then show ?thesis
    unfolding handshake_key_def Let_def sha' prod.case
    by (simp add: base64_encode_eq [OF arrays(2)] accept_key_def)
qed

lemma header_length: "(nm, v) \<in> set hs \<Longrightarrow> length v \<le> length (request_start rl hs)"
proof (induction hs)
  case (Cons h hs)
  then show ?case by (auto simp: request_start_def header_def)
qed simp

lemma first_read_pointer:
  assumes "length chunk \<le> n" "n < 2 ^ 32"
  shows "GetReadPointer (ws_buffer (ws_load chunk (WebSocketConnect_ctor n))) = chunk @ replicate (n - length chunk) 0"
    "GetActiveSize (ws_buffer (ws_load chunk (WebSocketConnect_ctor n))) = length chunk"
proof -
  have "resize n 0 (replicate MESSAGE_BUFFER_SIZE 0) = (replicate n 0 :: byte list)"
    by (auto simp: resize_def min_def simp flip: replicate_add)
  then show "GetReadPointer (ws_buffer (ws_load chunk (WebSocketConnect_ctor n))) = chunk @ replicate (n - length chunk) 0"
    by (simp add: GetReadPointer_def ws_load_def WebSocketConnect_ctor_def WriteCompleted_def Resize_def MessageBuffer_ctor_def
        overwrite_def)
  show "GetActiveSize (ws_buffer (ws_load chunk (WebSocketConnect_ctor n))) = length chunk"
    using assms by (simp add: GetActiveSize_def ws_load_def WebSocketConnect_ctor_def WriteCompleted_def Resize_def MessageBuffer_ctor_def)
qed

lemma replicate_zero: "length chunk < n \<Longrightarrow> replicate (n - length chunk) (0 :: byte) = 0 # replicate (n - length chunk - 1) 0"
  by (simp add: Suc_diff_Suc flip: replicate_Suc)

lemma first_read:
  assumes "length chunk < n" "n < 2 ^ 32"
  shows "ws_first_read pf sha a3 n chunk =
    (let c = (ws_connection_ctor n)\<lparr>reader := ws_load chunk (reader (ws_connection_ctor n))\<rparr> in
     case parseHandshake (chunk @ 0 # replicate (n - length chunk - 1) 0) (length chunk) c of
        None \<Rightarrow> Undefined
      | Some (False, c1) \<Rightarrow> Returns (c1\<lparr>conn_events := conn_events c1 @ [ConnClose]\<rparr>)
      | Some (True, c1) \<Rightarrow>
          (case respondHandshake pf sha a3 c1 of
             None \<Rightarrow> Undefined
           | Some msg \<Rightarrow> Returns (c1\<lparr>m_isHandshake := True,
                 conn_events := conn_events c1 @ [ConnWrite (take (length msg - 1) msg), ConnHandshake]\<rparr>)))"
  using first_read_pointer [of chunk n] replicate_zero [OF assms(1)] assms
  by (simp add: ws_first_read_def ws_on_msgbuffer_def Let_def ws_connection_ctor_def)

section \<open>Properties\<close>

text \<open>C27. A well-formed opening request that arrives in the first read, in a buffer it does not fill, is accepted by
  \<open>parseHandshake\<close>, which takes the host and the key from the headers (the last header of a name counts), and the
  key that \<open>respondHandshake\<close> computes from it is the accept key of RFC 6455: the base 64 coding of the SHA-1 digest
  of the client's key and the fixed identifier, both in the sense of their standards. The arrays and the digest
  object may hold anything. The text of the answer is not part of the statement: it is made by \<open>Tools::format\<close>.\<close>

theorem ws_handshake_key:
  assumes "request_line_ok rl" and "\<forall>h\<in>set hs. header_ok h"
    and "map_of (rev hs) (str ''Host'') = Some host" and "map_of (rev hs) (str ''Sec-WebSocket-Key'') = Some key"
    and "length (request_start rl hs @ crlf) < n" and "n < 2 ^ 32"
    and "length (Message_Block sha) = 64" and "length a3 = 3"
    and "c = (ws_connection_ctor n)\<lparr>reader := ws_load (request_start rl hs @ crlf) (WebSocketConnect_ctor n)\<rparr>"
  shows "\<exists>c1. parseHandshake (GetReadPointer (ws_buffer (reader c))) (GetActiveSize (ws_buffer (reader c))) c = Some (True, c1)
    \<and> m_strHost c1 = host \<and> m_strKey c1 = key \<and> handshake_key sha a3 c1 = Some (accept_key key)"
proof -
  let ?text = "request_start rl hs @ crlf"
  have "2 \<le> length ?text" by (simp add: crlf_def)
  moreover have "getlines crlf = [[13]]" by (simp add: crlf_def getline_all.simps)
  ultimately have "parseHandshake (?text @ 0 # replicate (n - length ?text - 1) 0) (length ?text) c
      = Some (True, c\<lparr>m_strHost := host, m_strKey := key\<rparr>)"
    using parse_start [OF assms(1,2), of crlf] assms(3,4) by (simp add: crlf_def header_line_def)
  then have parse: "parseHandshake (GetReadPointer (ws_buffer (reader c))) (GetActiveSize (ws_buffer (reader c))) c
      = Some (True, c\<lparr>m_strHost := host, m_strKey := key\<rparr>)"
    using first_read_pointer [of ?text n] replicate_zero [OF assms(5)] assms(5,6) by (simp add: assms(9))
  obtain nm where key: "(nm, key) \<in> set hs" using map_of_SomeD [OF assms(4)] by auto
  then have "0 \<notin> set key" using assms(2) by (auto simp: header_ok_def)
  moreover have "length key \<le> 2 ^ 32" using header_length [OF key, of rl] assms(5,6) by simp
  ultimately have "handshake_key sha a3 (c\<lparr>m_strHost := host, m_strKey := key\<rparr>) = Some (accept_key key)"
    using handshake_key_eq [OF assms(7,8), of "c\<lparr>m_strHost := host, m_strKey := key\<rparr>"] by simp
  with parse show ?thesis by auto
qed

definition demo_platform :: platform where
  "demo_platform = \<lparr>by_value = True, behind = replicate 4096 0\<rparr>"

definition demo_headers :: "(byte list \<times> byte list) list" where
  "demo_headers = [(str ''Host'', str ''server.example.com''), (str ''Upgrade'', str ''websocket''),
     (str ''Sec-WebSocket-Key'', str ''dGhlIHNhbXBsZSBub25jZQ=='')]"

definition demo_connection :: ws_connection where
  "demo_connection = (ws_connection_ctor 4096)\<lparr>reader :=
     ws_load (request_start (str ''GET /chat HTTP/1.1'') demo_headers @ crlf) (WebSocketConnect_ctor 4096)\<rparr>"

lemma ws_handshake_key_witness:
  "\<exists>c1. parseHandshake (GetReadPointer (ws_buffer (reader demo_connection)))
      (GetActiveSize (ws_buffer (reader demo_connection))) demo_connection = Some (True, c1)
    \<and> m_strHost c1 = str ''server.example.com'' \<and> m_strKey c1 = str ''dGhlIHNhbXBsZSBub25jZQ==''
    \<and> handshake_key blank_sha1 [0, 0, 0] c1 = Some (accept_key (str ''dGhlIHNhbXBsZSBub25jZQ==''))"
proof (rule ws_handshake_key [OF _ _ _ _ _ _ _ _ demo_connection_def])
  show "request_line_ok (str ''GET /chat HTTP/1.1'')" "\<forall>h\<in>set demo_headers. header_ok h"
    by (simp_all add: request_line_ok_def str_def header_ok_def demo_headers_def of_char_def)
  show "map_of (rev demo_headers) (str ''Host'') = Some (str ''server.example.com'')"
    "map_of (rev demo_headers) (str ''Sec-WebSocket-Key'') = Some (str ''dGhlIHNhbXBsZSBub25jZQ=='')"
    by (simp_all add: demo_headers_def str_def of_char_def)
  show "length (request_start (str ''GET /chat HTTP/1.1'') demo_headers @ crlf) < 4096"
    by (simp add: request_start_def demo_headers_def header_def str_def crlf_def)
qed (simp_all add: blank_sha1_def)

text \<open>The opening request is not reassembled: if the first read ends inside of the headers before the line of the
  key is complete, the connection is reported closed and nothing is written, although the rest of the request is on
  its way.\<close>

theorem ws_handshake_split_closes:
  assumes "request_line_ok rl" and "\<forall>h\<in>set hs. header_ok h" and "str ''Sec-WebSocket-Key'' \<notin> fst ` set hs"
    and "10 \<notin> set part" and "0 \<notin> set part" and "part \<noteq> [] \<longrightarrow> last part \<noteq> 13"
    and "length (request_start rl hs @ part) < n" and "n < 2 ^ 32"
  shows "\<exists>c. ws_first_read pf sha a3 n (request_start rl hs @ part) = Returns c \<and> \<not> m_isHandshake c
    \<and> conn_events c = [ConnClose]"
proof -
  let ?text = "request_start rl hs @ part"
  define c0 where "c0 = (ws_connection_ctor n)\<lparr>reader := ws_load ?text (reader (ws_connection_ctor n))\<rparr>"
  have "2 \<le> length ?text" by (simp add: request_start_def crlf_def)
  moreover have "header_lines (getlines part) m = Some m" for m
    using getline_all_last [OF assms(4)] assms(6) by (auto simp: header_line_def)
  moreover have "map_of (rev hs) (str ''Sec-WebSocket-Key'') = None"
    using assms(3) by (simp add: map_of_eq_None_iff)
  ultimately have "parseHandshake (?text @ 0 # replicate (n - length ?text - 1) 0) (length ?text) c0 = Some (False, c0)"
    using parse_start [OF assms(1,2,5)] by (simp split: option.split)
  then show ?thesis
    unfolding first_read [OF assms(7,8)] Let_def c0_def [symmetric]
    by (simp add: c0_def ws_connection_ctor_def)
qed

lemma ws_handshake_split_closes_witness:
  "\<exists>c. ws_first_read demo_platform blank_sha1 [0, 0, 0] 4096
      (request_start (str ''GET /chat HTTP/1.1'') [(str ''Host'', str ''a'')] @ str ''Sec-WebSocket-Key: dGhlIHNh'') = Returns c
    \<and> \<not> m_isHandshake c \<and> conn_events c = [ConnClose]"
  by (rule ws_handshake_split_closes)
     (simp_all add: request_line_ok_def str_def header_ok_def of_char_def request_start_def header_def crlf_def)

text \<open>A first read that fills the whole receive buffer with non-zero octets is parsed past the end of the buffer:
  \<open>parseHandshake\<close> takes the bytes for a zero-terminated string and does not look at their number.\<close>

theorem ws_handshake_overread:
  assumes "length chunk = n" and "2 \<le> n" and "n < 2 ^ 32" and "0 \<notin> set chunk"
  shows "ws_first_read pf sha a3 n chunk = Undefined"
  using first_read_pointer [of chunk n] assms
  by (simp add: ws_first_read_def ws_on_msgbuffer_def Let_def ws_connection_ctor_def parseHandshake_def c_string_def)

lemma ws_handshake_overread_witness:
  "ws_first_read demo_platform blank_sha1 [0, 0, 0] 4096 (replicate 4096 65) = Undefined"
  by (rule ws_handshake_overread) simp_all

end
