(* ===== verification/Tcp_Send.thy ===== *)
theory Tcp_Send
  imports Net_Connect "HOL-Library.Sublist"
begin

text \<open>
  \<open>src/network/TcpSocket.h/.cpp\<close>, class \<open>TcpSocket\<close>: the send queue of a connection. Packets wait in
  \<open>mSendPackets\<close>; a batch of at most ten of them is handed to libuv in one \<open>uv_write\<close>, whose buffers
  \<open>mSending\<close> points into the packets at the front of the queue; when libuv reports the write complete
  those packets are recycled and the next batch is sent.

  \<open>sendStream\<close> and \<open>sendSize\<close> are virtual functions of the packet classes, so the operations take the
  bytes they describe as an argument \<open>send\<close>. \<open>uv_write\<close> is libuv: an operation returns the buffers it
  was called with (if it was called), and the step relation below delivers its completion.
\<close>

section \<open>The socket\<close>

definition MAX_SEND_PACKET :: nat where "MAX_SEND_PACKET = 10"
definition MAX_SEND_BYTE :: int where "MAX_SEND_BYTE = 1024"

record 'p TcpSocket =
  mSending :: "byte list list"
  mSendPackets :: "'p list"

definition TcpSocket_ctor :: "'p TcpSocket" where
  "TcpSocket_ctor = \<lparr>mSending = [], mSendPackets = []\<rparr>"

definition isSending :: "'p TcpSocket \<Rightarrow> bool" where
  "isSending s \<longleftrightarrow> mSending s \<noteq> []"

text \<open>The loop of \<open>send_top_msg\<close>: the buffers collected so far and \<open>sumsize\<close>, an \<open>int\<close>.\<close>

fun send_top_loop ::
  "('p \<Rightarrow> byte list) \<Rightarrow> 'p list \<Rightarrow> byte list list \<Rightarrow> int \<Rightarrow> byte list list \<times> int" where
  "send_top_loop send [] sending sumsize = (sending, sumsize)"
| "send_top_loop send (p # ps) sending sumsize =
     (if sumsize \<ge> MAX_SEND_BYTE then (sending, sumsize)
      else if length sending \<ge> MAX_SEND_PACKET then (sending, sumsize)
      else send_top_loop send ps (sending @ [send p]) (to_i32 (sumsize + int (length (send p)))))"

definition send_top_msg ::
  "('p \<Rightarrow> byte list) \<Rightarrow> 'p TcpSocket \<Rightarrow> 'p TcpSocket \<times> byte list list option" where
  "send_top_msg send s =
     (case send_top_loop send (mSendPackets s) (mSending s) 0 of (sending, sumsize) \<Rightarrow>
        (s\<lparr>mSending := sending\<rparr>, if sumsize > 0 then Some sending else None))"

definition TcpSocket_write ::
  "('p \<Rightarrow> byte list) \<Rightarrow> 'p \<Rightarrow> 'p TcpSocket \<Rightarrow> 'p TcpSocket \<times> byte list list option" where
  "TcpSocket_write send packet s =
     (let s1 = s\<lparr>mSendPackets := mSendPackets s @ [packet]\<rparr> in
      if \<not> isSending s1 then send_top_msg send s1 else (s1, None))"

text \<open>\<open>on_writecomplete\<close> recycles as many packets as buffers were sent; \<open>front()\<close> of an empty list is
  undefined behaviour. The recycled packets are the first component of the result.\<close>

fun recycle_front :: "nat \<Rightarrow> 'p list \<Rightarrow> ('p list \<times> 'p list) option" where
  "recycle_front 0 ps = Some ([], ps)"
| "recycle_front (Suc n) [] = None"
| "recycle_front (Suc n) (p # ps) = map_option (apfst ((#) p)) (recycle_front n ps)"

definition on_writecomplete ::
  "('p \<Rightarrow> byte list) \<Rightarrow> 'p TcpSocket \<Rightarrow> ('p list \<times> 'p TcpSocket \<times> byte list list option) option" where
  "on_writecomplete send s =
     do { (gone, rest) \<leftarrow> recycle_front (length (mSending s)) (mSendPackets s);
          Some (gone, send_top_msg send (s\<lparr>mSendPackets := rest, mSending := []\<rparr>)) }"

text \<open>\<open>release\<close>, called by the destructor and by \<open>CommPool::reclaim\<close>: the packets it recycles and the
  emptied socket.\<close>

definition TcpSocket_release :: "'p TcpSocket \<Rightarrow> 'p list \<times> 'p TcpSocket" where
  "TcpSocket_release s = (mSendPackets s, s\<lparr>mSendPackets := [], mSending := []\<rparr>)"

section \<open>The socket together with libuv\<close>

text \<open>
  What libuv documents of \<open>uv_write\<close>: the buffers of a request are written to the stream in order, and
  its callback runs once, after they have been written. \<open>writing\<close> is the request in flight, \<open>wire\<close> the
  bytes written so far; \<open>accepted\<close> and \<open>recycled\<close> record the packets given to \<open>write\<close> and those freed.
\<close>

record 'p channel =
  socket :: "'p TcpSocket"
  writing :: "byte list list option"
  wire :: "byte list"
  accepted :: "'p list"
  recycled :: "'p list"

definition channel_init :: "'p channel" where
  "channel_init = \<lparr>socket = TcpSocket_ctor, writing = None, wire = [], accepted = [], recycled = []\<rparr>"

text \<open>A call of \<open>uv_write\<close> while a request is in flight would queue a second one on the same
  \<open>m_write_t\<close>; that state is an error of the model, \<open>None\<close>.\<close>

definition issue :: "byte list list option \<Rightarrow> 'p channel \<Rightarrow> 'p channel option" where
  "issue req c =
     (case req of None \<Rightarrow> Some c
      | Some bufs \<Rightarrow> (if writing c = None then Some (c\<lparr>writing := Some bufs\<rparr>) else None))"

definition app_write :: "('p \<Rightarrow> byte list) \<Rightarrow> 'p \<Rightarrow> 'p channel \<Rightarrow> 'p channel option" where
  "app_write send p c =
     (let (s, req) = TcpSocket_write send p (socket c) in
      issue req (c\<lparr>accepted := accepted c @ [p], socket := s\<rparr>))"

definition uv_complete :: "('p \<Rightarrow> byte list) \<Rightarrow> 'p channel \<Rightarrow> 'p channel option" where
  "uv_complete send c =
     (case writing c of None \<Rightarrow> Some c
      | Some bufs \<Rightarrow>
          do { (gone, s, req) \<leftarrow> on_writecomplete send (socket c);
               issue req (c\<lparr>writing := None, wire := wire c @ concat bufs,
                            recycled := recycled c @ gone, socket := s\<rparr>) })"

datatype 'p tcp_event = App_write 'p | Uv_complete

fun channel_step :: "('p \<Rightarrow> byte list) \<Rightarrow> 'p tcp_event \<Rightarrow> 'p channel \<Rightarrow> 'p channel option" where
  "channel_step send (App_write p) c = app_write send p c"
| "channel_step send Uv_complete c = uv_complete send c"

fun tcp_run :: "('p \<Rightarrow> byte list) \<Rightarrow> 'p tcp_event list \<Rightarrow> 'p channel \<Rightarrow> 'p channel option" where
  "tcp_run send [] c = Some c"
| "tcp_run send (e # es) c = Option.bind (channel_step send e c) (tcp_run send es)"

text \<open>The packets an application writes in a run.\<close>

fun written :: "'p tcp_event list \<Rightarrow> 'p list" where
  "written [] = []"
| "written (App_write p # es) = p # written es"
| "written (Uv_complete # es) = written es"

section \<open>One batch\<close>

definition small :: "('p \<Rightarrow> byte list) \<Rightarrow> 'p \<Rightarrow> bool" where
  "small send p \<longleftrightarrow> length (send p) < 2 ^ 30"

definition sendable :: "('p \<Rightarrow> byte list) \<Rightarrow> 'p \<Rightarrow> bool" where
  "sendable send p \<longleftrightarrow> send p \<noteq> [] \<and> small send p"

text \<open>A batch is the streams of a prefix of the queue, of at most ten packets; all but its last packet
  together stay below the byte limit.\<close>

definition batch_of :: "('p \<Rightarrow> byte list) \<Rightarrow> 'p list \<Rightarrow> byte list list \<Rightarrow> bool" where
  "batch_of send ps bufs \<longleftrightarrow> bufs = map send (take (length bufs) ps)
     \<and> length bufs \<le> length ps \<and> length bufs \<le> MAX_SEND_PACKET
     \<and> (bufs \<noteq> [] \<longrightarrow> int (length (concat (butlast bufs))) < MAX_SEND_BYTE)"

lemma send_top_loop_batch:
  assumes "\<forall>p\<in>set ps. small send p" and "sumsize = int (length (concat bufs))"
    and "bufs \<noteq> [] \<longrightarrow> int (length (concat (butlast bufs))) < MAX_SEND_BYTE"
    and "length bufs \<le> MAX_SEND_PACKET"
  shows "\<exists>k. send_top_loop send ps bufs sumsize
      = (bufs @ map send (take k ps), int (length (concat (bufs @ map send (take k ps)))))
    \<and> k \<le> length ps \<and> length bufs + k \<le> MAX_SEND_PACKET
    \<and> (bufs @ map send (take k ps) \<noteq> [] \<longrightarrow>
         int (length (concat (butlast (bufs @ map send (take k ps))))) < MAX_SEND_BYTE)
    \<and> (ps \<noteq> [] \<longrightarrow> bufs = [] \<longrightarrow> 0 < k)"
  using assms
proof (induction ps arbitrary: bufs sumsize)
  case (Cons p ps)
  show ?case
  proof (cases "sumsize \<ge> MAX_SEND_BYTE \<or> length bufs \<ge> MAX_SEND_PACKET")
    case True
    with Cons.prems show ?thesis
      by (intro exI [of _ 0]) (auto simp: MAX_SEND_BYTE_def MAX_SEND_PACKET_def)
  next
    case False
    have sum: "to_i32 (sumsize + int (length (send p))) = int (length (concat (bufs @ [send p])))"
      using False Cons.prems(1,2) by (simp add: to_i32_id small_def MAX_SEND_BYTE_def)
    have "\<exists>k. send_top_loop send ps (bufs @ [send p]) (int (length (concat (bufs @ [send p]))))
        = ((bufs @ [send p]) @ map send (take k ps),
           int (length (concat ((bufs @ [send p]) @ map send (take k ps)))))
      \<and> k \<le> length ps \<and> length (bufs @ [send p]) + k \<le> MAX_SEND_PACKET
      \<and> ((bufs @ [send p]) @ map send (take k ps) \<noteq> [] \<longrightarrow>
           int (length (concat (butlast ((bufs @ [send p]) @ map send (take k ps))))) < MAX_SEND_BYTE)
      \<and> (ps \<noteq> [] \<longrightarrow> bufs @ [send p] = [] \<longrightarrow> 0 < k)"
      using Cons.prems False by (intro Cons.IH) auto
    then obtain k where
      "send_top_loop send ps (bufs @ [send p]) (int (length (concat (bufs @ [send p]))))
        = ((bufs @ [send p]) @ map send (take k ps),
           int (length (concat ((bufs @ [send p]) @ map send (take k ps)))))"
      "k \<le> length ps" "length (bufs @ [send p]) + k \<le> MAX_SEND_PACKET"
      "int (length (concat (butlast ((bufs @ [send p]) @ map send (take k ps))))) < MAX_SEND_BYTE"
      by auto
    then show ?thesis
      using False sum by (intro exI [of _ "Suc k"]) simp
  qed
qed (auto simp: MAX_SEND_PACKET_def)

lemma send_top_msg_batch:
  assumes "\<forall>p\<in>set (mSendPackets s). small send p" and "mSending s = []"
  shows "\<exists>bufs. send_top_msg send s =
      (s\<lparr>mSending := bufs\<rparr>, if concat bufs = [] then None else Some bufs)
    \<and> batch_of send (mSendPackets s) bufs \<and> (mSendPackets s \<noteq> [] \<longrightarrow> bufs \<noteq> [])"
proof -
  from send_top_loop_batch [OF assms(1), of 0 "[]"]
  obtain k where k: "send_top_loop send (mSendPackets s) [] 0 = (map send (take k (mSendPackets s)),
      int (length (concat (map send (take k (mSendPackets s))))))"
    "k \<le> length (mSendPackets s)" "k \<le> MAX_SEND_PACKET"
    "map send (take k (mSendPackets s)) \<noteq> [] \<longrightarrow>
       int (length (concat (butlast (map send (take k (mSendPackets s)))))) < MAX_SEND_BYTE"
    "mSendPackets s \<noteq> [] \<longrightarrow> 0 < k"
    by (auto simp: MAX_SEND_PACKET_def)
  let ?b = "map send (take k (mSendPackets s))"
  have "batch_of send (mSendPackets s) ?b"
    using k by (simp add: batch_of_def min_absorb2)
  moreover have "mSendPackets s \<noteq> [] \<longrightarrow> ?b \<noteq> []" using k(5) by auto
  moreover have "0 < int (length (concat ?b)) \<longleftrightarrow> concat ?b \<noteq> []" by (simp only: of_nat_0_less_iff length_greater_0_conv)
  ultimately show ?thesis
    using assms(2) k(1) by (intro exI [of _ ?b]) (simp add: send_top_msg_def)
qed

lemma recycle_front_batch:
  "n \<le> length ps \<Longrightarrow> recycle_front n ps = Some (take n ps, drop n ps)"
  by (induction n ps rule: recycle_front.induct) auto

section \<open>The invariant\<close>

text \<open>The packets accepted are those recycled followed by those queued; exactly the recycled ones are on
  the wire, and the request in flight is the batch at the front of the queue.\<close>

definition channel_inv :: "('p \<Rightarrow> byte list) \<Rightarrow> 'p channel \<Rightarrow> bool" where
  "channel_inv send c \<longleftrightarrow>
     accepted c = recycled c @ mSendPackets (socket c)
   \<and> wire c = concat (map send (recycled c))
   \<and> batch_of send (mSendPackets (socket c)) (mSending (socket c))
   \<and> (mSendPackets (socket c) \<noteq> [] \<longrightarrow> mSending (socket c) \<noteq> [])
   \<and> writing c = (if mSending (socket c) = [] then None else Some (mSending (socket c)))"

lemma batch_not_empty:
  assumes "batch_of send ps bufs" and "\<forall>p\<in>set ps. sendable send p" and "bufs \<noteq> []"
  shows "concat bufs \<noteq> []"
proof -
  have "hd bufs \<in> set (map send (take (length bufs) ps))"
    using assms(1,3) by (metis batch_of_def list.set_sel(1))
  then obtain p where "p \<in> set ps" "hd bufs = send p" by (auto dest: in_set_takeD)
  then have "hd bufs \<noteq> []" using assms(2) by (simp add: sendable_def)
  then show ?thesis using assms(3) by (cases bufs) auto
qed

lemma batch_append: "batch_of send ps bufs \<Longrightarrow> batch_of send (ps @ qs) bufs"
  by (simp add: batch_of_def)

lemma send_next:
  assumes "mSending s = []" and "\<forall>p\<in>set (mSendPackets s). sendable send p"
    and "writing c = None" and "accepted c = recycled c @ mSendPackets s"
    and "wire c = concat (map send (recycled c))"
  shows "\<exists>c'. issue (snd (send_top_msg send s)) (c\<lparr>socket := fst (send_top_msg send s)\<rparr>) = Some c'
    \<and> channel_inv send c' \<and> accepted c' = accepted c \<and> recycled c' = recycled c"
proof -
  have "\<forall>p\<in>set (mSendPackets s). small send p" using assms(2) by (simp add: sendable_def)
  from send_top_msg_batch [OF this assms(1)] obtain bufs where
    b: "send_top_msg send s = (s\<lparr>mSending := bufs\<rparr>, if concat bufs = [] then None else Some bufs)"
      "batch_of send (mSendPackets s) bufs" "mSendPackets s \<noteq> [] \<longrightarrow> bufs \<noteq> []" by blast
  show ?thesis
  proof (cases "bufs = []")
    case True
    then show ?thesis using b assms by (simp add: issue_def channel_inv_def)
  next
    case False
    then have "concat bufs \<noteq> []" using batch_not_empty [OF b(2) assms(2)] by simp
    then show ?thesis using b assms False by (simp add: issue_def channel_inv_def del: concat_eq_Nil_conv)
  qed
qed

lemma app_write_inv:
  assumes "channel_inv send c" and "\<forall>p\<in>set (accepted c). sendable send p" and "sendable send p"
  shows "\<exists>c'. app_write send p c = Some c' \<and> channel_inv send c' \<and> accepted c' = accepted c @ [p]
    \<and> recycled c' = recycled c"
proof (cases "isSending (socket c)")
  case True
  then show ?thesis using assms(1)
    by (simp add: app_write_def TcpSocket_write_def isSending_def issue_def channel_inv_def batch_append)
next
  case False
  then have idle: "mSending (socket c) = []" "mSendPackets (socket c) = []"
    using assms(1) by (auto simp: isSending_def channel_inv_def)
  define s where "s = socket c\<lparr>mSendPackets := [p]\<rparr>"
  have w: "TcpSocket_write send p (socket c) = send_top_msg send s"
    using False idle by (simp add: TcpSocket_write_def isSending_def s_def)
  have "\<exists>c'. issue (snd (send_top_msg send s))
        (c\<lparr>accepted := accepted c @ [p]\<rparr>\<lparr>socket := fst (send_top_msg send s)\<rparr>) = Some c'
      \<and> channel_inv send c' \<and> accepted c' = accepted (c\<lparr>accepted := accepted c @ [p]\<rparr>)
      \<and> recycled c' = recycled (c\<lparr>accepted := accepted c @ [p]\<rparr>)"
    by (rule send_next) (use assms idle in \<open>auto simp: channel_inv_def s_def\<close>)
  then show ?thesis by (simp add: app_write_def w Let_def split_beta)
qed

lemma uv_complete_inv:
  assumes "channel_inv send c" and "\<forall>p\<in>set (accepted c). sendable send p"
  shows "\<exists>c'. uv_complete send c = Some c' \<and> channel_inv send c' \<and> accepted c' = accepted c
    \<and> recycled c' = recycled c @ take (length (mSending (socket c))) (mSendPackets (socket c))"
proof (cases "mSending (socket c) = []")
  case True
  then show ?thesis using assms(1)
    by (intro exI [of _ c]) (auto simp: uv_complete_def channel_inv_def)
next
  case False
  let ?n = "length (mSending (socket c))" and ?ps = "mSendPackets (socket c)"
  define s where "s = socket c\<lparr>mSendPackets := drop ?n ?ps, mSending := []\<rparr>"
  define c1 where "c1 = c\<lparr>writing := None, wire := wire c @ concat (mSending (socket c)),
    recycled := recycled c @ take ?n ?ps\<rparr>"
  have n: "?n \<le> length ?ps" and m: "mSending (socket c) = map send (take ?n ?ps)"
    and acc: "accepted c = recycled c @ ?ps" and wr: "writing c = Some (mSending (socket c))"
    and wi: "wire c = concat (map send (recycled c))"
    using assms(1) False by (auto simp: channel_inv_def batch_of_def)
  have w: "on_writecomplete send (socket c) = Some (take ?n ?ps, send_top_msg send s)"
    using n by (simp add: on_writecomplete_def recycle_front_batch s_def)
  have "\<exists>c'. issue (snd (send_top_msg send s)) (c1\<lparr>socket := fst (send_top_msg send s)\<rparr>) = Some c'
      \<and> channel_inv send c' \<and> accepted c' = accepted c1 \<and> recycled c' = recycled c1"
  proof (rule send_next)
    show "\<forall>p\<in>set (mSendPackets s). sendable send p"
      using assms(2) acc by (auto simp: s_def dest: in_set_dropD)
    show "wire c1 = concat (map send (recycled c1))" using m wi by (simp add: c1_def)
  qed (simp_all add: s_def c1_def acc)
  then show ?thesis using wr w by (simp add: uv_complete_def split_beta c1_def)
qed

lemma tcp_run_inv:
  assumes "channel_inv send c" and "\<forall>p\<in>set (accepted c) \<union> set (written es). sendable send p"
  shows "\<exists>c'. tcp_run send es c = Some c' \<and> channel_inv send c' \<and> accepted c' = accepted c @ written es"
  using assms
proof (induction es arbitrary: c)
  case (Cons e es)
  show ?case
  proof (cases e)
    case (App_write p)
    with app_write_inv [of send c p] Cons.prems obtain c1 where
      "app_write send p c = Some c1" "channel_inv send c1" "accepted c1 = accepted c @ [p]" by auto
    then show ?thesis using Cons.IH [of c1] Cons.prems App_write by auto
  next
    case Uv_complete
    with uv_complete_inv [of send c] Cons.prems obtain c1 where
      "uv_complete send c = Some c1" "channel_inv send c1" "accepted c1 = accepted c" by auto
    then show ?thesis using Cons.IH [of c1] Cons.prems Uv_complete by auto
  qed
qed simp

lemma channel_init_inv: "channel_inv send channel_init" "accepted channel_init = []"
  by (simp_all add: channel_inv_def channel_init_def TcpSocket_ctor_def batch_of_def)

section \<open>Draining\<close>

lemma accepted_length:
  "channel_inv send c \<Longrightarrow> length (accepted c) = length (recycled c) + length (mSendPackets (socket c))"
  by (simp add: channel_inv_def)

text \<open>Each completion recycles at least one packet of a non-empty queue.\<close>

lemma drain:
  assumes "channel_inv send c" and "\<forall>p\<in>set (accepted c). sendable send p"
    and "length (mSendPackets (socket c)) \<le> n"
  shows "\<exists>c'. tcp_run send (replicate n Uv_complete) c = Some c' \<and> channel_inv send c'
    \<and> accepted c' = accepted c \<and> mSendPackets (socket c') = []"
  using assms
proof (induction n arbitrary: c)
  case (Suc n)
  from uv_complete_inv [OF Suc.prems(1,2)] obtain c1 where
    c1: "uv_complete send c = Some c1" "channel_inv send c1" "accepted c1 = accepted c"
      "recycled c1 = recycled c @ take (length (mSending (socket c))) (mSendPackets (socket c))"
    by blast
  have "length (accepted c) = length (recycled c) + length (mSendPackets (socket c))"
    and "length (accepted c) = length (recycled c1) + length (mSendPackets (socket c1))"
    using accepted_length [OF Suc.prems(1)] accepted_length [OF c1(2)] c1(3) by simp_all
  moreover have "length (recycled c1) = length (recycled c)
      + min (length (mSendPackets (socket c))) (length (mSending (socket c)))"
    by (simp add: c1(4))
  moreover have "mSendPackets (socket c) = [] \<or> 0 < length (mSending (socket c))"
    using Suc.prems(1) by (auto simp: channel_inv_def)
  ultimately have "length (mSendPackets (socket c1)) \<le> n" using Suc.prems(3)
    by (cases "length (mSendPackets (socket c)) \<le> length (mSending (socket c))")
      (auto simp: min_absorb1 min_absorb2 simp flip: length_greater_0_conv)
  with Suc.IH [of c1] c1(2,3) Suc.prems(2) have
    "\<exists>c'. tcp_run send (replicate n Uv_complete) c1 = Some c' \<and> channel_inv send c'
      \<and> accepted c' = accepted c \<and> mSendPackets (socket c') = []" by simp
  then show ?case by (simp add: c1(1))
qed simp

lemma tcp_run_append:
  "tcp_run send (es @ es') c = Option.bind (tcp_run send es c) (tcp_run send es')"
  by (induction es arbitrary: c) (auto split: bind_splits)

text \<open>All packets written so far are on the wire after as many completions as there were packets.\<close>

lemma drained:
  assumes "\<forall>p\<in>set (written es). sendable send p"
  shows "\<exists>c. tcp_run send (es @ replicate (length (written es)) Uv_complete) channel_init = Some c
    \<and> channel_inv send c \<and> mSendPackets (socket c) = [] \<and> recycled c = written es"
proof -
  from tcp_run_inv [of send channel_init es] assms obtain c1 where
    c1: "tcp_run send es channel_init = Some c1" "channel_inv send c1" "accepted c1 = written es"
    by (auto simp: channel_init_inv)
  then have "length (mSendPackets (socket c1)) \<le> length (written es)"
    by (auto simp: channel_inv_def dest: arg_cong [where f = length])
  with drain [of send c1 "length (written es)"] c1 assms obtain c where
    "tcp_run send (replicate (length (written es)) Uv_complete) c1 = Some c" "channel_inv send c"
    "accepted c = written es" "mSendPackets (socket c) = []" by auto
  then show ?thesis using c1(1) by (auto simp: tcp_run_append channel_inv_def)
qed

text \<open>A socket that holds a batch but has no request in flight never sends again.\<close>

lemma stuck_forever:
  assumes "mSending (socket c) \<noteq> []" and "writing c = None"
  shows "\<exists>c'. tcp_run send es c = Some c' \<and> wire c' = wire c \<and> writing c' = None
    \<and> recycled c' = recycled c \<and> mSending (socket c') \<noteq> []"
  using assms
proof (induction es arbitrary: c)
  case (Cons e es)
  show ?case
  proof (cases e)
    case (App_write p)
    define c1 where "c1 = c\<lparr>accepted := accepted c @ [p],
      socket := socket c\<lparr>mSendPackets := mSendPackets (socket c) @ [p]\<rparr>\<rparr>"
    have "app_write send p c = Some c1"
      using Cons.prems(1)
      by (simp add: app_write_def TcpSocket_write_def isSending_def issue_def c1_def)
    then show ?thesis using Cons.IH [of c1] Cons.prems App_write by (simp add: c1_def)
  next
    case Uv_complete
    then show ?thesis using Cons by (simp add: uv_complete_def)
  qed
qed simp

section \<open>Properties\<close>

text \<open>C7. The send queue is a reliable FIFO for packets that are not empty (and shorter than \<open>2 ^ 30\<close> bytes): whatever the order
  of writes and completions, no second
  request is issued while one is in flight, no packet is taken from an empty queue, and the bytes on the
  wire are the streams of exactly the packets recycled so far, which are a prefix of the packets written;
  the request in flight holds the next packets, at most ten of them.\<close>

theorem tcp_send_fifo:
  assumes "\<forall>p\<in>set (written es). sendable send p"
  shows "\<exists>c. tcp_run send es channel_init = Some c
    \<and> written es = recycled c @ mSendPackets (socket c)
    \<and> wire c = concat (map send (recycled c))
    \<and> length (mSending (socket c)) \<le> 10
    \<and> (mSendPackets (socket c) \<noteq> [] \<longrightarrow>
         writing c = Some (map send (take (length (mSending (socket c))) (mSendPackets (socket c))))
         \<and> length (concat (butlast (mSending (socket c)))) < 1024)"
proof -
  from tcp_run_inv [of send channel_init es] assms obtain c where
    "tcp_run send es channel_init = Some c" "channel_inv send c" "accepted c = written es"
    by (auto simp: channel_init_inv)
  then show ?thesis
    by (intro exI [of _ c]) (auto simp: channel_inv_def batch_of_def MAX_SEND_PACKET_def MAX_SEND_BYTE_def)
qed

theorem tcp_send_fifo_witness:
  "\<exists>c. tcp_run (\<lambda>p. [p, p]) [App_write 1, App_write 2, Uv_complete, App_write 3] channel_init = Some c
    \<and> [1, 2, 3] = recycled c @ mSendPackets (socket c)
    \<and> wire c = concat (map (\<lambda>p. [p, p]) (recycled c))
    \<and> length (mSending (socket c)) \<le> 10
    \<and> (mSendPackets (socket c) \<noteq> [] \<longrightarrow>
         writing c = Some (map (\<lambda>p. [p, p]) (take (length (mSending (socket c))) (mSendPackets (socket c))))
         \<and> length (concat (butlast (mSending (socket c)))) < 1024)"
  using tcp_send_fifo [of "[App_write 1, App_write 2, Uv_complete, App_write 3]" "\<lambda>p. [p, p]"]
  by (simp add: sendable_def small_def)

text \<open>C18. The send queue drains when no written packet is empty (and each is shorter than \<open>2 ^ 30\<close> bytes): once libuv has completed as many requests as packets were written, every
  packet is on the wire and recycled, and the socket is idle.\<close>

theorem tcp_send_drains:
  assumes "\<forall>p\<in>set (written es). sendable send p"
  shows "\<exists>c. tcp_run send (es @ replicate (length (written es)) Uv_complete) channel_init = Some c
    \<and> wire c = concat (map send (written es)) \<and> recycled c = written es
    \<and> mSendPackets (socket c) = [] \<and> \<not> isSending (socket c) \<and> writing c = None"
  using drained [OF assms] by (auto simp: channel_inv_def batch_of_def isSending_def)

theorem tcp_send_drains_witness:
  "\<exists>c. tcp_run (\<lambda>p. [p]) [App_write 1, App_write 2, Uv_complete, Uv_complete] channel_init = Some c
    \<and> wire c = [1, 2] \<and> recycled c = [1, 2]
    \<and> mSendPackets (socket c) = [] \<and> \<not> isSending (socket c) \<and> writing c = None"
  using tcp_send_drains [of "[App_write 1, App_write 2]" "\<lambda>p. [p]"]
  by (simp add: sendable_def small_def)

text \<open>C29. An empty packet kills the connection's send side: when the queue is idle and a packet without bytes
  is written, as \<open>HttpConnect::sendMsg\<close> does for an empty message, \<open>mSending\<close> holds its buffer but no
  request is issued, so no completion ever comes and nothing that is written later is sent.\<close>

theorem tcp_empty_packet_blocks:
  assumes "\<forall>p\<in>set (written es). sendable send p" and "send e = []"
  shows "\<exists>c. tcp_run send (es @ replicate (length (written es)) Uv_complete @ App_write e # later)
      channel_init = Some c
    \<and> wire c = concat (map send (written es)) \<and> writing c = None \<and> recycled c = written es"
proof -
  from drained [OF assms(1)] obtain c where
    c: "tcp_run send (es @ replicate (length (written es)) Uv_complete) channel_init = Some c"
      "channel_inv send c" "mSendPackets (socket c) = []" "recycled c = written es" by blast
  then have idle: "mSending (socket c) = []" "writing c = None" "wire c = concat (map send (written es))"
    by (auto simp: channel_inv_def batch_of_def)
  define c1 where "c1 = c\<lparr>accepted := accepted c @ [e],
    socket := socket c\<lparr>mSendPackets := [e], mSending := [send e]\<rparr>\<rparr>"
  have "app_write send e c = Some c1"
    using idle c(3) assms(2) by (simp add: app_write_def TcpSocket_write_def isSending_def issue_def
        send_top_msg_def MAX_SEND_BYTE_def MAX_SEND_PACKET_def to_i32_id c1_def)
  then show ?thesis
    using stuck_forever [of c1 send later] c idle
    by (simp add: tcp_run_append c1_def flip: append_assoc) (auto simp: c1_def tcp_run_append)
qed

theorem tcp_empty_packet_blocks_witness:
  "\<exists>c. tcp_run id [App_write [1], Uv_complete, App_write [], App_write [2], Uv_complete] channel_init = Some c
    \<and> wire c = [1] \<and> writing c = None \<and> recycled c = [[1]]"
  using tcp_empty_packet_blocks [of "[App_write [1]]" id "[]" "[App_write [2], Uv_complete]"]
  by (simp add: sendable_def small_def)

section \<open>From one connection to the other\<close>

lemma sendMsg_bytes_encodes:
  assumes "length msg < 2 ^ 30"
  shows "\<exists>p. sendMsg_bytes t msg = Some p \<and> NetPacket_sendBytes p = encode_msg (t, msg)"
proof -
  let ?p = "\<lparr>rpos = 8, wpos = 8 + length msg, storage = replicate 8 0 @ msg\<rparr>"
  have "append msg NetConnect_createPacket = Some ?p"
    by (simp add: NetConnect_createPacket_def NetPacket_ctor_eq append_tight tight_def)
  moreover from writeHead_bytes [of ?p t] assms obtain p' where
    "NetPacket_writeHead t ?p = Some p'" "NetPacket_sendBytes p' = encode_msg (t, msg)"
    by (auto simp: tight_def)
  ultimately show ?thesis by (simp add: sendMsg_bytes_def)
qed

text \<open>The packets that \<open>sendMsg\<close> builds for a list of messages.\<close>

definition packets_of :: "(int \<times> byte list) list \<Rightarrow> NetPacket list" where
  "packets_of ms = map (\<lambda>m. the (sendMsg_bytes (fst m) (snd m))) ms"

definition msg_sendable :: "int \<times> byte list \<Rightarrow> bool" where
  "msg_sendable m \<longleftrightarrow> - (2 ^ 31) \<le> fst m \<and> fst m < 2 ^ 31 \<and> length (snd m) < 2 ^ 29"

lemma packets_of_sendBytes:
  assumes "\<forall>m\<in>set ms. msg_sendable m"
  shows "map NetPacket_sendBytes (packets_of ms) = map encode_msg ms"
    and "\<forall>p\<in>set (packets_of ms). sendable NetPacket_sendBytes p" and "\<forall>m\<in>set ms. msg_valid m"
proof -
  have e: "NetPacket_sendBytes (the (sendMsg_bytes (fst m) (snd m))) = encode_msg m \<and> msg_valid m
    \<and> length (encode_msg m) = 8 + length (snd m) \<and> length (snd m) < 2 ^ 29" if "m \<in> set ms" for m
  proof -
    have "msg_valid m" and l: "length (snd m) < 2 ^ 29"
      using assms that by (auto simp: msg_valid_def msg_sendable_def)
    with sendMsg_bytes_encodes [of "snd m" "fst m"] encode_msg_facts(1) [of m] show ?thesis by auto
  qed
  show "map NetPacket_sendBytes (packets_of ms) = map encode_msg ms"
    using e by (simp add: packets_of_def)
  have "sendable NetPacket_sendBytes (the (sendMsg_bytes (fst m) (snd m)))" if "m \<in> set ms" for m
    using e [OF that] by (auto simp: sendable_def small_def simp flip: length_greater_0_conv)
  then show "\<forall>p\<in>set (packets_of ms). sendable NetPacket_sendBytes p" by (simp add: packets_of_def)
  show "\<forall>m\<in>set ms. msg_valid m" using e by blast
qed

lemma feeds_delivered_prefix:
  "feeds frame_feed a xs = Some b \<Longrightarrow> prefix (fst a) (fst b)"
proof (induction xs arbitrary: a)
  case (Cons x xs)
  then obtain a1 where "frame_feed a x = Some a1" "feeds frame_feed a1 xs = Some b"
    by (auto simp: bind_eq_Some_conv)
  moreover from this(1) have "prefix (fst a) (fst a1)"
    by (auto simp: frame_feed_def split: prod.splits if_splits)
  ultimately show ?case using Cons.IH prefix_order.trans by blast
qed simp

lemma settled_prefix: "prefix (fst (settled ms)) ms"
  by (simp add: settled_def prefix_def) (metis append_butlast_last_id)

text \<open>C1. From \<open>sendMsg\<close> to \<open>onMsg\<close>: two connections joined by a byte stream. Whatever the interleaving of
  calls of \<open>sendMsg\<close> with write completions, and however much of the written stream has arrived in
  whatever pieces, the receiver has called \<open>onMsg\<close> for a prefix of the sent messages, in order; once the
  sender is idle and the whole stream has arrived, for all of them, provided that the last one has a body.
  (Bodies are shorter than \<open>2 ^ 29\<close> bytes, reads and buffer shorter than \<open>2 ^ 31\<close>.)\<close>

theorem net_send_to_receive:
  assumes "\<forall>m\<in>set ms. msg_sendable m" and "written es = packets_of ms"
    and "tcp_run NetPacket_sendBytes es channel_init = Some ch"
    and "concat chunks @ unread_bytes = wire ch" and "\<forall>chunk\<in>set chunks. chunk_ok bsize chunk"
    and "bsize < 2 ^ 31" and "2 * bsize + 1 \<le> fuel"
  shows "\<exists>c. echo_reads fuel chunks (NetConnect_ctor bsize) = Returns c \<and> prefix (delivered c) ms
    \<and> (unread_bytes = [] \<and> mSendPackets (socket ch) = [] \<and> (ms = [] \<or> snd (last ms) \<noteq> [])
         \<longrightarrow> delivered c = ms)"
proof -
  note pk = packets_of_sendBytes [OF assms(1)]
  from tcp_run_inv [of NetPacket_sendBytes channel_init es] pk(2) assms(2,3)
  have inv: "channel_inv NetPacket_sendBytes ch" and acc: "accepted ch = packets_of ms"
    by (auto simp: channel_init_inv)
  define k where "k = length (recycled ch)"
  have rec: "recycled ch = take k (packets_of ms)"
    using inv acc by (simp add: channel_inv_def k_def)
  have w: "wire ch = concat (map encode_msg (take k ms))"
    using inv pk(1) rec by (simp add: channel_inv_def take_map [symmetric])
  have all: "mSendPackets (socket ch) = [] \<Longrightarrow> take k ms = ms"
    using accepted_length [OF inv] acc by (simp add: k_def packets_of_def)
  have v: "\<forall>m\<in>set (take k ms). msg_valid m" using pk(3) by (auto dest: in_set_takeD)
  have "feeds frame_feed ([], []) (concat chunks @ unread_bytes) = Some (settled (take k ms))"
    using feeds_stream [OF v] assms(4) w by simp
  then obtain a where a: "feeds frame_feed ([], []) (concat chunks) = Some a"
      "feeds frame_feed a unread_bytes = Some (settled (take k ms))"
    by (auto simp: feeds_append bind_eq_Some_conv)
  from echo_reads_returns [OF NetConnect_ctor_idle(1) [OF assms(6)] assms(5) _ assms(7), of a]
  obtain c where c: "echo_reads fuel chunks (NetConnect_ctor bsize) = Returns c" "frame_state c = a"
    using a(1) by (auto simp: NetConnect_ctor_idle)
  have "prefix (fst a) (take k ms)"
    using feeds_delivered_prefix [OF a(2)] settled_prefix prefix_order.trans by blast
  then have "prefix (delivered c) ms"
    using c(2) take_is_prefix [of k ms] prefix_order.trans by (auto simp: frame_state_def)
  moreover have "delivered c = ms" if "unread_bytes = []" "mSendPackets (socket ch) = []"
    "ms = [] \<or> snd (last ms) \<noteq> []"
    using that all a(2) c(2) by (auto simp: settled_def frame_state_def)
  ultimately show ?thesis using c(1) by blast
qed

theorem net_send_to_receive_witness:
  "\<exists>c ch. tcp_run NetPacket_sendBytes (map App_write (packets_of [(7, [1, 2])]) @ [Uv_complete]) channel_init = Some ch
    \<and> echo_reads 8193 [take 5 (wire ch), drop 5 (wire ch)] (NetConnect_ctor 4096) = Returns c
    \<and> delivered c = [(7, [1, 2])]"
proof -
  let ?ms = "[(7, [1, 2])] :: (int \<times> byte list) list"
  let ?es = "map App_write (packets_of ?ms) @ [Uv_complete]"
  have w: "written ?es = packets_of ?ms" by (simp add: packets_of_def)
  have m: "\<forall>m\<in>set ?ms. msg_sendable m" by (simp add: msg_sendable_def)
  have d: "?es = map App_write (packets_of ?ms) @ replicate (length (packets_of ?ms)) Uv_complete"
    by (simp add: packets_of_def)
  have w1: "written (map App_write (packets_of ?ms)) = packets_of ?ms" by (simp add: packets_of_def)
  from drained [of "map App_write (packets_of ?ms)" NetPacket_sendBytes] packets_of_sendBytes [OF m]
  obtain ch where ch: "tcp_run NetPacket_sendBytes ?es channel_init = Some ch"
    "mSendPackets (socket ch) = []" "wire ch = concat (map encode_msg ?ms)"
    unfolding d w1 by (auto simp: channel_inv_def)
  have "length (wire ch) = 10" by (simp add: ch(3) encode_msg_def)
  then have k: "\<forall>chunk\<in>set [take 5 (wire ch), drop 5 (wire ch)]. chunk_ok 4096 chunk"
    by (auto simp: chunk_ok_def simp flip: length_greater_0_conv)
  from net_send_to_receive [OF m w ch(1) _ k, of "[]" 8193] ch(2) show ?thesis
    using ch(1) by auto
qed

end
