(* ===== verification/Url_Parser.thy ===== *)
theory Url_Parser
  imports Prelude
begin

text \<open>
  The URL parser: \<open>parse_url_char\<close>, \<open>http_parse_host_char\<close>, \<open>http_parse_host\<close> and \<open>http_parser_parse_url\<close> of
  \<open>src/utils/http_parser.cpp\<close> (compiled with \<open>HTTP_PARSER_STRICT\<close>), and the class \<open>ParseUrl\<close>
  (\<open>src/utils/ParseUrl.h/.cpp\<close>) through which an HTTP connection reads the path and the parameters of a
  request. Characters are bytes; a \<open>char\<close> of 128 and above is in no character class.
\<close>

section \<open>Character classes\<close>

abbreviation (input) ch_tab :: byte where "ch_tab \<equiv> 9"
abbreviation (input) ch_lf :: byte where "ch_lf \<equiv> 10"
abbreviation (input) ch_ff :: byte where "ch_ff \<equiv> 12"
abbreviation (input) ch_cr :: byte where "ch_cr \<equiv> 13"
abbreviation (input) ch_space :: byte where "ch_space \<equiv> 32"
abbreviation (input) ch_hash :: byte where "ch_hash \<equiv> 35"
abbreviation (input) ch_percent :: byte where "ch_percent \<equiv> 37"
abbreviation (input) ch_star :: byte where "ch_star \<equiv> 42"
abbreviation (input) ch_minus :: byte where "ch_minus \<equiv> 45"
abbreviation (input) ch_dot :: byte where "ch_dot \<equiv> 46"
abbreviation (input) ch_slash :: byte where "ch_slash \<equiv> 47"
abbreviation (input) ch_0 :: byte where "ch_0 \<equiv> 48"
abbreviation (input) ch_colon :: byte where "ch_colon \<equiv> 58"
abbreviation (input) ch_question :: byte where "ch_question \<equiv> 63"
abbreviation (input) ch_at :: byte where "ch_at \<equiv> 64"
abbreviation (input) ch_lbracket :: byte where "ch_lbracket \<equiv> 91"
abbreviation (input) ch_rbracket :: byte where "ch_rbracket \<equiv> 93"
abbreviation (input) ch_underscore :: byte where "ch_underscore \<equiv> 95"
abbreviation (input) ch_tilde :: byte where "ch_tilde \<equiv> 126"

definition LOWER :: "byte \<Rightarrow> byte" where "LOWER c = c OR 0x20"

text \<open>\<open>'a'\<close> to \<open>'z'\<close>, \<open>'0'\<close> to \<open>'9'\<close>, \<open>'a'\<close> to \<open>'f'\<close>.\<close>

definition IS_ALPHA :: "byte \<Rightarrow> bool" where "IS_ALPHA c \<longleftrightarrow> LOWER c \<ge> 97 \<and> LOWER c \<le> 122"
definition IS_NUM :: "byte \<Rightarrow> bool" where "IS_NUM c \<longleftrightarrow> c \<ge> 48 \<and> c \<le> 57"
definition IS_ALPHANUM :: "byte \<Rightarrow> bool" where "IS_ALPHANUM c \<longleftrightarrow> IS_ALPHA c \<or> IS_NUM c"
definition IS_HEX :: "byte \<Rightarrow> bool" where "IS_HEX c \<longleftrightarrow> IS_NUM c \<or> (LOWER c \<ge> 97 \<and> LOWER c \<le> 102)"

text \<open>\<open>- _ . ! ~ * ' ( )\<close> and \<open>% ; : & = + $ ,\<close>.\<close>

definition IS_MARK :: "byte \<Rightarrow> bool" where
  "IS_MARK c \<longleftrightarrow> c \<in> {ch_minus, ch_underscore, ch_dot, 33, ch_tilde, ch_star, 39, 40, 41}"

definition IS_USERINFO_CHAR :: "byte \<Rightarrow> bool" where
  "IS_USERINFO_CHAR c \<longleftrightarrow> IS_ALPHANUM c \<or> IS_MARK c
     \<or> c \<in> {ch_percent, 59, ch_colon, 38, 61, 43, 36, 44}"

definition IS_HOST_CHAR :: "byte \<Rightarrow> bool" where
  "IS_HOST_CHAR c \<longleftrightarrow> IS_ALPHANUM c \<or> c = ch_dot \<or> c = ch_minus"

definition normal_url_char :: "byte list" where
  "normal_url_char =
     [0, 0, 0, 0,
      0 OR 2 OR 4 OR 0 OR 16 OR 32 OR 64 OR 128,
      1 OR 2 OR 4 OR 8 OR 16 OR 32 OR 64 OR 128,
      1 OR 2 OR 4 OR 8 OR 16 OR 32 OR 64 OR 128,
      1 OR 2 OR 4 OR 8 OR 16 OR 32 OR 64 OR 0,
      1 OR 2 OR 4 OR 8 OR 16 OR 32 OR 64 OR 128,
      1 OR 2 OR 4 OR 8 OR 16 OR 32 OR 64 OR 128,
      1 OR 2 OR 4 OR 8 OR 16 OR 32 OR 64 OR 128,
      1 OR 2 OR 4 OR 8 OR 16 OR 32 OR 64 OR 128,
      1 OR 2 OR 4 OR 8 OR 16 OR 32 OR 64 OR 128,
      1 OR 2 OR 4 OR 8 OR 16 OR 32 OR 64 OR 128,
      1 OR 2 OR 4 OR 8 OR 16 OR 32 OR 64 OR 128,
      1 OR 2 OR 4 OR 8 OR 16 OR 32 OR 64 OR 0,
      0, 0, 0, 0, 0, 0, 0, 0, 0, 0, 0, 0, 0, 0, 0, 0]"

definition BIT_AT :: "byte list \<Rightarrow> nat \<Rightarrow> bool" where
  "BIT_AT a i \<longleftrightarrow> bit (a ! drop_bit 3 i) (i AND 7)"

definition IS_URL_CHAR :: "byte \<Rightarrow> bool" where "IS_URL_CHAR c \<longleftrightarrow> BIT_AT normal_url_char (unat c)"

section \<open>The automaton of the URL\<close>

text \<open>The states of \<open>enum state\<close> that the URL automaton uses.\<close>

datatype url_state =
  s_dead | s_req_spaces_before_url | s_req_schema | s_req_schema_slash | s_req_schema_slash_slash
| s_req_server_start | s_req_server | s_req_server_with_at | s_req_path | s_req_query_string_start
| s_req_query_string | s_req_fragment_start | s_req_fragment

text \<open>The cases \<open>s_req_server_start\<close> and \<open>s_req_server\<close>, into which \<open>s_req_server_with_at\<close> falls through.\<close>

definition server_char :: "byte \<Rightarrow> url_state" where
  "server_char ch =
     (if ch = ch_slash then s_req_path
      else if ch = ch_question then s_req_query_string_start
      else if ch = ch_at then s_req_server_with_at
      else if IS_USERINFO_CHAR ch \<or> ch = ch_lbracket \<or> ch = ch_rbracket then s_req_server
      else s_dead)"

definition query_char :: "byte \<Rightarrow> url_state" where
  "query_char ch =
     (if IS_URL_CHAR ch then s_req_query_string
      else if ch = ch_question then s_req_query_string
      else if ch = ch_hash then s_req_fragment_start
      else s_dead)"

definition parse_url_char :: "url_state \<Rightarrow> byte \<Rightarrow> url_state" where
  "parse_url_char s ch =
     (if ch = ch_space \<or> ch = ch_cr \<or> ch = ch_lf then s_dead
      else if ch = ch_tab \<or> ch = ch_ff then s_dead
      else case s of
        s_req_spaces_before_url \<Rightarrow>
          (if ch = ch_slash \<or> ch = ch_star then s_req_path
           else if IS_ALPHA ch then s_req_schema else s_dead)
      | s_req_schema \<Rightarrow>
          (if IS_ALPHA ch then s_req_schema else if ch = ch_colon then s_req_schema_slash else s_dead)
      | s_req_schema_slash \<Rightarrow> (if ch = ch_slash then s_req_schema_slash_slash else s_dead)
      | s_req_schema_slash_slash \<Rightarrow> (if ch = ch_slash then s_req_server_start else s_dead)
      | s_req_server_with_at \<Rightarrow> (if ch = ch_at then s_dead else server_char ch)
      | s_req_server_start \<Rightarrow> server_char ch
      | s_req_server \<Rightarrow> server_char ch
      | s_req_path \<Rightarrow>
          (if IS_URL_CHAR ch then s_req_path
           else if ch = ch_question then s_req_query_string_start
           else if ch = ch_hash then s_req_fragment_start else s_dead)
      | s_req_query_string_start \<Rightarrow> query_char ch
      | s_req_query_string \<Rightarrow> query_char ch
      | s_req_fragment_start \<Rightarrow>
          (if IS_URL_CHAR ch then s_req_fragment
           else if ch = ch_question then s_req_fragment
           else if ch = ch_hash then s_req_fragment_start else s_dead)
      | s_req_fragment \<Rightarrow>
          (if IS_URL_CHAR ch then s_req_fragment
           else if ch = ch_question \<or> ch = ch_hash then s_req_fragment else s_dead)
      | s_dead \<Rightarrow> s_dead)"

section \<open>The fields of a URL\<close>

datatype url_field = UF_SCHEMA | UF_HOST | UF_PORT | UF_PATH | UF_QUERY | UF_FRAGMENT | UF_USERINFO

fun uf_index :: "url_field \<Rightarrow> nat" where
  "uf_index UF_SCHEMA = 0"
| "uf_index UF_HOST = 1"
| "uf_index UF_PORT = 2"
| "uf_index UF_PATH = 3"
| "uf_index UF_QUERY = 4"
| "uf_index UF_FRAGMENT = 5"
| "uf_index UF_USERINFO = 6"

text \<open>\<open>field_data[f]\<close> is the pair of \<open>off\<close> and \<open>len\<close>, both \<open>uint16_t\<close>.\<close>

record http_parser_url =
  field_set :: u16
  port :: u16
  field_data :: "url_field \<Rightarrow> u16 \<times> u16"

definition http_parser_url_init :: http_parser_url where
  "http_parser_url_init = \<lparr>field_set = 0, port = 0, field_data = (\<lambda>f. (0, 0))\<rparr>"

definition has_field :: "url_field \<Rightarrow> http_parser_url \<Rightarrow> bool" where
  "has_field f u \<longleftrightarrow> field_set u AND push_bit (uf_index f) 1 \<noteq> 0"

definition add_field :: "url_field \<Rightarrow> http_parser_url \<Rightarrow> http_parser_url" where
  "add_field f u = u\<lparr>field_set := field_set u OR push_bit (uf_index f) 1\<rparr>"

abbreviation f_off :: "url_field \<Rightarrow> http_parser_url \<Rightarrow> u16" where "f_off f u \<equiv> fst (field_data u f)"
abbreviation f_len :: "url_field \<Rightarrow> http_parser_url \<Rightarrow> u16" where "f_len f u \<equiv> snd (field_data u f)"

definition set_off :: "url_field \<Rightarrow> nat \<Rightarrow> http_parser_url \<Rightarrow> http_parser_url" where
  "set_off f p u = u\<lparr>field_data := (field_data u)(f := (word_of_nat p, f_len f u))\<rparr>"

definition set_len :: "url_field \<Rightarrow> u16 \<Rightarrow> http_parser_url \<Rightarrow> http_parser_url" where
  "set_len f l u = u\<lparr>field_data := (field_data u)(f := (f_off f u, l))\<rparr>"

definition inc_len :: "url_field \<Rightarrow> http_parser_url \<Rightarrow> http_parser_url" where
  "inc_len f u = set_len f (f_len f u + 1) u"

section \<open>The automaton of the host\<close>

datatype host_state =
  s_http_host_dead | s_http_userinfo_start | s_http_userinfo | s_http_host_start | s_http_host_v6_start
| s_http_host | s_http_host_v6 | s_http_host_v6_end | s_http_host_v6_zone_start | s_http_host_v6_zone
| s_http_host_port_start | s_http_host_port

definition zone_char :: "byte \<Rightarrow> host_state" where
  "zone_char ch =
     (if IS_ALPHANUM ch \<or> ch \<in> {ch_percent, ch_dot, ch_minus, ch_underscore, ch_tilde}
      then s_http_host_v6_zone else s_http_host_dead)"

definition port_char :: "byte \<Rightarrow> host_state" where
  "port_char ch = (if IS_NUM ch then s_http_host_port else s_http_host_dead)"

definition userinfo_char :: "byte \<Rightarrow> host_state" where
  "userinfo_char ch =
     (if ch = ch_at then s_http_host_start
      else if IS_USERINFO_CHAR ch then s_http_userinfo else s_http_host_dead)"

definition http_parse_host_char :: "host_state \<Rightarrow> byte \<Rightarrow> host_state" where
  "http_parse_host_char s ch =
     (case s of
        s_http_userinfo \<Rightarrow> userinfo_char ch
      | s_http_userinfo_start \<Rightarrow> userinfo_char ch
      | s_http_host_start \<Rightarrow>
          (if ch = ch_lbracket then s_http_host_v6_start
           else if IS_HOST_CHAR ch then s_http_host else s_http_host_dead)
      | s_http_host \<Rightarrow>
          (if IS_HOST_CHAR ch then s_http_host
           else if ch = ch_colon then s_http_host_port_start else s_http_host_dead)
      | s_http_host_v6_end \<Rightarrow> (if ch = ch_colon then s_http_host_port_start else s_http_host_dead)
      | s_http_host_v6 \<Rightarrow>
          (if ch = ch_rbracket then s_http_host_v6_end
           else if IS_HEX ch \<or> ch = ch_colon \<or> ch = ch_dot then s_http_host_v6
           else if ch = ch_percent then s_http_host_v6_zone_start else s_http_host_dead)
      | s_http_host_v6_start \<Rightarrow>
          (if IS_HEX ch \<or> ch = ch_colon \<or> ch = ch_dot then s_http_host_v6 else s_http_host_dead)
      | s_http_host_v6_zone \<Rightarrow> (if ch = ch_rbracket then s_http_host_v6_end else zone_char ch)
      | s_http_host_v6_zone_start \<Rightarrow> zone_char ch
      | s_http_host_port \<Rightarrow> port_char ch
      | s_http_host_port_start \<Rightarrow> port_char ch
      | s_http_host_dead \<Rightarrow> s_http_host_dead)"

text \<open>The \<open>switch (new_s)\<close> of the loop of \<open>http_parse_host\<close> at index \<open>p\<close>.\<close>

definition host_field :: "host_state \<Rightarrow> host_state \<Rightarrow> nat \<Rightarrow> http_parser_url \<Rightarrow> http_parser_url" where
  "host_field s new_s p u =
     (case new_s of
        s_http_host \<Rightarrow> inc_len UF_HOST (if s \<noteq> s_http_host then set_off UF_HOST p u else u)
      | s_http_host_v6 \<Rightarrow> inc_len UF_HOST (if s \<noteq> s_http_host_v6 then set_off UF_HOST p u else u)
      | s_http_host_v6_zone_start \<Rightarrow> inc_len UF_HOST u
      | s_http_host_v6_zone \<Rightarrow> inc_len UF_HOST u
      | s_http_host_port \<Rightarrow>
          inc_len UF_PORT (if s \<noteq> s_http_host_port
                           then add_field UF_PORT (set_len UF_PORT 0 (set_off UF_PORT p u)) else u)
      | s_http_userinfo \<Rightarrow>
          inc_len UF_USERINFO (if s \<noteq> s_http_userinfo
                               then add_field UF_USERINFO (set_len UF_USERINFO 0 (set_off UF_USERINFO p u)) else u)
      | _ \<Rightarrow> u)"

text \<open>The loop over the characters from index \<open>p\<close>; the boolean tells whether it ran to its end.\<close>

fun host_loop :: "byte list \<Rightarrow> nat \<Rightarrow> host_state \<Rightarrow> http_parser_url \<Rightarrow> bool \<times> host_state \<times> http_parser_url" where
  "host_loop [] p s u = (True, s, u)"
| "host_loop (ch # cs) p s u =
     (let new_s = http_parse_host_char s ch in
      if new_s = s_http_host_dead then (False, s, u)
      else host_loop cs (p + 1) new_s (host_field s new_s p u))"

definition http_parse_host :: "byte list \<Rightarrow> http_parser_url \<Rightarrow> bool \<Rightarrow> int \<times> http_parser_url" where
  "http_parse_host buf u found_at =
     (let off = unat (f_off UF_HOST u);
          cs = take (unat (f_len UF_HOST u)) (drop off buf);
          s = (if found_at then s_http_userinfo_start else s_http_host_start);
          (finished, s', u') = host_loop cs off s (set_len UF_HOST 0 u)
      in
      if \<not> finished then (1, u')
      else if s' \<in> {s_http_host_start, s_http_host_v6_start, s_http_host_v6, s_http_host_v6_zone_start,
                     s_http_host_v6_zone, s_http_host_port_start, s_http_userinfo, s_http_userinfo_start}
      then (1, u') else (0, u'))"

section \<open>\<open>http_parser_parse_url\<close>\<close>

text \<open>The field a state belongs to; delimiters belong to none.\<close>

definition state_field :: "url_state \<Rightarrow> url_field option" where
  "state_field s =
     (case s of
        s_req_schema \<Rightarrow> Some UF_SCHEMA
      | s_req_server_with_at \<Rightarrow> Some UF_HOST
      | s_req_server \<Rightarrow> Some UF_HOST
      | s_req_path \<Rightarrow> Some UF_PATH
      | s_req_query_string \<Rightarrow> Some UF_QUERY
      | s_req_fragment \<Rightarrow> Some UF_FRAGMENT
      | _ \<Rightarrow> None)"

text \<open>\<open>None\<close> for \<open>old_uf\<close> is \<open>UF_MAX\<close>. The boolean is false for an early \<open>return 1\<close>.\<close>

fun url_loop ::
  "byte list \<Rightarrow> nat \<Rightarrow> url_state \<Rightarrow> url_field option \<Rightarrow> bool \<Rightarrow> http_parser_url
     \<Rightarrow> bool \<times> bool \<times> http_parser_url" where
  "url_loop [] p s old_uf found_at u = (True, found_at, u)"
| "url_loop (ch # cs) p s old_uf found_at u =
     (let s' = parse_url_char s ch;
          found_at' = (found_at \<or> s' = s_req_server_with_at)
      in
      if s' = s_dead then (False, found_at, u)
      else case state_field s' of
        None \<Rightarrow> url_loop cs (p + 1) s' old_uf found_at u
      | Some uf \<Rightarrow>
          if old_uf = Some uf then url_loop cs (p + 1) s' old_uf found_at' (inc_len uf u)
          else url_loop cs (p + 1) s' (Some uf) found_at' (add_field uf (set_len uf 1 (set_off uf p u))))"

text \<open>The value of the port; \<^const>\<open>None\<close> when it exceeds \<open>0xffff\<close>.\<close>

fun port_loop :: "byte list \<Rightarrow> nat \<Rightarrow> nat option" where
  "port_loop [] v = Some v"
| "port_loop (ch # cs) v =
     (let v1 = v * 10 + (unat ch - 48) in if v1 > 0xffff then None else port_loop cs v1)"

definition http_parser_parse_url :: "byte list \<Rightarrow> bool \<Rightarrow> http_parser_url \<Rightarrow> int \<times> http_parser_url" where
  "http_parser_parse_url buf is_connect u =
     (if buf = [] then (1, u)
      else
        let u0 = u\<lparr>field_set := 0, port := 0\<rparr>;
            (finished, found_at, u1) =
              url_loop buf 0 (if is_connect then s_req_server_start else s_req_spaces_before_url) None False u0
        in
        if \<not> finished then (1, u1)
        else if has_field UF_SCHEMA u1 \<and> \<not> has_field UF_HOST u1 then (1, u1)
        else
          let (ret, u2) = (if has_field UF_HOST u1 then http_parse_host buf u1 found_at else (0, u1)) in
          if ret \<noteq> 0 then (1, u2)
          else if is_connect \<and> field_set u2 \<noteq> push_bit 1 1 OR push_bit 2 1 then (1, u2)
          else if has_field UF_PORT u2 then
            (case port_loop (take (unat (f_len UF_PORT u2)) (drop (unat (f_off UF_PORT u2)) buf)) 0 of
               None \<Rightarrow> (1, u2)
             | Some v \<Rightarrow> (0, u2\<lparr>port := word_of_nat v\<rparr>))
          else (0, u2))"

section \<open>\<open>ParseUrl\<close>\<close>

text \<open>\<open>m_buff\<close> is the memory the pointer points to: the URL and what follows it in the request.\<close>

record ParseUrl =
  m_url :: http_parser_url
  m_buff :: "byte list"

definition ParseUrl_ctor :: ParseUrl where
  "ParseUrl_ctor = \<lparr>m_url = http_parser_url_init, m_buff = []\<rparr>"

definition ParseUrl_parse :: "byte list \<Rightarrow> nat \<Rightarrow> ParseUrl \<Rightarrow> int \<times> ParseUrl" where
  "ParseUrl_parse buf len pu =
     (let (ret, u) = http_parser_parse_url (take len buf) False (m_url pu)
      in (ret, pu\<lparr>m_buff := buf, m_url := u\<rparr>))"

definition haveParam :: "ParseUrl \<Rightarrow> bool" where
  "haveParam pu = has_field UF_QUERY (m_url pu)"

text \<open>A view of bytes outside of the memory is \<^const>\<open>None\<close>.\<close>

definition url_view :: "url_field \<Rightarrow> ParseUrl \<Rightarrow> byte list option" where
  "url_view f pu =
     (let off = unat (f_off f (m_url pu)); len = unat (f_len f (m_url pu)) in
      if off + len \<le> length (m_buff pu) then Some (read_at off len (m_buff pu)) else None)"

definition getPath :: "ParseUrl \<Rightarrow> byte list option" where
  "getPath pu = url_view UF_PATH pu"

definition getParam :: "ParseUrl \<Rightarrow> byte list option" where
  "getParam pu = url_view UF_QUERY pu"

section \<open>Updates of the fields\<close>

named_theorems field_simps \<open>what an update of a field leaves unchanged\<close>

lemma uf_index_less: "uf_index f < 16"
  by (cases f) simp_all

lemma uf_index_eq: "uf_index f = uf_index g \<longleftrightarrow> f = g"
  by (cases f; cases g) simp_all

lemma has_field_bit: "has_field f u = bit (field_set u) (uf_index f)"
  by (simp add: has_field_def push_bit_eq_mult and_exp_eq_0_iff_not_bit)

lemma has_field_add [field_simps]: "has_field f (add_field g u) \<longleftrightarrow> f = g \<or> has_field f u"
  using uf_index_less [of f] uf_index_less [of g]
  by (auto simp: has_field_bit add_field_def bit_simps uf_index_eq)

lemma has_field_set [field_simps]:
  "has_field f (set_off g p u) = has_field f u" "has_field f (set_len g l u) = has_field f u"
  "has_field f (inc_len g u) = has_field f u" "has_field f (u\<lparr>port := v\<rparr>) = has_field f u"
  by (simp_all add: has_field_def set_off_def set_len_def inc_len_def)

lemma field_data_set [field_simps]:
  "field_data (set_off g p u) f = (if f = g then (word_of_nat p, f_len f u) else field_data u f)"
  "field_data (set_len g l u) f = (if f = g then (f_off f u, l) else field_data u f)"
  "field_data (inc_len g u) f = (if f = g then (f_off f u, f_len f u + 1) else field_data u f)"
  "field_data (add_field g u) f = field_data u f"
  by (simp_all add: set_off_def set_len_def inc_len_def add_field_def)

section \<open>All fields lie inside the URL\<close>

definition f_end :: "url_field \<Rightarrow> http_parser_url \<Rightarrow> nat" where
  "f_end f u = unat (f_off f u) + unat (f_len f u)"

lemma unat_nat_u16: "n < 65536 \<Longrightarrow> unat (word_of_nat n :: u16) = n"
  by (simp add: unsigned_of_nat take_bit_eq_mod)

lemma unat_inc_u16: "unat (l :: u16) < 65535 \<Longrightarrow> unat (l + 1) = unat l + 1"
  by (simp add: unat_word_ariths)

lemma f_end_inc: "f_end f u \<le> p \<Longrightarrow> p < 65535 \<Longrightarrow> f_end f (inc_len f u) = f_end f u + 1"
  by (simp add: f_end_def field_simps unat_inc_u16)

lemma f_end_start: "p < 65535 \<Longrightarrow> f_end f (add_field f (set_len f 1 (set_off f p u))) = p + 1"
  by (simp add: f_end_def field_simps unat_nat_u16)

lemma f_end_other [field_simps]:
  "f \<noteq> g \<Longrightarrow> f_end f (inc_len g u) = f_end f u" "f \<noteq> g \<Longrightarrow> f_end f (set_len g l u) = f_end f u"
  "f \<noteq> g \<Longrightarrow> f_end f (set_off g p u) = f_end f u" "f_end f (add_field g u) = f_end f u"
  by (simp_all add: f_end_def field_simps)

definition url_inv :: "nat \<Rightarrow> url_field option \<Rightarrow> http_parser_url \<Rightarrow> bool" where
  "url_inv p old u \<longleftrightarrow> (\<forall>f. has_field f u \<longrightarrow> f_end f u \<le> p) \<and> (\<forall>f. old = Some f \<longrightarrow> has_field f u)
     \<and> \<not> has_field UF_PORT u \<and> \<not> has_field UF_USERINFO u"

lemma state_field_parts: "state_field s = Some f \<Longrightarrow> f \<noteq> UF_PORT \<and> f \<noteq> UF_USERINFO"
  by (cases s) (auto simp: state_field_def)

lemma url_loop_inv:
  "url_loop cs p s old fa u = (True, fa', u') \<Longrightarrow> url_inv p old u \<Longrightarrow> p + length cs < 65536 \<Longrightarrow>
   \<exists>old'. url_inv (p + length cs) old' u'"
proof (induction cs arbitrary: p s old fa u)
  case (Cons ch cs)
  define s' where "s' = parse_url_char s ch"
  have le: "url_inv (p + 1) old u" using Cons.prems(2) by (auto simp: url_inv_def intro: le_SucI)
  consider "state_field s' = None" | f where "state_field s' = Some f" "old = Some f"
    | f where "state_field s' = Some f" "old \<noteq> Some f" by fastforce
  then show ?case
  proof cases
    case 1
    with Cons.prems have "url_loop cs (p + 1) s' old (fa \<or> s' = s_req_server_with_at) u = (True, fa', u')
        \<or> url_loop cs (p + 1) s' old fa u = (True, fa', u')"
      by (auto simp: s'_def [symmetric] Let_def split: if_splits)
    with Cons.IH le Cons.prems(3) show ?thesis by fastforce
  next
    case 2
    with Cons.prems have l: "url_loop cs (p + 1) s' old (fa \<or> s' = s_req_server_with_at) (inc_len f u) = (True, fa', u')"
      by (simp add: s'_def [symmetric] Let_def split: if_splits)
    have "url_inv (p + 1) old (inc_len f u)"
      unfolding url_inv_def
    proof (intro conjI allI impI)
      fix g assume "has_field g (inc_len f u)"
      then have "f_end g u \<le> p" using Cons.prems(2) by (simp add: url_inv_def field_simps)
      then show "f_end g (inc_len f u) \<le> p + 1"
        using f_end_inc [of f u p] Cons.prems(3) by (cases "g = f") (simp_all add: field_simps)
    qed (use Cons.prems(2) in \<open>simp_all add: url_inv_def field_simps\<close>)
    with Cons.IH [OF l] Cons.prems(3) show ?thesis by simp
  next
    case 3
    let ?u = "add_field f (set_len f 1 (set_off f p u))"
    from 3 Cons.prems have l: "url_loop cs (p + 1) s' (Some f) (fa \<or> s' = s_req_server_with_at) ?u = (True, fa', u')"
      by (simp add: s'_def [symmetric] Let_def split: if_splits)
    have "url_inv (p + 1) (Some f) ?u"
      unfolding url_inv_def
    proof (intro conjI allI impI)
      fix g assume "has_field g ?u"
      then have "g = f \<or> f_end g u \<le> p" using Cons.prems(2) by (auto simp: url_inv_def field_simps)
      then show "f_end g ?u \<le> p + 1"
        using f_end_start [of p f u] Cons.prems(3) by (cases "g = f") (simp_all add: field_simps)
    qed (use Cons.prems(2) state_field_parts [OF 3(1)] in \<open>auto simp: url_inv_def field_simps\<close>)
    with Cons.IH [OF l] Cons.prems(3) show ?thesis by simp
  qed
qed auto

definition before_host :: "host_state \<Rightarrow> bool" where
  "before_host s \<longleftrightarrow> s \<in> {s_http_userinfo_start, s_http_userinfo, s_http_host_start, s_http_host_v6_start}"

definition host_inv :: "nat \<Rightarrow> host_state \<Rightarrow> http_parser_url \<Rightarrow> bool" where
  "host_inv p s u \<longleftrightarrow> f_end UF_HOST u \<le> p \<and> (before_host s \<longrightarrow> f_len UF_HOST u = 0)
     \<and> (has_field UF_PORT u \<longrightarrow> f_end UF_PORT u \<le> p) \<and> (has_field UF_USERINFO u \<longrightarrow> f_end UF_USERINFO u \<le> p)
     \<and> (s = s_http_host_port \<longrightarrow> has_field UF_PORT u) \<and> (s = s_http_userinfo \<longrightarrow> has_field UF_USERINFO u)"

lemma host_char_into:
  "http_parse_host_char s ch = s_http_host \<Longrightarrow> s = s_http_host \<or> before_host s"
  "http_parse_host_char s ch = s_http_host_v6 \<Longrightarrow> s = s_http_host_v6 \<or> before_host s"
  "before_host (http_parse_host_char s ch) \<Longrightarrow> before_host s"
  by (cases s; simp add: http_parse_host_char_def before_host_def userinfo_char_def zone_char_def port_char_def
      split: if_splits)+

lemma f_end_restart:
  "f_len f u = 0 \<Longrightarrow> p < 65535 \<Longrightarrow> f_end f (inc_len f (set_off f p u)) = p + 1"
  "p < 65535 \<Longrightarrow> f_end f (inc_len f (add_field f (set_len f 0 (set_off f p u)))) = p + 1"
  by (simp_all add: f_end_def field_simps unat_nat_u16)

lemma host_inv_skip:
  "host_inv p s u \<Longrightarrow> (before_host s' \<longrightarrow> before_host s) \<Longrightarrow> s' \<noteq> s_http_host_port \<Longrightarrow> s' \<noteq> s_http_userinfo \<Longrightarrow>
   host_inv (p + 1) s' u"
  by (auto simp: host_inv_def)

lemma host_inv_inc:
  assumes "host_inv p s u" and "p < 65535" and "\<not> before_host s'" and "s' \<noteq> s_http_host_port"
  shows "host_inv (p + 1) s' (inc_len UF_HOST u)"
proof -
  have "f_end UF_HOST (inc_len UF_HOST u) \<le> p + 1"
    using assms(1) f_end_inc [of UF_HOST u p, OF _ assms(2)] by (simp add: host_inv_def)
  moreover have "s' \<noteq> s_http_userinfo" using assms(3) by (auto simp: before_host_def)
  ultimately show ?thesis using assms unfolding host_inv_def by (simp add: field_simps le_SucI)
qed

lemma host_inv_restart:
  assumes "host_inv p s u" and "p < 65535" and "before_host s" and "\<not> before_host s'" and "s' \<noteq> s_http_host_port"
  shows "host_inv (p + 1) s' (inc_len UF_HOST (set_off UF_HOST p u))"
proof -
  have "f_end UF_HOST (inc_len UF_HOST (set_off UF_HOST p u)) = p + 1"
    using assms(1,3) f_end_restart(1) [where f = UF_HOST and u = u, OF _ assms(2)] by (simp add: host_inv_def)
  moreover have "s' \<noteq> s_http_userinfo" using assms(4) by (auto simp: before_host_def)
  ultimately show ?thesis using assms unfolding host_inv_def by (simp add: field_simps le_SucI)
qed

lemma host_inv_part:
  assumes "host_inv p s u" and "p < 65535" and "before_host s' \<longrightarrow> before_host s"
    and "f = UF_PORT \<and> s' = s_http_host_port \<or> f = UF_USERINFO \<and> s' = s_http_userinfo"
  shows "host_inv (p + 1) s' (inc_len f (if s \<noteq> s' then add_field f (set_len f 0 (set_off f p u)) else u))"
proof (cases "s = s'")
  case True
  then have "has_field f u" and "f_end f u \<le> p" using assms(1,4) by (auto simp: host_inv_def)
  then have "f_end f (inc_len f u) \<le> p + 1" using f_end_inc [of f u p, OF _ assms(2)] by simp
  with True \<open>has_field f u\<close> assms show ?thesis by (auto simp: host_inv_def field_simps before_host_def)
next
  case False
  have "f_end f (inc_len f (add_field f (set_len f 0 (set_off f p u)))) = p + 1"
    by (rule f_end_restart(2) [OF assms(2)])
  with assms(4) show ?thesis
    using False assms(1,3)
    by (elim disjE conjE) (simp_all add: host_inv_def field_simps before_host_def, linarith+)
qed

lemma host_field_inv:
  assumes "host_inv p s u" and "new_s = http_parse_host_char s ch" and "new_s \<noteq> s_http_host_dead" and "p < 65535"
  shows "host_inv (p + 1) new_s (host_field s new_s p u)"
proof -
  note into = host_char_into [of s ch, folded assms(2)]
  show ?thesis
  proof (cases new_s)
    case s_http_host
    with into(1) show ?thesis
      using host_inv_inc [OF assms(1,4)] host_inv_restart [OF assms(1,4)]
      by (auto simp: host_field_def before_host_def)
  next
    case s_http_host_v6
    with into(2) show ?thesis
      using host_inv_inc [OF assms(1,4)] host_inv_restart [OF assms(1,4)]
      by (auto simp: host_field_def before_host_def)
  next
    case s_http_host_port
    with host_inv_part [OF assms(1,4), of s_http_host_port UF_PORT] into(3) show ?thesis
      by (simp add: host_field_def)
  next
    case s_http_userinfo
    with host_inv_part [OF assms(1,4), of s_http_userinfo UF_USERINFO] into(3) show ?thesis
      by (simp add: host_field_def)
  next
    case s_http_host_v6_zone
    with host_inv_inc [OF assms(1,4)] show ?thesis by (simp add: host_field_def before_host_def)
  next
    case s_http_host_v6_zone_start
    with host_inv_inc [OF assms(1,4)] show ?thesis by (simp add: host_field_def before_host_def)
  qed (use assms(3) host_inv_skip [OF assms(1), of new_s] into(3) in \<open>simp_all add: host_field_def\<close>)
qed

lemma host_loop_inv:
  "host_loop cs p s u = (True, s', u') \<Longrightarrow> host_inv p s u \<Longrightarrow> p + length cs < 65536 \<Longrightarrow>
   host_inv (p + length cs) s' u'"
proof (induction cs arbitrary: p s u)
  case (Cons ch cs)
  define n where "n = http_parse_host_char s ch"
  from Cons.prems have "n \<noteq> s_http_host_dead" and l: "host_loop cs (p + 1) n (host_field s n p u) = (True, s', u')"
    by (auto simp: n_def Let_def split: if_splits)
  from host_field_inv [OF Cons.prems(2) n_def this(1)] Cons.prems(3)
  have "host_inv (p + 1) n (host_field s n p u)" by simp
  with Cons.IH [OF l] Cons.prems(3) show ?case by simp
qed simp

lemma host_loop_other:
  "host_loop cs p s u = (b, s', u') \<Longrightarrow> f \<notin> {UF_HOST, UF_PORT, UF_USERINFO} \<Longrightarrow>
   field_data u' f = field_data u f \<and> has_field f u' = has_field f u"
proof (induction cs arbitrary: p s u)
  case (Cons ch cs)
  define n where "n = http_parse_host_char s ch"
  have "field_data (host_field s n p u) f = field_data u f \<and> has_field f (host_field s n p u) = has_field f u"
    using Cons.prems(2) by (cases n) (auto simp: host_field_def field_simps)
  with Cons show ?case by (auto simp: n_def [symmetric] Let_def split: if_splits)
qed simp

text \<open>The whole parser: a successful parse ends with the fields of \<open>url_loop\<close>, refined by the host.\<close>

lemma parse_host_bounds:
  assumes "http_parse_host buf u fa = (0, u')" and "url_inv (length buf) old u" and "has_field UF_HOST u"
    and "length buf < 65536" and "has_field f u'"
  shows "f_end f u' \<le> length buf"
proof -
  let ?off = "unat (f_off UF_HOST u)" and ?s = "if fa then s_http_userinfo_start else s_http_host_start"
  let ?cs = "take (unat (f_len UF_HOST u)) (drop ?off buf)"
  have e: "f_end UF_HOST u \<le> length buf" using assms(2,3) by (simp add: url_inv_def)
  then have l: "?off + length ?cs \<le> length buf" by (simp add: f_end_def)
  from assms(1) obtain s' where h: "host_loop ?cs ?off ?s (set_len UF_HOST 0 u) = (True, s', u')"
    by (auto simp: http_parse_host_def Let_def split: if_splits prod.splits)
  have "host_inv ?off ?s (set_len UF_HOST 0 u)"
    using assms(2) by (auto simp: host_inv_def before_host_def field_simps url_inv_def f_end_def)
  from host_loop_inv [OF h this] l assms(4) have "host_inv (?off + length ?cs) s' u'" by simp
  then have i: "f = UF_HOST \<or> f = UF_PORT \<or> f = UF_USERINFO \<Longrightarrow> f_end f u' \<le> ?off + length ?cs"
    using assms(5) by (auto simp: host_inv_def)
  show ?thesis
  proof (cases "f \<in> {UF_HOST, UF_PORT, UF_USERINFO}")
    case True
    with i have "f_end f u' \<le> ?off + length ?cs" by blast
    with l show ?thesis by linarith
  next
    case False
    from host_loop_other [OF h False] have "has_field f u" "f_end f u' = f_end f u"
      using assms(5) False by (simp_all add: f_end_def field_simps)
    with assms(2) show ?thesis by (simp add: url_inv_def)
  qed
qed

lemma parse_url_bounds:
  assumes "http_parser_parse_url buf c u = (0, u')" and "length buf < 65536" and "has_field f u'"
  shows "f_end f u' \<le> length buf"
proof -
  let ?s = "if c then s_req_server_start else s_req_spaces_before_url"
  let ?u0 = "u\<lparr>field_set := 0, port := 0\<rparr>"
  from assms(1) obtain fa u1 where l: "url_loop buf 0 ?s None False ?u0 = (True, fa, u1)"
    by (cases "url_loop buf 0 ?s None False ?u0") (auto simp: http_parser_parse_url_def Let_def split: if_splits)
  have "url_inv 0 None ?u0" by (simp add: url_inv_def has_field_def)
  from url_loop_inv [OF l this] assms(2) obtain old where inv: "url_inv (length buf) old u1" by auto
  obtain ret u2 where r: "(if has_field UF_HOST u1 then http_parse_host buf u1 fa else (0, u1)) = (ret, u2)"
    by fastforce
  from assms(1) l have "ret = 0" and u2: "u' = u2 \<or> (\<exists>v. u' = u2\<lparr>port := v\<rparr>)"
    by (simp_all add: http_parser_parse_url_def Let_def r split: if_splits option.splits) blast+
  with r have h: "has_field UF_HOST u1 \<and> http_parse_host buf u1 fa = (0, u2) \<or> u2 = u1"
    by (simp split: if_splits)
  have f: "has_field f u2" "f_end f u' = f_end f u2" using u2 assms(3) by (auto simp: field_simps f_end_def)
  from h show ?thesis
    using f inv parse_host_bounds [OF _ inv _ assms(2), of fa u2 f] by (auto simp: url_inv_def)
qed

section \<open>Origin-form requests\<close>

lemma url_char_not: "IS_URL_CHAR c \<Longrightarrow> c \<notin> {ch_tab, ch_lf, ch_ff, ch_cr, ch_space, ch_hash, ch_question}"
  by (auto simp: IS_URL_CHAR_def BIT_AT_def normal_url_char_def)

text \<open>A run of characters that keep the automaton in the same field only lengthens it.\<close>

lemma url_loop_run:
  assumes "\<And>c. c \<in> set cs \<Longrightarrow> parse_url_char s c = s" and "state_field s = Some f"
  shows "url_loop (cs @ rest) p s (Some f) fa u
    = url_loop rest (p + length cs) s (Some f) (fa \<or> s = s_req_server_with_at \<and> cs \<noteq> [])
        (set_len f (f_len f u + word_of_nat (length cs)) u)"
  using assms(1)
proof (induction cs arbitrary: p fa u)
  case (Cons c cs)
  have "s \<noteq> s_dead" using assms(2) by (auto simp: state_field_def)
  with Cons assms(2) show ?case
    by (cases "s = s_req_server_with_at") (simp_all add: Let_def inc_len_def set_len_def algebra_simps)
qed (simp add: set_len_def)

definition url_text :: "byte list \<Rightarrow> bool" where
  "url_text cs \<longleftrightarrow> (\<forall>c\<in>set cs. IS_URL_CHAR c)"

lemma parse_path_char: "IS_URL_CHAR c \<Longrightarrow> parse_url_char s_req_path c = s_req_path"
  using url_char_not [of c] by (auto simp: parse_url_char_def)

lemma parse_query_char: "IS_URL_CHAR c \<or> c = ch_question \<Longrightarrow> parse_url_char s_req_query_string c = s_req_query_string"
  using url_char_not [of c] by (auto simp: parse_url_char_def query_char_def)

lemma parse_first_query: "IS_URL_CHAR c \<or> c = ch_question \<Longrightarrow> parse_url_char s_req_query_string_start c = s_req_query_string"
  using url_char_not [of c] by (auto simp: parse_url_char_def query_char_def)

lemma parse_slash: "parse_url_char s_req_spaces_before_url ch_slash = s_req_path"
  "parse_url_char s_req_path ch_question = s_req_query_string_start"
  by (simp_all add: parse_url_char_def IS_URL_CHAR_def BIT_AT_def normal_url_char_def)

text \<open>The fields of \<open>/path\<close>, and of \<open>/path?query\<close>.\<close>

lemma url_loop_path:
  assumes "url_text path" and "length path < 65535"
  shows "url_loop (ch_slash # path @ rest) 0 s_req_spaces_before_url None False u
    = url_loop rest (length path + 1) s_req_path (Some UF_PATH) False
        (set_len UF_PATH (word_of_nat (length path + 1)) (set_off UF_PATH 0 (add_field UF_PATH u)))"
proof -
  have "parse_url_char s_req_path c = s_req_path" if "c \<in> set path" for c
    using assms(1) that parse_path_char by (simp add: url_text_def)
  from url_loop_run [OF this, where f = UF_PATH] show ?thesis
    by (simp add: parse_slash Let_def state_field_def)
      (simp add: set_len_def set_off_def add_field_def add.commute)
qed

lemma url_loop_query:
  assumes "\<forall>c\<in>set q. IS_URL_CHAR c \<or> c = ch_question" and "q \<noteq> []"
  shows "url_loop (ch_question # q) p s_req_path (Some UF_PATH) False u
    = (True, False, set_len UF_QUERY (word_of_nat (length q)) (set_off UF_QUERY (p + 1) (add_field UF_QUERY u)))"
proof -
  obtain c cs where q: "q = c # cs" using assms(2) by (cases q) auto
  have "parse_url_char s_req_query_string x = s_req_query_string" if "x \<in> set cs" for x
    using assms(1) that q parse_query_char by simp
  from url_loop_run [OF this, where f = UF_QUERY and rest = "[]"] show ?thesis
    using assms(1) parse_first_query [of c]
    by (simp add: q parse_slash Let_def state_field_def)
      (simp add: set_len_def set_off_def add_field_def add.commute)
qed

lemma parse_origin_form:
  assumes "url_text path" and "\<forall>c\<in>set q. IS_URL_CHAR c \<or> c = ch_question" and "q \<noteq> []"
    and "length path + length q < 65534"
  shows "\<exists>u'. http_parser_parse_url (ch_slash # path @ ch_question # q) False u = (0, u')
    \<and> has_field UF_QUERY u' \<and> field_data u' UF_PATH = (0, word_of_nat (length path + 1))
    \<and> field_data u' UF_QUERY = (word_of_nat (length path + 2), word_of_nat (length q))"
proof -
  let ?u0 = "u\<lparr>field_set := 0, port := 0\<rparr>"
  let ?u1 = "set_len UF_PATH (word_of_nat (length path + 1)) (set_off UF_PATH 0 (add_field UF_PATH ?u0))"
  define u2 where
    "u2 = set_len UF_QUERY (word_of_nat (length q)) (set_off UF_QUERY (length path + 2) (add_field UF_QUERY ?u1))"
  have p: "length path < 65535" using assms(4) by simp
  have l: "url_loop (ch_slash # path @ ch_question # q) 0 s_req_spaces_before_url None False ?u0 = (True, False, u2)"
    using url_loop_path [OF assms(1) p] url_loop_query [OF assms(2,3)] by (simp add: u2_def)
  have none: "\<not> has_field f (u\<lparr>field_set := 0\<rparr>)" "\<not> has_field f ?u0" for f by (simp_all add: has_field_def)
  have h: "has_field f u2 \<longleftrightarrow> f = UF_PATH \<or> f = UF_QUERY" for f
    by (simp only: field_simps none u2_def) auto
  have "field_data u2 UF_PATH = (0, word_of_nat (length path + 1))"
    "field_data u2 UF_QUERY = (word_of_nat (length path + 2), word_of_nat (length q))"
    by (simp_all only: field_simps u2_def) simp_all
  moreover have "http_parser_parse_url (ch_slash # path @ ch_question # q) False u = (0, u2)"
    unfolding http_parser_parse_url_def Let_def if_False l prod.case by (simp add: h)
  ultimately show ?thesis using h by blast
qed

section \<open>Properties\<close>

text \<open>C30. Every field a successful parse reports lies inside the URL, whatever its bytes, so that the views a
  caller takes of the reported fields stay in bounds.\<close>

theorem url_fields_in_bounds:
  assumes "http_parser_parse_url buf is_connect u = (0, u')" and "length buf < 65536" and "has_field f u'"
  shows "unat (f_off f u') + unat (f_len f u') \<le> length buf"
  using parse_url_bounds [OF assms] by (simp add: f_end_def)

lemma demo_url: "http_parser_parse_url [47, 97, 63, 98] False http_parser_url_init
   = (0, \<lparr>field_set = 24, port = 0, field_data = (\<lambda>f. (0, 0))(UF_PATH := (0, 2), UF_QUERY := (3, 1))\<rparr>)"
  by (simp add: http_parser_parse_url_def Let_def parse_url_char_def http_parser_url_init_def IS_URL_CHAR_def
      BIT_AT_def normal_url_char_def state_field_def query_char_def has_field_def add_field_def set_off_def
      set_len_def inc_len_def fun_eq_iff)

theorem url_fields_in_bounds_witness:
  "\<exists>u'. http_parser_parse_url [47, 97, 63, 98] False http_parser_url_init = (0, u') \<and> has_field UF_QUERY u'
    \<and> unat (f_off UF_QUERY u') + unat (f_len UF_QUERY u') \<le> 4"
proof -
  let ?u = "\<lparr>field_set = 24, port = 0, field_data = (\<lambda>f. (0, 0))(UF_PATH := (0, 2), UF_QUERY := (3, 1))\<rparr> :: http_parser_url"
  have "has_field UF_QUERY ?u" by (simp add: has_field_def)
  from url_fields_in_bounds [OF demo_url _ this] this demo_url show ?thesis by auto
qed

text \<open>A request target \<open>/path?query\<close> is taken apart into exactly its path and its query, whatever URLs were
  parsed before on the same connection.\<close>

theorem url_path_and_query:
  assumes "url_text path" and "\<forall>c\<in>set q. IS_URL_CHAR c \<or> c = ch_question" and "q \<noteq> []"
    and "length path + length q < 65534"
  defines "url \<equiv> ch_slash # path @ ch_question # q"
  shows "\<exists>pu'. ParseUrl_parse (url @ rest) (length url) pu = (0, pu') \<and> haveParam pu'
    \<and> getPath pu' = Some (ch_slash # path) \<and> getParam pu' = Some q"
proof -
  from parse_origin_form [OF assms(1-4), of "m_url pu"] obtain u' where u:
    "http_parser_parse_url url False (m_url pu) = (0, u')" "has_field UF_QUERY u'"
    "field_data u' UF_PATH = (0, word_of_nat (length path + 1))"
    "field_data u' UF_QUERY = (word_of_nat (length path + 2), word_of_nat (length q))"
    by (auto simp: url_def)
  have l: "unat (word_of_nat (length path + 1) :: u16) = length path + 1"
    "unat (word_of_nat (length path + 2) :: u16) = length path + 2"
    "unat (word_of_nat (length q) :: u16) = length q"
    using assms(4) by (simp_all only: unat_nat_u16)
  show ?thesis
    using u l by (simp add: ParseUrl_parse_def haveParam_def getPath_def getParam_def url_view_def read_at_def)
      (simp add: url_def read_at_def)
qed

theorem url_path_and_query_witness:
  "\<exists>pu'. ParseUrl_parse [47, 97, 63, 98, 32] (length [47, 97, 63, 98 :: byte]) ParseUrl_ctor = (0, pu') \<and> haveParam pu'
    \<and> getPath pu' = Some [47, 97] \<and> getParam pu' = Some [98]"
  using url_path_and_query [of "[97]" "[98]" "[32]" ParseUrl_ctor]
  by (simp add: url_text_def IS_URL_CHAR_def BIT_AT_def normal_url_char_def)

text \<open>A URL without a path inherits the path of the connection's previous request: \<open>getPath\<close> does not look at
  the field set, and \<open>http_parser_parse_url\<close> does not clear the field data. After a request for
  \<open>/a-long-path\<close> the target \<open>ftp://h\<close> yields a view that extends past the URL.\<close>

theorem url_stale_path:
  assumes "url_text path" and "\<forall>c\<in>set q. IS_URL_CHAR c \<or> c = ch_question" and "q \<noteq> []"
    and "length path + length q < 65534"
  defines "url \<equiv> ch_slash # path @ ch_question # q" and "host_url \<equiv> [102, 116, 112, 58, 47, 47, 104]"
  shows "\<exists>pu1 pu2. ParseUrl_parse (url @ rest) (length url) pu = (0, pu1)
    \<and> ParseUrl_parse (host_url @ rest2) 7 pu1 = (0, pu2) \<and> \<not> has_field UF_PATH (m_url pu2)
    \<and> getPath pu2 = (if length path + 1 \<le> 7 + length rest2
                     then Some (take (length path + 1) (host_url @ rest2)) else None)"
proof -
  from parse_origin_form [OF assms(1-4), of "m_url pu"] obtain u' where u:
    "http_parser_parse_url url False (m_url pu) = (0, u')"
    "field_data u' UF_PATH = (0, word_of_nat (length path + 1))"
    by (auto simp: url_def)
  have l: "unat (word_of_nat (length path + 1) :: u16) = length path + 1"
    using assms(4) by (simp only: unat_nat_u16)
  have h: "\<exists>u2. http_parser_parse_url host_url False v = (0, u2) \<and> \<not> has_field UF_PATH u2
      \<and> field_data u2 UF_PATH = field_data v UF_PATH" for v
    by (simp add: host_url_def http_parser_parse_url_def Let_def parse_url_char_def IS_ALPHA_def LOWER_def
        server_char_def IS_USERINFO_CHAR_def IS_ALPHANUM_def state_field_def has_field_def add_field_def set_off_def
        set_len_def inc_len_def http_parse_host_def http_parse_host_char_def IS_HOST_CHAR_def host_field_def)
  from h [of u'] obtain u2 where u2: "http_parser_parse_url host_url False u' = (0, u2)" "\<not> has_field UF_PATH u2"
    "field_data u2 UF_PATH = (0, word_of_nat (length path + 1))" using u(2) by auto
  show ?thesis
    using u u2 l by (simp add: ParseUrl_parse_def getPath_def url_view_def read_at_def host_url_def Let_def)
qed

theorem url_stale_path_witness:
  "\<exists>pu1 pu2. ParseUrl_parse [47, 97, 63, 98] (length [47, 97, 63, 98 :: byte]) ParseUrl_ctor = (0, pu1)
    \<and> ParseUrl_parse [102, 116, 112, 58, 47, 47, 104] 7 pu1 = (0, pu2) \<and> \<not> has_field UF_PATH (m_url pu2)
    \<and> getPath pu2 = Some [102, 116]"
  using url_stale_path [of "[97]" "[98]" "[]" ParseUrl_ctor "[]"]
  by (simp add: url_text_def IS_URL_CHAR_def BIT_AT_def normal_url_char_def)

end
