(* ===== verification/Decimal.thy ===== *)
theory Decimal
  imports Prelude
begin

text \<open>
  The decimal numbers of the C and C++ library: \<open>std::to_string\<close> and \<open>%d\<close> of an \<open>int\<close>, \<open>std::stoi\<close> with its
  exceptions, and that the second reads back what the first writes.
\<close>

section \<open>Printing\<close>

fun digits :: "nat \<Rightarrow> byte list" where
  "digits n = (if n < 10 then [48 + word_of_nat n] else digits (n div 10) @ [48 + word_of_nat (n mod 10)])"

declare digits.simps [simp del]

definition to_string :: "int \<Rightarrow> byte list" where
  "to_string v = (if v < 0 then 45 # digits (nat (- v)) else digits (nat v))"

section \<open>Reading\<close>

text \<open>White space, a sign, digits; what follows the digits is ignored.\<close>

datatype stoi_error = Invalid_argument | Out_of_range

definition is_space :: "byte \<Rightarrow> bool" where
  "is_space c \<longleftrightarrow> c = 32 \<or> (9 \<le> c \<and> c \<le> 13)"

definition is_digit :: "byte \<Rightarrow> bool" where
  "is_digit c \<longleftrightarrow> 48 \<le> c \<and> c \<le> 57"

fun digits_value :: "byte list \<Rightarrow> int \<Rightarrow> int" where
  "digits_value [] v = v"
| "digits_value (c # cs) v = (if is_digit c then digits_value cs (10 * v + int (unat c - 48)) else v)"

definition stoi :: "byte list \<Rightarrow> stoi_error + int" where
  "stoi s =
     (let s1 = dropWhile is_space s;
          neg = (s1 \<noteq> [] \<and> hd s1 = 45);
          s2 = (if s1 \<noteq> [] \<and> (hd s1 = 45 \<or> hd s1 = 43) then tl s1 else s1);
          v = (if neg then - digits_value s2 0 else digits_value s2 0)
      in
      if s2 = [] \<or> \<not> is_digit (hd s2) then Inl Invalid_argument
      else if v < - (2 ^ 31) \<or> v \<ge> 2 ^ 31 then Inl Out_of_range
      else Inr v)"

section \<open>Round trip\<close>

lemma digit_char:
  assumes "k < 10"
  shows "is_digit (48 + word_of_nat k)" "unat (48 + word_of_nat k :: byte) = 48 + k"
proof -
  show "unat (48 + word_of_nat k :: byte) = 48 + k"
    using assms by (simp add: unat_word_ariths unat_of_nat)
  then show "is_digit (48 + word_of_nat k)" using assms by (simp add: is_digit_def word_le_nat_alt)
qed

lemma digits_digit: "c \<in> set (digits n) \<Longrightarrow> is_digit c"
  by (induction n rule: digits.induct) (subst (asm) (2) digits.simps, auto split: if_splits intro: digit_char)

lemma digits_not_empty: "digits n \<noteq> []"
  by (subst digits.simps) simp

lemma digits_value_digits: "digits_value (digits n @ rest) 0 = digits_value rest (int n)"
proof (induction n arbitrary: rest rule: digits.induct)
  case (1 n)
  show ?case
  proof (cases "n < 10")
    case True
    then show ?thesis using digit_char [OF True] by (subst digits.simps) simp
  next
    case False
    have "10 * int (n div 10) + int (n mod 10) = int n" by presburger
    then show ?thesis
      using "1.IH" [OF False, of "[48 + word_of_nat (n mod 10)] @ rest"] digit_char [of "n mod 10"] False
      by (subst digits.simps) simp
  qed
qed

lemma digits_value_stop: "rest = [] \<or> \<not> is_digit (hd rest) \<Longrightarrow> digits_value rest v = v"
  by (cases rest) auto

lemma digit_not_special: "is_digit c \<Longrightarrow> c \<noteq> 45 \<and> c \<noteq> 43 \<and> \<not> is_space c"
  by (auto simp: is_digit_def is_space_def word_le_nat_alt)

lemma stoi_to_string:
  assumes "- (2 ^ 31) \<le> v" and "v < 2 ^ 31" and "rest = [] \<or> \<not> is_digit (hd rest)"
  shows "stoi (to_string v @ rest) = Inr v"
proof -
  define n where "n = nat (if v < 0 then - v else v)"
  obtain c cs where c: "digits n = c # cs" "is_digit c"
    using digits_digit [of "hd (digits n)" n] digits_not_empty [of n] by (cases "digits n") auto
  have d: "digits_value (c # cs @ rest) 0 = int n"
    using digits_value_digits [of n rest] digits_value_stop [OF assms(3)] by (simp add: c(1) del: digits_value.simps)
  have t: "to_string v = (if v < 0 then 45 # c # cs else c # cs)" using c(1) by (simp add: to_string_def n_def split: if_splits)
  have m: "\<not> is_space 45" by (simp add: is_space_def)
  show ?thesis
  proof (cases "v < 0")
    case True
    then have "int n = - v" by (simp add: n_def)
    then show ?thesis using True c(2) d m assms(1) by (simp add: stoi_def t Let_def del: digits_value.simps)
  next
    case False
    then have "int n = v" by (simp add: n_def)
    then show ?thesis
      using False c(2) d assms(2) digit_not_special [OF c(2)] by (simp add: stoi_def t Let_def del: digits_value.simps)
  qed
qed

end
