(* ===== verification/Http_Connection.thy ===== *)
theory Http_Connection
  imports Url_Parser Ws_Handshake Packets Decimal
begin

text \<open>
  \<open>src/network/HttpConnect.h/.cpp\<close>, \<open>HttpServer.cpp\<close>, \<open>src/utils/HttpParser.h/.cpp\<close> and
  \<open>src/common/HttpParam.h/.cpp\<close>: requests of a keep-alive connection. A request is collected in a packet;
  its head is parsed by \<open>llhttp\<close>, a third party parser, which is the argument \<open>llhttp\<close> here: for a head it
  returns what the connection reads from it, or \<^const>\<open>None\<close> for an error.

  \<open>m_content\<close> and the URL point into the storage of the packet, a vector that moves when it outgrows its
  capacity; a pointer is a block number and an offset, and reading through a pointer to an old block is
  undefined. The argument \<open>grow\<close> is the new capacity of a vector that has to grow.
\<close>

section \<open>The parameters of a request\<close>

text \<open>\<open>std::string_view::find\<close> of a character from a position.\<close>

fun view_find :: "byte \<Rightarrow> nat \<Rightarrow> byte list \<Rightarrow> nat option" where
  "view_find c i [] = None"
| "view_find c i (x # xs) = (if x = c then Some i else view_find c (i + 1) xs)"

lemma view_find_bounds: "view_find c i xs = Some j \<Longrightarrow> i \<le> j \<and> j < i + length xs"
  by (induction c i xs rule: view_find.induct) (auto split: if_splits)

function splite_loop :: "byte list \<Rightarrow> byte \<Rightarrow> nat \<Rightarrow> byte list list \<Rightarrow> byte list list" where
  "splite_loop str_view sep pos1 vec_str =
     (case view_find sep pos1 (drop pos1 str_view) of
        Some pos2 \<Rightarrow> splite_loop str_view sep (pos2 + 1) (vec_str @ [read_at pos1 (pos2 - pos1) str_view])
      | None \<Rightarrow> vec_str @ [drop pos1 str_view])"
  by pat_completeness auto
termination
  by (relation "measure (\<lambda>(s, c, p, v). length s + 1 - p)") (auto dest: view_find_bounds)

declare splite_loop.simps [simp del]

definition splite :: "byte list \<Rightarrow> byte \<Rightarrow> byte list list" where
  "splite str_view sep = splite_loop str_view sep 0 []"

type_synonym HttpParam = "byte list \<Rightarrow> byte list option"

definition HttpParam_add :: "HttpParam \<Rightarrow> byte list \<Rightarrow> HttpParam" where
  "HttpParam_add params sub =
     (let kys = splite sub 61 in if length kys = 2 then params(kys ! 0 \<mapsto> kys ! 1) else params)"

definition HttpParam_ctor :: "byte list \<Rightarrow> byte \<Rightarrow> HttpParam" where
  "HttpParam_ctor str_v sep = foldl HttpParam_add Map.empty (splite str_v sep)"

definition HttpParam_find :: "byte list \<Rightarrow> HttpParam \<Rightarrow> bool" where
  "HttpParam_find key params \<longleftrightarrow> params key \<noteq> None"

text \<open>\<open>params[key]\<close> inserts an empty value for an unknown key.\<close>

definition getStr :: "byte list \<Rightarrow> HttpParam \<Rightarrow> byte list \<times> HttpParam" where
  "getStr key params =
     (case params key of Some v \<Rightarrow> (v, params) | None \<Rightarrow> ([], params(key \<mapsto> [])))"

definition getInt :: "byte list \<Rightarrow> HttpParam \<Rightarrow> (stoi_error + int) \<times> HttpParam" where
  "getInt key params = (let (si, params1) = getStr key params in (stoi si, params1))"

section \<open>The connection\<close>

definition HTTP_GET :: u8 where "HTTP_GET = 1"
definition HTTP_POST :: u8 where "HTTP_POST = 3"

text \<open>The fields of \<open>llhttp_t\<close> that the connection reads, and the functions of \<open>http.c\<close> and \<open>api.c\<close> on them.\<close>

record llhttp_t =
  lt_content_length :: u64
  lt_type :: u8
  lt_method :: u8
  lt_http_major :: u8
  lt_http_minor :: u8
  lt_flags :: u16
  lt_status_code :: u16

definition HTTP_REQUEST :: u8 where "HTTP_REQUEST = 1"
definition F_CONNECTION_KEEP_ALIVE :: u16 where "F_CONNECTION_KEEP_ALIVE = 0x1"
definition F_CONNECTION_CLOSE :: u16 where "F_CONNECTION_CLOSE = 0x2"
definition F_CHUNKED :: u16 where "F_CHUNKED = 0x8"
definition F_CONTENT_LENGTH :: u16 where "F_CONTENT_LENGTH = 0x20"
definition F_SKIPBODY :: u16 where "F_SKIPBODY = 0x40"
definition F_TRANSFER_ENCODING :: u16 where "F_TRANSFER_ENCODING = 0x200"

definition llhttp_init :: "u8 \<Rightarrow> llhttp_t" where
  "llhttp_init t = \<lparr>lt_content_length = 0, lt_type = t, lt_method = 0, lt_http_major = 0, lt_http_minor = 0,
                    lt_flags = 0, lt_status_code = 0\<rparr>"

definition llhttp_message_needs_eof :: "llhttp_t \<Rightarrow> bool" where
  "llhttp_message_needs_eof p =
     (if lt_type p = HTTP_REQUEST then False
      else if lt_status_code p div 100 = 1 \<or> lt_status_code p = 204 \<or> lt_status_code p = 304
              \<or> lt_flags p AND F_SKIPBODY \<noteq> 0 then False
      else if lt_flags p AND F_TRANSFER_ENCODING \<noteq> 0 \<and> lt_flags p AND F_CHUNKED = 0 then True
      else if lt_flags p AND (F_CHUNKED OR F_CONTENT_LENGTH) \<noteq> 0 then False
      else True)"

definition llhttp_should_keep_alive :: "llhttp_t \<Rightarrow> bool" where
  "llhttp_should_keep_alive p =
     (if lt_http_major p > 0 \<and> lt_http_minor p > 0
      then (if lt_flags p AND F_CONNECTION_CLOSE \<noteq> 0 then False else \<not> llhttp_message_needs_eof p)
      else (if lt_flags p AND F_CONNECTION_KEEP_ALIVE = 0 then False else \<not> llhttp_message_needs_eof p))"

text \<open>What \<open>llhttp_execute\<close> does with a head it accepts: the parser afterwards, and the bytes of the target it
  passes to \<open>on_url\<close>.\<close>

record llhttp_head =
  lh_parser :: llhttp_t
  lh_url_off :: nat
  lh_url_len :: nat

datatype http_event = OnGet "byte list" "byte list" | OnPost "byte list" "byte list" | OnOther u8

text \<open>The content of the packets that \<open>sendMsg\<close> and \<open>autoMsg\<close> write. The buffer of \<open>sprintf\<close> has 1024 bytes and
  the head fits; \<open>%d\<close> prints the low 32 bits of the size.\<close>

datatype http_content_type =
  hct_text_html | hct_text_plain | hct_text_xml | hct_text_json | hct_image_gif | hct_image_jpeg | hct_image_png

fun getContentTypeStr :: "http_content_type \<Rightarrow> string" where
  "getContentTypeStr hct_text_html = ''text/html''"
| "getContentTypeStr hct_text_plain = ''text/plain''"
| "getContentTypeStr hct_text_xml = ''text/xml''"
| "getContentTypeStr hct_text_json = ''text/json''"
| "getContentTypeStr hct_image_gif = ''image/gif''"
| "getContentTypeStr hct_image_jpeg = ''image/jpeg''"
| "getContentTypeStr hct_image_png = ''image/png''"

definition HttpConnect_sendMsg :: "byte list \<Rightarrow> ByteBuffer option" where
  "HttpConnect_sendMsg msg = append msg (BasePacket_ctor [])"

definition autoMsg :: "byte list \<Rightarrow> http_content_type \<Rightarrow> ByteBuffer option" where
  "autoMsg sv t =
     do { p \<leftarrow> append (str ''HTTP/1.1 200 OK'' @ crlf @ str ''Content-Type: '' @ str (getContentTypeStr t) @ crlf
                     @ str ''Content-Length: '' @ to_string (to_i32 (int (length sv))) @ crlf @ crlf) (BasePacket_ctor []);
          append sv p }"

text \<open>What a handler may do with the connection it is called for: send a reply, or close it. A handler is a function of
  the calls of the connection so far, the present one last.\<close>

datatype http_action = SendMsg "byte list" | AutoMsg "byte list" http_content_type | CloseConnect

type_synonym http_handler = "http_event list \<Rightarrow> http_action list"

text \<open>\<open>m_event\<close> is \<open>hc_handler\<close>. \<open>hc_closed\<close>: the receive loop closed the connection and was left; \<open>hc_app_closed\<close>:
  a handler closed it. \<open>hc_written\<close> are the packets passed to \<open>TcpSocket::write\<close>, whose queue is modelled elsewhere.\<close>

record HttpConnect =
  m_readPacket :: ByteBuffer
  hc_capacity :: nat
  hc_block :: nat
  m_content :: "(nat \<times> nat) option"
  m_residue :: int
  m_parser :: llhttp_t
  p_url :: ParseUrl
  p_url_block :: nat
  p_url_off :: nat
  hc_buffer :: MessageBuffer
  hc_closed :: bool
  hc_events :: "http_event list"
  hc_handler :: "http_handler option"
  hc_app_closed :: bool
  hc_written :: "ByteBuffer list"

definition HttpParser_zero :: "HttpConnect \<Rightarrow> HttpConnect" where
  "HttpParser_zero c = c\<lparr>m_parser := llhttp_init HTTP_REQUEST\<rparr>"

definition HttpConnect_zero :: "HttpConnect \<Rightarrow> HttpConnect" where
  "HttpConnect_zero c =
     (HttpParser_zero (c\<lparr>m_readPacket := BasePacket_zero (m_readPacket c)\<rparr>))\<lparr>m_residue := 0, m_content := None\<rparr>"

definition HttpConnect_ctor :: HttpConnect where
  "HttpConnect_ctor = HttpConnect_zero
     \<lparr>m_readPacket = BasePacket_ctor [], hc_capacity = 0x1000, hc_block = 0, m_content = None, m_residue = 0,
      m_parser = llhttp_init 0, p_url = ParseUrl_ctor, p_url_block = 0, p_url_off = 0,
      hc_buffer = Resize MESSAGE_BUFFER_SIZE (MessageBuffer_ctor MESSAGE_BUFFER_SIZE), hc_closed = False,
      hc_events = [], hc_handler = None, hc_app_closed = False, hc_written = []\<rparr>"

definition setEvent :: "http_handler \<Rightarrow> HttpConnect \<Rightarrow> HttpConnect" where
  "setEvent e c = c\<lparr>hc_handler := Some e\<rparr>"

text \<open>\<open>HttpServer::createSocket\<close>.\<close>

definition http_createSocket :: "http_handler \<Rightarrow> HttpConnect" where
  "http_createSocket server = setEvent server HttpConnect_ctor"

text \<open>\<open>m_readPacket->append(buffer->GetReadPointer(), n)\<close> and \<open>buffer->ReadCompleted(n)\<close>.\<close>

definition take_input :: "(nat \<Rightarrow> nat \<Rightarrow> nat) \<Rightarrow> nat \<Rightarrow> HttpConnect \<Rightarrow> HttpConnect option" where
  "take_input grow n c =
     (if n > length (GetReadPointer (hc_buffer c)) then None
      else do { p \<leftarrow> append (take n (GetReadPointer (hc_buffer c))) (m_readPacket c);
                let c1 = (if length (storage p) > hc_capacity c
                          then c\<lparr>hc_capacity := grow (hc_capacity c) (length (storage p)), hc_block := hc_block c + 1\<rparr>
                          else c);
                Some (c1\<lparr>m_readPacket := p, hc_buffer := ReadCompleted n (hc_buffer c)\<rparr>) })"

text \<open>\<open>HttpParser::parser\<close>: \<open>llhttp_execute\<close> over the packet; its callback \<open>on_url\<close> parses the URL, and an error of
  it is an error of the parser.\<close>

definition HttpParser_parser :: "(byte list \<Rightarrow> llhttp_head option) \<Rightarrow> HttpConnect \<Rightarrow> bool \<times> HttpConnect" where
  "HttpParser_parser llhttp c =
     (let buf = take (wpos (m_readPacket c)) (storage (m_readPacket c)) in
      case llhttp buf of
        None \<Rightarrow> (False, c)
      | Some h \<Rightarrow>
          let (ret, pu) = ParseUrl_parse (drop (lh_url_off h) (storage (m_readPacket c))) (lh_url_len h) (p_url c)
          in (ret = 0, c\<lparr>m_parser := lh_parser h, p_url := pu,
                         p_url_block := hc_block c, p_url_off := lh_url_off h\<rparr>))"

text \<open>The URL with the memory its pointer sees now.\<close>

definition current_url :: "HttpConnect \<Rightarrow> ParseUrl option" where
  "current_url c =
     (if p_url_block c = hc_block c
      then Some ((p_url c)\<lparr>m_buff := drop (p_url_off c) (storage (m_readPacket c))\<rparr>) else None)"

text \<open>The effect of an action. \<open>close\<close> does not look whether the handle is closing already, and a second \<open>uv_close\<close> of a
  handle fails an assertion of \<open>libuv\<close>.\<close>

definition http_write :: "ByteBuffer \<Rightarrow> HttpConnect \<Rightarrow> HttpConnect" where
  "http_write p c = c\<lparr>hc_written := hc_written c @ [p]\<rparr>"

definition http_close_and_break :: "HttpConnect \<Rightarrow> HttpConnect option" where
  "http_close_and_break c = (if hc_app_closed c then None else Some (c\<lparr>hc_closed := True\<rparr>))"

fun http_act :: "http_action \<Rightarrow> HttpConnect \<Rightarrow> HttpConnect option" where
  "http_act (SendMsg msg) c = map_option (\<lambda>p. http_write p c) (HttpConnect_sendMsg msg)"
| "http_act (AutoMsg sv t) c = map_option (\<lambda>p. http_write p c) (autoMsg sv t)"
| "http_act CloseConnect c = (if hc_app_closed c then None else Some (c\<lparr>hc_app_closed := True\<rparr>))"

fun http_acts :: "http_action list \<Rightarrow> HttpConnect \<Rightarrow> HttpConnect option" where
  "http_acts [] c = Some c"
| "http_acts (a # as) c = Option.bind (http_act a c) (http_acts as)"

text \<open>\<open>if (m_event) m_event->onGet(\<dots>)\<close>, and the same for the other two calls.\<close>

definition http_call :: "http_event \<Rightarrow> HttpConnect \<Rightarrow> HttpConnect option" where
  "http_call e c =
     (case hc_handler c of
        None \<Rightarrow> Some c
      | Some h \<Rightarrow> http_acts (h (hc_events c @ [e])) (c\<lparr>hc_events := hc_events c @ [e]\<rparr>))"

definition http_complete :: "HttpConnect \<Rightarrow> HttpConnect option" where
  "http_complete c =
     do { pu \<leftarrow> current_url c;
          path \<leftarrow> getPath pu;
          e \<leftarrow> (if lt_method (m_parser c) = HTTP_POST then
                 do { (block, off) \<leftarrow> m_content c;
                      let n = to_size (to_i32 (uint (lt_content_length (m_parser c))));
                      (if block = hc_block c \<and> off + n \<le> length (storage (m_readPacket c))
                       then Some (OnPost path (read_at off n (storage (m_readPacket c)))) else None) }
               else if lt_method (m_parser c) = HTTP_GET then
                 (if haveParam pu then map_option (OnGet path) (getParam pu) else Some (OnGet path []))
               else Some (OnOther (lt_method (m_parser c))));
          http_call e c }"

definition head_end :: "byte list" where "head_end = [13, 10, 13, 10]"

text \<open>\<open>view.find("\<dots>")\<close> of the four bytes that end a head.\<close>

fun find_head_end :: "nat \<Rightarrow> byte list \<Rightarrow> nat option" where
  "find_head_end i [] = None"
| "find_head_end i (x # xs) = (if take 4 (x # xs) = head_end then Some i else find_head_end (i + 1) xs)"

text \<open>The first part of an iteration: the head. The view is a C string at the read pointer, whatever the active
  size of the buffer.\<close>

definition http_read_head ::
  "(nat \<Rightarrow> nat \<Rightarrow> nat) \<Rightarrow> (byte list \<Rightarrow> llhttp_head option) \<Rightarrow> HttpConnect \<Rightarrow> HttpConnect option" where
  "http_read_head grow llhttp c =
     do { view \<leftarrow> c_string (GetReadPointer (hc_buffer c));
          (case find_head_end 0 view of
             Some pos \<Rightarrow>
               do { c1 \<leftarrow> take_input grow (pos + 4) c;
                    let (ok, c2) = HttpParser_parser llhttp
                          (c1\<lparr>m_content := Some (hc_block c1, wpos (m_readPacket c1))\<rparr>);
                    (if \<not> ok then http_close_and_break c2
                     else if lt_method (m_parser c2) = HTTP_POST
                     then Some (c2\<lparr>m_residue := to_i32 (uint (lt_content_length (m_parser c2)))\<rparr>) else Some c2) }
           | None \<Rightarrow>
               do { c1 \<leftarrow> take_input grow (GetActiveSize (hc_buffer c)) c;
                    (if wpos (m_readPacket c1) \<ge> 0xffff then http_close_and_break c1 else Some c1) }) }"

text \<open>The second part: the body, and the end of a request.\<close>

definition http_read_body :: "(nat \<Rightarrow> nat \<Rightarrow> nat) \<Rightarrow> HttpConnect \<Rightarrow> HttpConnect option" where
  "http_read_body grow c =
     (let active = to_i32 (int (GetActiveSize (hc_buffer c))) in
      do { c1 \<leftarrow> (if m_residue c > 0 then
                   let rlen = (if m_residue c > active then active else m_residue c) in
                   take_input grow (to_size rlen) (c\<lparr>m_residue := m_residue c - rlen\<rparr>)
                 else Some c);
           (if m_residue c1 = 0 then map_option HttpConnect_zero (http_complete c1) else Some c1) })"

definition http_iteration ::
  "(nat \<Rightarrow> nat \<Rightarrow> nat) \<Rightarrow> (byte list \<Rightarrow> llhttp_head option) \<Rightarrow> HttpConnect \<Rightarrow> HttpConnect option" where
  "http_iteration grow llhttp c =
     do { c1 \<leftarrow> (if m_content c = None then http_read_head grow llhttp c else Some c);
          (if hc_closed c1 then Some c1
           else if m_content c1 \<noteq> None then http_read_body grow c1 else Some c1) }"

text \<open>\<open>on_msgbuffer\<close>; the loop is left by \<open>break\<close> when it closed the connection, but goes on over the bytes of the buffer
  when a handler closed it.\<close>

definition http_on_msgbuffer ::
  "(nat \<Rightarrow> nat \<Rightarrow> nat) \<Rightarrow> (byte list \<Rightarrow> llhttp_head option) \<Rightarrow> nat \<Rightarrow> HttpConnect \<Rightarrow> HttpConnect outcome" where
  "http_on_msgbuffer grow llhttp fuel c =
     run_loop fuel (\<lambda>c. GetActiveSize (hc_buffer c) > 0 \<and> \<not> hc_closed c) (http_iteration grow llhttp) c"

text \<open>\<open>TcpSocketBase::echo_read\<close> of the received bytes \<open>chunk\<close>.\<close>

definition http_received :: "byte list \<Rightarrow> HttpConnect \<Rightarrow> HttpConnect" where
  "http_received chunk c =
     c\<lparr>hc_buffer := WriteCompleted (length chunk)
         ((hc_buffer c)\<lparr>mb_storage := overwrite 0 chunk (mb_storage (hc_buffer c))\<rparr>)\<rparr>"

definition http_echo_read ::
  "(nat \<Rightarrow> nat \<Rightarrow> nat) \<Rightarrow> (byte list \<Rightarrow> llhttp_head option) \<Rightarrow> nat \<Rightarrow> byte list \<Rightarrow> HttpConnect
     \<Rightarrow> HttpConnect outcome" where
  "http_echo_read grow llhttp fuel chunk c =
     (case http_on_msgbuffer grow llhttp fuel (http_received chunk c) of
        Returns c1 \<Rightarrow> Returns (c1\<lparr>hc_buffer := Reset (hc_buffer c1)\<rparr>)
      | Undefined \<Rightarrow> Undefined
      | Out_of_fuel \<Rightarrow> Out_of_fuel)"

text \<open>\<open>on_writecomplete\<close>: \<open>isClose\<close> is read from the parser as it is now. What follows is the send queue of
  \<open>TcpSocket\<close>, modelled elsewhere.\<close>

definition isClose :: "llhttp_t \<Rightarrow> bool" where
  "isClose p \<longleftrightarrow> \<not> llhttp_should_keep_alive p"

definition http_on_writecomplete :: "HttpConnect \<Rightarrow> HttpConnect" where
  "http_on_writecomplete c = (if isClose (m_parser c) then c\<lparr>hc_closed := True\<rparr> else c)"

section \<open>The server\<close>

text \<open>\<open>HttpServer\<close>: handlers by path; a path without a handler is not answered. The server is the handler of its
  connections.\<close>

record 'h HttpServer =
  m_get :: "byte list \<Rightarrow> 'h option"
  m_post :: "byte list \<Rightarrow> 'h option"
  m_other :: "'h option"

definition addGet :: "byte list \<Rightarrow> 'h \<Rightarrow> 'h HttpServer \<Rightarrow> 'h HttpServer" where
  "addGet name back s = s\<lparr>m_get := (m_get s)(name \<mapsto> back)\<rparr>"

definition addPost :: "byte list \<Rightarrow> 'h \<Rightarrow> 'h HttpServer \<Rightarrow> 'h HttpServer" where
  "addPost name back s = s\<lparr>m_post := (m_post s)(name \<mapsto> back)\<rparr>"

definition setOther :: "'h \<Rightarrow> 'h HttpServer \<Rightarrow> 'h HttpServer" where
  "setOther back s = s\<lparr>m_other := Some back\<rparr>"

text \<open>\<open>onGet\<close>, \<open>onPost\<close> and \<open>onOther\<close>: the handler called and its data.\<close>

fun http_dispatch :: "'h HttpServer \<Rightarrow> http_event \<Rightarrow> ('h \<times> byte list) option" where
  "http_dispatch s (OnGet path dat) = map_option (\<lambda>h. (h, dat)) (m_get s path)"
| "http_dispatch s (OnPost path dat) = map_option (\<lambda>h. (h, dat)) (m_post s path)"
| "http_dispatch s (OnOther m) = map_option (\<lambda>h. (h, [])) (m_other s)"

definition server_handler :: "(byte list \<Rightarrow> http_action list) HttpServer \<Rightarrow> http_handler" where
  "server_handler s calls =
     (case http_dispatch s (last calls) of Some (h, dat) \<Rightarrow> h dat | None \<Rightarrow> [])"

text \<open>The reads of a connection, one after the other; \<open>libuv\<close> stops reading when the handle is closed.\<close>

fun http_echo_reads ::
  "(nat \<Rightarrow> nat \<Rightarrow> nat) \<Rightarrow> (byte list \<Rightarrow> llhttp_head option) \<Rightarrow> nat \<Rightarrow> byte list list \<Rightarrow> HttpConnect
     \<Rightarrow> HttpConnect outcome" where
  "http_echo_reads grow llhttp fuel [] c = Returns c"
| "http_echo_reads grow llhttp fuel (chunk # chunks) c =
     (if hc_closed c \<or> hc_app_closed c then Returns c else
      case http_echo_read grow llhttp fuel chunk c of
        Returns c1 \<Rightarrow> http_echo_reads grow llhttp fuel chunks c1
      | Undefined \<Rightarrow> Undefined
      | Out_of_fuel \<Rightarrow> Out_of_fuel)"

section \<open>Splitting parameters\<close>

lemma view_find_append: "c \<notin> set xs \<Longrightarrow> view_find c i (xs @ c # ys) = Some (i + length xs)"
  by (induction c i xs rule: view_find.induct) auto

lemma view_find_none: "c \<notin> set xs \<Longrightarrow> view_find c i xs = None"
  by (induction c i xs rule: view_find.induct) auto

lemma splite_loop_last: "sep \<notin> set s \<Longrightarrow> splite_loop (pre @ s) sep (length pre) v = v @ [s]"
  by (subst splite_loop.simps) (simp add: view_find_none)

lemma splite_loop_next:
  "sep \<notin> set s \<Longrightarrow> splite_loop (pre @ s @ sep # rest) sep (length pre) v
     = splite_loop (pre @ s @ sep # rest) sep (length pre + length s + 1) (v @ [s])"
  by (subst splite_loop.simps) (simp add: view_find_append read_at_def)

lemma splite_loop_join:
  "ss \<noteq> [] \<Longrightarrow> \<forall>s\<in>set ss. sep \<notin> set s \<Longrightarrow> splite_loop (pre @ join sep ss) sep (length pre) v = v @ ss"
proof (induction sep ss arbitrary: pre v rule: join.induct)
  case (3 sep s t ss)
  then show ?case
    using "3.IH" [of "pre @ s @ [sep]" "v @ [s]"] by (simp add: splite_loop_next)
qed (simp_all add: splite_loop_last)

lemma splite_join: "ss \<noteq> [] \<Longrightarrow> \<forall>s\<in>set ss. sep \<notin> set s \<Longrightarrow> splite (join sep ss) sep = ss"
  using splite_loop_join [of ss sep "[]" "[]"] by (simp add: splite_def)

definition param :: "byte list \<times> byte list \<Rightarrow> byte list" where
  "param kv = fst kv @ 61 # snd kv"

lemma add_params:
  "\<forall>(k, v)\<in>set kvs. 61 \<notin> set k \<and> 61 \<notin> set v \<Longrightarrow>
   foldl HttpParam_add m (List.map param kvs) = foldl (\<lambda>m (k, v). m(k \<mapsto> v)) m kvs"
proof (induction kvs arbitrary: m)
  case (Cons kv kvs)
  have "splite (param kv) 61 = [fst kv, snd kv]"
    using splite_join [of "[fst kv, snd kv]" 61] Cons.prems by (auto simp: param_def)
  then show ?case using Cons by (simp add: HttpParam_add_def split_beta fun_upd_def)
qed simp

lemma foldl_updates: "distinct (List.map fst kvs) \<Longrightarrow> (k, v) \<in> set kvs \<Longrightarrow> foldl (\<lambda>m (k, v). m(k \<mapsto> v)) m kvs k = Some v"
proof (induction kvs arbitrary: m rule: rev_induct)
  case (snoc kv kvs)
  then show ?case by (auto simp: split_beta image_iff)
qed simp

text \<open>C20. A query string \<open>k1=v1&k2=v2&\<dots>\<close> round-trips through \<open>HttpParam\<close>: when the keys are distinct and neither
  keys nor values contain the separator or \<open>=\<close>, \<open>getStr\<close> returns for each key its value and leaves the map as it is.\<close>

theorem http_param_roundtrip:
  assumes "distinct (List.map fst kvs)" and "(k, v) \<in> set kvs"
    and "\<forall>(k, v)\<in>set kvs. 61 \<notin> set k \<and> 61 \<notin> set v \<and> sep \<notin> set k \<and> sep \<notin> set v" and "sep \<noteq> 61"
  defines "p \<equiv> HttpParam_ctor (join sep (List.map param kvs)) sep"
  shows "getStr k p = (v, p) \<and> HttpParam_find k p"
proof -
  have "splite (join sep (List.map param kvs)) sep = List.map param kvs"
    using assms(2-4) by (intro splite_join) (auto simp: param_def)
  moreover have "foldl HttpParam_add Map.empty (List.map param kvs) = foldl (\<lambda>m (k, v). m(k \<mapsto> v)) Map.empty kvs"
    using assms(3) by (intro add_params) auto
  ultimately have "p k = Some v"
    using foldl_updates [OF assms(1,2)] by (simp add: p_def HttpParam_ctor_def)
  then show ?thesis by (simp add: getStr_def HttpParam_find_def)
qed

theorem http_param_roundtrip_witness:
  "getStr [97] (HttpParam_ctor (join 38 (List.map param [([97], [49]), ([98], [])])) 38)
     = ([49], HttpParam_ctor (join 38 (List.map param [([97], [49]), ([98], [])])) 38)
   \<and> HttpParam_find [97] (HttpParam_ctor (join 38 (List.map param [([97], [49]), ([98], [])])) 38)"
  using http_param_roundtrip [of "[([97], [49]), ([98], [])]" "[97]" "[49]" 38] by simp

end
