(* ===== verification/Http_Requests.thy ===== *)
theory Http_Requests
  imports Http_Connection
begin

text \<open>
  What the connection of \<open>Http_Connection\<close> makes of requests: a request whose bytes arrive in one read is always
  delivered, whatever came before it; one that arrives in pieces may not be.
\<close>

section \<open>Requests\<close>

text \<open>A request whose head \<open>llhttp\<close> accepts: it reports the method, the length of the body and where the target
  starts. The target is \<open>/path\<close> or \<open>/path?query\<close>.\<close>

record http_request =
  rq_method :: u8
  rq_path :: "byte list"
  rq_query :: "byte list"
  rq_head :: "byte list"
  rq_off :: nat
  rq_body :: "byte list"

definition rq_target :: "http_request \<Rightarrow> byte list" where
  "rq_target r = ch_slash # rq_path r @ (if rq_query r = [] then [] else ch_question # rq_query r)"

definition head_only :: "byte list \<Rightarrow> bool" where
  "head_only h \<longleftrightarrow> 0 \<notin> set h \<and> 4 \<le> length h \<and> find_head_end 0 h = Some (length h - 4)"

definition llhttp_reports :: "(byte list \<Rightarrow> llhttp_head option) \<Rightarrow> http_request \<Rightarrow> u64 \<Rightarrow> bool" where
  "llhttp_reports llhttp r n =
     (case llhttp (rq_head r) of
        Some h \<Rightarrow> lt_method (lh_parser h) = rq_method r \<and> lt_content_length (lh_parser h) = n
          \<and> lh_url_off h = rq_off r \<and> lh_url_len h = length (rq_target r)
      | None \<Rightarrow> False)"

abbreviation llhttp_accepts :: "(byte list \<Rightarrow> llhttp_head option) \<Rightarrow> http_request \<Rightarrow> bool" where
  "llhttp_accepts llhttp r \<equiv> llhttp_reports llhttp r (word_of_nat (length (rq_body r)))"

definition request_ok :: "http_request \<Rightarrow> bool" where
  "request_ok r \<longleftrightarrow> url_text (rq_path r) \<and> (\<forall>c\<in>set (rq_query r). IS_URL_CHAR c \<or> c = ch_question)
     \<and> head_only (rq_head r) \<and> read_at (rq_off r) (length (rq_target r)) (rq_head r) = rq_target r
     \<and> length (rq_head r) < MESSAGE_BUFFER_SIZE \<and> length (rq_body r) < 2 * MESSAGE_BUFFER_SIZE
     \<and> (rq_method r = HTTP_POST \<or> rq_method r = HTTP_GET \<and> rq_body r = [])"

definition event_of :: "http_request \<Rightarrow> http_event" where
  "event_of r = (if rq_method r = HTTP_POST then OnPost (ch_slash # rq_path r) (rq_body r)
                 else OnGet (ch_slash # rq_path r) (rq_query r))"

text \<open>Handlers that send any replies, and never close the connection; the packets they write in a sequence of calls.\<close>

definition replies_only :: "http_handler \<Rightarrow> bool" where
  "replies_only h \<longleftrightarrow> (\<forall>calls. CloseConnect \<notin> set (h calls))"

definition reply_packet :: "http_action \<Rightarrow> ByteBuffer option" where
  "reply_packet a = (case a of SendMsg msg \<Rightarrow> HttpConnect_sendMsg msg | AutoMsg sv t \<Rightarrow> autoMsg sv t | CloseConnect \<Rightarrow> None)"

fun replies :: "http_handler \<Rightarrow> http_event list \<Rightarrow> http_event list \<Rightarrow> ByteBuffer list" where
  "replies h past [] = []"
| "replies h past (e # es) = List.map_filter reply_packet (h (past @ [e])) @ replies h (past @ [e]) es"

lemma reply_packet_ok: "a \<noteq> CloseConnect \<Longrightarrow> \<exists>p. reply_packet a = Some p \<and> http_act a c = Some (http_write p c)"
  by (cases a) (auto simp: reply_packet_def HttpConnect_sendMsg_def autoMsg_def append_def BasePacket_ctor_def
      BasePacket_zero_def ByteBuffer_ctor_def)

lemma http_acts_replies:
  "CloseConnect \<notin> set as \<Longrightarrow>
   http_acts as c = Some (c\<lparr>hc_written := hc_written c @ List.map_filter reply_packet as\<rparr>)"
proof (induction as arbitrary: c)
  case (Cons a as)
  then obtain p where "reply_packet a = Some p" "http_act a c = Some (http_write p c)"
    using reply_packet_ok [of a c] by auto
  then show ?case using Cons by (simp add: http_write_def map_filter_simps)
qed (simp add: map_filter_simps)

lemma http_call_replies:
  "hc_handler c = Some h \<Longrightarrow> replies_only h \<Longrightarrow>
   http_call e c = Some (c\<lparr>hc_events := hc_events c @ [e],
     hc_written := hc_written c @ List.map_filter reply_packet (h (hc_events c @ [e]))\<rparr>)"
  by (simp add: http_call_def replies_only_def http_acts_replies)

lemma http_acts_frame: "http_acts as c = Some c' \<Longrightarrow> hc_buffer c' = hc_buffer c \<and> hc_closed c' = hc_closed c"
proof (induction as arbitrary: c)
  case (Cons a as)
  then obtain c1 where "http_act a c = Some c1" "http_acts as c1 = Some c'" by (auto simp: bind_eq_Some_conv)
  then show ?case using Cons.IH [of c1] by (cases a) (auto simp: http_write_def split: if_splits)
qed simp

lemma find_head_end_bounds: "find_head_end i xs = Some j \<Longrightarrow> i \<le> j \<and> j + 4 \<le> i + length xs"
proof (induction i xs rule: find_head_end.induct)
  case (2 i x xs)
  show ?case
  proof (cases "take 4 (x # xs) = head_end")
    case True
    then have "length (take 4 (x # xs)) = 4" by (simp add: head_end_def)
    then show ?thesis using True 2 by (simp split: if_splits)
  qed (use 2 in auto)
qed simp

lemma find_head_end_append: "find_head_end i xs = Some j \<Longrightarrow> find_head_end i (xs @ ys) = Some j"
proof (induction i xs rule: find_head_end.induct)
  case (2 i x xs)
  have "4 \<le> length (x # xs)" using find_head_end_bounds [OF 2(2)] by simp
  then have "take 4 (x # xs @ ys) = take 4 (x # xs)"
    using take_append [of 4 "x # xs" ys] by simp
  then show ?case using 2 by (auto split: if_splits)
qed simp

lemma c_string_append: "0 \<notin> set xs \<Longrightarrow> 0 \<in> set ys \<Longrightarrow> \<exists>zs. c_string (xs @ ys) = Some (xs @ zs)"
  by (auto simp: c_string_def takeWhile_append)

lemma head_only_view:
  assumes "head_only h" and "0 \<in> set ys"
  shows "\<exists>v. c_string (h @ ys) = Some v \<and> find_head_end 0 v = Some (length h - 4)"
  using assms c_string_append [of h ys] find_head_end_append [of 0 h "length h - 4"] by (auto simp: head_only_def)

lemma request_target_length: "request_ok r \<Longrightarrow> length (rq_path r) + length (rq_query r) < 4096"
proof -
  assume ok: "request_ok r"
  then have "length (rq_target r) \<le> length (rq_head r)"
    by (metis request_ok_def read_at_def length_take length_drop min.cobounded1 min.cobounded2 diff_le_self le_trans)
  then show ?thesis using ok by (simp add: request_ok_def rq_target_def MESSAGE_BUFFER_SIZE_def split: if_splits)
qed

lemma parse_target:
  assumes "request_ok r"
  shows "\<exists>u'. http_parser_parse_url (rq_target r) False u = (0, u')
    \<and> has_field UF_QUERY u' = (rq_query r \<noteq> [])
    \<and> field_data u' UF_PATH = (0, word_of_nat (length (rq_path r) + 1))
    \<and> (rq_query r \<noteq> [] \<longrightarrow> field_data u' UF_QUERY = (word_of_nat (length (rq_path r) + 2), word_of_nat (length (rq_query r))))"
proof (cases "rq_query r = []")
  case True
  let ?u0 = "u\<lparr>field_set := 0, port := 0\<rparr>"
  define u2 where "u2 = set_len UF_PATH (word_of_nat (length (rq_path r) + 1)) (set_off UF_PATH 0 (add_field UF_PATH ?u0))"
  have l: "url_loop (ch_slash # rq_path r) 0 s_req_spaces_before_url None False ?u0 = (True, False, u2)"
    using url_loop_path [of "rq_path r" "[]" ?u0] assms request_target_length [OF assms] by (simp add: u2_def request_ok_def)
  have none: "\<not> has_field f (u\<lparr>field_set := 0\<rparr>)" "\<not> has_field f ?u0" for f by (simp_all add: has_field_def)
  have h: "has_field f u2 \<longleftrightarrow> f = UF_PATH" for f
    by (simp only: field_simps none u2_def) auto
  have "field_data u2 UF_PATH = (0, word_of_nat (length (rq_path r) + 1))"
    by (simp_all only: field_simps u2_def) simp_all
  moreover have "http_parser_parse_url (ch_slash # rq_path r) False u = (0, u2)"
    unfolding http_parser_parse_url_def Let_def if_False l prod.case by (simp add: h)
  ultimately show ?thesis using h True by (simp add: rq_target_def)
next
  case False
  then show ?thesis
    using parse_origin_form [of "rq_path r" "rq_query r" u] assms request_target_length [OF assms]
    by (auto simp: rq_target_def request_ok_def)
qed


section \<open>One request per read\<close>

definition http_ready :: "http_handler \<Rightarrow> HttpConnect \<Rightarrow> bool" where
  "http_ready h c \<longleftrightarrow> hc_handler c = Some h \<and> \<not> hc_app_closed c \<and> m_content c = None \<and> m_residue c = 0 \<and> \<not> hc_closed c \<and> rpos (m_readPacket c) = 0
     \<and> wpos (m_readPacket c) = 0 \<and> storage (m_readPacket c) = [] \<and> MESSAGE_BUFFER_SIZE \<le> hc_capacity c
     \<and> mb_rpos (hc_buffer c) = 0 \<and> mb_wpos (hc_buffer c) = 0
     \<and> length (mb_storage (hc_buffer c)) = MESSAGE_BUFFER_SIZE \<and> last (mb_storage (hc_buffer c)) = 0
     \<and> m_parser c = llhttp_init HTTP_REQUEST"

lemma ctor_ready: "http_ready h (http_createSocket h)"
  by (simp add: http_ready_def http_createSocket_def setEvent_def HttpConnect_ctor_def HttpConnect_zero_def HttpParser_zero_def BasePacket_ctor_def
      BasePacket_zero_def ByteBuffer_ctor_def Resize_def MessageBuffer_ctor_def MESSAGE_BUFFER_SIZE_def resize_def)

text \<open>The state in the middle of a read: some bytes were taken, others wait in the buffer.\<close>

definition took :: "byte list \<Rightarrow> byte list \<Rightarrow> byte list \<Rightarrow> HttpConnect \<Rightarrow> bool" where
  "took taken waiting after c \<longleftrightarrow> storage (m_readPacket c) = taken \<and> wpos (m_readPacket c) = length taken
     \<and> length waiting < MESSAGE_BUFFER_SIZE
     \<and> drop (mb_rpos (hc_buffer c)) (mb_storage (hc_buffer c)) = waiting @ after \<and> 0 \<in> set after
     \<and> mb_wpos (hc_buffer c) = mb_rpos (hc_buffer c) + length waiting"

lemma took_active: "took taken waiting after c \<Longrightarrow> GetActiveSize (hc_buffer c) = length waiting"
  by (simp add: took_def GetActiveSize_def to_size_id MESSAGE_BUFFER_SIZE_def)

lemma took_input:
  assumes "took taken (xs @ ys) after c" and "length taken + length xs \<le> hc_capacity c"
  defines "c' \<equiv> c\<lparr>m_readPacket := (m_readPacket c)\<lparr>storage := taken @ xs, wpos := length taken + length xs\<rparr>,
                  hc_buffer := ReadCompleted (length xs) (hc_buffer c)\<rparr>"
  shows "take_input grow (length xs) c = Some c'" and "took (taken @ xs) ys after c'"
proof -
  have d: "drop (mb_rpos (hc_buffer c)) (mb_storage (hc_buffer c)) = (xs @ ys) @ after"
    using assms(1) by (simp add: took_def)
  from d show "take_input grow (length xs) c = Some c'"
    using assms(1,2) by (simp add: take_input_def GetReadPointer_def append_def took_def c'_def)
  have "drop (mb_rpos (hc_buffer c) + length xs) (mb_storage (hc_buffer c)) = ys @ after"
    using arg_cong [OF d, of "drop (length xs)"] by (simp add: add.commute)
  then show "took (taken @ xs) ys after c'"
    using assms(1) by (simp add: took_def c'_def ReadCompleted_def)
qed

lemma received_took:
  assumes "http_ready h c" and "length chunk < MESSAGE_BUFFER_SIZE"
  shows "\<exists>after. took [] chunk after (http_received chunk c)
    \<and> last (mb_storage (hc_buffer (http_received chunk c))) = 0
    \<and> length (mb_storage (hc_buffer (http_received chunk c))) = MESSAGE_BUFFER_SIZE"
proof -
  let ?s = "mb_storage (hc_buffer c)"
  have l: "length chunk < length ?s" "last ?s = 0" using assms by (simp_all add: http_ready_def)
  then have "last (drop (length chunk) ?s) = 0" "drop (length chunk) ?s \<noteq> []" by simp_all
  then have "0 \<in> set (drop (length chunk) ?s)" by (metis last_in_set)
  then show ?thesis
    using assms l by (intro exI [of _ "drop (length chunk) ?s"])
      (simp add: took_def http_received_def WriteCompleted_def http_ready_def overwrite_def)
qed


text \<open>The head of \<open>r\<close> was read.\<close>

definition headed :: "http_request \<Rightarrow> u64 \<Rightarrow> HttpConnect \<Rightarrow> bool" where
  "headed r n c \<longleftrightarrow> m_content c = Some (hc_block c, length (rq_head r)) \<and> lt_method (m_parser c) = rq_method r
     \<and> lt_content_length (m_parser c) = n \<and> p_url_block c = hc_block c \<and> p_url_off c = rq_off r
     \<and> has_field UF_QUERY (m_url (p_url c)) = (rq_query r \<noteq> [])
     \<and> field_data (m_url (p_url c)) UF_PATH = (0, word_of_nat (length (rq_path r) + 1))
     \<and> (rq_query r \<noteq> [] \<longrightarrow>
         field_data (m_url (p_url c)) UF_QUERY = (word_of_nat (length (rq_path r) + 2), word_of_nat (length (rq_query r))))
     \<and> \<not> hc_closed c"

definition same_storage :: "HttpConnect \<Rightarrow> HttpConnect \<Rightarrow> bool" where
  "same_storage c c' \<longleftrightarrow> mb_storage (hc_buffer c') = mb_storage (hc_buffer c) \<and> hc_events c' = hc_events c
     \<and> hc_capacity c' = hc_capacity c \<and> hc_block c' = hc_block c \<and> rpos (m_readPacket c') = rpos (m_readPacket c)
     \<and> hc_handler c' = hc_handler c \<and> hc_app_closed c' = hc_app_closed c \<and> hc_written c' = hc_written c"

lemma content_length: "request_ok r \<Longrightarrow> to_i32 (uint (word_of_nat (length (rq_body r)) :: u64)) = int (length (rq_body r))"
  by (simp add: request_ok_def MESSAGE_BUFFER_SIZE_def uint_nat unat_of_nat to_i32_id)

lemma read_head_ok:
  assumes r: "request_ok r" "llhttp_reports llhttp r n" and t: "took [] (rq_head r @ rest) after c"
    and c: "m_content c = None" "m_residue c = 0" "\<not> hc_closed c" "MESSAGE_BUFFER_SIZE \<le> hc_capacity c"
  shows "\<exists>c2. http_read_head grow llhttp c = Some c2 \<and> took (rq_head r) rest after c2 \<and> headed r n c2
    \<and> m_residue c2 = (if rq_method r = HTTP_POST then to_i32 (uint n) else 0) \<and> same_storage c c2"
proof -
  define c1 where "c1 = c\<lparr>m_readPacket := (m_readPacket c)\<lparr>storage := rq_head r, wpos := length (rq_head r)\<rparr>,
                  hc_buffer := ReadCompleted (length (rq_head r)) (hc_buffer c)\<rparr>"
  have "length (rq_head r) \<le> hc_capacity c" using c(4) r(1) by (simp add: request_ok_def)
  note t1 = took_input [OF t, unfolded append_Nil list.size add_0, OF this, folded c1_def]
  have "GetReadPointer (hc_buffer c) = rq_head r @ rest @ after" "0 \<in> set after"
    using t by (simp_all add: took_def GetReadPointer_def)
  then obtain v where v: "c_string (GetReadPointer (hc_buffer c)) = Some v" "find_head_end 0 v = Some (length (rq_head r) - 4)"
    using head_only_view [of "rq_head r" "rest @ after"] r(1) by (auto simp: request_ok_def)
  from parse_target [OF r(1)] obtain u' where u: "http_parser_parse_url (rq_target r) False (m_url (p_url c)) = (0, u')"
    "has_field UF_QUERY u' = (rq_query r \<noteq> [])" "field_data u' UF_PATH = (0, word_of_nat (length (rq_path r) + 1))"
    "rq_query r \<noteq> [] \<longrightarrow> field_data u' UF_QUERY = (word_of_nat (length (rq_path r) + 2), word_of_nat (length (rq_query r)))"
    by blast
  have four: "length (rq_head r) - 4 + 4 = length (rq_head r)"
    using r(1) by (simp add: request_ok_def head_only_def)
  have target: "take (length (rq_target r)) (drop (rq_off r) (rq_head r)) = rq_target r"
    using r(1) by (simp add: request_ok_def read_at_def)
  obtain h where h: "llhttp (rq_head r) = Some h" "lt_method (lh_parser h) = rq_method r" "lt_content_length (lh_parser h) = n"
    "lh_url_off h = rq_off r" "lh_url_len h = length (rq_target r)"
    using r(2) by (auto simp: llhttp_reports_def split: option.splits)
  define c2 where "c2 = c1\<lparr>m_content := Some (hc_block c1, length (rq_head r)), m_parser := lh_parser h,
      p_url := (p_url c)\<lparr>m_buff := drop (rq_off r) (rq_head r), m_url := u'\<rparr>, p_url_block := hc_block c1, p_url_off := rq_off r\<rparr>"
  have c1s: "storage (m_readPacket c1) = rq_head r" "wpos (m_readPacket c1) = length (rq_head r)" "p_url c1 = p_url c"
    by (simp_all add: c1_def)
  have "HttpParser_parser llhttp (c1\<lparr>m_content := Some (hc_block c1, wpos (m_readPacket c1))\<rparr>) = (True, c2)"
    using h u(1) by (simp add: HttpParser_parser_def c1s ParseUrl_parse_def target c2_def)
  then have "http_read_head grow llhttp c = Some (if rq_method r = HTTP_POST then c2\<lparr>m_residue := to_i32 (uint n)\<rparr> else c2)"
    using v t1(1) h(2,3) by (simp add: http_read_head_def four c2_def)
  moreover have "took (rq_head r) rest after c2" "headed r n c2" "same_storage c c2" "m_residue c2 = 0"
    using t1(2) u(2-4) c h(2,3) by (simp_all add: c2_def took_def headed_def same_storage_def c1_def)
  ultimately show ?thesis
    by (auto simp: took_def headed_def same_storage_def)
qed

lemma url_lengths:
  assumes "request_ok r"
  shows "unat (word_of_nat (length (rq_path r) + 1) :: u16) = length (rq_path r) + 1"
    "unat (word_of_nat (length (rq_path r) + 2) :: u16) = length (rq_path r) + 2"
    "unat (word_of_nat (length (rq_query r)) :: u16) = length (rq_query r)"
  using request_target_length [OF assms] by (simp_all only: unat_nat_u16)

lemma complete_ok:
  assumes r: "request_ok r" and h: "headed r (word_of_nat (length (rq_body r))) c" and st: "storage (m_readPacket c) = rq_head r @ rq_body r"
  shows "http_complete c = http_call (event_of r) c"
proof -
  have "rq_head r = take (rq_off r) (rq_head r) @ rq_target r @ drop (rq_off r + length (rq_target r)) (rq_head r)"
    using r by (metis append_take_drop_id request_ok_def read_at_def drop_drop add.commute)
  then obtain pre suf where hd: "rq_head r = pre @ rq_target r @ suf" "length pre = rq_off r"
    using r by (metis append_Nil length_take min.absorb2 nat_le_linear drop_all take_all rq_target_def list.distinct(1) request_ok_def read_at_def take_Nil)
  then have "current_url c = Some ((p_url c)\<lparr>m_buff := rq_target r @ suf @ rq_body r\<rparr>)"
    using h st by (simp add: current_url_def headed_def)
  then show ?thesis
    using h st r url_lengths [OF r] content_length [OF r]
    by (auto simp: http_complete_def headed_def getPath_def getParam_def haveParam_def url_view_def read_at_def rq_target_def
        event_of_def request_ok_def to_size_of_nat HTTP_GET_def HTTP_POST_def MESSAGE_BUFFER_SIZE_def to_size_id)
qed


lemma read_body_ok:
  assumes r: "request_ok r" and h: "headed r (word_of_nat (length (rq_body r))) c" and t: "took (rq_head r) (rq_body r) after c"
    and res: "m_residue c = int (length (rq_body r))" and fit: "length (rq_head r @ rq_body r) \<le> hc_capacity c"
    and e: "hc_handler c = Some e" "replies_only e"
  shows "\<exists>c3. http_read_body grow c = Some (HttpConnect_zero c3) \<and> hc_events c3 = hc_events c @ [event_of r]
    \<and> hc_written c3 = hc_written c @ List.map_filter reply_packet (e (hc_events c @ [event_of r]))
    \<and> hc_handler c3 = hc_handler c \<and> hc_app_closed c3 = hc_app_closed c
    \<and> mb_storage (hc_buffer c3) = mb_storage (hc_buffer c) \<and> mb_rpos (hc_buffer c3) = mb_wpos (hc_buffer c3)
    \<and> rpos (m_readPacket c3) = rpos (m_readPacket c) \<and> hc_capacity c3 = hc_capacity c \<and> \<not> hc_closed c3"
proof -
  let ?n = "length (rq_body r)"
  have small: "?n < 8192" using r by (simp add: request_ok_def MESSAGE_BUFFER_SIZE_def)
  have active: "to_i32 (int (GetActiveSize (hc_buffer c))) = int ?n"
    using small by (simp add: took_active [OF t] to_i32_id)
  define c2 where "c2 = c\<lparr>m_residue := 0\<rparr>"
  define c3 where "c3 = c2\<lparr>m_readPacket := (m_readPacket c2)\<lparr>storage := rq_head r @ rq_body r,
      wpos := length (rq_head r) + ?n\<rparr>, hc_buffer := ReadCompleted ?n (hc_buffer c2)\<rparr>"
  define c4 where "c4 = c3\<lparr>hc_events := hc_events c3 @ [event_of r],
    hc_written := hc_written c3 @ List.map_filter reply_packet (e (hc_events c3 @ [event_of r]))\<rparr>"
  have t2: "took (rq_head r) (rq_body r @ []) after c2" using t by (simp add: took_def c2_def)
  have "length (rq_head r) + ?n \<le> hc_capacity c2" using fit by (simp add: c2_def)
  note t3 = took_input [OF t2 this, folded c3_def]
  have "0 < m_residue c \<or> c2 = c \<and> c3 = c2"
  proof (cases "?n = 0")
    case True
    then have "c2 = c" using res by (cases c) (simp add: c2_def)
    moreover have "m_readPacket c2 = (m_readPacket c2)\<lparr>storage := rq_head r, wpos := length (rq_head r)\<rparr>"
      using t2 by (cases "m_readPacket c2") (simp add: took_def)
    moreover have "ReadCompleted 0 (hc_buffer c2) = hc_buffer c2" by (cases "hc_buffer c2") (simp add: ReadCompleted_def)
    ultimately show ?thesis using True by (cases c2) (simp add: c3_def)
  qed (use res in simp)
  then have "(if m_residue c > 0 then
                   let rlen = (if m_residue c > int ?n then int ?n else m_residue c) in
                   take_input grow (to_size rlen) (c\<lparr>m_residue := m_residue c - rlen\<rparr>)
                 else Some c) = Some c3"
    using t3(1) res small by (auto simp: to_size_of_nat c2_def)
  moreover have h3: "headed r (word_of_nat (length (rq_body r))) c3" "m_residue c3 = 0" using h by (simp_all add: headed_def c3_def c2_def)
  moreover have "http_complete c3 = http_call (event_of r) c3"
    by (rule complete_ok [OF r h3(1)]) (simp add: c3_def)
  moreover have "http_call (event_of r) c3 = Some c4"
    unfolding c4_def using e by (intro http_call_replies) (simp_all add: c3_def c2_def)
  ultimately have "http_read_body grow c = Some (HttpConnect_zero c4)"
    by (simp add: http_read_body_def active Let_def)
  then show ?thesis
    using t h by (intro exI [of _ c4]) (simp add: c4_def c3_def c2_def ReadCompleted_def took_def headed_def)
qed

lemma zero_ready:
  assumes "mb_rpos (hc_buffer c) = mb_wpos (hc_buffer c)" "length (mb_storage (hc_buffer c)) = MESSAGE_BUFFER_SIZE"
    "last (mb_storage (hc_buffer c)) = 0" "MESSAGE_BUFFER_SIZE \<le> hc_capacity c" "\<not> hc_closed c"
    "\<not> hc_app_closed c" "hc_handler c = Some h"
  shows "http_ready h ((HttpConnect_zero c)\<lparr>hc_buffer := Reset (hc_buffer c)\<rparr>)"
    "GetActiveSize (hc_buffer (HttpConnect_zero c)) = 0" "hc_events (HttpConnect_zero c) = hc_events c"
    "hc_buffer (HttpConnect_zero c) = hc_buffer c" "hc_written (HttpConnect_zero c) = hc_written c"
  using assms by (simp_all add: http_ready_def HttpConnect_zero_def HttpParser_zero_def BasePacket_zero_def Reset_def
      GetActiveSize_def to_size_def)

lemma expected_residue:
  "request_ok r \<Longrightarrow> (if rq_method r = HTTP_POST then to_i32 (uint (word_of_nat (length (rq_body r)) :: u64)) else 0)
     = int (length (rq_body r))"
  using content_length [of r] by (auto simp: request_ok_def)

lemma one_request:
  assumes r: "request_ok r" "llhttp_accepts llhttp r" and c: "http_ready h c" and f: "fuel > 0"
    and len: "length (rq_head r @ rq_body r) < MESSAGE_BUFFER_SIZE" and h: "replies_only h"
  shows "\<exists>c'. http_echo_read grow llhttp fuel (rq_head r @ rq_body r) c = Returns c' \<and> http_ready h c'
    \<and> hc_events c' = hc_events c @ [event_of r] \<and> hc_written c' = hc_written c @ replies h (hc_events c) [event_of r]
    \<and> mb_storage (hc_buffer c') = mb_storage (hc_buffer (http_received (rq_head r @ rq_body r) c))"
proof -
  let ?chunk = "rq_head r @ rq_body r" let ?c0 = "http_received ?chunk c"
  from received_took [OF c len] obtain after where t: "took [] ?chunk after ?c0"
    and s: "last (mb_storage (hc_buffer ?c0)) = 0" "length (mb_storage (hc_buffer ?c0)) = MESSAGE_BUFFER_SIZE"
    by blast
  have f0: "m_content ?c0 = None" "m_residue ?c0 = 0" "\<not> hc_closed ?c0" "hc_events ?c0 = hc_events c" "rpos (m_readPacket ?c0) = 0"
    "MESSAGE_BUFFER_SIZE \<le> hc_capacity ?c0" "hc_handler ?c0 = Some h" "\<not> hc_app_closed ?c0" "hc_written ?c0 = hc_written c"
    using c by (simp_all add: http_received_def http_ready_def)
  from read_head_ok [OF r t f0(1-3,6)] obtain c2 where c2: "http_read_head grow llhttp ?c0 = Some c2"
    "took (rq_head r) (rq_body r) after c2" "headed r (word_of_nat (length (rq_body r))) c2" "m_residue c2 = int (length (rq_body r))" "same_storage ?c0 c2"
    unfolding expected_residue [OF r(1)] by blast
  have fit: "length ?chunk \<le> hc_capacity c2" using len c2(5) f0(6) by (simp add: same_storage_def)
  have e: "hc_handler c2 = Some h" using c2(5) f0(7) by (simp add: same_storage_def)
  from read_body_ok [OF r(1) c2(3,2,4) fit e h] obtain c3 where c3: "http_read_body grow c2 = Some (HttpConnect_zero c3)"
    "hc_events c3 = hc_events c2 @ [event_of r]" "mb_storage (hc_buffer c3) = mb_storage (hc_buffer c2)"
    "mb_rpos (hc_buffer c3) = mb_wpos (hc_buffer c3)" "hc_capacity c3 = hc_capacity c2" "\<not> hc_closed c3"
    "hc_written c3 = hc_written c2 @ List.map_filter reply_packet (h (hc_events c2 @ [event_of r]))"
    "hc_handler c3 = hc_handler c2" "hc_app_closed c3 = hc_app_closed c2"
    by blast
  have z: "http_ready h ((HttpConnect_zero c3)\<lparr>hc_buffer := Reset (hc_buffer c3)\<rparr>)"
    "GetActiveSize (hc_buffer (HttpConnect_zero c3)) = 0" "hc_events (HttpConnect_zero c3) = hc_events c3"
    "hc_buffer (HttpConnect_zero c3) = hc_buffer c3" "hc_written (HttpConnect_zero c3) = hc_written c3"
    using zero_ready [of c3 h] c3(3-6,8,9) e c2(2,5) s f0(6,8) unfolding same_storage_def took_def by simp_all
  have it: "http_iteration grow llhttp ?c0 = Some (HttpConnect_zero c3)"
    using c2(1,3) c3(1) f0 by (simp add: http_iteration_def headed_def)
  have g: "0 < GetActiveSize (hc_buffer ?c0)"
    using r(1) by (auto simp: took_active [OF t] request_ok_def head_only_def)
  obtain n where n: "fuel = Suc n" using f by (cases fuel) auto
  have "http_on_msgbuffer grow llhttp fuel ?c0 = Returns (HttpConnect_zero c3)"
    using it g f0 z(2) by (simp add: http_on_msgbuffer_def n)
  then have "http_echo_read grow llhttp fuel ?chunk c = Returns ((HttpConnect_zero c3)\<lparr>hc_buffer := Reset (hc_buffer c3)\<rparr>)"
    using z(4) by (simp add: http_echo_read_def)
  moreover have "mb_storage (hc_buffer ((HttpConnect_zero c3)\<lparr>hc_buffer := Reset (hc_buffer c3)\<rparr>)) = mb_storage (hc_buffer ?c0)"
    using c3(3) c2(5) by (simp add: same_storage_def Reset_def)
  ultimately show ?thesis using z(1,3,5) c3(2,7) c2(5) f0(4,9) unfolding same_storage_def by simp
qed

lemma requests_ready:
  assumes "\<forall>r\<in>set rs. request_ok r \<and> llhttp_accepts llhttp r \<and> length (rq_head r @ rq_body r) < MESSAGE_BUFFER_SIZE" and "http_ready h c" and "fuel > 0" and "replies_only h"
  shows "\<exists>c'. http_echo_reads grow llhttp fuel (List.map (\<lambda>r. rq_head r @ rq_body r) rs) c = Returns c' \<and> http_ready h c'
    \<and> hc_events c' = hc_events c @ List.map event_of rs
    \<and> hc_written c' = hc_written c @ replies h (hc_events c) (List.map event_of rs)"
  using assms(1,2)
proof (induction rs arbitrary: c)
  case (Cons r rs)
  then obtain c1 where "http_echo_read grow llhttp fuel (rq_head r @ rq_body r) c = Returns c1" "http_ready h c1"
    "hc_events c1 = hc_events c @ [event_of r]" "hc_written c1 = hc_written c @ replies h (hc_events c) [event_of r]"
    using one_request [of r llhttp h c fuel grow] assms(3,4) by auto
  moreover then obtain c2 where "http_echo_reads grow llhttp fuel (List.map (\<lambda>r. rq_head r @ rq_body r) rs) c1 = Returns c2"
    "http_ready h c2" "hc_events c2 = hc_events c1 @ List.map event_of rs"
    "hc_written c2 = hc_written c1 @ replies h (hc_events c1) (List.map event_of rs)"
    using Cons.IH [of c1] Cons.prems by (auto simp del: append_assoc)
  moreover have "\<not> hc_closed c" "\<not> hc_app_closed c" using Cons.prems(2) by (simp_all add: http_ready_def)
  ultimately show ?case by simp
qed simp


text \<open>The first read of a new connection ends with the head of \<open>r\<close> read and \<open>b\<close> waiting.\<close>

lemma first_head:
  assumes r: "request_ok r" "llhttp_reports llhttp r n" and len: "length (rq_head r @ b) < MESSAGE_BUFFER_SIZE"
    and c0_def: "c0 = http_received (rq_head r @ b) (http_createSocket h)"
  shows "\<exists>after c2. http_iteration grow llhttp c0 = http_read_body grow c2 \<and> took (rq_head r) b after c2 \<and> headed r n c2
    \<and> m_residue c2 = (if rq_method r = HTTP_POST then to_i32 (uint n) else 0) \<and> hc_capacity c2 = 4096
    \<and> 0 < GetActiveSize (hc_buffer c0) \<and> \<not> hc_closed c0 \<and> length (mb_storage (hc_buffer c2)) = MESSAGE_BUFFER_SIZE
    \<and> \<not> hc_app_closed c2"
proof -
  from received_took [OF ctor_ready [of h] len, folded c0_def] obtain after where t: "took [] (rq_head r @ b) after c0"
    "length (mb_storage (hc_buffer c0)) = MESSAGE_BUFFER_SIZE" by blast
  have f0: "m_content c0 = None" "m_residue c0 = 0" "\<not> hc_closed c0" "MESSAGE_BUFFER_SIZE \<le> hc_capacity c0"
    using ctor_ready [of h] by (simp_all add: c0_def http_received_def http_ready_def)
  have app: "\<not> hc_app_closed c0" using ctor_ready [of h] by (simp add: c0_def http_received_def http_ready_def)
  have cap: "hc_capacity c0 = 4096"
    by (simp add: c0_def http_received_def http_createSocket_def setEvent_def HttpConnect_ctor_def HttpConnect_zero_def HttpParser_zero_def)
  from read_head_ok [OF r t(1) f0] obtain c2 where c2: "http_read_head grow llhttp c0 = Some c2"
    "took (rq_head r) b after c2" "headed r n c2" "m_residue c2 = (if rq_method r = HTTP_POST then to_i32 (uint n) else 0)"
    "same_storage c0 c2" by blast
  have "http_iteration grow llhttp c0 = http_read_body grow c2"
    using c2(1,3) f0 by (simp add: http_iteration_def headed_def)
  moreover have "0 < GetActiveSize (hc_buffer c0)"
    using r(1) by (auto simp: took_active [OF t(1)] request_ok_def head_only_def)
  ultimately show ?thesis using c2 f0(3) cap t(2) app unfolding same_storage_def by metis
qed

lemma stuck_loop: "guard s \<Longrightarrow> body s = Some s \<Longrightarrow> run_loop n guard body s = Out_of_fuel"
  by (induction n) simp_all

text \<open>A POST request whose content length is negative as an \<open>int\<close> (such as 4294967295), followed by one
  more byte in the same read, makes the receive loop run forever: no fuel is enough.\<close>

theorem http_negative_length_hangs:
  assumes "request_ok r" and "rq_method r = HTTP_POST" and "llhttp_reports llhttp r n" and "to_i32 (uint n) < 0"
    and "length (rq_head r @ b) < MESSAGE_BUFFER_SIZE" and "b \<noteq> []"
  shows "http_echo_read grow llhttp fuel (rq_head r @ b) (http_createSocket h) = Out_of_fuel"
proof -
  let ?c0 = "http_received (rq_head r @ b) (http_createSocket h)"
  from first_head [OF assms(1,3,5)] assms(2) obtain after c2 where c2: "http_iteration grow llhttp ?c0 = http_read_body grow c2"
    "took (rq_head r) b after c2" "headed r n c2" "m_residue c2 = to_i32 (uint n)"
    "0 < GetActiveSize (hc_buffer ?c0)" "\<not> hc_closed ?c0" by fastforce
  have stay: "http_read_body grow c2 = Some c2" using assms(4) c2(4) by (simp add: http_read_body_def)
  have g: "0 < GetActiveSize (hc_buffer c2) \<and> \<not> hc_closed c2"
    using took_active [OF c2(2)] assms(6) c2(3) by (simp add: headed_def)
  have "http_iteration grow llhttp c2 = Some c2" using c2(3) stay by (simp add: http_iteration_def headed_def)
  then have "http_on_msgbuffer grow llhttp k c2 = Out_of_fuel" for k
    unfolding http_on_msgbuffer_def using g by (intro stuck_loop) simp_all
  then have "http_on_msgbuffer grow llhttp fuel ?c0 = Out_of_fuel"
    using c2(1,5,6) stay by (cases fuel) (simp_all add: http_on_msgbuffer_def)
  then show ?thesis by (simp add: http_echo_read_def)
qed

text \<open>A POST request of more than 4096 bytes is not handled: the packet outgrows its storage while the body
  is appended in a later read, and \<open>m_content\<close> and the URL, which point into the old storage, are used afterwards.\<close>

theorem http_large_post_dangles:
  assumes "request_ok r" and "rq_method r = HTTP_POST" and "llhttp_accepts llhttp r" and "rq_body r = b1 @ b2"
    and "length (rq_head r @ b1) < MESSAGE_BUFFER_SIZE" and "length b2 < MESSAGE_BUFFER_SIZE" and "b2 \<noteq> []"
    and "length (rq_head r @ rq_body r) > 4096" and "fuel > 0"
  shows "http_echo_reads grow llhttp fuel [rq_head r @ b1, b2] (http_createSocket h) = Undefined"
proof -
  let ?c0 = "http_received (rq_head r @ b1) (http_createSocket h)" and ?n = "word_of_nat (length (rq_body r)) :: u64"
  obtain f where f: "fuel = Suc f" using assms(9) by (cases fuel) auto
  from first_head [OF assms(1,3,5)] assms(2) content_length [OF assms(1)] obtain after c2 where
    c2: "http_iteration grow llhttp ?c0 = http_read_body grow c2"
    "took (rq_head r) b1 after c2" "headed r ?n c2" "m_residue c2 = int (length (rq_body r))" "hc_capacity c2 = 4096"
    "0 < GetActiveSize (hc_buffer ?c0)" "\<not> hc_closed ?c0" "length (mb_storage (hc_buffer c2)) = MESSAGE_BUFFER_SIZE"
    "\<not> hc_app_closed c2" by fastforce
  define c3 where "c3 = c2\<lparr>m_residue := int (length b2)\<rparr>"
  define c4 where "c4 = c3\<lparr>m_readPacket := (m_readPacket c3)\<lparr>storage := rq_head r @ b1,
      wpos := length (rq_head r) + length b1\<rparr>, hc_buffer := ReadCompleted (length b1) (hc_buffer c3)\<rparr>"
  have l: "length b1 < 4096" "length b2 < 4096" "0 < length b2" "length (rq_head r) + length b1 < 4096"
    using assms(5-7) by (auto simp: MESSAGE_BUFFER_SIZE_def)
  have t3: "took (rq_head r) (b1 @ []) after c3" "length (rq_head r) + length b1 \<le> hc_capacity c3"
    using c2(2,5) l by (simp_all add: c3_def took_def)
  note t4 = took_input [OF t3, folded c4_def]
  have a: "to_i32 (int (GetActiveSize (hc_buffer c2))) = int (length b1)"
    using l by (simp add: took_active [OF c2(2)] to_i32_id)
  have pos: "0 < int (length b1) + int (length b2)" using assms(7) by (cases b2) auto
  have "http_read_body grow c2 = Some c4"
    using t4(1) l a c2(4) assms(4) pos by (simp add: http_read_body_def Let_def to_size_of_nat c3_def) (simp add: c4_def c3_def)
  moreover have "GetActiveSize (hc_buffer c4) = 0" using took_active [OF t4(2)] by simp
  ultimately have r1: "http_echo_read grow llhttp fuel (rq_head r @ b1) (http_createSocket h)
      = Returns (c4\<lparr>hc_buffer := Reset (hc_buffer c4)\<rparr>)"
    using c2(1,6,7) by (simp add: http_echo_read_def http_on_msgbuffer_def f)
  define c5 where "c5 = http_received b2 (c4\<lparr>hc_buffer := Reset (hc_buffer c4)\<rparr>)"
  have s5: "m_content c5 \<noteq> None" "m_residue c5 = int (length b2)" "\<not> hc_closed c5" "GetActiveSize (hc_buffer c5) = length b2"
    "length (GetReadPointer (hc_buffer c5)) = 4096" "p_url_block c5 = hc_block c5" "hc_capacity c5 = 4096"
    "storage (m_readPacket c5) = rq_head r @ b1" "wpos (m_readPacket c5) = length (rq_head r) + length b1"
    using c2(3,5,8) l by (simp_all add: c5_def c4_def c3_def http_received_def headed_def WriteCompleted_def Reset_def
      GetActiveSize_def to_size_of_nat ReadCompleted_def GetReadPointer_def MESSAGE_BUFFER_SIZE_def)
  have "http_read_body grow c5 = None"
    using s5 l assms(4,8) by (simp add: http_read_body_def Let_def to_i32_id to_size_of_nat take_input_def append_def
        http_complete_def current_url_def)
  then have "http_iteration grow llhttp c5 = None"
    using s5(1,3) unfolding http_iteration_def by (simp only: if_False) simp
  then have "http_echo_read grow llhttp fuel b2 (c4\<lparr>hc_buffer := Reset (hc_buffer c4)\<rparr>) = Undefined"
    using s5(3,4) l(3) unfolding http_echo_read_def http_on_msgbuffer_def f c5_def [symmetric]
    by simp
  moreover have "\<not> hc_closed c4" "\<not> hc_app_closed c4" using c2(3,9) by (simp_all add: c4_def c3_def headed_def)
  moreover have "\<not> hc_closed (http_createSocket h)" "\<not> hc_app_closed (http_createSocket h)"
    using ctor_ready [of h] by (simp_all add: http_ready_def)
  ultimately show ?thesis using r1 by simp
qed


text \<open>A connection whose buffer was read past its active bytes.\<close>

definition lost :: "HttpConnect \<Rightarrow> bool" where
  "lost c \<longleftrightarrow> \<not> hc_closed c \<and> c_string (GetReadPointer (hc_buffer c)) = Some []
     \<and> length (GetReadPointer (hc_buffer c)) \<le> 4096 \<and> 4096 < GetActiveSize (hc_buffer c)
     \<and> to_i32 (int (GetActiveSize (hc_buffer c))) < 0 \<and> 4096 < to_size (to_i32 (int (GetActiveSize (hc_buffer c))))"

lemma take_input_too_far: "lost c \<Longrightarrow> hc_buffer c' = hc_buffer c \<Longrightarrow> 4096 < n \<Longrightarrow> take_input grow n c' = None"
  by (simp add: take_input_def lost_def)

lemma lost_read_head: "lost c \<Longrightarrow> http_read_head grow llhttp c = None"
  using take_input_too_far [of c c] by (simp add: http_read_head_def lost_def)

lemma lost_same: "lost c \<Longrightarrow> hc_buffer c' = hc_buffer c \<Longrightarrow> hc_closed c' = hc_closed c \<Longrightarrow> lost c'"
  by (simp add: lost_def)

lemma complete_frame: "http_complete c = Some c' \<Longrightarrow> hc_buffer c' = hc_buffer c \<and> hc_closed c' = hc_closed c"
  by (auto simp: http_complete_def bind_eq_Some_conv http_call_def split: option.splits dest!: http_acts_frame)

lemma lost_read_body: "lost c \<Longrightarrow> http_read_body grow c = Some c' \<Longrightarrow> lost c'"
  using take_input_too_far [of c]
  by (auto simp: http_read_body_def Let_def HttpConnect_zero_def HttpParser_zero_def split: if_splits
      dest!: complete_frame intro!: lost_same [of c]) (auto simp: lost_def)

lemma lost_step: "lost c \<Longrightarrow> http_iteration grow llhttp c = Some c' \<Longrightarrow> lost c'"
  using lost_read_head [of c] lost_read_body [of c] by (auto simp: http_iteration_def split: if_splits)

lemma lost_never_returns: "lost c \<Longrightarrow> http_on_msgbuffer grow llhttp fuel c \<noteq> Returns t"
  unfolding http_on_msgbuffer_def
proof (induction fuel arbitrary: c)
  case (Suc n)
  then have "0 < GetActiveSize (hc_buffer c) \<and> \<not> hc_closed c" by (simp add: lost_def)
  then show ?case using Suc.IH lost_step [OF Suc.prems] by (simp split: option.splits)
qed (simp add: lost_def)



lemma to_size_neg: "0 < d \<Longrightarrow> d \<le> 4096 \<Longrightarrow> to_size (- int d) = 2 ^ 64 - d"
proof -
  assume d: "0 < d" "d \<le> 4096"
  have "- int d mod 2 ^ 64 = (2 ^ 64 - int d) mod 2 ^ 64" using mod_add_self1 [of "2 ^ 64" "- int d"] by simp
  also have "\<dots> = 2 ^ 64 - int d" using d by (intro mod_pos_pos_trivial) auto
  finally show ?thesis using d by (simp add: to_size_def nat_diff_distrib)
qed

lemma underflow:
  assumes "0 < d" and "d \<le> 4096" and "mb_rpos mb = mb_wpos mb + d"
  shows "4096 < GetActiveSize mb" "to_i32 (int (GetActiveSize mb)) < 0" "4096 < to_size (to_i32 (int (GetActiveSize mb)))"
proof -
  have a: "GetActiveSize mb = 2 ^ 64 - d"
    using assms to_size_neg [of d] by (simp add: GetActiveSize_def)
  have "to_i32 (int (GetActiveSize mb)) = to_i32 (- int d)"
    using assms(2) by (intro to_i32_cong) (simp add: a of_nat_diff mod_diff_eq [symmetric])
  then have i: "to_i32 (int (GetActiveSize mb)) = - int d" using assms(2) by (simp add: to_i32_id)
  show "4096 < GetActiveSize mb" "to_i32 (int (GetActiveSize mb)) < 0" "4096 < to_size (to_i32 (int (GetActiveSize mb)))"
    using a i assms to_size_neg [of d] by simp_all
qed

lemma takeWhile_zeros: "0 \<notin> set m \<Longrightarrow> c_string (m @ replicate (Suc k) 0) = Some m"
  by (simp add: c_string_def takeWhile_append)

lemma parser_frame: "HttpParser_parser llhttp c = (ok, c') \<Longrightarrow>
    hc_buffer c' = hc_buffer c \<and> hc_closed c' = hc_closed c \<and> m_content c' = m_content c"
  by (auto simp: HttpParser_parser_def Let_def split: option.splits prod.splits)

text \<open>A head that is found beyond the active bytes.\<close>

lemma stale_head:
  assumes c: "GetReadPointer (hc_buffer c) = m @ replicate (Suc k) 0" "0 \<notin> set m"
    "find_head_end 0 m = Some (length m - 4)" "4 \<le> length m" "length m + Suc k \<le> 4096" "\<not> hc_closed c" "m_content c = None"
    and pos: "mb_wpos (hc_buffer c) < mb_rpos (hc_buffer c) + length m" "0 < mb_wpos (hc_buffer c) - mb_rpos (hc_buffer c)"
  shows "case http_on_msgbuffer grow llhttp fuel c of Returns c' \<Rightarrow> hc_closed c' | _ \<Rightarrow> True"
proof -
  have g: "0 < GetActiveSize (hc_buffer c)"
  proof -
    have "mb_wpos (hc_buffer c) - mb_rpos (hc_buffer c) < 4096" using pos(1) c(5) by simp
    then show ?thesis using pos(2) by (simp add: GetActiveSize_def to_size_def)
  qed
  have view: "c_string (GetReadPointer (hc_buffer c)) = Some m" unfolding c(1) by (rule takeWhile_zeros [OF c(2)])
  have four: "length m - 4 + 4 = length m" using c(4) by simp
  have lost: "lost c'" if "hc_buffer c' = ReadCompleted (length m) (hc_buffer c)" "\<not> hc_closed c'" for c'
  proof -
    have p: "GetReadPointer (hc_buffer c') = replicate (Suc k) 0"
      using arg_cong [OF c(1), of "drop (length m)"] that(1)
      by (simp add: GetReadPointer_def ReadCompleted_def add.commute del: replicate_Suc)
    define d where "d = mb_rpos (hc_buffer c) + length m - mb_wpos (hc_buffer c)"
    have "0 < d" "d \<le> 4096" "mb_rpos (hc_buffer c') = mb_wpos (hc_buffer c') + d"
      using pos c(5) that(1) by (simp_all add: d_def ReadCompleted_def)
    from underflow [OF this] show ?thesis
      using that(2) p c(5) takeWhile_zeros [of "[]" k] by (simp add: lost_def del: replicate_Suc)
  qed
  have "lost c' \<or> hc_closed c'" if it: "http_iteration grow llhttp c = Some c'" for c'
  proof -
    from it c(6,7) obtain c2 where c2: "http_read_head grow llhttp c = Some c2"
      "if hc_closed c2 then c' = c2 else if m_content c2 \<noteq> None then http_read_body grow c2 = Some c' else c' = c2"
      by (auto simp: http_iteration_def bind_eq_Some_conv split: if_splits)
    from c2(1) have "hc_buffer c2 = ReadCompleted (length m) (hc_buffer c)"
      by (auto simp: http_read_head_def http_close_and_break_def view c(3) four bind_eq_Some_conv take_input_def Let_def
          split: if_splits prod.splits
          dest!: parser_frame)
    then have "lost c2 \<or> hc_closed c2" using lost by blast
    then show ?thesis using c2(2) lost_read_body [of c2 grow c'] by (auto split: if_splits)
  qed
  then show ?thesis
    using g c(6) lost_never_returns unfolding http_on_msgbuffer_def
    by (cases fuel) (auto split: option.splits outcome.splits)
qed


text \<open>A GET request that is split over two reads after an earlier request of the same connection is never
  handled properly: the end of a head is searched in a C string that runs into what the earlier request left in the
  buffer. When the mixture of the new bytes with the end of the earlier head ends like a head, the connection
  consumes more bytes than it received, so that the loop never returns with an open connection, for any \<open>llhttp\<close>.\<close>

theorem http_split_request_breaks:
  assumes "request_ok r" and "llhttp_accepts llhttp r" and "rq_body r = []" and "fuel > 0"
    and "part \<noteq> []" and "0 \<notin> set part" and "length part < length (rq_head r)" and "replies_only h"
    and "find_head_end 0 (part @ drop (length part) (rq_head r)) = Some (length (rq_head r) - 4)"
  shows "case http_echo_reads grow llhttp fuel [rq_head r, part] (http_createSocket h) of
           Returns c' \<Rightarrow> hc_closed c' | _ \<Rightarrow> True"
proof -
  have len: "length (rq_head r @ rq_body r) < MESSAGE_BUFFER_SIZE" using assms(1,3) by (simp add: request_ok_def)
  from one_request [OF assms(1,2) ctor_ready [of h] assms(4) len assms(8), of grow] assms(3) obtain c1 where
    c1: "http_echo_read grow llhttp fuel (rq_head r) (http_createSocket h) = Returns c1" "http_ready h c1"
    "mb_storage (hc_buffer c1) = mb_storage (hc_buffer (http_received (rq_head r) (http_createSocket h)))" by auto
  let ?h = "rq_head r" and ?c = "http_received part c1"
  let ?m = "part @ drop (length part) ?h"
  obtain k where k: "4096 = length ?h + Suc k"
    using len assms(3) less_imp_Suc_add [of "length ?h" 4096] by (auto simp: MESSAGE_BUFFER_SIZE_def)
  have st: "mb_storage (hc_buffer c1) = ?h @ replicate (Suc k) 0"
    using len assms(3) arg_cong [OF k, of "\<lambda>n. n - length ?h"] unfolding c1(3)
    by (simp add: http_received_def WriteCompleted_def http_createSocket_def setEvent_def HttpConnect_ctor_def HttpConnect_zero_def HttpParser_zero_def
        Resize_def MessageBuffer_ctor_def MESSAGE_BUFFER_SIZE_def resize_def overwrite_def del: replicate_Suc)
  have z: "0 \<notin> set ?h" "4 \<le> length ?h" using assms(1) by (simp_all add: request_ok_def head_only_def)
  then have z: "0 \<notin> set ?m" "4 \<le> length ?m" using assms(6,7) by (auto dest: in_set_dropD)
  have f: "GetReadPointer (hc_buffer ?c) = ?m @ replicate (Suc k) 0" "\<not> hc_closed ?c" "m_content ?c = None"
    "mb_wpos (hc_buffer ?c) < mb_rpos (hc_buffer ?c) + length ?m" "0 < mb_wpos (hc_buffer ?c) - mb_rpos (hc_buffer ?c)"
    "find_head_end 0 ?m = Some (length ?m - 4)" "length ?m + Suc k \<le> 4096"
    using c1(2) assms(5,7,9) st k
    by (simp_all add: http_received_def WriteCompleted_def GetReadPointer_def overwrite_def http_ready_def del: replicate_Suc)
  have "case http_on_msgbuffer grow llhttp fuel ?c of Returns c' \<Rightarrow> hc_closed c' | _ \<Rightarrow> True"
    by (rule stale_head [OF f(1) z(1) f(6) z(2) f(7) f(2) f(3) f(4) f(5)])
  then have "case http_echo_read grow llhttp fuel part c1 of Returns c' \<Rightarrow> hc_closed c' | _ \<Rightarrow> True"
    by (simp add: http_echo_read_def split: outcome.splits)
  then show ?thesis using c1(2) ctor_ready [of h] by (simp add: c1(1) http_ready_def split: outcome.splits)
qed

text \<open>C19. Requests that arrive one per read are handled in order, whatever earlier requests left in the buffer: for
  every sequence of GET requests without a body and POST requests, each shorter than the buffer and with a head that
  \<open>llhttp\<close> accepts, and every handler that sends any replies but does not close the connection, the handler is called exactly
  with the paths, query strings and bodies of the requests, its replies are written in this order, one iteration per
  read is enough, and the receive path does not close the connection. The statement is about the reads before the first
  reply is written out: the completion of a reply closes the connection, as the next property shows.\<close>

theorem http_requests_in_order:
  assumes "\<forall>r\<in>set rs. request_ok r \<and> llhttp_accepts llhttp r \<and> length (rq_head r @ rq_body r) < MESSAGE_BUFFER_SIZE"
    and "fuel > 0" and "replies_only h"
  shows "\<exists>c. http_echo_reads grow llhttp fuel (List.map (\<lambda>r. rq_head r @ rq_body r) rs) (http_createSocket h) = Returns c
    \<and> hc_events c = List.map event_of rs \<and> hc_written c = replies h [] (List.map event_of rs)
    \<and> \<not> hc_closed c \<and> \<not> hc_app_closed c"
proof -
  have "hc_events (http_createSocket h) = []" "hc_written (http_createSocket h) = []"
    by (simp_all add: http_createSocket_def setEvent_def HttpConnect_ctor_def HttpConnect_zero_def HttpParser_zero_def)
  then show ?thesis
    using requests_ready [OF assms(1) ctor_ready [of h] assms(2,3), of grow] by (auto simp: http_ready_def)
qed

text \<open>C28. The server closes every keep-alive connection after a reply: \<open>zero\<close> resets the parser as soon as the handler
  returns, before the reply was written, so that \<open>on_writecomplete\<close> asks a parser without version and flags and
  takes the request for one of HTTP/1.0 without keep-alive, whatever \<open>llhttp\<close> had found in its head.\<close>

theorem http_keep_alive_lost:
  assumes "\<forall>r\<in>set rs. request_ok r \<and> llhttp_accepts llhttp r \<and> length (rq_head r @ rq_body r) < MESSAGE_BUFFER_SIZE"
    and "fuel > 0" and "replies_only h"
  shows "\<exists>c. http_echo_reads grow llhttp fuel (List.map (\<lambda>r. rq_head r @ rq_body r) rs) (http_createSocket h) = Returns c
    \<and> \<not> hc_closed c \<and> \<not> hc_app_closed c \<and> hc_closed (http_on_writecomplete c)"
proof -
  have "isClose (llhttp_init HTTP_REQUEST)"
    by (simp add: isClose_def llhttp_should_keep_alive_def llhttp_init_def)
  then show ?thesis
    using requests_ready [OF assms(1) ctor_ready [of h] assms(2,3), of grow]
    by (auto simp: http_ready_def http_on_writecomplete_def)
qed

definition demo_get :: http_request where
  "demo_get = \<lparr>rq_method = HTTP_GET, rq_path = str ''a'', rq_query = str ''b'',
     rq_head = str ''GET /a?b HTTP/1.1'' @ crlf @ crlf, rq_off = 4, rq_body = []\<rparr>"

definition demo_post :: "byte list \<Rightarrow> http_request" where
  "demo_post body = \<lparr>rq_method = HTTP_POST, rq_path = str ''c'', rq_query = [],
     rq_head = str ''POST /c HTTP/1.1'' @ crlf @ str ''Content-Length:9'' @ crlf @ crlf, rq_off = 5, rq_body = body\<rparr>"

text \<open>A parser that knows the two demo heads; \<open>n\<close> is the content length it reports for the second.\<close>

definition demo_llhttp :: "u64 \<Rightarrow> byte list \<Rightarrow> llhttp_head option" where
  "demo_llhttp n buf =
     (let p = (llhttp_init HTTP_REQUEST)\<lparr>lt_http_major := 1, lt_http_minor := 1\<rparr> in
      if take 3 buf = str ''GET''
      then Some \<lparr>lh_parser = p\<lparr>lt_method := HTTP_GET\<rparr>, lh_url_off = 4, lh_url_len = 4\<rparr>
      else Some \<lparr>lh_parser = p\<lparr>lt_method := HTTP_POST, lt_content_length := n\<rparr>, lh_url_off = 5, lh_url_len = 2\<rparr>)"

text \<open>A server that answers GET requests with their query.\<close>

definition demo_handler :: http_handler where
  "demo_handler calls = (case last calls of OnGet path dat \<Rightarrow> [AutoMsg dat hct_text_plain] | _ \<Rightarrow> [])"

lemma demo_replies_only: "replies_only demo_handler"
  by (simp add: replies_only_def demo_handler_def split: http_event.splits)

lemmas demo_defs = demo_get_def demo_post_def demo_llhttp_def llhttp_init_def str_def crlf_def rq_target_def

lemma demo_get_ok: "request_ok demo_get" "llhttp_accepts (demo_llhttp n) demo_get"
  by (simp_all add: demo_defs request_ok_def head_only_def head_end_def read_at_def url_text_def IS_URL_CHAR_def
      BIT_AT_def normal_url_char_def MESSAGE_BUFFER_SIZE_def llhttp_reports_def HTTP_GET_def)

lemma demo_post_ok: "length body < 8192 \<Longrightarrow> request_ok (demo_post body)" "llhttp_reports (demo_llhttp n) (demo_post body) n"
  "rq_method (demo_post body) = HTTP_POST" "rq_body (demo_post body) = body"
  by (simp_all add: demo_defs request_ok_def head_only_def head_end_def read_at_def url_text_def IS_URL_CHAR_def
      BIT_AT_def normal_url_char_def MESSAGE_BUFFER_SIZE_def llhttp_reports_def)


theorem http_requests_in_order_witness:
  "\<exists>c. http_echo_reads (\<lambda>_ n. n) (demo_llhttp 2) 1
      (List.map (\<lambda>r. rq_head r @ rq_body r) [demo_get, demo_post [104, 105], demo_get]) (http_createSocket demo_handler) = Returns c
    \<and> hc_events c = List.map event_of [demo_get, demo_post [104, 105], demo_get]
    \<and> hc_written c = replies demo_handler [] (List.map event_of [demo_get, demo_post [104, 105], demo_get])
    \<and> \<not> hc_closed c \<and> \<not> hc_app_closed c"
  using demo_replies_only demo_get_ok demo_post_ok [where body = "[104, 105]"]
  by (intro http_requests_in_order) (simp_all, simp_all add: demo_defs MESSAGE_BUFFER_SIZE_def)

theorem http_keep_alive_lost_witness:
  "(case demo_llhttp 0 (rq_head demo_get) of Some h \<Rightarrow> llhttp_should_keep_alive (lh_parser h) | None \<Rightarrow> False)
   \<and> (\<exists>c. http_echo_reads (\<lambda>_ n. n) (demo_llhttp 0) 1 (List.map (\<lambda>r. rq_head r @ rq_body r) [demo_get])
              (http_createSocket demo_handler)
            = Returns c \<and> \<not> hc_closed c \<and> \<not> hc_app_closed c \<and> hc_closed (http_on_writecomplete c))"
  using demo_replies_only demo_get_ok by (intro conjI http_keep_alive_lost)
    (simp_all add: demo_defs MESSAGE_BUFFER_SIZE_def llhttp_should_keep_alive_def llhttp_message_needs_eof_def)

theorem http_negative_length_hangs_witness:
  "http_echo_read (\<lambda>_ n. n) (demo_llhttp 0xffffffff) 100000 (rq_head (demo_post []) @ [104]) (http_createSocket demo_handler) = Out_of_fuel"
  using demo_post_ok(1,3) [where body = "[]"] demo_post_ok(2)
  by (intro http_negative_length_hangs [where n = "0xffffffff"]) (simp_all add: to_i32_def demo_defs MESSAGE_BUFFER_SIZE_def)

theorem http_large_post_dangles_witness:
  "http_echo_reads (\<lambda>_ n. n) (demo_llhttp 5000) 9 [rq_head (demo_post (replicate 1000 65 @ replicate 4000 66)) @ replicate 1000 65,
      replicate 4000 66] (http_createSocket demo_handler) = Undefined"
  by (rule http_large_post_dangles, use demo_post_ok [where body = "replicate 1000 65 @ replicate 4000 66"] in simp_all)
    (simp_all add: demo_defs MESSAGE_BUFFER_SIZE_def)

theorem http_split_request_breaks_witness:
  "case http_echo_reads (\<lambda>_ n. n) (demo_llhttp 0) 9 [rq_head demo_get, str ''GET /''] (http_createSocket demo_handler) of
     Returns c' \<Rightarrow> hc_closed c' | _ \<Rightarrow> True"
  by (rule http_split_request_breaks, use demo_replies_only demo_get_ok in simp_all) (simp_all add: demo_defs head_end_def)

end
