(* ===== verification/Json.thy ===== *)
theory Json
  imports Decimal
begin

text \<open>
  \<open>src/utils/Json.h/.cpp\<close>: the JSON values that scripts build and print. A value owns its children, so a
  pointer to a child is the child. A member of the union of \<open>JValue\<close> that was not the last one written is
  undefined to read; so are an index outside of an array, a null pointer of the map of an object, and the use of an array
  or an object as a \<open>JValue\<close>: the results are \<^const>\<open>None\<close>. Numbers of type \<open>float\<close> are their bits, and
  \<open>fstr\<close> is what \<open>std::to_string\<close> prints for them.
\<close>

section \<open>Values\<close>

datatype eJOSN_TYPE = eJ_INT | eJ_FLOAT | eJ_NULL | eJ_STRING | eJ_BOOL | eJ_ARRAY | eJ_OBJ

datatype union_member = Indeterminate | Member_iv int | Member_fv u32 | Member_bv bool

record JValue =
  jtype :: eJOSN_TYPE
  jmember :: union_member
  sv :: "byte list"

text \<open>The map of an object lists its keys in ascending order.\<close>

datatype JBaseObj = JVal JValue | JArray "JBaseObj list" | JSonObj "(byte list \<times> JBaseObj option) list"

fun type_of :: "JBaseObj \<Rightarrow> eJOSN_TYPE" where
  "type_of (JVal v) = jtype v"
| "type_of (JArray items) = eJ_ARRAY"
| "type_of (JSonObj maps) = eJ_OBJ"

definition JValue_ctor :: JValue where
  "JValue_ctor = \<lparr>jtype = eJ_NULL, jmember = Indeterminate, sv = []\<rparr>"

definition JValue_setInt :: "int \<Rightarrow> JValue \<Rightarrow> JValue" where
  "JValue_setInt v j = j\<lparr>jtype := eJ_INT, jmember := Member_iv v\<rparr>"

definition JValue_setFloat :: "u32 \<Rightarrow> JValue \<Rightarrow> JValue" where
  "JValue_setFloat v j = j\<lparr>jtype := eJ_FLOAT, jmember := Member_fv v\<rparr>"

definition JValue_setStr :: "byte list \<Rightarrow> JValue \<Rightarrow> JValue" where
  "JValue_setStr v j = j\<lparr>jtype := eJ_STRING, sv := v\<rparr>"

definition JValue_setBool :: "bool \<Rightarrow> JValue \<Rightarrow> JValue" where
  "JValue_setBool v j = j\<lparr>jtype := eJ_BOOL, jmember := Member_bv v\<rparr>"

definition JValue_setNull :: "JValue \<Rightarrow> JValue" where
  "JValue_setNull j = j\<lparr>jtype := eJ_NULL\<rparr>"

fun iv :: "JValue \<Rightarrow> int option" where
  "iv v = (case jmember v of Member_iv i \<Rightarrow> Some i | _ \<Rightarrow> None)"

fun fv :: "JValue \<Rightarrow> u32 option" where
  "fv v = (case jmember v of Member_fv f \<Rightarrow> Some f | _ \<Rightarrow> None)"

fun bv :: "JValue \<Rightarrow> bool option" where
  "bv v = (case jmember v of Member_bv b \<Rightarrow> Some b | _ \<Rightarrow> None)"

text \<open>\<open>static_cast<JValue *>\<close>.\<close>

fun as_value :: "JBaseObj \<Rightarrow> JValue option" where
  "as_value (JVal v) = Some v"
| "as_value _ = None"

section \<open>Printing\<close>

definition writeDepth :: "nat \<Rightarrow> byte list" where
  "writeDepth depth = replicate depth 9"

fun JValue_write :: "(u32 \<Rightarrow> byte list) \<Rightarrow> JValue \<Rightarrow> byte list option" where
  "JValue_write fstr v =
     (case jtype v of
        eJ_INT \<Rightarrow> map_option to_string (iv v)
      | eJ_FLOAT \<Rightarrow> map_option fstr (fv v)
      | eJ_BOOL \<Rightarrow> map_option (\<lambda>b. if b then [116, 114, 117, 101] else [102, 97, 108, 115, 101]) (bv v)
      | eJ_NULL \<Rightarrow> Some [110, 117, 108, 108]
      | eJ_STRING \<Rightarrow> Some ([34] @ sv v @ [34])
      | _ \<Rightarrow> Some [])"

fun json_write :: "(u32 \<Rightarrow> byte list) \<Rightarrow> bool \<Rightarrow> nat \<Rightarrow> JBaseObj \<Rightarrow> byte list option"
  and json_write_items :: "(u32 \<Rightarrow> byte list) \<Rightarrow> bool \<Rightarrow> nat \<Rightarrow> JBaseObj list \<Rightarrow> byte list option"
  and json_write_entries :: "(u32 \<Rightarrow> byte list) \<Rightarrow> bool \<Rightarrow> nat \<Rightarrow> (byte list \<times> JBaseObj option) list \<Rightarrow> byte list option" where
  "json_write fstr layout depth (JVal v) = JValue_write fstr v"
| "json_write fstr layout depth (JArray items) =
     do { s \<leftarrow> json_write_items fstr layout depth items;
          Some ([91] @ (if layout then [10] else []) @ s @ (if layout then writeDepth depth else []) @ [93]) }"
| "json_write fstr layout depth (JSonObj maps) =
     do { s \<leftarrow> json_write_entries fstr layout depth maps;
          Some ([123] @ (if layout then [10] else []) @ s @ (if layout then writeDepth depth else []) @ [125]) }"
| "json_write_items fstr layout depth [] = Some []"
| "json_write_items fstr layout depth (obj # items) =
     do { s \<leftarrow> json_write fstr layout (depth + 1) obj;
          r \<leftarrow> json_write_items fstr layout depth items;
          Some ((if layout then writeDepth (depth + 1) else []) @ s @ (if items \<noteq> [] then [44] else [])
                @ (if layout then [10] else []) @ r) }"
| "json_write_entries fstr layout depth [] = Some []"
| "json_write_entries fstr layout depth ((key, None) # maps) = None"
| "json_write_entries fstr layout depth ((key, Some obj) # maps) =
     do { s \<leftarrow> json_write fstr layout (depth + 1) obj;
          r \<leftarrow> json_write_entries fstr layout depth maps;
          Some ((if layout then writeDepth (depth + 1) else []) @ [34] @ key @ [34] @ [58] @ s
                @ (if maps \<noteq> [] then [44] else []) @ (if layout then [10] else []) @ r) }"

section \<open>Arrays\<close>

definition at :: "int \<Rightarrow> 'a list \<Rightarrow> 'a option" where
  "at idx items = (if 0 \<le> idx \<and> idx < int (length items) then Some (items ! nat idx) else None)"

definition JArray_push :: "JValue \<Rightarrow> JBaseObj list \<Rightarrow> JBaseObj list" where
  "JArray_push v items = items @ [JVal v]"

definition JArray_pushInt :: "int \<Rightarrow> JBaseObj list \<Rightarrow> JBaseObj list" where
  "JArray_pushInt v items = JArray_push (JValue_setInt v JValue_ctor) items"

definition JArray_pushFloat :: "u32 \<Rightarrow> JBaseObj list \<Rightarrow> JBaseObj list" where
  "JArray_pushFloat v items = JArray_push (JValue_setFloat v JValue_ctor) items"

definition JArray_pushStr :: "byte list \<Rightarrow> JBaseObj list \<Rightarrow> JBaseObj list" where
  "JArray_pushStr v items = JArray_push (JValue_setStr v JValue_ctor) items"

definition JArray_pushBool :: "bool \<Rightarrow> JBaseObj list \<Rightarrow> JBaseObj list" where
  "JArray_pushBool v items = JArray_push (JValue_setBool v JValue_ctor) items"

definition JArray_pushNull :: "JBaseObj list \<Rightarrow> JBaseObj list" where
  "JArray_pushNull items = JArray_push (JValue_setNull JValue_ctor) items"

definition JArray_value :: "int \<Rightarrow> JBaseObj list \<Rightarrow> JValue option" where
  "JArray_value idx items = Option.bind (at idx items) as_value"

definition JArray_getInt :: "int \<Rightarrow> JBaseObj list \<Rightarrow> int option" where
  "JArray_getInt idx items = Option.bind (JArray_value idx items) iv"

definition JArray_getFloat :: "int \<Rightarrow> JBaseObj list \<Rightarrow> u32 option" where
  "JArray_getFloat idx items = Option.bind (JArray_value idx items) fv"

definition JArray_getBool :: "int \<Rightarrow> JBaseObj list \<Rightarrow> bool option" where
  "JArray_getBool idx items = Option.bind (JArray_value idx items) bv"

definition JArray_getStr :: "int \<Rightarrow> JBaseObj list \<Rightarrow> byte list option" where
  "JArray_getStr idx items = map_option sv (JArray_value idx items)"

definition JArray_isNull :: "int \<Rightarrow> JBaseObj list \<Rightarrow> bool option" where
  "JArray_isNull idx items = map_option (\<lambda>obj. type_of obj = eJ_NULL) (at idx items)"

definition JArray_set :: "(JValue \<Rightarrow> JValue) \<Rightarrow> int \<Rightarrow> JBaseObj list \<Rightarrow> JBaseObj list option" where
  "JArray_set f idx items = map_option (\<lambda>v. items[nat idx := JVal (f v)]) (JArray_value idx items)"

definition JArray_setInt :: "int \<Rightarrow> int \<Rightarrow> JBaseObj list \<Rightarrow> JBaseObj list option" where
  "JArray_setInt idx v = JArray_set (JValue_setInt v) idx"

definition JArray_setFloat :: "int \<Rightarrow> u32 \<Rightarrow> JBaseObj list \<Rightarrow> JBaseObj list option" where
  "JArray_setFloat idx v = JArray_set (JValue_setFloat v) idx"

definition JArray_setStr :: "int \<Rightarrow> byte list \<Rightarrow> JBaseObj list \<Rightarrow> JBaseObj list option" where
  "JArray_setStr idx v = JArray_set (JValue_setStr v) idx"

definition JArray_setBool :: "int \<Rightarrow> bool \<Rightarrow> JBaseObj list \<Rightarrow> JBaseObj list option" where
  "JArray_setBool idx v = JArray_set (JValue_setBool v) idx"

definition JArray_setNull :: "int \<Rightarrow> JBaseObj list \<Rightarrow> JBaseObj list option" where
  "JArray_setNull idx items =
     do { obj \<leftarrow> at idx items;
          let items1 = (if type_of obj = eJ_ARRAY \<or> type_of obj = eJ_OBJ then items[nat idx := JVal JValue_ctor] else items);
          JArray_set JValue_setNull idx items1 }"

text \<open>\<open>items.begin() + idx\<close> may be the end of the vector; beyond it is undefined.\<close>

definition JArray_remove :: "int \<Rightarrow> JBaseObj list \<Rightarrow> JBaseObj list option" where
  "JArray_remove idx items =
     (if idx < 0 \<or> int (length items) < idx then None
      else Some (take (nat idx) items @ drop (nat idx + 1) items))"

definition JArray_size :: "JBaseObj list \<Rightarrow> int" where
  "JArray_size items = to_i32 (int (length items))"

definition JArray_createArray :: "JBaseObj list \<Rightarrow> JBaseObj list" where
  "JArray_createArray items = items @ [JArray []]"

definition JArray_createObj :: "JBaseObj list \<Rightarrow> JBaseObj list" where
  "JArray_createObj items = items @ [JSonObj []]"

definition JArray_getJsonObj :: "int \<Rightarrow> JBaseObj list \<Rightarrow> JBaseObj option" where
  "JArray_getJsonObj idx items = at idx items"


section \<open>Objects\<close>

text \<open>The order of \<open>std::string\<close>.\<close>

fun key_less :: "byte list \<Rightarrow> byte list \<Rightarrow> bool" where
  "key_less a [] = False"
| "key_less [] (y # ys) = True"
| "key_less (x # xs) (y # ys) = (x < y \<or> x = y \<and> key_less xs ys)"

text \<open>\<open>maps[key] = p\<close>, and \<open>maps[key]\<close>, which inserts a null pointer for an unknown key.\<close>

fun map_set :: "byte list \<Rightarrow> 'a \<Rightarrow> (byte list \<times> 'a) list \<Rightarrow> (byte list \<times> 'a) list" where
  "map_set key p [] = [(key, p)]"
| "map_set key p ((k, q) # maps) =
     (if key_less key k then (key, p) # (k, q) # maps
      else if key = k then (k, p) # maps
      else (k, q) # map_set key p maps)"

definition map_index ::
  "byte list \<Rightarrow> (byte list \<times> JBaseObj option) list \<Rightarrow> JBaseObj option \<times> (byte list \<times> JBaseObj option) list" where
  "map_index key maps =
     (case map_of maps key of Some p \<Rightarrow> (p, maps) | None \<Rightarrow> (None, map_set key None maps))"

text \<open>The getters dereference \<open>maps[key]\<close>; when that is not a null pointer the map has not changed.\<close>

definition JSonObj_at :: "byte list \<Rightarrow> (byte list \<times> JBaseObj option) list \<Rightarrow> JBaseObj option" where
  "JSonObj_at key maps = fst (map_index key maps)"

definition JSonObj_getInt :: "byte list \<Rightarrow> (byte list \<times> JBaseObj option) list \<Rightarrow> int option" where
  "JSonObj_getInt key maps = do { obj \<leftarrow> JSonObj_at key maps; v \<leftarrow> as_value obj; iv v }"

definition JSonObj_getFloat :: "byte list \<Rightarrow> (byte list \<times> JBaseObj option) list \<Rightarrow> u32 option" where
  "JSonObj_getFloat key maps = do { obj \<leftarrow> JSonObj_at key maps; v \<leftarrow> as_value obj; fv v }"

definition JSonObj_getBool :: "byte list \<Rightarrow> (byte list \<times> JBaseObj option) list \<Rightarrow> bool option" where
  "JSonObj_getBool key maps = do { obj \<leftarrow> JSonObj_at key maps; v \<leftarrow> as_value obj; bv v }"

definition JSonObj_getStr :: "byte list \<Rightarrow> (byte list \<times> JBaseObj option) list \<Rightarrow> byte list option" where
  "JSonObj_getStr key maps = do { obj \<leftarrow> JSonObj_at key maps; v \<leftarrow> as_value obj; Some (sv v) }"

definition JSonObj_isNull :: "byte list \<Rightarrow> (byte list \<times> JBaseObj option) list \<Rightarrow> bool option" where
  "JSonObj_isNull key maps = do { obj \<leftarrow> JSonObj_at key maps; Some (type_of obj = eJ_NULL) }"

definition JSonObj_set ::
  "(JValue \<Rightarrow> JValue) \<Rightarrow> byte list \<Rightarrow> (byte list \<times> JBaseObj option) list
     \<Rightarrow> (byte list \<times> JBaseObj option) list option" where
  "JSonObj_set f key maps =
     (let (p, maps1) = map_index key maps;
          obj = (case p of None \<Rightarrow> JVal JValue_ctor | Some obj \<Rightarrow> obj)
      in map_option (\<lambda>v. map_set key (Some (JVal (f v))) maps1) (as_value obj))"

definition JSonObj_setInt :: "byte list \<Rightarrow> int \<Rightarrow> (byte list \<times> JBaseObj option) list \<Rightarrow> (byte list \<times> JBaseObj option) list option" where
  "JSonObj_setInt key v = JSonObj_set (JValue_setInt v) key"

definition JSonObj_setFloat :: "byte list \<Rightarrow> u32 \<Rightarrow> (byte list \<times> JBaseObj option) list \<Rightarrow> (byte list \<times> JBaseObj option) list option" where
  "JSonObj_setFloat key v = JSonObj_set (JValue_setFloat v) key"

definition JSonObj_setStr :: "byte list \<Rightarrow> byte list \<Rightarrow> (byte list \<times> JBaseObj option) list \<Rightarrow> (byte list \<times> JBaseObj option) list option" where
  "JSonObj_setStr key v = JSonObj_set (JValue_setStr v) key"

definition JSonObj_setBool :: "byte list \<Rightarrow> bool \<Rightarrow> (byte list \<times> JBaseObj option) list \<Rightarrow> (byte list \<times> JBaseObj option) list option" where
  "JSonObj_setBool key v = JSonObj_set (JValue_setBool v) key"

definition JSonObj_setNull :: "byte list \<Rightarrow> (byte list \<times> JBaseObj option) list \<Rightarrow> (byte list \<times> JBaseObj option) list option" where
  "JSonObj_setNull key maps =
     (let (p, maps1) = map_index key maps;
          obj = (case p of
                   None \<Rightarrow> JVal JValue_ctor
                 | Some obj \<Rightarrow> (if type_of obj = eJ_ARRAY \<or> type_of obj = eJ_OBJ then JVal JValue_ctor else obj))
      in map_option (\<lambda>v. map_set key (Some (JVal (JValue_setNull v))) maps1) (as_value obj))"

definition JSonObj_remove :: "byte list \<Rightarrow> (byte list \<times> JBaseObj option) list \<Rightarrow> (byte list \<times> JBaseObj option) list" where
  "JSonObj_remove key maps = filter (\<lambda>e. fst e \<noteq> key) maps"

definition JSonObj_createArray :: "byte list \<Rightarrow> (byte list \<times> JBaseObj option) list \<Rightarrow> (byte list \<times> JBaseObj option) list" where
  "JSonObj_createArray key maps = map_set key (Some (JArray [])) maps"

definition JSonObj_createObj :: "byte list \<Rightarrow> (byte list \<times> JBaseObj option) list \<Rightarrow> (byte list \<times> JBaseObj option) list" where
  "JSonObj_createObj key maps = map_set key (Some (JSonObj [])) maps"

definition JSonObj_getJsonObj ::
  "byte list \<Rightarrow> (byte list \<times> JBaseObj option) list \<Rightarrow> JBaseObj option \<times> (byte list \<times> JBaseObj option) list" where
  "JSonObj_getJsonObj key maps = map_index key maps"

section \<open>The calls of a program\<close>

text \<open>One call on a value or on a value inside it, reached through the pointers that \<open>createArray\<close>, \<open>createObj\<close> and
  \<open>getJsonObj\<close> return.\<close>

inductive json_step :: "JBaseObj \<Rightarrow> JBaseObj \<Rightarrow> bool" where
  pushInt: "json_step (JArray items) (JArray (JArray_pushInt i items))"
| pushFloat: "json_step (JArray items) (JArray (JArray_pushFloat f items))"
| pushStr: "json_step (JArray items) (JArray (JArray_pushStr s items))"
| pushBool: "json_step (JArray items) (JArray (JArray_pushBool b items))"
| pushNull: "json_step (JArray items) (JArray (JArray_pushNull items))"
| arr_setInt: "JArray_setInt idx i items = Some items' \<Longrightarrow> json_step (JArray items) (JArray items')"
| arr_setFloat: "JArray_setFloat idx f items = Some items' \<Longrightarrow> json_step (JArray items) (JArray items')"
| arr_setStr: "JArray_setStr idx s items = Some items' \<Longrightarrow> json_step (JArray items) (JArray items')"
| arr_setBool: "JArray_setBool idx b items = Some items' \<Longrightarrow> json_step (JArray items) (JArray items')"
| arr_setNull: "JArray_setNull idx items = Some items' \<Longrightarrow> json_step (JArray items) (JArray items')"
| arr_remove: "JArray_remove idx items = Some items' \<Longrightarrow> json_step (JArray items) (JArray items')"
| arr_createArray: "json_step (JArray items) (JArray (JArray_createArray items))"
| arr_createObj: "json_step (JArray items) (JArray (JArray_createObj items))"
| arr_child: "JArray_getJsonObj idx items = Some obj \<Longrightarrow> json_step obj obj' \<Longrightarrow>
    json_step (JArray items) (JArray (items[nat idx := obj']))"
| obj_setInt: "JSonObj_setInt key i maps = Some maps' \<Longrightarrow> json_step (JSonObj maps) (JSonObj maps')"
| obj_setFloat: "JSonObj_setFloat key f maps = Some maps' \<Longrightarrow> json_step (JSonObj maps) (JSonObj maps')"
| obj_setStr: "JSonObj_setStr key s maps = Some maps' \<Longrightarrow> json_step (JSonObj maps) (JSonObj maps')"
| obj_setBool: "JSonObj_setBool key b maps = Some maps' \<Longrightarrow> json_step (JSonObj maps) (JSonObj maps')"
| obj_setNull: "JSonObj_setNull key maps = Some maps' \<Longrightarrow> json_step (JSonObj maps) (JSonObj maps')"
| obj_remove: "json_step (JSonObj maps) (JSonObj (JSonObj_remove key maps))"
| obj_createArray: "json_step (JSonObj maps) (JSonObj (JSonObj_createArray key maps))"
| obj_createObj: "json_step (JSonObj maps) (JSonObj (JSonObj_createObj key maps))"
| obj_getJsonObj: "json_step (JSonObj maps) (JSonObj (snd (JSonObj_getJsonObj key maps)))"
| obj_child: "JSonObj_getJsonObj key maps = (Some obj, maps') \<Longrightarrow> json_step obj obj' \<Longrightarrow>
    json_step (JSonObj maps) (JSonObj (map_set key (Some obj') maps'))"

section \<open>Types\<close>

text \<open>The tag of a value names the member of the union that was written last.\<close>

definition value_ok :: "JValue \<Rightarrow> bool" where
  "value_ok v \<longleftrightarrow>
     (case jtype v of
        eJ_INT \<Rightarrow> iv v \<noteq> None
      | eJ_FLOAT \<Rightarrow> fv v \<noteq> None
      | eJ_BOOL \<Rightarrow> bv v \<noteq> None
      | eJ_NULL \<Rightarrow> True
      | eJ_STRING \<Rightarrow> True
      | _ \<Rightarrow> False)"

fun json_ok :: "JBaseObj \<Rightarrow> bool" where
  "json_ok (JVal v) = value_ok v"
| "json_ok (JArray items) = (\<forall>obj\<in>set items. json_ok obj)"
| "json_ok (JSonObj maps) = (sorted_wrt key_less (List.map fst maps) \<and> (\<forall>(k, p)\<in>set maps. \<forall>obj\<in>set_option p. json_ok obj))"

fun has_null :: "JBaseObj \<Rightarrow> bool" where
  "has_null (JVal v) = False"
| "has_null (JArray items) = (\<exists>obj\<in>set items. has_null obj)"
| "has_null (JSonObj maps) = (\<exists>(k, p)\<in>set maps. p = None \<or> (\<exists>obj\<in>set_option p. has_null obj))"


lemma key_less_irrefl [simp]: "\<not> key_less a a"
  by (induction a) auto

lemma key_less_trans: "key_less a b \<Longrightarrow> key_less b c \<Longrightarrow> key_less a c"
proof (induction a b arbitrary: c rule: key_less.induct)
  case (3 x xs y ys)
  then show ?case by (cases c) (auto dest: less_trans)
qed (auto elim: key_less.elims)

lemma key_less_total: "key_less a b \<or> a = b \<or> key_less b a"
proof (induction a b rule: key_less.induct)
  case (1 a)
  then show ?case by (cases a) auto
qed auto

lemma map_set_subset: "set (map_set key p maps) \<subseteq> insert (key, p) (set maps)"
  by (induction key p maps rule: map_set.induct) auto

lemma map_set_keys: "set (List.map fst (map_set key p maps)) = insert key (set (List.map fst maps))"
  by (induction key p maps rule: map_set.induct) auto

lemma map_set_sorted:
  "sorted_wrt key_less (List.map fst maps) \<Longrightarrow> sorted_wrt key_less (List.map fst (map_set key p maps))"
proof (induction key p maps rule: map_set.induct)
  case (2 key p k q maps)
  then show ?case
    using key_less_total [of key k] map_set_keys [of key p maps] by (auto dest: key_less_trans)
qed simp

text \<open>A key above all others is appended.\<close>

lemma map_set_last: "\<forall>k\<in>set (List.map fst maps). key_less k key \<Longrightarrow> map_set key p maps = maps @ [(key, p)]"
proof (induction key p maps rule: map_set.induct)
  case (2 key p k q maps)
  then have "key_less k key" by simp
  then have "\<not> key_less key k" "key \<noteq> k" using key_less_trans [of k key k] by auto
  then show ?case using 2 by simp
qed simp

lemmas value_defs = JValue_setInt_def JValue_setFloat_def JValue_setStr_def JValue_setBool_def JValue_setNull_def
  JValue_ctor_def value_ok_def

lemma setters_ok: "value_ok (JValue_setInt i v)" "value_ok (JValue_setFloat f v)" "value_ok (JValue_setStr s v)"
  "value_ok (JValue_setBool b v)" "value_ok (JValue_setNull v)" "value_ok JValue_ctor"
  by (simp_all add: value_defs)

lemma as_value_ok: "json_ok obj \<Longrightarrow> as_value obj = Some v \<Longrightarrow> value_ok v"
  by (cases obj) auto

lemma JArray_set_ok:
  assumes "json_ok (JArray items)" and "JArray_set f idx items = Some items'" and "\<And>v. value_ok (f v)"
  shows "json_ok (JArray items')"
  using assms set_update_subset_insert [of items "nat idx"] by (fastforce simp: JArray_set_def)

lemma JArray_setNull_ok:
  assumes "json_ok (JArray items)" and "JArray_setNull idx items = Some items'"
  shows "json_ok (JArray items')"
proof -
  have "json_ok (JArray (items[nat idx := JVal JValue_ctor]))"
    using assms(1) setters_ok(6) set_update_subset_insert [of items "nat idx" "JVal JValue_ctor"] by fastforce
  then show ?thesis
    using assms JArray_set_ok [of items JValue_setNull idx items'] setters_ok(5)
      JArray_set_ok [of "items[nat idx := JVal JValue_ctor]" JValue_setNull idx items']
    by (auto simp: JArray_setNull_def bind_eq_Some_conv simp del: json_ok.simps split: if_splits)
qed

lemma map_set_ok:
  "json_ok (JSonObj maps) \<Longrightarrow> (\<And>obj. p = Some obj \<Longrightarrow> json_ok obj) \<Longrightarrow> json_ok (JSonObj (map_set key p maps))"
  using map_set_subset [of key p maps] map_set_sorted [of maps key p] by (auto simp: subset_iff) fastforce

lemma map_index_ok:
  assumes "json_ok (JSonObj maps)" and "map_index key maps = (p, maps')"
  shows "json_ok (JSonObj maps')" and "\<And>obj. p = Some obj \<Longrightarrow> json_ok obj"
  using assms map_set_ok [of maps None key]
  by (auto simp: map_index_def simp del: map_set.simps split: option.splits dest!: map_of_SomeD)

lemma JSonObj_set_ok:
  assumes "json_ok (JSonObj maps)" and "JSonObj_set f key maps = Some maps'" and "\<And>v. value_ok (f v)"
  shows "json_ok (JSonObj maps')"
  using assms(2,3) map_index_ok(1) [OF assms(1)]
  by (auto simp: JSonObj_set_def simp del: json_ok.simps(3) split: prod.splits intro!: map_set_ok)

lemma JSonObj_setNull_ok:
  assumes "json_ok (JSonObj maps)" and "JSonObj_setNull key maps = Some maps'"
  shows "json_ok (JSonObj maps')"
  using assms(2) map_index_ok(1) [OF assms(1)] setters_ok(5)
  by (auto simp: JSonObj_setNull_def simp del: json_ok.simps(3) split: prod.splits intro!: map_set_ok)

lemma sorted_wrt_map_filter: "sorted_wrt P (List.map f xs) \<Longrightarrow> sorted_wrt P (List.map f (filter Q xs))"
  by (induction xs) auto

lemma append_ok: "json_ok (JArray items) \<Longrightarrow> json_ok obj \<Longrightarrow> json_ok (JArray (items @ [obj]))"
  by auto

lemma empty_ok: "json_ok (JArray [])" "json_ok (JSonObj [])"
  by simp_all

lemma filter_ok: "json_ok (JSonObj maps) \<Longrightarrow> json_ok (JSonObj (filter Q maps))"
  by (auto simp: sorted_wrt_map_filter)

lemma json_step_ok: "json_step obj obj' \<Longrightarrow> json_ok obj \<Longrightarrow> json_ok obj'"
proof (induction rule: json_step.induct)
  case (arr_child idx items obj obj')
  then show ?case
    using set_update_subset_insert [of items "nat idx" obj'] nth_mem [of "nat idx" items]
    by (fastforce simp: JArray_getJsonObj_def at_def split: if_splits)
next
  case (obj_child key maps obj maps' obj')
  then show ?case
    using map_index_ok [of maps key "Some obj" maps'] map_set_ok [of maps' "Some obj'" key]
    by (simp add: JSonObj_getJsonObj_def)
next
  case (obj_getJsonObj maps key)
  then show ?case
    using map_index_ok(1) [of maps key "fst (map_index key maps)" "snd (map_index key maps)"]
    by (simp add: JSonObj_getJsonObj_def)
next
  case (arr_remove idx items items')
  then show ?case by (auto simp: JArray_remove_def split: if_splits) (meson in_set_takeD in_set_dropD)+
next
  case (obj_createArray maps key)
  then show ?case using map_set_ok [of maps "Some (JArray [])" key] by (simp add: JSonObj_createArray_def)
next
  case (obj_createObj maps key)
  then show ?case using map_set_ok [of maps "Some (JSonObj [])" key] by (simp add: JSonObj_createObj_def)
qed (auto simp: JArray_pushInt_def JArray_pushFloat_def JArray_pushStr_def JArray_pushBool_def JArray_pushNull_def
    JArray_push_def setters_ok JArray_createArray_def JArray_createObj_def JSonObj_remove_def
    JArray_setInt_def JArray_setFloat_def JArray_setStr_def JArray_setBool_def JSonObj_setInt_def JSonObj_setFloat_def
    JSonObj_setStr_def JSonObj_setBool_def simp del: json_ok.simps(2,3)
    intro: append_ok empty_ok filter_ok JArray_set_ok JArray_setNull_ok JSonObj_set_ok JSonObj_setNull_ok)

lemma json_write_defined:
  "json_ok obj \<Longrightarrow> json_write fstr layout depth obj = None \<longleftrightarrow> has_null obj"
  "\<forall>obj\<in>set items. json_ok obj \<Longrightarrow>
    json_write_items fstr layout depth items = None \<longleftrightarrow> (\<exists>obj\<in>set items. has_null obj)"
  "\<forall>(k, p)\<in>set maps. \<forall>obj\<in>set_option p. json_ok obj \<Longrightarrow>
    json_write_entries fstr layout depth maps = None \<longleftrightarrow> (\<exists>(k, p)\<in>set maps. p = None \<or> (\<exists>obj\<in>set_option p. has_null obj))"
proof (induction fstr layout depth obj and fstr layout depth items and fstr layout depth maps
    rule: json_write_json_write_items_json_write_entries.induct)
  case (1 fstr layout depth v)
  then show ?case by (auto simp: value_ok_def split: eJOSN_TYPE.splits union_member.splits)
next
  case (8 fstr layout depth key obj maps)
  then show ?case by (simp add: bind_eq_None_conv) (cases "json_write fstr layout (Suc depth) obj"; fastforce)
qed (auto simp: bind_eq_None_conv split: Option.bind_splits)

text \<open>C13. In every value that a program can build with the operations of arrays and objects, starting from an empty one,
  the type of each \<open>JValue\<close> names the member of the union that was written last and the keys of each object are
  in ascending order; so printing it is defined, unless an object inside it holds a null pointer.\<close>

theorem json_type_safe:
  assumes "json_step\<^sup>*\<^sup>* obj0 obj" and "obj0 = JArray [] \<or> obj0 = JSonObj []"
  shows "json_ok obj \<and> (json_write fstr layout depth obj = None \<longleftrightarrow> has_null obj)"
proof -
  have "json_ok obj0" using assms(2) by auto
  with assms(1) have "json_ok obj" by (induction rule: rtranclp_induct) (auto intro: json_step_ok)
  then show ?thesis using json_write_defined(1) by blast
qed

lemma demo_json: "json_step\<^sup>*\<^sup>* (JArray []) (JArray [JSonObj [([97], Some (JVal (JValue_setBool True (JValue_setInt 7 JValue_ctor))))]])"
proof -
  let ?v = "JValue_setInt 7 JValue_ctor"
  have "json_step (JSonObj []) (JSonObj [([97], Some (JVal ?v))])"
    by (rule obj_setInt [of "[97]" 7]) (simp add: JSonObj_setInt_def JSonObj_set_def map_index_def)
  then have a: "json_step (JArray [JSonObj []]) (JArray ([JSonObj []][nat 0 := JSonObj [([97], Some (JVal ?v))]]))"
    by (rule arr_child [rotated]) (simp add: JArray_getJsonObj_def at_def)
  have "json_step (JSonObj [([97], Some (JVal ?v))]) (JSonObj [([97], Some (JVal (JValue_setBool True ?v)))])"
    by (rule obj_setBool [of "[97]" True]) (simp add: JSonObj_setBool_def JSonObj_set_def map_index_def)
  then have b: "json_step (JArray [JSonObj [([97], Some (JVal ?v))]])
      (JArray ([JSonObj [([97], Some (JVal ?v))]][nat 0 := JSonObj [([97], Some (JVal (JValue_setBool True ?v)))]]))"
    by (rule arr_child [rotated]) (simp add: JArray_getJsonObj_def at_def)
  have "json_step (JArray []) (JArray [JSonObj []])" using arr_createObj [of "[]"] by (simp add: JArray_createObj_def)
  then show ?thesis using a b by (auto intro: rtranclp.rtrancl_into_rtrancl)
qed

theorem json_type_safe_witness:
  "json_ok (JArray [JSonObj [([97], Some (JVal (JValue_setBool True (JValue_setInt 7 JValue_ctor))))]])
   \<and> (json_write (\<lambda>_. []) True 0 (JArray [JSonObj [([97], Some (JVal (JValue_setBool True (JValue_setInt 7 JValue_ctor))))]]) = None
      \<longleftrightarrow> has_null (JArray [JSonObj [([97], Some (JVal (JValue_setBool True (JValue_setInt 7 JValue_ctor))))]]))"
  by (rule json_type_safe [OF demo_json]) simp

text \<open>Looking up an unknown key with \<open>getJsonObj\<close> returns a null pointer and leaves it in the object, so
  that printing the object afterwards dereferences it.\<close>

theorem json_lookup_poisons_write:
  assumes "json_ok (JSonObj maps)" and "key \<notin> fst ` set maps"
  shows "fst (JSonObj_getJsonObj key maps) = None
    \<and> json_write fstr layout depth (JSonObj (snd (JSonObj_getJsonObj key maps))) = None"
proof -
  have "map_of maps key = None" using assms(2) by (simp add: map_of_eq_None_iff)
  then have g: "JSonObj_getJsonObj key maps = (None, map_set key None maps)"
    by (simp add: JSonObj_getJsonObj_def map_index_def)
  have "(key, None) \<in> set (map_set key (None :: JBaseObj option) maps)"
    by (induction key "None :: JBaseObj option" maps rule: map_set.induct) auto
  then have "has_null (JSonObj (map_set key None maps))" by auto
  moreover have "json_ok (JSonObj (map_set key None maps))" by (rule map_set_ok [OF assms(1)]) simp
  ultimately show ?thesis using json_write_defined(1) by (simp only: g fst_conv snd_conv simp_thms)
qed

theorem json_lookup_poisons_write_witness:
  "fst (JSonObj_getJsonObj [98] [([97], Some (JVal JValue_ctor))]) = None
   \<and> json_write (\<lambda>_. []) True 0 (JSonObj (snd (JSonObj_getJsonObj [98] [([97], Some (JVal JValue_ctor))]))) = None"
  by (rule json_lookup_poisons_write) (simp_all add: setters_ok)

end
