(* ===== verification/Json_Reader.thy ===== *)
theory Json_Reader
  imports Json
begin

text \<open>
  \<open>src/utils/JsonReader.h/.cpp\<close>: the recursive descent reader. The text is a C string and the position of a
  \<open>JsonBuff\<close> is the rest of it: the byte at the position is 0 at the end. Moving the position past the terminating
  zero is possible in the model and is the result \<open>Outside\<close>. A function returns a value, a null pointer (with the
  position where it stopped, which \<open>getError\<close> reports) or an exception of \<open>std::stoi\<close> or \<open>std::stof\<close>, which nothing
  catches. The argument \<open>stof\<close> is \<open>std::stof\<close>. The three functions call each other; fuel bounds the calls and the
  iterations of the loops, and \<open>2 * length + 1\<close> is always enough.
\<close>

section \<open>The reader\<close>

datatype json_result = Parsed JBaseObj | Failed | Thrown stoi_error | Outside

definition curr :: "byte list \<Rightarrow> byte" where
  "curr s = (case s of [] \<Rightarrow> 0 | c # _ \<Rightarrow> c)"

text \<open>\<open>go(len)\<close>: \<^const>\<open>None\<close> if the position would pass the terminating zero.\<close>

fun go :: "nat \<Rightarrow> byte list \<Rightarrow> byte list option" where
  "go 0 s = Some s"
| "go (Suc n) s = (if curr s = 0 then None else go n (tl s))"

lemma go_1: "go (Suc 0) s = (if curr s = 0 then None else Some (tl s))"
  by simp

declare go.simps(2) [simp del]

lemma go_shorter: "go (Suc 0) s = Some s1 \<Longrightarrow> length s1 < length s"
  by (cases s) (auto simp: go_1 curr_def split: if_splits)

function skip :: "byte list \<Rightarrow> byte list option" where
  "skip s = (if curr s \<noteq> 0 \<and> curr s \<le> 32 then (case go 1 s of None \<Rightarrow> None | Some s1 \<Rightarrow> skip s1) else Some s)"
  by pat_completeness auto
termination by (relation "measure length") (auto dest: go_shorter)

text \<open>The loop of \<open>readStr\<close>, with the characters it has passed, and \<open>readStr\<close>.\<close>

function scanStr :: "byte list \<Rightarrow> byte list \<Rightarrow> (byte list \<times> byte list) option" where
  "scanStr outstr p =
     (if curr p \<noteq> 34 \<and> curr p \<noteq> 0
      then (case go 1 p of None \<Rightarrow> None | Some p1 \<Rightarrow> scanStr (outstr @ [curr p]) p1)
      else Some (outstr, p))"
  by pat_completeness auto
termination by (relation "measure (\<lambda>(outstr, p). length p)") (auto dest: go_shorter)

definition readStr :: "byte list \<Rightarrow> (byte list option \<times> byte list) option" where
  "readStr s =
     (if curr s = 34 then
        do { ps \<leftarrow> go 1 s;
             (outstr, p) \<leftarrow> scanStr [] ps;
             if outstr \<noteq> [] \<and> curr p = 34
             then do { p1 \<leftarrow> go 1 p; Some (Some outstr, p1) }
             else Some (None, p) }
      else Some (None, s))"

text \<open>The loop over the characters of a number; the first part of the result is \<open>None\<close> for a second point.\<close>

function read_number :: "bool \<Rightarrow> nat \<Rightarrow> byte list \<Rightarrow> ((bool \<times> nat) option \<times> byte list) option" where
  "read_number isfloat numpos s =
     (if curr s = 46 then
        (if isfloat then Some (None, s)
         else (case go 1 s of None \<Rightarrow> None | Some s1 \<Rightarrow> read_number True numpos s1))
      else if 48 \<le> curr s \<and> curr s \<le> 57 then
        (case go 1 s of None \<Rightarrow> None | Some s1 \<Rightarrow> read_number isfloat (numpos + 1) s1)
      else Some (Some (isfloat, numpos), s))"
  by pat_completeness auto
termination by (relation "measure (\<lambda>(isfloat, numpos, s). length s)") (auto dest: go_shorter)

declare skip.simps [simp del] scanStr.simps [simp del] read_number.simps [simp del]

text \<open>The number and string part of \<open>readBase\<close>, after the sign; \<open>pnum\<close> is where the number starts.\<close>

definition read_number_or_string ::
  "(byte list \<Rightarrow> stoi_error + u32) \<Rightarrow> byte list \<Rightarrow> byte list \<Rightarrow> json_result \<times> byte list" where
  "read_number_or_string stof pnum str =
     (case read_number False 0 str of
        None \<Rightarrow> (Outside, str)
      | Some (None, rest) \<Rightarrow> (Failed, rest)
      | Some (Some (isfloat, numpos), rest) \<Rightarrow>
          if numpos \<noteq> 0 then
            (if isfloat
             then (case stof pnum of Inl e \<Rightarrow> (Thrown e, rest) | Inr v \<Rightarrow> (Parsed (JVal (JValue_setFloat v JValue_ctor)), rest))
             else (case stoi pnum of Inl e \<Rightarrow> (Thrown e, rest) | Inr v \<Rightarrow> (Parsed (JVal (JValue_setInt v JValue_ctor)), rest)))
          else
            (case readStr rest of
               None \<Rightarrow> (Outside, rest)
             | Some (Some s, rest1) \<Rightarrow> (Parsed (JVal (JValue_setStr s JValue_ctor)), rest1)
             | Some (None, rest1) \<Rightarrow> (Failed, rest1)))"

definition read_word :: "nat \<Rightarrow> JValue \<Rightarrow> byte list \<Rightarrow> json_result \<times> byte list" where
  "read_word len v str = (case go len str of None \<Rightarrow> (Outside, str) | Some rest \<Rightarrow> (Parsed (JVal v), rest))"

definition readBase :: "(byte list \<Rightarrow> stoi_error + u32) \<Rightarrow> byte list \<Rightarrow> json_result \<times> byte list" where
  "readBase stof str =
     (if take 4 str = [110, 117, 108, 108] then read_word 4 (JValue_setNull JValue_ctor) str
      else if take 5 str = [102, 97, 108, 115, 101] then read_word 5 (JValue_setBool False JValue_ctor) str
      else if take 4 str = [116, 114, 117, 101] then read_word 4 (JValue_setBool True JValue_ctor) str
      else if curr str = 45
        then (case go 1 str of None \<Rightarrow> (Outside, str) | Some str1 \<Rightarrow> read_number_or_string stof str str1)
      else read_number_or_string stof str str)"

text \<open>\<open>parser_pos\<close> is the flag of the jump into the loop, past its condition.\<close>

fun reader :: "(byte list \<Rightarrow> stoi_error + u32) \<Rightarrow> nat \<Rightarrow> byte list \<Rightarrow> (json_result \<times> byte list) option"
  and readArray :: "(byte list \<Rightarrow> stoi_error + u32) \<Rightarrow> nat \<Rightarrow> bool \<Rightarrow> JBaseObj list \<Rightarrow> byte list
      \<Rightarrow> (json_result \<times> byte list) option"
  and readObj :: "(byte list \<Rightarrow> stoi_error + u32) \<Rightarrow> nat \<Rightarrow> bool \<Rightarrow> (byte list \<times> JBaseObj option) list \<Rightarrow> byte list
      \<Rightarrow> (json_result \<times> byte list) option" where
  "reader stof 0 buff = None"
| "reader stof (Suc n) buff =
     (case skip buff of
        None \<Rightarrow> Some (Outside, buff)
      | Some s \<Rightarrow>
          if curr s = 91 then
            (case go 1 s of None \<Rightarrow> Some (Outside, s) | Some s1 \<Rightarrow> readArray stof n False [] s1)
          else if curr s = 123 then
            (case go 1 s of None \<Rightarrow> Some (Outside, s) | Some s1 \<Rightarrow> readObj stof n False [] s1)
          else Some (readBase stof s))"
| "readArray stof 0 parser_pos objs s = None"
| "readArray stof (Suc n) parser_pos objs s =
     (if parser_pos \<or> curr s \<noteq> 93 \<and> curr s \<noteq> 0 then
        do { (r, s1) \<leftarrow> reader stof n s;
             (case r of
                Parsed obj \<Rightarrow>
                  (case skip s1 of
                     None \<Rightarrow> Some (Outside, s1)
                   | Some s2 \<Rightarrow>
                       if curr s2 = 44 then
                         (case go 1 s2 of
                            None \<Rightarrow> Some (Outside, s2)
                          | Some s3 \<Rightarrow> readArray stof n True (objs @ [obj]) s3)
                       else readArray stof n False (objs @ [obj]) s2)
              | Failed \<Rightarrow> Some (Failed, s1)
              | Thrown e \<Rightarrow> Some (Thrown e, s1)
              | Outside \<Rightarrow> Some (Outside, s1)) }
      else if curr s = 93 then
        (case go 1 s of None \<Rightarrow> Some (Outside, s) | Some s1 \<Rightarrow> Some (Parsed (JArray objs), s1))
      else Some (Failed, s))"
| "readObj stof 0 parser_pos objs s = None"
| "readObj stof (Suc n) parser_pos objs s =
     (if parser_pos \<or> curr s \<noteq> 125 \<and> curr s \<noteq> 0 then
        (case skip s of
           None \<Rightarrow> Some (Outside, s)
         | Some s0 \<Rightarrow>
             if curr s0 = 34 then
               (case readStr s0 of
                  None \<Rightarrow> Some (Outside, s0)
                | Some (None, s1) \<Rightarrow> Some (Failed, s1)
                | Some (Some key, s1) \<Rightarrow>
                    if curr s1 \<noteq> 58 then Some (Failed, s1)
                    else
                      (case go 1 s1 of
                         None \<Rightarrow> Some (Outside, s1)
                       | Some s2 \<Rightarrow>
                           do { (r, s3) \<leftarrow> reader stof n s2;
                                (case r of
                                   Parsed obj \<Rightarrow>
                                     (let objs1 = map_set key (Some obj) objs in
                                      case skip s3 of
                                        None \<Rightarrow> Some (Outside, s3)
                                      | Some s4 \<Rightarrow>
                                          if curr s4 = 44 then
                                            (case go 1 s4 of
                                               None \<Rightarrow> Some (Outside, s4)
                                             | Some s5 \<Rightarrow> readObj stof n True objs1 s5)
                                          else readObj stof n False objs1 s4)
                                 | Failed \<Rightarrow> Some (Failed, s3)
                                 | Thrown e \<Rightarrow> Some (Thrown e, s3)
                                 | Outside \<Rightarrow> Some (Outside, s3)) }))
             else Some (Failed, s0))
      else if curr s = 125 then
        (case go 1 s of None \<Rightarrow> Some (Outside, s) | Some s1 \<Rightarrow> Some (Parsed (JSonObj objs), s1))
      else Some (Failed, s))"

text \<open>\<open>parser\<close>: the whole text has to be one value.\<close>

definition parser ::
  "(byte list \<Rightarrow> stoi_error + u32) \<Rightarrow> byte list \<Rightarrow> (json_result \<times> byte list) option" where
  "parser stof buff =
     do { (r, s) \<leftarrow> reader stof (2 * length buff + 1) buff;
          (case (r, skip s) of
             (Thrown e, _) \<Rightarrow> Some (Thrown e, s)
           | (Outside, _) \<Rightarrow> Some (Outside, s)
           | (_, None) \<Rightarrow> Some (Outside, s)
           | (Failed, Some p) \<Rightarrow> Some (Failed, p)
           | (Parsed obj, Some p) \<Rightarrow> if curr p \<noteq> 0 then Some (Failed, p) else Some (Parsed obj, p)) }"

definition getError :: "byte list \<Rightarrow> byte list" where
  "getError p =
     (if curr p \<noteq> 0 then List.map of_char ''There is an anomaly near '' @ [39, curr p, 39]
      else List.map of_char ''String ends prematurely'')"

definition JsonReader_write :: "(u32 \<Rightarrow> byte list) \<Rightarrow> bool \<Rightarrow> JBaseObj \<Rightarrow> byte list option" where
  "JsonReader_write fstr layout obj = json_write fstr layout 0 obj"

section \<open>The position stays inside of the text\<close>

text \<open>No function moves the position past the terminating zero. So each of them is a total function on what is left
  of the text, which the proofs below use.\<close>

definition skip_to :: "byte list \<Rightarrow> byte list" where
  "skip_to s = dropWhile (\<lambda>c. c \<noteq> 0 \<and> c \<le> 32) s"

definition string_at :: "byte list \<Rightarrow> byte list option \<times> byte list" where
  "string_at s =
     (if curr s = 34 then
        let p = dropWhile (\<lambda>c. c \<noteq> 34 \<and> c \<noteq> 0) (tl s);
            outstr = takeWhile (\<lambda>c. c \<noteq> 34 \<and> c \<noteq> 0) (tl s)
        in if outstr \<noteq> [] \<and> curr p = 34 then (Some outstr, tl p) else (None, p)
      else (None, s))"

fun number_at :: "bool \<Rightarrow> nat \<Rightarrow> byte list \<Rightarrow> (bool \<times> nat) option \<times> byte list" where
  "number_at isfloat numpos [] = (Some (isfloat, numpos), [])"
| "number_at isfloat numpos (c # s) =
     (if c = 46 then (if isfloat then (None, c # s) else number_at True numpos s)
      else if 48 \<le> c \<and> c \<le> 57 then number_at isfloat (numpos + 1) s
      else (Some (isfloat, numpos), c # s))"

lemma skip_eq [simp]: "skip s = Some (skip_to s)"
proof (induction s)
  case Nil
  show ?case by (subst skip.simps) (simp add: curr_def skip_to_def)
next
  case (Cons c s)
  then show ?case by (subst skip.simps) (auto simp: curr_def skip_to_def go_1)
qed

lemma scanStr_eq:
  "scanStr outstr p = Some (outstr @ takeWhile (\<lambda>c. c \<noteq> 34 \<and> c \<noteq> 0) p, dropWhile (\<lambda>c. c \<noteq> 34 \<and> c \<noteq> 0) p)"
proof (induction p arbitrary: outstr)
  case Nil
  show ?case by (subst scanStr.simps) (simp add: curr_def)
next
  case (Cons c p)
  then show ?case by (subst scanStr.simps) (auto simp: curr_def go_1)
qed

lemma readStr_eq [simp]: "readStr s = Some (string_at s)"
  by (simp add: readStr_def string_at_def go_1 scanStr_eq Let_def)

lemma digit_not_zero: "48 \<le> (c :: byte) \<Longrightarrow> c \<noteq> 0"
  by (auto simp: word_le_nat_alt)

lemma read_number_eq: "read_number isfloat numpos s = Some (number_at isfloat numpos s)"
proof (induction isfloat numpos s rule: number_at.induct)
  case (1 isfloat numpos)
  show ?case by (subst read_number.simps) (simp add: curr_def)
next
  case (2 isfloat numpos c s)
  have "48 \<le> c \<Longrightarrow> c \<noteq> 0" by (rule digit_not_zero)
  with 2 show ?case by (subst read_number.simps) (simp add: curr_def go_1)
qed

text \<open>The part of the text that is read ends before the terminating zero.\<close>

definition inside :: "byte list \<Rightarrow> byte list \<Rightarrow> bool" where
  "inside s rest \<longleftrightarrow> (\<exists>passed. s = passed @ rest \<and> 0 \<notin> set passed)"

lemma inside_refl [simp]: "inside s s"
  by (simp add: inside_def)

lemma inside_trans: "inside s t \<Longrightarrow> inside t u \<Longrightarrow> inside s u"
  unfolding inside_def by (metis append.assoc Un_iff set_append)

lemma inside_length: "inside s rest \<Longrightarrow> length rest \<le> length s"
  by (auto simp: inside_def)

lemma inside_tl: "curr s \<noteq> 0 \<Longrightarrow> inside s (tl s)"
  by (cases s) (auto simp: curr_def inside_def intro: exI [of _ "[hd s]"])

lemma inside_dropWhile: "(\<And>c. P c \<Longrightarrow> c \<noteq> 0) \<Longrightarrow> inside s (dropWhile P s)"
  unfolding inside_def by (rule exI [of _ "takeWhile P s"]) (auto dest: set_takeWhileD)

lemma inside_drop: "0 \<notin> set (take n s) \<Longrightarrow> inside s (drop n s)"
  unfolding inside_def by (rule exI [of _ "take n s"]) simp

lemma go_drop: "0 \<notin> set (take n s) \<Longrightarrow> n \<le> length s \<Longrightarrow> go n s = Some (drop n s)"
proof (induction n arbitrary: s)
  case (Suc n)
  then obtain c s' where "s = c # s'" by (cases s) auto
  with Suc show ?case by (simp add: curr_def go.simps)
qed simp

lemma skip_inside: "inside s (skip_to s)"
  unfolding skip_to_def by (rule inside_dropWhile) simp

lemma skip_length: "length (skip_to s) \<le> length s"
  by (rule inside_length [OF skip_inside])

lemma curr_tl: "curr s \<noteq> 0 \<Longrightarrow> length (tl s) < length s"
  by (cases s) (auto simp: curr_def)

lemma string_inside: "inside s (snd (string_at s))"
proof (cases "curr s = 34")
  case True
  let ?p = "dropWhile (\<lambda>c. c \<noteq> 34 \<and> c \<noteq> 0) (tl s)"
  have p: "inside s ?p" by (rule inside_trans [OF inside_tl inside_dropWhile]) (simp_all add: True)
  have "inside s (tl ?p)" if "curr ?p = 34" by (rule inside_trans [OF p inside_tl]) (simp add: that)
  with p True show ?thesis by (simp add: string_at_def Let_def)
qed (simp add: string_at_def)

lemma string_shorter: "string_at s = (Some key, s1) \<Longrightarrow> length s1 < length s"
  using length_dropWhile_le [of "\<lambda>c. c \<noteq> 34 \<and> c \<noteq> 0" "tl s"]
  by (cases s) (auto simp: string_at_def curr_def Let_def split: if_splits)

lemma number_inside: "inside s (snd (number_at isfloat numpos s))"
proof (induction isfloat numpos s rule: number_at.induct)
  case (2 isfloat numpos c s)
  have step: "inside (c # s) t" if "inside s t" "c \<noteq> 0" for t
    by (rule inside_trans [OF _ that(1)]) (use inside_tl [of "c # s"] that(2) in \<open>simp add: curr_def\<close>)
  have "48 \<le> c \<Longrightarrow> c \<noteq> 0" by (rule digit_not_zero)
  with 2 step show ?case by auto
qed simp

lemma number_count:
  "number_at isfloat numpos s = (Some (f, k), rest) \<Longrightarrow> k + length rest \<le> numpos + length s"
  by (induction isfloat numpos s rule: number_at.induct) (auto split: if_splits)

text \<open>\<open>readBase\<close> as a total function.\<close>

definition base_at :: "(byte list \<Rightarrow> stoi_error + u32) \<Rightarrow> byte list \<Rightarrow> json_result \<times> byte list" where
  "base_at stof str =
     (if take 4 str = [110, 117, 108, 108] then (Parsed (JVal (JValue_setNull JValue_ctor)), drop 4 str)
      else if take 5 str = [102, 97, 108, 115, 101] then (Parsed (JVal (JValue_setBool False JValue_ctor)), drop 5 str)
      else if take 4 str = [116, 114, 117, 101] then (Parsed (JVal (JValue_setBool True JValue_ctor)), drop 4 str)
      else
        case number_at False 0 (if curr str = 45 then tl str else str) of
             (None, rest) \<Rightarrow> (Failed, rest)
           | (Some (isfloat, numpos), rest) \<Rightarrow>
               if numpos \<noteq> 0 then
                 (if isfloat
                  then (case stof str of Inl e \<Rightarrow> (Thrown e, rest) | Inr v \<Rightarrow> (Parsed (JVal (JValue_setFloat v JValue_ctor)), rest))
                  else (case stoi str of Inl e \<Rightarrow> (Thrown e, rest) | Inr v \<Rightarrow> (Parsed (JVal (JValue_setInt v JValue_ctor)), rest)))
               else
                 (case string_at rest of
                    (Some s, rest1) \<Rightarrow> (Parsed (JVal (JValue_setStr s JValue_ctor)), rest1)
                  | (None, rest1) \<Rightarrow> (Failed, rest1)))"

lemma word_length: "take n s = w \<Longrightarrow> length w = n \<Longrightarrow> n \<le> length s"
  by auto

lemma read_word_eq:
  "take n s = w \<Longrightarrow> length w = n \<Longrightarrow> 0 \<notin> set w \<Longrightarrow> read_word n v s = (Parsed (JVal v), drop n s)"
  using go_drop [of n s] word_length [of n s w] by (simp add: read_word_def)

lemma readBase_eq [simp]: "readBase stof s = base_at stof s"
proof -
  have n: "read_number_or_string stof s t =
      (case number_at False 0 t of
         (None, rest) \<Rightarrow> (Failed, rest)
       | (Some (isfloat, numpos), rest) \<Rightarrow>
           if numpos \<noteq> 0 then
             (if isfloat
              then (case stof s of Inl e \<Rightarrow> (Thrown e, rest) | Inr v \<Rightarrow> (Parsed (JVal (JValue_setFloat v JValue_ctor)), rest))
              else (case stoi s of Inl e \<Rightarrow> (Thrown e, rest) | Inr v \<Rightarrow> (Parsed (JVal (JValue_setInt v JValue_ctor)), rest)))
           else
             (case string_at rest of
                (Some s, rest1) \<Rightarrow> (Parsed (JVal (JValue_setStr s JValue_ctor)), rest1)
              | (None, rest1) \<Rightarrow> (Failed, rest1)))" for t
    by (auto simp: read_number_or_string_def read_number_eq split: option.split prod.split)
  show ?thesis
    by (simp add: readBase_def base_at_def n go_1 read_word_eq [OF _ _ _, of 4 s "[110, 117, 108, 108]"]
        read_word_eq [of 5 s "[102, 97, 108, 115, 101]"] read_word_eq [of 4 s "[116, 114, 117, 101]"])
qed

lemma reader_Suc:
  "reader stof (Suc n) buff =
     (let s = skip_to buff in
      if curr s = 91 then readArray stof n False [] (tl s)
      else if curr s = 123 then readObj stof n False [] (tl s)
      else Some (base_at stof s))"
  by (simp add: go_1 Let_def)

lemma readArray_Suc:
  "readArray stof (Suc n) parser_pos objs s =
     (if parser_pos \<or> curr s \<noteq> 93 \<and> curr s \<noteq> 0 then
        do { (r, s1) \<leftarrow> reader stof n s;
             (case r of
                Parsed obj \<Rightarrow>
                  (let s2 = skip_to s1 in
                   if curr s2 = 44 then readArray stof n True (objs @ [obj]) (tl s2)
                   else readArray stof n False (objs @ [obj]) s2)
              | _ \<Rightarrow> Some (r, s1)) }
      else if curr s = 93 then Some (Parsed (JArray objs), tl s)
      else Some (Failed, s))"
  by (auto simp: go_1 Let_def intro!: Option.bind_cong [OF refl] split: json_result.split prod.split)

lemma readObj_Suc:
  "readObj stof (Suc n) parser_pos objs s =
     (if parser_pos \<or> curr s \<noteq> 125 \<and> curr s \<noteq> 0 then
        (let s0 = skip_to s in
         if curr s0 = 34 then
           (case string_at s0 of
              (None, s1) \<Rightarrow> Some (Failed, s1)
            | (Some key, s1) \<Rightarrow>
                if curr s1 \<noteq> 58 then Some (Failed, s1)
                else do { (r, s2) \<leftarrow> reader stof n (tl s1);
                          (case r of
                             Parsed obj \<Rightarrow>
                               (let objs1 = map_set key (Some obj) objs; s3 = skip_to s2 in
                                if curr s3 = 44 then readObj stof n True objs1 (tl s3)
                                else readObj stof n False objs1 s3)
                           | _ \<Rightarrow> Some (r, s2)) })
         else Some (Failed, s0))
      else if curr s = 125 then Some (Parsed (JSonObj objs), tl s)
      else Some (Failed, s))"
  by (auto simp: go_1 Let_def intro!: Option.bind_cong [OF refl] split: json_result.split prod.split option.split)

declare reader.simps(2) [simp del] readArray.simps(2) [simp del] readObj.simps(2) [simp del]
declare reader_Suc [simp] readArray_Suc [simp] readObj_Suc [simp]

definition shorter :: "byte list \<Rightarrow> json_result \<times> byte list \<Rightarrow> bool" where
  "shorter s out \<longleftrightarrow> inside s (snd out) \<and> fst out \<noteq> Outside
     \<and> (\<forall>obj. fst out = Parsed obj \<longrightarrow> length (snd out) < length s)"

lemma shorter_le: "shorter t out \<Longrightarrow> inside s t \<Longrightarrow> shorter s out"
  unfolding shorter_def by (metis inside_length inside_trans order_less_le_trans)

lemma shorter_simps [simp]:
  "shorter s (Parsed obj, s') \<longleftrightarrow> inside s s' \<and> length s' < length s"
  "shorter s (Failed, s') \<longleftrightarrow> inside s s'"
  "shorter s (Thrown e, s') \<longleftrightarrow> inside s s'"
  "\<not> shorter s (Outside, s')"
  by (auto simp: shorter_def)

lemma base_shorter: "shorter s (base_at stof s)"
proof -
  let ?s1 = "if curr s = 45 then tl s else s"
  have w: "inside s (drop n s) \<and> length (drop n s) < length s"
    if "take n s = v" "length v = n" "0 \<notin> set v" "0 < n" for n v
    using word_length [OF that(1,2)] inside_drop [of n s] that by auto
  obtain r rest where n: "number_at False 0 ?s1 = (r, rest)" by (cases "number_at False 0 ?s1")
  have i1: "inside s ?s1" using inside_tl [of s] by auto
  have i2: "inside s rest" using inside_trans [OF i1 number_inside [of ?s1 False 0]] n by simp
  have i3: "inside s (snd (string_at rest))" by (rule inside_trans [OF i2 string_inside])
  have l1: "length rest' < length s" if "string_at rest = (Some key, rest')" for key rest'
    using string_shorter [OF that] inside_length [OF i2] by simp
  have l2: "length rest < length s" if "r = Some (f, k)" "k \<noteq> 0" for f k
    using number_count [of False 0 ?s1 f k rest] n that inside_length [OF i1] by simp
  show ?thesis
    using w [of 4 "[110, 117, 108, 108]"] w [of 5 "[102, 97, 108, 115, 101]"] w [of 4 "[116, 114, 117, 101]"] n i2 i3 l1 l2
    by (auto simp: base_at_def split: option.splits prod.splits sum.splits)
qed

lemma reader_shorter:
  "(\<forall>s out. reader stof n s = Some out \<longrightarrow> shorter s out)
   \<and> (\<forall>pp objs s out. readArray stof n pp objs s = Some out \<longrightarrow> shorter s out)
   \<and> (\<forall>pp maps s out. readObj stof n pp maps s = Some out \<longrightarrow> shorter s out)"
proof (induction n)
  case (Suc n)
  have r: "shorter s out" if "reader stof n s = Some out" for s out using Suc that by blast
  have a: "shorter s out" if "readArray stof n pp objs s = Some out" for pp objs s out using Suc that by blast
  have o: "shorter s out" if "readObj stof n pp objs s = Some out" for pp objs s out using Suc that by blast
  have item: "shorter s out" if "shorter s (r, s1)" "shorter (skip_to s1) out" for s r s1 out
    using that inside_trans [OF _ skip_inside] shorter_le [of "skip_to s1" out s] by (auto simp: shorter_def)
  have item2: "shorter s out" if "shorter s (r, s1)" "curr (skip_to s1) = 44" "shorter (tl (skip_to s1)) out" for s r s1 out
    using item [OF that(1)] shorter_le [OF that(3) inside_tl] that(2) by simp
  have "shorter s out" if "reader stof (Suc n) s = Some out" for s out
  proof -
    have "shorter (skip_to s) out"
      using that a o shorter_le [OF _ inside_tl, of "skip_to s" out] base_shorter [of "skip_to s" stof]
      by (auto simp: Let_def split: if_splits)
    then show ?thesis by (rule shorter_le [OF _ skip_inside])
  qed
  moreover have "shorter s out" if d: "readArray stof (Suc n) pp objs s = Some out" for pp objs s out
  proof (cases "pp \<or> curr s \<noteq> 93 \<and> curr s \<noteq> 0")
    case True
    with d obtain x s1 where x: "reader stof n s = Some (x, s1)" by (auto simp: bind_eq_Some_conv)
    show ?thesis using d True x r [OF x] item [OF r [OF x]] item2 [OF r [OF x]] a
      by (auto simp: Let_def split: json_result.splits if_splits)
  next
    case False
    then show ?thesis using d inside_tl [of s] curr_tl [of s] by (auto split: if_splits)
  qed
  moreover have "shorter s out" if d: "readObj stof (Suc n) pp objs s = Some out" for pp objs s out
  proof (cases "pp \<or> curr s \<noteq> 125 \<and> curr s \<noteq> 0")
    case True
    define s0 where "s0 = skip_to s"
    have s0: "inside s s0" by (simp add: s0_def skip_inside)
    obtain k s1 where k: "string_at s0 = (k, s1)" by (cases "string_at s0")
    have s1: "inside s s1" using inside_trans [OF s0 string_inside [of s0]] k by simp
    show ?thesis
    proof (cases "\<exists>key x s2. curr s0 = 34 \<and> k = Some key \<and> curr s1 = 58 \<and> reader stof n (tl s1) = Some (x, s2)")
      case True': True
      then obtain key x s2 where c: "curr s0 = 34" "k = Some key" "curr s1 = 58"
        and x: "reader stof n (tl s1) = Some (x, s2)" by blast
      have sh: "shorter s (x, s2)"
        by (rule shorter_le [OF r [OF x] inside_trans [OF s1 inside_tl]]) (simp add: c)
      show ?thesis using d True c k x sh item [OF sh] item2 [OF sh] o
        by (auto simp: Let_def s0_def [symmetric] split: json_result.splits if_splits)
    next
      case False
      then show ?thesis using d True s0 s1 k
        by (auto simp: Let_def s0_def [symmetric] bind_eq_Some_conv split: if_splits option.splits)
    qed
  next
    case False
    then show ?thesis using d inside_tl [of s] curr_tl [of s] by (auto split: if_splits)
  qed
  ultimately show ?case by blast
qed simp

lemma tl_le: "length (tl s) \<le> length s"
  by simp

section \<open>Fuel\<close>

lemma reader_short: "reader stof n s = Some (r, s1) \<Longrightarrow> shorter s (r, s1)"
  using reader_shorter [of stof n] by blast

lemma reader_enough:
  "(\<forall>s. 2 * length s < n \<longrightarrow> reader stof n s \<noteq> None)
   \<and> (\<forall>pp objs s. 2 * length s + 1 < n \<longrightarrow> readArray stof n pp objs s \<noteq> None)
   \<and> (\<forall>pp maps s. 2 * length s + 1 < n \<longrightarrow> readObj stof n pp maps s \<noteq> None)"
proof (induction n)
  case (Suc n)
  have r: "reader stof n s \<noteq> None" if "2 * length s < n" for s using Suc that by blast
  have a: "readArray stof n pp objs s \<noteq> None" if "2 * length s + 1 < n" for pp objs s using Suc that by blast
  have o: "readObj stof n pp objs s \<noteq> None" if "2 * length s + 1 < n" for pp objs s using Suc that by blast
  have "reader stof (Suc n) s \<noteq> None" if l: "2 * length s < Suc n" for s
  proof -
    have "2 * length (tl (skip_to s)) + 1 < n" if "curr (skip_to s) \<noteq> 0"
      using curr_tl [OF that] skip_length [of s] l by linarith
    then show ?thesis using a o by (simp add: Let_def)
  qed
  moreover have "readArray stof (Suc n) pp objs s \<noteq> None" if l: "2 * length s + 1 < Suc n" for pp objs s
  proof -
    obtain x s1 where x: "reader stof n s = Some (x, s1)" using r [of s] l by fastforce
    have "2 * length (skip_to s1) + 1 < n \<and> 2 * length (tl (skip_to s1)) + 1 < n" if "x = Parsed obj" for obj
      using reader_short [OF x] that skip_length [of s1] tl_le [of "skip_to s1"] l by (simp del: length_tl)
    then show ?thesis using x a by (auto simp: Let_def split: json_result.split)
  qed
  moreover have "readObj stof (Suc n) pp objs s \<noteq> None" if l: "2 * length s + 1 < Suc n" for pp objs s
  proof -
    have "\<exists>x s2. reader stof n (tl s1) = Some (x, s2) \<and> (\<forall>obj. x = Parsed obj \<longrightarrow>
        2 * length (skip_to s2) + 1 < n \<and> 2 * length (tl (skip_to s2)) + 1 < n)"
      if "string_at (skip_to s) = (Some key, s1)" for key s1
    proof -
      have l1: "length s1 < length s" using string_shorter [OF that] skip_length [of s] by simp
      then obtain x s2 where x: "reader stof n (tl s1) = Some (x, s2)" using r [of "tl s1"] l by fastforce
      have "2 * length (skip_to s2) + 1 < n \<and> 2 * length (tl (skip_to s2)) + 1 < n" if "x = Parsed obj" for obj
        using reader_short [OF x] that skip_length [of s2] tl_le [of "skip_to s2"] tl_le [of s1] l l1
        by (simp del: length_tl)
      then show ?thesis using x by blast
    qed
    then show ?thesis using o by (fastforce simp: Let_def split: json_result.split option.split prod.split)
  qed
  ultimately show ?case by blast
qed simp

text \<open>C24. On every text the reader ends, with a value, a null pointer or an exception of \<open>std::stoi\<close> or \<open>std::stof\<close> that
  nothing catches, and it never moves past the terminating zero of the text: it has passed only non-zero bytes
  of it. (The depth of the recursion is that of the text; the size of the C++ stack is not modelled.)\<close>

theorem json_parser_returns:
  "\<exists>r rest. parser stof buff = Some (r, rest) \<and> r \<noteq> Outside
    \<and> (\<exists>passed. buff = passed @ rest \<and> 0 \<notin> set passed)"
proof -
  from reader_enough [of "2 * length buff + 1" stof] obtain r s where
    r: "reader stof (2 * length buff + 1) buff = Some (r, s)" by fastforce
  have sh: "shorter buff (r, s)" using reader_short [OF r] .
  then have "inside buff s" "r \<noteq> Outside" by (auto simp: shorter_def)
  moreover have "inside buff (skip_to s)" using inside_trans [OF \<open>inside buff s\<close> skip_inside] .
  ultimately show ?thesis
    using r by (cases r) (auto simp: parser_def inside_def [symmetric])
qed

section \<open>Reading what was printed\<close>

text \<open>The values without floating point numbers, and the object that a program builds for one.\<close>

datatype json =
  Json_int int
| Json_bool bool
| Json_null
| Json_str "byte list"
| Json_arr "json list"
| Json_obj "(byte list \<times> json) list"

fun of_json :: "json \<Rightarrow> JBaseObj" where
  "of_json (Json_int i) = JVal (JValue_setInt i JValue_ctor)"
| "of_json (Json_bool b) = JVal (JValue_setBool b JValue_ctor)"
| "of_json Json_null = JVal (JValue_setNull JValue_ctor)"
| "of_json (Json_str s) = JVal (JValue_setStr s JValue_ctor)"
| "of_json (Json_arr js) = JArray (List.map of_json js)"
| "of_json (Json_obj es) = JSonObj (List.map (\<lambda>(k, j). (k, Some (of_json j))) es)"

definition string_ok :: "byte list \<Rightarrow> bool" where
  "string_ok s \<longleftrightarrow> s \<noteq> [] \<and> 34 \<notin> set s \<and> 0 \<notin> set s"

fun printable :: "bool \<Rightarrow> json \<Rightarrow> bool" where
  "printable layout (Json_int i) \<longleftrightarrow> - (2 ^ 31) \<le> i \<and> i < 2 ^ 31"
| "printable layout (Json_bool b) \<longleftrightarrow> True"
| "printable layout Json_null \<longleftrightarrow> True"
| "printable layout (Json_str s) \<longleftrightarrow> string_ok s"
| "printable layout (Json_arr js) \<longleftrightarrow> (layout \<longrightarrow> js \<noteq> []) \<and> (\<forall>j\<in>set js. printable layout j)"
| "printable layout (Json_obj es) \<longleftrightarrow> (layout \<longrightarrow> es \<noteq> []) \<and> sorted_wrt key_less (List.map fst es)
     \<and> (\<forall>(k, j)\<in>set es. string_ok k \<and> printable layout j)"

definition blank :: "byte list \<Rightarrow> bool" where
  "blank ws \<longleftrightarrow> (\<forall>c\<in>set ws. c \<noteq> 0 \<and> c \<le> 32)"

definition stops :: "byte list \<Rightarrow> bool" where
  "stops rest \<longleftrightarrow> (rest = [] \<or> \<not> (48 \<le> hd rest \<and> hd rest \<le> 57) \<and> hd rest \<noteq> 46)"

definition starts :: "byte list \<Rightarrow> bool" where
  "starts w \<longleftrightarrow> w \<noteq> [] \<and> 32 < hd w \<and> hd w \<noteq> 93 \<and> hd w \<noteq> 125"

lemma skip_blank: "blank ws \<Longrightarrow> skip_to (ws @ s) = skip_to s"
  by (simp add: blank_def skip_to_def dropWhile_append1 dropWhile_append2)

lemma skip_start [simp]: "32 < c \<Longrightarrow> skip_to (c # s) = c # s"
  by (simp add: skip_to_def word_le_nat_alt word_less_nat_alt)

lemma blank_simps [simp]: "blank []" "blank (ws @ ws') \<longleftrightarrow> blank ws \<and> blank ws'" "blank (writeDepth d)" "blank [10]"
  by (auto simp: blank_def writeDepth_def)

lemma starts_skip: "starts w \<Longrightarrow> blank ws \<Longrightarrow> skip_to (ws @ w @ rest) = w @ rest"
  by (cases w) (simp_all add: skip_blank starts_def)

lemma read_number_digits: "stops rest \<Longrightarrow> \<forall>c\<in>set ds. is_digit c \<Longrightarrow>
    number_at False k (ds @ rest) = (Some (False, k + length ds), rest)"
proof (induction ds arbitrary: k)
  case Nil
  then show ?case by (cases rest) (auto simp: stops_def)
next
  case (Cons d ds)
  then have "d \<noteq> 46" "48 \<le> d \<and> d \<le> 57" by (auto simp: is_digit_def)
  then show ?case using Cons by simp
qed

lemma readBase_int:
  assumes "- (2 ^ 31) \<le> i" and "i < 2 ^ 31" and "stops rest"
  shows "base_at stof (to_string i @ rest) = (Parsed (of_json (Json_int i)), rest)" and "starts (to_string i)"
    and "curr (to_string i @ rest) \<noteq> 91 \<and> curr (to_string i @ rest) \<noteq> 123"
proof -
  define n where "n = nat (if i < 0 then - i else i)"
  have t: "to_string i = (if i < 0 then [45] else []) @ digits n" by (simp add: to_string_def n_def)
  obtain d ds where d: "digits n = d # ds" "is_digit d"
    using digits_digit [of "hd (digits n)" n] digits_not_empty [of n] by (cases "digits n") auto
  have dn: "d \<noteq> 45 \<and> d \<noteq> 110 \<and> d \<noteq> 102 \<and> d \<noteq> 116 \<and> d \<noteq> 91 \<and> d \<noteq> 123 \<and> 32 < d \<and> d \<noteq> 93 \<and> d \<noteq> 125"
    using d(2) by (auto simp: is_digit_def word_less_nat_alt word_le_nat_alt)
  have s: "stoi (to_string i @ rest) = Inr i"
    using assms(3) by (intro stoi_to_string [OF assms(1,2)]) (auto simp: stops_def is_digit_def)
  have "number_at False 0 (digits n @ rest) = (Some (False, length (digits n)), rest)"
    using read_number_digits [OF assms(3), of "digits n" 0] digits_digit by simp
  then show "base_at stof (to_string i @ rest) = (Parsed (of_json (Json_int i)), rest)"
    using s dn by (cases "i < 0") (simp_all add: base_at_def t curr_def Let_def d(1))
  show "starts (to_string i)" "curr (to_string i @ rest) \<noteq> 91 \<and> curr (to_string i @ rest) \<noteq> 123"
    using dn by (auto simp: t d(1) starts_def curr_def)
qed

lemma readStr_quoted: "string_ok s \<Longrightarrow> string_at (34 # s @ 34 # rest) = (Some s, rest)"
  by (auto simp: string_at_def curr_def string_ok_def takeWhile_append dropWhile_append Let_def)

lemma readBase_str: "string_ok s \<Longrightarrow> base_at stof (34 # s @ 34 # rest) = (Parsed (of_json (Json_str s)), rest)"
  by (simp add: base_at_def curr_def readStr_quoted Let_def)


definition reads_back :: "(byte list \<Rightarrow> stoi_error + u32) \<Rightarrow> (u32 \<Rightarrow> byte list) \<Rightarrow> bool \<Rightarrow> json \<Rightarrow> bool" where
  "reads_back stof fstr layout j \<longleftrightarrow>
     (\<forall>depth. \<exists>w. json_write fstr layout depth (of_json j) = Some w \<and> starts w
        \<and> (\<forall>ws rest n. blank ws \<longrightarrow> stops rest \<longrightarrow> 2 * length (ws @ w @ rest) < n \<longrightarrow>
             reader stof n (ws @ w @ rest) = Some (Parsed (of_json j), rest)))"

lemma reads_backE:
  assumes "reads_back stof fstr layout j"
  obtains s where "json_write fstr layout depth (of_json j) = Some s" "starts s"
    "\<And>ws rest n. blank ws \<Longrightarrow> stops rest \<Longrightarrow> 2 * length (ws @ s @ rest) < n \<Longrightarrow>
       reader stof n (ws @ s @ rest) = Some (Parsed (of_json j), rest)"
  using assms unfolding reads_back_def by blast

text \<open>What follows an element: the line break and what closes the array or object.\<close>

definition closing :: "bool \<Rightarrow> nat \<Rightarrow> byte \<Rightarrow> byte list \<Rightarrow> byte list" where
  "closing layout depth c rest = (if layout then writeDepth depth else []) @ c # rest"

abbreviation nl :: "bool \<Rightarrow> byte list" where
  "nl layout \<equiv> if layout then [10] else []"

abbreviation indent :: "bool \<Rightarrow> nat \<Rightarrow> byte list" where
  "indent layout depth \<equiv> if layout then writeDepth depth else []"

lemma skip_closing: "32 < c \<Longrightarrow> blank ws \<Longrightarrow> skip_to (ws @ closing layout depth c rest) = c # rest"
  by (simp add: closing_def skip_blank)

lemma stops_nl: "c = 44 \<or> c = 93 \<or> c = 125 \<Longrightarrow> stops (nl layout @ closing layout depth c rest)" "stops (44 # rest)"
  by (auto simp: stops_def closing_def)

lemma not_close: "blank ws \<Longrightarrow> starts w \<Longrightarrow> curr (ws @ w @ rest) \<noteq> 93 \<and> curr (ws @ w @ rest) \<noteq> 125 \<and> curr (ws @ w @ rest) \<noteq> 0"
  by (cases ws; cases w) (auto simp: curr_def blank_def starts_def)

lemma read_items:
  "js \<noteq> [] \<Longrightarrow> \<forall>j\<in>set js. reads_back stof fstr layout j \<Longrightarrow>
   \<exists>w. json_write_items fstr layout depth (List.map of_json js) = Some w
     \<and> (\<forall>ws rest n pp objs. blank ws \<longrightarrow> 2 * length (ws @ w @ closing layout depth 93 rest) + 1 < n \<longrightarrow>
          readArray stof n pp objs (ws @ w @ closing layout depth 93 rest)
            = Some (Parsed (JArray (objs @ List.map of_json js)), rest))"
proof (induction js rule: list_nonempty_induct)
  case (single j)
  have "reads_back stof fstr layout j" using single.prems by simp
  then obtain s where s: "json_write fstr layout (depth + 1) (of_json j) = Some s" "starts s"
    and r: "\<And>ws rest n. blank ws \<Longrightarrow> stops rest \<Longrightarrow> 2 * length (ws @ s @ rest) < n \<Longrightarrow>
             reader stof n (ws @ s @ rest) = Some (Parsed (of_json j), rest)"
    by (rule reads_backE [where depth = "depth + 1"]) blast
  let ?w = "indent layout (depth + 1) @ s @ nl layout"
  have "readArray stof n pp objs (ws @ ?w @ closing layout depth 93 rest) = Some (Parsed (JArray (objs @ [of_json j])), rest)"
    if ws: "blank ws" and n: "2 * length (ws @ ?w @ closing layout depth 93 rest) + 1 < n" for ws rest n pp objs
  proof -
    obtain k where k: "n = Suc (Suc k)" using n by (cases n rule: nat.exhaust; cases "n - 1") auto
    let ?ws = "ws @ indent layout (depth + 1)" and ?rest = "nl layout @ closing layout depth 93 rest"
    have b: "blank ?ws" using ws by simp
    have "reader stof (Suc k) (?ws @ s @ ?rest) = Some (Parsed (of_json j), ?rest)"
      using n k by (intro r b stops_nl) auto
    moreover have "skip_to ?rest = 93 # rest" by (intro skip_closing) auto
    ultimately show ?thesis
      using not_close [OF b s(2), of ?rest] by (simp add: k Let_def curr_def)
  qed
  then show ?case using s(1) by (intro exI [of _ ?w]) simp
next
  case (cons j js)
  have "reads_back stof fstr layout j" using cons.prems by simp
  then obtain s where s: "json_write fstr layout (depth + 1) (of_json j) = Some s" "starts s"
    and r: "\<And>ws rest n. blank ws \<Longrightarrow> stops rest \<Longrightarrow> 2 * length (ws @ s @ rest) < n \<Longrightarrow>
             reader stof n (ws @ s @ rest) = Some (Parsed (of_json j), rest)"
    by (rule reads_backE [where depth = "depth + 1"]) blast
  from cons obtain v where v: "json_write_items fstr layout depth (List.map of_json js) = Some v"
    and ih: "\<And>ws rest n pp objs. blank ws \<Longrightarrow> 2 * length (ws @ v @ closing layout depth 93 rest) + 1 < n \<Longrightarrow>
          readArray stof n pp objs (ws @ v @ closing layout depth 93 rest)
            = Some (Parsed (JArray (objs @ List.map of_json js)), rest)" by (metis list.set_intros(2))
  let ?w = "indent layout (depth + 1) @ s @ [44] @ nl layout @ v"
  have "readArray stof n pp objs (ws @ ?w @ closing layout depth 93 rest)
      = Some (Parsed (JArray (objs @ of_json j # List.map of_json js)), rest)"
    if ws: "blank ws" and n: "2 * length (ws @ ?w @ closing layout depth 93 rest) + 1 < n" for ws rest n pp objs
  proof -
    obtain k where k: "n = Suc k" using n by (cases n) auto
    let ?ws = "ws @ indent layout (depth + 1)" and ?rest = "nl layout @ v @ closing layout depth 93 rest"
    have b: "blank ?ws" using ws by simp
    have "reader stof k (?ws @ s @ 44 # ?rest) = Some (Parsed (of_json j), 44 # ?rest)"
      using n k by (intro r b stops_nl(2)) auto
    moreover have "readArray stof k True (objs @ [of_json j]) ?rest
        = Some (Parsed (JArray ((objs @ [of_json j]) @ List.map of_json js)), rest)"
      using n k by (intro ih) auto
    ultimately show ?thesis
      using not_close [OF b s(2), of "44 # ?rest"] by (simp add: k Let_def curr_def)
  qed
  then show ?case using s(1) v cons.hyps by (intro exI [of _ ?w]) simp
qed


abbreviation entry :: "byte list \<times> json \<Rightarrow> byte list \<times> JBaseObj option" where
  "entry \<equiv> \<lambda>(k, j). (k, Some (of_json j))"

text \<open>One entry: its key, the colon and its value.\<close>

lemma read_entry:
  assumes ws: "blank ws" and k: "string_ok k"
    and r: "reader stof n (s @ rest) = Some (Parsed obj, rest)" and above: "\<forall>k'\<in>set (List.map fst objs). key_less k' k"
  shows "readObj stof (Suc n) pp objs (ws @ 34 # k @ 34 # 58 # s @ rest)
    = (let s3 = skip_to rest in
       if curr s3 = 44 then readObj stof n True (objs @ [(k, Some obj)]) (tl s3)
       else readObj stof n False (objs @ [(k, Some obj)]) s3)"
proof -
  have c: "curr (ws @ 34 # k @ 34 # 58 # s @ rest) \<noteq> 125 \<and> curr (ws @ 34 # k @ 34 # 58 # s @ rest) \<noteq> 0"
    using not_close [OF ws, of "[34]" "k @ 34 # 58 # s @ rest"] by (simp add: starts_def)
  show ?thesis
    using c readStr_quoted [OF k, of "58 # s @ rest"] r map_set_last [OF above, of "Some obj"]
    by (simp add: skip_blank [OF ws] Let_def curr_def)
qed

lemma read_entries:
  "es \<noteq> [] \<Longrightarrow> \<forall>(k, j)\<in>set es. string_ok k \<and> reads_back stof fstr layout j \<Longrightarrow> sorted_wrt key_less (List.map fst es) \<Longrightarrow>
   \<exists>w. json_write_entries fstr layout depth (List.map entry es) = Some w
     \<and> (\<forall>ws rest n pp objs. blank ws \<longrightarrow> 2 * length (ws @ w @ closing layout depth 125 rest) + 1 < n \<longrightarrow>
          (\<forall>k'\<in>set (List.map fst objs). \<forall>k\<in>set (List.map fst es). key_less k' k) \<longrightarrow>
          readObj stof n pp objs (ws @ w @ closing layout depth 125 rest)
            = Some (Parsed (JSonObj (objs @ List.map entry es)), rest))"
proof (induction es rule: list_nonempty_induct)
  case (single kj)
  obtain k j where kj: "kj = (k, j)" by fastforce
  have "reads_back stof fstr layout j" using single.prems kj by simp
  then obtain s where s: "json_write fstr layout (depth + 1) (of_json j) = Some s"
    and r: "\<And>ws rest n. blank ws \<Longrightarrow> stops rest \<Longrightarrow> 2 * length (ws @ s @ rest) < n \<Longrightarrow>
             reader stof n (ws @ s @ rest) = Some (Parsed (of_json j), rest)"
    by (rule reads_backE [where depth = "depth + 1"]) blast
  have key: "string_ok k" using single kj by simp
  let ?w = "indent layout (depth + 1) @ 34 # k @ 34 # 58 # s @ nl layout"
  have "readObj stof n pp objs (ws @ ?w @ closing layout depth 125 rest) = Some (Parsed (JSonObj (objs @ [entry kj])), rest)"
    if ws: "blank ws" and n: "2 * length (ws @ ?w @ closing layout depth 125 rest) + 1 < n"
      and above: "\<forall>k'\<in>set (List.map fst objs). key_less k' k" for ws rest n pp objs
  proof -
    obtain m where m: "n = Suc (Suc m)" using n by (cases n rule: nat.exhaust; cases "n - 1") auto
    let ?rest = "nl layout @ closing layout depth 125 rest"
    have b: "blank (ws @ indent layout (depth + 1))" using ws by simp
    have "reader stof (Suc m) ([] @ s @ ?rest) = Some (Parsed (of_json j), ?rest)"
      using n m by (intro r stops_nl) auto
    moreover have "skip_to ?rest = 125 # rest" by (intro skip_closing) auto
    ultimately show ?thesis
      using read_entry [OF b key _ above, of stof "Suc m" s ?rest "of_json j" pp] by (simp add: m kj Let_def curr_def)
  qed
  then show ?case using s(1) kj by (intro exI [of _ ?w]) simp
next
  case (cons kj es)
  obtain k j where kj: "kj = (k, j)" by fastforce
  have "reads_back stof fstr layout j" using cons.prems kj by simp
  then obtain s where s: "json_write fstr layout (depth + 1) (of_json j) = Some s"
    and r: "\<And>ws rest n. blank ws \<Longrightarrow> stops rest \<Longrightarrow> 2 * length (ws @ s @ rest) < n \<Longrightarrow>
             reader stof n (ws @ s @ rest) = Some (Parsed (of_json j), rest)"
    by (rule reads_backE [where depth = "depth + 1"]) blast
  have key: "string_ok k" and less: "\<forall>k'\<in>set (List.map fst es). key_less k k'"
    using cons.prems kj by auto
  have "\<forall>(k, j)\<in>set es. string_ok k \<and> reads_back stof fstr layout j" "sorted_wrt key_less (List.map fst es)"
    using cons.prems by simp_all
  from cons.IH [OF this] obtain v where v: "json_write_entries fstr layout depth (List.map entry es) = Some v"
    and ih: "\<And>ws rest n pp objs. blank ws \<Longrightarrow> 2 * length (ws @ v @ closing layout depth 125 rest) + 1 < n \<Longrightarrow>
          \<forall>k'\<in>set (List.map fst objs). \<forall>k\<in>set (List.map fst es). key_less k' k \<Longrightarrow>
          readObj stof n pp objs (ws @ v @ closing layout depth 125 rest)
            = Some (Parsed (JSonObj (objs @ List.map entry es)), rest)" by blast
  let ?w = "indent layout (depth + 1) @ 34 # k @ 34 # 58 # s @ [44] @ nl layout @ v"
  have "readObj stof n pp objs (ws @ ?w @ closing layout depth 125 rest)
      = Some (Parsed (JSonObj (objs @ entry kj # List.map entry es)), rest)"
    if ws: "blank ws" and n: "2 * length (ws @ ?w @ closing layout depth 125 rest) + 1 < n"
      and above: "\<forall>k'\<in>set (List.map fst objs). \<forall>k\<in>set (List.map fst (kj # es)). key_less k' k" for ws rest n pp objs
  proof -
    obtain m where m: "n = Suc m" using n by (cases n) auto
    let ?rest = "nl layout @ v @ closing layout depth 125 rest"
    have b: "blank (ws @ indent layout (depth + 1))" using ws by simp
    have a: "\<forall>k'\<in>set (List.map fst objs). key_less k' k" using above kj by auto
    have "reader stof m ([] @ s @ 44 # ?rest) = Some (Parsed (of_json j), 44 # ?rest)"
      using n m by (intro r stops_nl(2)) auto
    moreover have "readObj stof m True (objs @ [entry kj]) ?rest
        = Some (Parsed (JSonObj ((objs @ [entry kj]) @ List.map entry es)), rest)"
      using n m above less by (intro ih) (auto simp: kj)
    ultimately show ?thesis
      using read_entry [OF b key _ a, of stof m s "44 # ?rest" "of_json j" pp] by (simp add: m kj Let_def curr_def)
  qed
  then show ?case using s(1) v cons.hyps kj by (intro exI [of _ ?w]) simp
qed


lemma reader_array: "blank ws \<Longrightarrow> reader stof (Suc n) (ws @ 91 # s) = readArray stof n False [] s"
  "blank ws \<Longrightarrow> reader stof (Suc n) (ws @ 123 # s) = readObj stof n False [] s"
  by (simp_all add: skip_blank Let_def curr_def)

lemma reader_base:
  "blank ws \<Longrightarrow> starts w \<Longrightarrow> curr (w @ rest) \<noteq> 91 \<and> curr (w @ rest) \<noteq> 123 \<Longrightarrow> 0 < n \<Longrightarrow>
   reader stof n (ws @ w @ rest) = Some (base_at stof (w @ rest))"
  by (cases n) (simp_all add: starts_skip Let_def)

lemma reads_back_base:
  assumes "\<And>depth. json_write fstr layout depth (of_json j) = Some w" and "starts w"
    and "\<And>rest. stops rest \<Longrightarrow> curr (w @ rest) \<noteq> 91 \<and> curr (w @ rest) \<noteq> 123
           \<and> base_at stof (w @ rest) = (Parsed (of_json j), rest)"
  shows "reads_back stof fstr layout j"
  unfolding reads_back_def using assms reader_base [of _ w] by fastforce

lemma reads_back_arr:
  assumes "layout \<longrightarrow> js \<noteq> []" and "\<forall>j\<in>set js. reads_back stof fstr layout j"
  shows "reads_back stof fstr layout (Json_arr js)"
  unfolding reads_back_def
proof
  fix depth
  show "\<exists>w. json_write fstr layout depth (of_json (Json_arr js)) = Some w \<and> starts w
        \<and> (\<forall>ws rest n. blank ws \<longrightarrow> stops rest \<longrightarrow> 2 * length (ws @ w @ rest) < n \<longrightarrow>
             reader stof n (ws @ w @ rest) = Some (Parsed (of_json (Json_arr js)), rest))"
  proof (cases "js = []")
    case True
    have "reader stof n (ws @ [91, 93] @ rest) = Some (Parsed (JArray []), rest)"
      if ws: "blank ws" and len: "2 * length (ws @ [91, 93] @ rest) < n" for ws rest n
    proof -
      obtain k where "n = Suc (Suc k)" using len by (cases n rule: nat.exhaust; cases "n - 1") auto
      then show ?thesis using ws by (simp add: reader_array curr_def del: reader_Suc)
    qed
    then show ?thesis using True assms(1) by (intro exI [of _ "[91, 93]"]) (simp add: starts_def)
  next
    case False
    from read_items [OF False assms(2)] obtain w where w: "json_write_items fstr layout depth (List.map of_json js) = Some w"
      and r: "\<And>ws rest n pp objs. blank ws \<Longrightarrow> 2 * length (ws @ w @ closing layout depth 93 rest) + 1 < n \<Longrightarrow>
          readArray stof n pp objs (ws @ w @ closing layout depth 93 rest)
            = Some (Parsed (JArray (objs @ List.map of_json js)), rest)" by blast
    let ?w = "91 # nl layout @ w @ closing layout depth 93 []"
    have "reader stof n (ws @ ?w @ rest) = Some (Parsed (JArray (List.map of_json js)), rest)"
      if ws: "blank ws" and len: "2 * length (ws @ ?w @ rest) < n" for ws rest n
    proof -
      obtain k where k: "n = Suc k" using len by (cases n) auto
      have "readArray stof k False [] (nl layout @ w @ closing layout depth 93 rest) = Some (Parsed (JArray ([] @ List.map of_json js)), rest)"
        using len k by (intro r) (auto simp: closing_def)
      then show ?thesis using ws by (simp add: k reader_array closing_def del: reader_Suc)
    qed
    then show ?thesis using w by (intro exI [of _ ?w]) (simp add: starts_def closing_def)
  qed
qed

lemma reads_back_obj:
  assumes "layout \<longrightarrow> es \<noteq> []" and "\<forall>(k, j)\<in>set es. string_ok k \<and> reads_back stof fstr layout j"
    and "sorted_wrt key_less (List.map fst es)"
  shows "reads_back stof fstr layout (Json_obj es)"
  unfolding reads_back_def
proof
  fix depth
  show "\<exists>w. json_write fstr layout depth (of_json (Json_obj es)) = Some w \<and> starts w
        \<and> (\<forall>ws rest n. blank ws \<longrightarrow> stops rest \<longrightarrow> 2 * length (ws @ w @ rest) < n \<longrightarrow>
             reader stof n (ws @ w @ rest) = Some (Parsed (of_json (Json_obj es)), rest))"
  proof (cases "es = []")
    case True
    have "reader stof n (ws @ [123, 125] @ rest) = Some (Parsed (JSonObj []), rest)"
      if ws: "blank ws" and len: "2 * length (ws @ [123, 125] @ rest) < n" for ws rest n
    proof -
      obtain k where "n = Suc (Suc k)" using len by (cases n rule: nat.exhaust; cases "n - 1") auto
      then show ?thesis using ws by (simp add: reader_array curr_def del: reader_Suc)
    qed
    then show ?thesis using True assms(1) by (intro exI [of _ "[123, 125]"]) (simp add: starts_def)
  next
    case False
    from read_entries [OF False assms(2,3)] obtain w where w: "json_write_entries fstr layout depth (List.map entry es) = Some w"
      and r: "\<And>ws rest n pp objs. blank ws \<Longrightarrow> 2 * length (ws @ w @ closing layout depth 125 rest) + 1 < n \<Longrightarrow>
          \<forall>k'\<in>set (List.map fst objs). \<forall>k\<in>set (List.map fst es). key_less k' k \<Longrightarrow>
          readObj stof n pp objs (ws @ w @ closing layout depth 125 rest)
            = Some (Parsed (JSonObj (objs @ List.map entry es)), rest)" by blast
    let ?w = "123 # nl layout @ w @ closing layout depth 125 []"
    have "reader stof n (ws @ ?w @ rest) = Some (Parsed (JSonObj (List.map entry es)), rest)"
      if ws: "blank ws" and len: "2 * length (ws @ ?w @ rest) < n" for ws rest n
    proof -
      obtain k where k: "n = Suc k" using len by (cases n) auto
      have "readObj stof k False [] (nl layout @ w @ closing layout depth 125 rest) = Some (Parsed (JSonObj ([] @ List.map entry es)), rest)"
        using len k by (intro r) (auto simp: closing_def)
      then show ?thesis using ws by (simp add: k reader_array closing_def del: reader_Suc)
    qed
    then show ?thesis using w by (intro exI [of _ ?w]) (simp add: starts_def closing_def)
  qed
qed

lemma printable_reads_back: "printable layout j \<Longrightarrow> reads_back stof fstr layout j"
proof (induction j)
  case (Json_int i)
  then show ?case
    using readBase_int [of i] by (intro reads_back_base [where w = "to_string i"]) (auto simp: JValue_setInt_def stops_def)
next
  case (Json_bool b)
  then show ?case
    by (intro reads_back_base [where w = "if b then [116, 114, 117, 101] else [102, 97, 108, 115, 101]"])
      (simp_all add: JValue_setBool_def starts_def curr_def base_at_def)
next
  case Json_null
  then show ?case
    by (intro reads_back_base [where w = "[110, 117, 108, 108]"])
      (simp_all add: JValue_setNull_def JValue_ctor_def starts_def curr_def base_at_def)
next
  case (Json_str s)
  then show ?case
    using readBase_str [of s stof]
    by (intro reads_back_base [where w = "34 # s @ [34]"]) (simp_all add: JValue_setStr_def starts_def curr_def)
next
  case (Json_arr js)
  then show ?case by (intro reads_back_arr) auto
next
  case (Json_obj es)
  then show ?case by (intro reads_back_obj) (auto simp: fsts.simps snds.simps)
qed

text \<open>C12. Reading what was printed gives back the value, with and without layout: for every value without floating
  point numbers whose integers fit an \<open>int\<close>, whose strings and keys are not empty and contain no quote, and which,
  with layout, has no empty array or object inside.\<close>

theorem json_roundtrip:
  assumes "printable layout j"
  shows "\<exists>w. JsonReader_write fstr layout (of_json j) = Some w \<and> parser stof w = Some (Parsed (of_json j), [])"
proof -
  from printable_reads_back [OF assms, of stof fstr] obtain w where
    w: "json_write fstr layout 0 (of_json j) = Some w"
    and r: "\<And>ws rest n. blank ws \<Longrightarrow> stops rest \<Longrightarrow> 2 * length (ws @ w @ rest) < n \<Longrightarrow>
       reader stof n (ws @ w @ rest) = Some (Parsed (of_json j), rest)" by (rule reads_backE [where depth = 0]) blast
  have "reader stof (2 * length w + 1) ([] @ w @ []) = Some (Parsed (of_json j), [])"
    by (rule r) (simp_all add: stops_def)
  then show ?thesis using w by (simp add: JsonReader_write_def parser_def skip_to_def curr_def Let_def)
qed

theorem json_roundtrip_witness:
  "\<exists>w. JsonReader_write (\<lambda>_. []) True (of_json (Json_arr [Json_int (- 5), Json_obj [([97], Json_str [120]), ([98], Json_bool True)]])) = Some w
    \<and> parser (\<lambda>_. Inr 0) w = Some (Parsed (of_json (Json_arr [Json_int (- 5), Json_obj [([97], Json_str [120]), ([98], Json_bool True)]])), [])"
  by (rule json_roundtrip) (simp add: string_ok_def)

text \<open>The conditions of the round trip are needed: the reader rejects the printed form, with layout, of an
  empty array and of an empty object, and the printed form of an empty string.\<close>

theorem json_own_output_rejected:
  "JsonReader_write fstr True (JArray []) = Some [91, 10, 93] \<and> parser stof [91, 10, 93] = Some (Failed, [93])
   \<and> JsonReader_write fstr True (JSonObj []) = Some [123, 10, 125] \<and> parser stof [123, 10, 125] = Some (Failed, [125])
   \<and> JsonReader_write fstr layout (JVal (JValue_setStr [] v)) = Some [34, 34] \<and> parser stof [34, 34] = Some (Failed, [34])"
proof -
  have a: "parser stof [91, 10, 93] = Some (Failed, [93])" by code_simp
  have b: "parser stof [123, 10, 125] = Some (Failed, [125])" by code_simp
  have c: "parser stof [34, 34] = Some (Failed, [34])" by code_simp
  show ?thesis by (simp add: a b c JsonReader_write_def writeDepth_def JValue_setStr_def)
qed

end
