(* ===== verification/Thread_Pool.thy ===== *)
theory Thread_Pool
  imports Prelude "HOL-Library.Multiset"
begin

text \<open>
  \<open>src/common/TQueue.h\<close>, \<open>ThreadPool.h/.cpp\<close> and \<open>SpinLock.h\<close>: the pool that runs database tasks, as a step
  relation whose steps are the atomic actions of the worker threads and of the owner, in any order. The queue of
  \<open>concurrentqueue.h\<close> promises no order between the elements of different threads, and \<open>try_dequeue\<close> may fail
  although there is an element, so a pop takes any element and a failed one is no step. What a task does is its name in a
  log: \<open>processed\<close> for \<open>process\<close> and \<open>completed\<close> for \<open>complete\<close>.
\<close>

section \<open>The queue\<close>

definition TQueue_push :: "'a \<Rightarrow> 'a list \<Rightarrow> 'a list" where
  "TQueue_push x q = q @ [x]"

definition TQueue_tryPop :: "nat \<Rightarrow> 'a list \<Rightarrow> ('a \<times> 'a list) option" where
  "TQueue_tryPop choice q = (if choice < length q then Some (q ! choice, take choice q @ drop (choice + 1) q) else None)"

text \<open>What the pool needs of its queue.\<close>

locale bag =
  fixes push :: "'a \<Rightarrow> 'q \<Rightarrow> 'q" and pop :: "nat \<Rightarrow> 'q \<Rightarrow> ('a \<times> 'q) option" and content :: "'q \<Rightarrow> 'a multiset"
  assumes push_content: "content (push x q) = add_mset x (content q)"
    and pop_content: "pop n q = Some (x, q') \<Longrightarrow> content q = add_mset x (content q')"
    and pop_any: "content q \<noteq> {#} \<Longrightarrow> \<exists>x q'. pop 0 q = Some (x, q')"
begin

lemma pop_size: "pop n q = Some (x, q') \<Longrightarrow> size (content q) = Suc (size (content q'))"
  by (drule pop_content) simp

lemma pop_push: "pop n (push x q) = Some (y, q') \<Longrightarrow> add_mset x (content q) = add_mset y (content q')"
  by (drule pop_content) (simp add: push_content)

end

interpretation tq: bag TQueue_push TQueue_tryPop mset
proof
  fix x :: 'a and q q' :: "'a list" and n
  show "mset (TQueue_push x q) = add_mset x (mset q)" by (simp add: TQueue_push_def)
  show "\<exists>x q'. TQueue_tryPop 0 q = Some (x, q')" if "mset q \<noteq> {#}"
    using that by (simp add: TQueue_tryPop_def)
  show "mset q = add_mset x (mset q')" if "TQueue_tryPop n q = Some (x, q')"
  proof -
    have l: "n < length q" "x = q ! n" "q' = take n q @ drop (n + 1) q"
      using that by (auto simp: TQueue_tryPop_def split: if_splits)
    then have "mset q = mset (take n q @ q ! n # drop (n + 1) q)" by (simp flip: id_take_nth_drop)
    then show ?thesis using l by simp
  qed
qed

section \<open>The pool\<close>

text \<open>Where a worker is in \<open>backfunc\<close>: before its loop, at the test of \<open>_isrun\<close>, after the test, with a task it has popped, with
  a task it has run, after the loop.\<close>

datatype 't thread_state = Sleeping | Looping | Popping | Has_task 't | Has_run 't | Ended

record 't CThread =
  at_point :: "'t thread_state"
  isrun :: bool

definition CThread_ctor :: "'t CThread" where
  "CThread_ctor = \<lparr>at_point = Sleeping, isrun = True\<rparr>"

text \<open>\<open>exiting\<close> is the index of the thread that \<open>exit\<close> is stopping.\<close>

record 't ThreadPool =
  threads :: "'t CThread list"
  waitTasks :: "'t list"
  completeTasks :: "'t list"
  exiting :: "nat option"
  added :: "'t list"
  processed :: "'t list"
  completed :: "'t list"

definition ThreadPool_ctor :: "'t ThreadPool" where
  "ThreadPool_ctor = \<lparr>threads = [], waitTasks = [], completeTasks = [], exiting = None,
     added = [], processed = [], completed = []\<rparr>"

definition move_to :: "nat \<Rightarrow> 't thread_state \<Rightarrow> 't ThreadPool \<Rightarrow> 't ThreadPool" where
  "move_to i p s = s\<lparr>threads := (threads s)[i := (threads s ! i)\<lparr>at_point := p\<rparr>]\<rparr>"

definition is_at :: "nat \<Rightarrow> 't thread_state \<Rightarrow> 't ThreadPool \<Rightarrow> bool" where
  "is_at i p s \<longleftrightarrow> i < length (threads s) \<and> at_point (threads s ! i) = p"

text \<open>The actions of worker \<open>i\<close>.\<close>

definition test_isrun :: "nat \<Rightarrow> 't ThreadPool \<Rightarrow> 't ThreadPool option" where
  "test_isrun i s =
     (if is_at i Looping s then Some (move_to i (if isrun (threads s ! i) then Popping else Ended) s) else None)"

definition popWaitTask :: "nat \<Rightarrow> nat \<Rightarrow> 't ThreadPool \<Rightarrow> 't ThreadPool option" where
  "popWaitTask choice i s =
     (if is_at i Popping s then
        map_option (\<lambda>(t, q). (move_to i (Has_task t) s)\<lparr>waitTasks := q\<rparr>) (TQueue_tryPop choice (waitTasks s))
      else None)"

definition popNothing :: "nat \<Rightarrow> 't ThreadPool \<Rightarrow> 't ThreadPool option" where
  "popNothing i s = (if is_at i Popping s then Some (move_to i Looping s) else None)"

definition run_task :: "nat \<Rightarrow> 't \<Rightarrow> 't ThreadPool \<Rightarrow> 't ThreadPool option" where
  "run_task i t s = (if is_at i (Has_task t) s then Some ((move_to i (Has_run t) s)\<lparr>processed := processed s @ [t]\<rparr>) else None)"

definition publish :: "nat \<Rightarrow> 't \<Rightarrow> 't ThreadPool \<Rightarrow> 't ThreadPool option" where
  "publish i t s =
     (if is_at i (Has_run t) s
      then Some ((move_to i Looping s)\<lparr>completeTasks := TQueue_push t (completeTasks s)\<rparr>) else None)"

text \<open>The calls of the owner. \<open>exit\<close> stops one thread after the other and waits for each.\<close>

definition addTask :: "'t \<Rightarrow> 't ThreadPool \<Rightarrow> 't ThreadPool" where
  "addTask t s = s\<lparr>waitTasks := TQueue_push t (waitTasks s), added := added s @ [t]\<rparr>"

definition pool_create :: "'t ThreadPool \<Rightarrow> 't ThreadPool" where
  "pool_create s = s\<lparr>threads := threads s @ [CThread_ctor]\<rparr>"

definition pool_update :: "nat \<Rightarrow> 't ThreadPool \<Rightarrow> 't ThreadPool option" where
  "pool_update choice s =
     map_option (\<lambda>(t, q). s\<lparr>completeTasks := q, completed := completed s @ [t]\<rparr>) (TQueue_tryPop choice (completeTasks s))"

definition stop_thread :: "nat \<Rightarrow> 't ThreadPool \<Rightarrow> 't ThreadPool" where
  "stop_thread i s = s\<lparr>threads := (threads s)[i := (threads s ! i)\<lparr>isrun := False\<rparr>]\<rparr>"

inductive pool_step :: "'t ThreadPool \<Rightarrow> 't ThreadPool \<Rightarrow> bool" where
  started: "is_at i Sleeping s \<Longrightarrow> pool_step s (move_to i Looping s)"
| popped: "popWaitTask n i s = Some s' \<Longrightarrow> pool_step s s'"
| ran: "run_task i t s = Some s' \<Longrightarrow> pool_step s s'"
| published: "publish i t s = Some s' \<Longrightarrow> pool_step s s'"
| tested: "test_isrun i s = Some s' \<Longrightarrow> pool_step s s'"
| slept: "popNothing i s = Some s' \<Longrightarrow> pool_step s s'"
| adds: "exiting s = None \<Longrightarrow> pool_step s (addTask t s)"
| creates: "exiting s = None \<Longrightarrow> pool_step s (pool_create s)"
| updates: "exiting s = None \<Longrightarrow> pool_update n s = Some s' \<Longrightarrow> pool_step s s'"
| exit_starts: "exiting s = None \<Longrightarrow> pool_step s (s\<lparr>exiting := Some 0\<rparr>)"
| exit_stops: "exiting s = Some i \<Longrightarrow> i < length (threads s) \<Longrightarrow> pool_step s (stop_thread i s)"
| exit_joins: "exiting s = Some i \<Longrightarrow> is_at i Ended s \<Longrightarrow> pool_step s (s\<lparr>exiting := Some (i + 1)\<rparr>)"
| exit_ends: "exiting s = Some i \<Longrightarrow> i = length (threads s) \<Longrightarrow> pool_step s (s\<lparr>threads := [], exiting := None\<rparr>)"


section \<open>Where the tasks are\<close>

fun task_of :: "'t thread_state \<Rightarrow> 't multiset" where
  "task_of (Has_task t) = {#t#}"
| "task_of _ = {#}"

fun run_of :: "'t thread_state \<Rightarrow> 't multiset" where
  "run_of (Has_run t) = {#t#}"
| "run_of _ = {#}"

definition in_hand :: "('t thread_state \<Rightarrow> 'b::comm_monoid_add) \<Rightarrow> 't ThreadPool \<Rightarrow> 'b" where
  "in_hand f s = sum_list (List.map (f \<circ> at_point) (threads s))"

definition ended_ok :: "'t ThreadPool \<Rightarrow> bool" where
  "ended_ok s \<longleftrightarrow> (\<forall>k. exiting s = Some k \<longrightarrow> k \<le> length (threads s) \<and> (\<forall>j<k. at_point (threads s ! j) = Ended))
     \<and> (\<forall>t\<in>set (threads s). at_point t = Ended \<longrightarrow> \<not> isrun t)"

definition pool_inv :: "'t ThreadPool \<Rightarrow> bool" where
  "pool_inv s \<longleftrightarrow>
     mset (added s) = mset (waitTasks s) + in_hand task_of s + in_hand run_of s + mset (completeTasks s) + mset (completed s)
     \<and> mset (processed s) = in_hand run_of s + mset (completeTasks s) + mset (completed s)
     \<and> ended_ok s"

lemma sum_list_swap:
  fixes f :: "'a \<Rightarrow> 'b::comm_monoid_add"
  shows "i < length xs \<Longrightarrow> sum_list (List.map f (xs[i := x])) + f (xs ! i) = sum_list (List.map f xs) + f x"
proof (induction xs arbitrary: i)
  case (Cons y xs)
  show ?case
  proof (cases i)
    case 0
    then show ?thesis by (simp add: ac_simps)
  next
    case (Suc k)
    then show ?thesis using Cons.IH [of k] Cons.prems by (simp add: add.assoc)
  qed
qed simp

lemma in_hand_move: "i < length (threads s) \<Longrightarrow> in_hand f (move_to i p s) + f (at_point (threads s ! i)) = in_hand f s + f p"
  using sum_list_swap [of i "threads s" "f \<circ> at_point" "(threads s ! i)\<lparr>at_point := p\<rparr>"]
  by (simp add: in_hand_def move_to_def)

lemma in_hand_stop:
  fixes f :: "'t thread_state \<Rightarrow> 'b::cancel_comm_monoid_add"
  shows "i < length (threads s) \<Longrightarrow> in_hand f (stop_thread i s) = in_hand f s"
  using sum_list_swap [of i "threads s" "f \<circ> at_point" "(threads s ! i)\<lparr>isrun := False\<rparr>"]
  by (simp add: in_hand_def stop_thread_def)

text \<open>A worker that is at a point which holds no task moves to another one.\<close>

lemma in_hand_is_at: "is_at i p s \<Longrightarrow> in_hand f (move_to i q s) + f p = in_hand f s + f q"
  using in_hand_move [of i s f q] by (auto simp: is_at_def)

lemma in_hand_update [simp]: "in_hand f (s\<lparr>waitTasks := q\<rparr>) = in_hand f s" "in_hand f (s\<lparr>completeTasks := q\<rparr>) = in_hand f s"
  "in_hand f (s\<lparr>exiting := e\<rparr>) = in_hand f s" "in_hand f (s\<lparr>added := q\<rparr>) = in_hand f s"
  "in_hand f (s\<lparr>processed := q\<rparr>) = in_hand f s" "in_hand f (s\<lparr>completed := q\<rparr>) = in_hand f s"
  by (simp_all add: in_hand_def)

lemma move_frame [simp]: "waitTasks (move_to i p s) = waitTasks s" "completeTasks (move_to i p s) = completeTasks s"
  "exiting (move_to i p s) = exiting s" "added (move_to i p s) = added s" "processed (move_to i p s) = processed s"
  "completed (move_to i p s) = completed s" "length (threads (move_to i p s)) = length (threads s)"
  by (simp_all add: move_to_def)

lemma stop_frame [simp]: "waitTasks (stop_thread i s) = waitTasks s" "completeTasks (stop_thread i s) = completeTasks s"
  "exiting (stop_thread i s) = exiting s" "added (stop_thread i s) = added s" "processed (stop_thread i s) = processed s"
  "completed (stop_thread i s) = completed s" "length (threads (stop_thread i s)) = length (threads s)"
  by (simp_all add: stop_thread_def)

lemma stop_ended: "\<forall>t\<in>set (threads s). at_point t = Ended \<longrightarrow> \<not> isrun t \<Longrightarrow>
    \<forall>t\<in>set (threads (stop_thread i s)). at_point t = Ended \<longrightarrow> \<not> isrun t"
  "i < length (threads s) \<Longrightarrow> j < length (threads s) \<Longrightarrow> at_point (threads (stop_thread i s) ! j) = at_point (threads s ! j)"
  by (auto simp: stop_thread_def nth_list_update dest!: set_update_subset_insert [THEN subsetD])

lemma move_ended: "is_at i p s \<Longrightarrow> p \<noteq> Ended \<Longrightarrow> \<forall>j<k. at_point (threads s ! j) = Ended \<Longrightarrow> k \<le> length (threads s) \<Longrightarrow>
    \<forall>j<k. at_point (threads (move_to i q s) ! j) = Ended"
  by (auto simp: is_at_def move_to_def nth_list_update)

lemma ended_stopped: "is_at i p s \<Longrightarrow> q = Ended \<longrightarrow> \<not> isrun (threads s ! i) \<Longrightarrow> \<forall>t\<in>set (threads s). at_point t = Ended \<longrightarrow> \<not> isrun t \<Longrightarrow>
    \<forall>t\<in>set (threads (move_to i q s)). at_point t = Ended \<longrightarrow> \<not> isrun t"
  by (auto simp: is_at_def move_to_def dest!: set_update_subset_insert [THEN subsetD])

lemma ended_move:
  assumes "is_at i p s" and "p \<noteq> Ended" and "q = Ended \<longrightarrow> \<not> isrun (threads s ! i)" and "ended_ok s"
  shows "ended_ok (move_to i q s)"
  unfolding ended_ok_def
proof (intro conjI allI impI)
  show "\<forall>t\<in>set (threads (move_to i q s)). at_point t = Ended \<longrightarrow> \<not> isrun t"
    using assms(4) unfolding ended_ok_def by (elim conjE) (rule ended_stopped [OF assms(1,3)])
  fix k
  assume "exiting (move_to i q s) = Some k"
  then have k: "k \<le> length (threads s)" "\<forall>j<k. at_point (threads s ! j) = Ended"
    using assms(4) by (simp_all add: ended_ok_def)
  show "k \<le> length (threads (move_to i q s))" using k(1) by simp
  show "at_point (threads (move_to i q s) ! j) = Ended" if "j < k" for j
    using move_ended [OF assms(1,2) k(2,1)] that by blast
qed

lemma ended_update [simp]: "ended_ok (s\<lparr>waitTasks := q\<rparr>) = ended_ok s" "ended_ok (s\<lparr>completeTasks := q\<rparr>) = ended_ok s"
  "ended_ok (s\<lparr>added := q\<rparr>) = ended_ok s" "ended_ok (s\<lparr>processed := q\<rparr>) = ended_ok s" "ended_ok (s\<lparr>completed := q\<rparr>) = ended_ok s"
  by (simp_all add: ended_ok_def)

lemma ended_stop: "i < length (threads s) \<Longrightarrow> ended_ok s \<Longrightarrow> ended_ok (stop_thread i s)"
  using stop_ended(1) [of s i] stop_ended(2) [of i s] by (auto simp: ended_ok_def)

lemma sum_zero: "\<forall>x\<in>set xs. f x = 0 \<Longrightarrow> sum_list (List.map f xs) = (0 :: 'b::comm_monoid_add)"
  by (induction xs) auto

lemma all_ended: "\<forall>j<length (threads s). at_point (threads s ! j) = Ended \<Longrightarrow> in_hand task_of s = {#} \<and> in_hand run_of s = {#}"
  unfolding in_hand_def by (intro conjI sum_zero) (auto simp: in_set_conv_nth)

lemma pool_step_inv: "pool_step s s' \<Longrightarrow> pool_inv s \<Longrightarrow> pool_inv s'"
proof (induction rule: pool_step.induct)
  case (started i s)
  then show ?case
    using in_hand_is_at [OF started(1), of task_of Looping] in_hand_is_at [OF started(1), of run_of Looping]
      ended_move [OF started(1), of Looping] by (simp add: pool_inv_def)
next
  case (popped n i s s')
  then obtain t q where a: "is_at i Popping s" and p: "TQueue_tryPop n (waitTasks s) = Some (t, q)"
    and s': "s' = (move_to i (Has_task t) s)\<lparr>waitTasks := q\<rparr>"
    by (auto simp: popWaitTask_def split: if_splits)
  show ?case
    using popped(2) in_hand_is_at [OF a, of task_of "Has_task t"] in_hand_is_at [OF a, of run_of "Has_task t"]
      ended_move [OF a, of "Has_task t"] tq.pop_content [OF p] by (simp add: pool_inv_def s')
next
  case (ran i t s s')
  then have a: "is_at i (Has_task t) s" and s': "s' = (move_to i (Has_run t) s)\<lparr>processed := processed s @ [t]\<rparr>"
    by (auto simp: run_task_def split: if_splits)
  show ?case
    using ran(2) in_hand_is_at [OF a, of task_of "Has_run t"] in_hand_is_at [OF a, of run_of "Has_run t"]
      ended_move [OF a, of "Has_run t"] by (simp add: pool_inv_def s')
next
  case (published i t s s')
  then have a: "is_at i (Has_run t) s"
    and s': "s' = (move_to i Looping s)\<lparr>completeTasks := TQueue_push t (completeTasks s)\<rparr>"
    by (auto simp: publish_def split: if_splits)
  show ?case
    using published(2) in_hand_is_at [OF a, of task_of Looping] in_hand_is_at [OF a, of run_of Looping]
      ended_move [OF a, of Looping] by (simp add: pool_inv_def s' tq.push_content)
next
  case (tested i s s')
  then obtain q where a: "is_at i Looping s" and s': "s' = move_to i q s"
    and q: "q = Popping \<or> q = Ended" "q = Ended \<longrightarrow> \<not> isrun (threads s ! i)"
    by (auto simp: test_isrun_def split: if_splits)
  then show ?case
    using tested(2) in_hand_is_at [OF a, of task_of q] in_hand_is_at [OF a, of run_of q]
      ended_move [OF a _ q(2)] by (auto simp: pool_inv_def)
next
  case (slept i s s')
  then have a: "is_at i Popping s" and s': "s' = move_to i Looping s" by (auto simp: popNothing_def split: if_splits)
  then show ?case
    using slept(2) in_hand_is_at [OF a, of task_of Looping] in_hand_is_at [OF a, of run_of Looping]
      ended_move [OF a, of Looping] by (simp add: pool_inv_def)
next
  case (adds s t)
  then show ?case by (simp add: pool_inv_def addTask_def tq.push_content)
next
  case (creates s)
  then show ?case by (simp add: pool_inv_def pool_create_def in_hand_def CThread_ctor_def ended_ok_def)
next
  case (updates s n s')
  then obtain t q where p: "TQueue_tryPop n (completeTasks s) = Some (t, q)"
    and s': "s' = s\<lparr>completeTasks := q, completed := completed s @ [t]\<rparr>" by (auto simp: pool_update_def)
  show ?case using updates tq.pop_content [OF p] by (simp add: pool_inv_def s')
next
  case (exit_starts s)
  then show ?case by (simp add: pool_inv_def ended_ok_def)
next
  case (exit_stops s i)
  then show ?case
    using in_hand_stop [OF exit_stops(2), of task_of] in_hand_stop [OF exit_stops(2), of run_of] ended_stop [of i s]
    by (simp add: pool_inv_def)
next
  case (exit_joins s i)
  then have "ended_ok (s\<lparr>exiting := Some (i + 1)\<rparr>)" by (auto simp: pool_inv_def ended_ok_def is_at_def less_Suc_eq)
  then show ?case using exit_joins by (simp add: pool_inv_def)
next
  case (exit_ends s i)
  then have "in_hand task_of s = {#} \<and> in_hand run_of s = {#}" by (intro all_ended) (auto simp: pool_inv_def ended_ok_def)
  then show ?case using exit_ends by (simp add: pool_inv_def ended_ok_def in_hand_def)
qed

lemma pool_reachable_inv: "pool_step\<^sup>*\<^sup>* ThreadPool_ctor s \<Longrightarrow> pool_inv s"
proof (induction rule: rtranclp_induct)
  case base
  then show ?case by (simp add: pool_inv_def ThreadPool_ctor_def in_hand_def ended_ok_def)
qed (rule pool_step_inv)

text \<open>C15. No task of the pool is lost or run twice: in every reachable state each added task waits, is held by a worker or was
  processed, as often as it was added; each processed one is still to be published, waits for \<open>update\<close> or was
  completed. So a task is completed at most as often as it was processed, and processed at most as often as it was added.\<close>

theorem pool_tasks_once:
  assumes "pool_step\<^sup>*\<^sup>* ThreadPool_ctor s"
  shows "mset (added s) = mset (waitTasks s) + in_hand task_of s + mset (processed s)
    \<and> mset (processed s) = in_hand run_of s + mset (completeTasks s) + mset (completed s)
    \<and> (\<forall>t. count (mset (completed s)) t \<le> count (mset (processed s)) t \<and> count (mset (processed s)) t \<le> count (mset (added s)) t)"
  using pool_reachable_inv [OF assms] by (simp add: pool_inv_def)

section \<open>Progress\<close>

fun idle :: "'t thread_state \<Rightarrow> nat" where
  "idle Sleeping = 2"
| "idle Looping = 1"
| "idle _ = 0"

definition work_left :: "'t ThreadPool \<Rightarrow> nat" where
  "work_left s = 5 * length (waitTasks s) + 4 * size (in_hand task_of s) + 3 * size (in_hand run_of s)
     + length (completeTasks s) + in_hand idle s"

text \<open>A worker that was started and not stopped, and an owner that is not in \<open>exit\<close>.\<close>

definition at_work :: "nat \<Rightarrow> 't ThreadPool \<Rightarrow> bool" where
  "at_work i s \<longleftrightarrow> exiting s = None \<and> i < length (threads s) \<and> isrun (threads s ! i)"

lemma at_work_move: "at_work i s \<Longrightarrow> at_work i (move_to j p s)"
  by (cases "i = j") (auto simp: at_work_def move_to_def)

lemma sum_not_zero: "sum_list (List.map f xs) \<noteq> (0 :: 'b::comm_monoid_add) \<Longrightarrow> \<exists>i<length xs. f (xs ! i) \<noteq> 0"
  using sum_zero [of xs f] by (metis in_set_conv_nth)

lemma task_of_iff: "task_of p \<noteq> {#} \<longleftrightarrow> (\<exists>t. p = Has_task t)" "run_of p \<noteq> {#} \<longleftrightarrow> (\<exists>t. p = Has_run t)"
  by (cases p; simp)+

lemma task_held: "in_hand task_of s \<noteq> {#} \<Longrightarrow> \<exists>i t. is_at i (Has_task t) s"
  using sum_not_zero [of "task_of \<circ> at_point" "threads s"] unfolding in_hand_def is_at_def
  by (simp add: task_of_iff comp_def)

lemma run_held: "in_hand run_of s \<noteq> {#} \<Longrightarrow> \<exists>i t. is_at i (Has_run t) s"
  using sum_not_zero [of "run_of \<circ> at_point" "threads s"] unfolding in_hand_def is_at_def
  by (simp add: task_of_iff comp_def)

text \<open>The work that is left after a worker has moved.\<close>

lemma work_moved:
  assumes a: "is_at i p s" and "threads s' = threads (move_to i q s)"
  shows "size (in_hand task_of s') + size (task_of p) = size (in_hand task_of s) + size (task_of q)"
    and "size (in_hand run_of s') + size (run_of p) = size (in_hand run_of s) + size (run_of q)"
    and "in_hand idle s' + idle p = in_hand idle s + idle q"
proof -
  have e': "in_hand f s' = in_hand f (move_to i q s)" for f :: "'a thread_state \<Rightarrow> 'a multiset"
    using assms(2) by (simp add: in_hand_def)
  have e'': "in_hand f s' = in_hand f (move_to i q s)" for f :: "'a thread_state \<Rightarrow> nat"
    using assms(2) by (simp add: in_hand_def)
  show "size (in_hand task_of s') + size (task_of p) = size (in_hand task_of s) + size (task_of q)"
    "size (in_hand run_of s') + size (run_of p) = size (in_hand run_of s) + size (run_of q)"
    using arg_cong [OF in_hand_is_at [OF a, of task_of q], of size] arg_cong [OF in_hand_is_at [OF a, of run_of q], of size]
    by (simp_all add: e')
  show "in_hand idle s' + idle p = in_hand idle s + idle q"
    unfolding e'' by (rule in_hand_is_at [OF a])
qed

lemma work_step:
  assumes w: "at_work i s" and inv: "pool_inv s" and left: "mset (completed s) \<noteq> mset (added s)"
  shows "\<exists>s'. pool_step s s' \<and> at_work i s' \<and> added s' = added s \<and> work_left s' < work_left s"
proof -
  have e: "exiting s = None" using w by (simp add: at_work_def)
  have ok: "at_work i s'" if "threads s' = threads (move_to j q s)" "exiting s' = exiting s" for j q s'
    using at_work_move [OF w, of j q] that by (simp add: at_work_def)
  have task: ?thesis if a: "is_at j (Has_task t) s" for j t
  proof -
    let ?s = "(move_to j (Has_run t) s)\<lparr>processed := processed s @ [t]\<rparr>"
    have "pool_step s ?s" by (rule ran [of j t]) (simp add: run_task_def a)
    moreover have "work_left ?s < work_left s"
      using work_moved [OF a, of ?s "Has_run t"] by (simp add: work_left_def)
    ultimately show ?thesis by (intro exI [of _ ?s]) (simp add: ok)
  qed
  have run: ?thesis if a: "is_at j (Has_run t) s" for j t
  proof -
    let ?s = "(move_to j Looping s)\<lparr>completeTasks := TQueue_push t (completeTasks s)\<rparr>"
    have "pool_step s ?s" by (rule published [of j t]) (simp add: publish_def a)
    moreover have "work_left ?s < work_left s"
      using work_moved [OF a, of ?s Looping] by (simp add: work_left_def TQueue_push_def)
    ultimately show ?thesis by (intro exI [of _ ?s]) (simp add: ok)
  qed
  consider "in_hand task_of s \<noteq> {#} \<or> in_hand run_of s \<noteq> {#}" | (finish) "completeTasks s \<noteq> []" | (wait) "waitTasks s \<noteq> []"
    using inv left by (auto simp: pool_inv_def)
  then show ?thesis
  proof cases
    case 1
    then show ?thesis using task run task_held run_held by blast
  next
    case finish
    then obtain t q where p: "TQueue_tryPop 0 (completeTasks s) = Some (t, q)" using tq.pop_any by fastforce
    let ?s = "s\<lparr>completeTasks := q, completed := completed s @ [t]\<rparr>"
    have "pool_step s ?s" by (rule updates [OF e, of 0]) (simp add: pool_update_def p)
    moreover have "work_left ?s < work_left s" using tq.pop_size [OF p] by (simp add: work_left_def)
    ultimately show ?thesis using w by (intro exI [of _ ?s]) (simp add: at_work_def)
  next
    case wait
    then obtain t q where p: "TQueue_tryPop 0 (waitTasks s) = Some (t, q)" using tq.pop_any by fastforce
    have i: "i < length (threads s)" "isrun (threads s ! i)" using w by (simp_all add: at_work_def)
    then have "at_point (threads s ! i) \<noteq> Ended" using inv by (auto simp: pool_inv_def ended_ok_def)
    then consider (sleep) "is_at i Sleeping s" | (loop) "is_at i Looping s"
      | (pop) "is_at i Popping s"
      | (task) t where "is_at i (Has_task t) s" | (run) t where "is_at i (Has_run t) s"
      using i(1) by (cases "at_point (threads s ! i)") (auto simp: is_at_def)
    then show ?thesis
    proof cases
      case sleep
      have "work_left (move_to i Looping s) < work_left s"
        using work_moved [OF sleep, of "move_to i Looping s" Looping] by (simp add: work_left_def)
      then show ?thesis using started [OF sleep] by (intro exI [of _ "move_to i Looping s"]) (simp add: ok)
    next
      case loop
      have "work_left (move_to i Popping s) < work_left s"
        using work_moved [OF loop, of "move_to i Popping s" Popping] by (simp add: work_left_def)
      moreover have "pool_step s (move_to i Popping s)" by (rule tested [of i]) (simp add: test_isrun_def loop i)
      ultimately show ?thesis by (intro exI [of _ "move_to i Popping s"]) (simp add: ok)
    next
      case pop
      let ?s = "(move_to i (Has_task t) s)\<lparr>waitTasks := q\<rparr>"
      have "pool_step s ?s" by (rule popped [of 0 i]) (simp add: popWaitTask_def p pop)
      moreover have "work_left ?s < work_left s"
        using work_moved [OF pop, of ?s "Has_task t"] tq.pop_size [OF p] by (simp add: work_left_def)
      ultimately show ?thesis by (intro exI [of _ ?s]) (simp add: ok)
    qed (use task run in blast)+
  qed
qed

text \<open>C17. A pool with one worker that was not stopped can always finish its tasks: from every reachable state outside of
  \<open>exit\<close> some interleaving of the threads completes exactly the tasks that were added.\<close>

theorem pool_can_finish:
  assumes "pool_step\<^sup>*\<^sup>* ThreadPool_ctor s" and "at_work i s"
  shows "\<exists>s'. pool_step\<^sup>*\<^sup>* s s' \<and> added s' = added s \<and> mset (completed s') = mset (added s) \<and> exiting s' = None"
proof -
  from pool_reachable_inv [OF assms(1)] assms(2) show ?thesis
  proof (induction "work_left s" arbitrary: s rule: less_induct)
    case less
    show ?case
    proof (cases "mset (completed s) = mset (added s)")
      case True
      then show ?thesis using less.prems by (intro exI [of _ s]) (simp add: at_work_def)
    next
      case False
      from work_step [OF less.prems(2,1) this] obtain s1 where
        s1: "pool_step s s1" "at_work i s1" "added s1 = added s" "work_left s1 < work_left s" by blast
      from less.hyps [OF s1(4) pool_step_inv [OF s1(1) less.prems(1)] s1(2)] s1(1,3) show ?thesis
        by (metis converse_rtranclp_into_rtranclp)
    qed
  qed
qed

text \<open>One worker and one task.\<close>

definition demo_pool :: "nat ThreadPool" where
  "demo_pool = addTask 7 (pool_create ThreadPool_ctor)"

lemma demo_pool_reach: "pool_step\<^sup>*\<^sup>* ThreadPool_ctor demo_pool" "at_work 0 demo_pool"
proof -
  have "pool_step ThreadPool_ctor (pool_create ThreadPool_ctor)" by (rule creates) (simp add: ThreadPool_ctor_def)
  moreover have "pool_step (pool_create ThreadPool_ctor) demo_pool"
    unfolding demo_pool_def by (rule adds) (simp add: pool_create_def ThreadPool_ctor_def)
  ultimately show "pool_step\<^sup>*\<^sup>* ThreadPool_ctor demo_pool" by (meson converse_rtranclp_into_rtranclp rtranclp.rtrancl_refl)
  show "at_work 0 demo_pool"
    by (simp add: at_work_def demo_pool_def addTask_def pool_create_def ThreadPool_ctor_def CThread_ctor_def)
qed

theorem pool_can_finish_witness:
  "\<exists>s'. pool_step\<^sup>*\<^sup>* demo_pool s' \<and> added s' = added demo_pool \<and> mset (completed s') = mset (added demo_pool) \<and> exiting s' = None"
  by (rule pool_can_finish [OF demo_pool_reach])

theorem pool_tasks_once_witness:
  "mset (added demo_pool) = mset (waitTasks demo_pool) + in_hand task_of demo_pool + mset (processed demo_pool)
   \<and> mset (processed demo_pool) = in_hand run_of demo_pool + mset (completeTasks demo_pool) + mset (completed demo_pool)
   \<and> (\<forall>t. count (mset (completed demo_pool)) t \<le> count (mset (processed demo_pool)) t
        \<and> count (mset (processed demo_pool)) t \<le> count (mset (added demo_pool)) t)"
  by (rule pool_tasks_once [OF demo_pool_reach(1)])

section \<open>\<open>SpinLock\<close>\<close>

text \<open>The flag and the threads that have left \<open>lock\<close> (or \<open>try_lock\<close> with success) and not yet called \<open>unlock\<close>;
  a failed test is no step.\<close>

record 'i SpinLock =
  flag :: bool
  holders :: "'i set"

definition SpinLock_ctor :: "'i SpinLock" where
  "SpinLock_ctor = \<lparr>flag = False, holders = {}\<rparr>"

definition test_and_set :: "'i SpinLock \<Rightarrow> bool \<times> 'i SpinLock" where
  "test_and_set l = (flag l, l\<lparr>flag := True\<rparr>)"

definition try_lock :: "'i \<Rightarrow> 'i SpinLock \<Rightarrow> bool \<times> 'i SpinLock" where
  "try_lock i l = (let (set, l1) = test_and_set l in if set then (False, l1) else (True, l1\<lparr>holders := insert i (holders l1)\<rparr>))"

definition unlock :: "'i \<Rightarrow> 'i SpinLock \<Rightarrow> 'i SpinLock" where
  "unlock i l = l\<lparr>flag := False, holders := holders l - {i}\<rparr>"

inductive lock_step :: "'i SpinLock \<Rightarrow> 'i SpinLock \<Rightarrow> bool" where
  tries: "i \<notin> holders l \<Longrightarrow> lock_step l (snd (try_lock i l))"
| unlocks: "i \<in> holders l \<Longrightarrow> lock_step l (unlock i l)"

lemma spinlock_exclusive:
  "lock_step\<^sup>*\<^sup>* SpinLock_ctor l \<Longrightarrow> (flag l \<longleftrightarrow> holders l \<noteq> {}) \<and> (\<forall>i\<in>holders l. \<forall>j\<in>holders l. i = j)"
proof (induction rule: rtranclp_induct)
  case (step l l')
  from step(2) show ?case
    using step(3) by cases (auto simp: try_lock_def test_and_set_def unlock_def Let_def)
qed (simp add: SpinLock_ctor_def)

end
