(* ===== verification/Sql.thy ===== *)
theory Sql
  imports Packets
begin

text \<open>
  \<open>src/db/SqlPrepare.h/.cpp\<close> and \<open>SqlResultSet.h/.cpp\<close>: the parameters of a prepared statement and the rows of its
  result, as blocks of memory. What the MySQL library delivers is an argument: the fields of the result, whether the
  buffers could be bound, and the rows, in which a cell is a SQL null (\<^const>\<open>None\<close>) or its data. The library
  fills a buffer up to its length and reports the length of the data. An access outside of a block or of an array is
  undefined (\<^const>\<open>None\<close>).
\<close>

section \<open>Parameters\<close>

datatype enum_field_types =
  MYSQL_TYPE_TINY | MYSQL_TYPE_YEAR | MYSQL_TYPE_SHORT | MYSQL_TYPE_INT24 | MYSQL_TYPE_LONG | MYSQL_TYPE_LONGLONG
| MYSQL_TYPE_FLOAT | MYSQL_TYPE_DOUBLE | MYSQL_TYPE_NEWDECIMAL | MYSQL_TYPE_TIME | MYSQL_TYPE_DATE
| MYSQL_TYPE_DATETIME | MYSQL_TYPE_TIMESTAMP | MYSQL_TYPE_STRING | MYSQL_TYPE_VAR_STRING | MYSQL_TYPE_TINY_BLOB
| MYSQL_TYPE_BLOB | MYSQL_TYPE_MEDIUM_BLOB | MYSQL_TYPE_LONG_BLOB | MYSQL_TYPE_BIT | MYSQL_TYPE_NULL | MYSQL_TYPE_OTHER

text \<open>The fields of \<open>MYSQL_BIND\<close> that the program uses; \<open>bind_length\<close> is what its \<open>length\<close> points to.\<close>

record MYSQL_BIND =
  buffer_type :: enum_field_types
  bind_buffer :: "byte list option"
  buffer_length :: nat
  bind_length :: nat
  is_unsigned :: bool

definition blank_bind :: MYSQL_BIND where
  "blank_bind = \<lparr>buffer_type = MYSQL_TYPE_OTHER, bind_buffer = None, buffer_length = 0, bind_length = 0, is_unsigned = False\<rparr>"

record SqlPrepare =
  m_count :: nat
  m_sql :: "byte list"
  m_paramBind :: "MYSQL_BIND list"
  m_widx :: nat

fun charCount :: "byte list \<Rightarrow> byte \<Rightarrow> nat" where
  "charCount [] c = 0"
| "charCount (x # xs) c = (if x = c then charCount xs c + 1 else charCount xs c)"

definition SqlPrepare_ctor :: "byte list \<Rightarrow> SqlPrepare" where
  "SqlPrepare_ctor sqlstr =
     \<lparr>m_count = charCount sqlstr 63, m_sql = sqlstr, m_paramBind = replicate (charCount sqlstr 63) blank_bind, m_widx = 0\<rparr>"

definition SqlPrepare_clear :: "SqlPrepare \<Rightarrow> SqlPrepare" where
  "SqlPrepare_clear p = p\<lparr>m_widx := 0\<rparr>"

text \<open>\<open>m_paramBind[m_widx++]\<close> is passed to a function that fills it.\<close>

definition next_bind :: "(MYSQL_BIND \<Rightarrow> MYSQL_BIND option) \<Rightarrow> SqlPrepare \<Rightarrow> SqlPrepare option" where
  "next_bind f p =
     (if m_widx p < length (m_paramBind p)
      then map_option (\<lambda>b. p\<lparr>m_paramBind := (m_paramBind p)[m_widx p := b], m_widx := m_widx p + 1\<rparr>) (f (m_paramBind p ! m_widx p))
      else None)"

definition SetParameterValue :: "enum_field_types \<Rightarrow> byte list \<Rightarrow> bool \<Rightarrow> MYSQL_BIND \<Rightarrow> MYSQL_BIND option" where
  "SetParameterValue t value u b =
     Some (b\<lparr>buffer_type := t, bind_buffer := Some value, buffer_length := length value, bind_length := length value,
             is_unsigned := u\<rparr>)"

definition SqlPrepare_pushInt8 :: "u8 \<Rightarrow> SqlPrepare \<Rightarrow> SqlPrepare option" where
  "SqlPrepare_pushInt8 v = next_bind (SetParameterValue MYSQL_TYPE_TINY (bytes_of v) False)"

definition SqlPrepare_pushUint8 :: "u8 \<Rightarrow> SqlPrepare \<Rightarrow> SqlPrepare option" where
  "SqlPrepare_pushUint8 v = next_bind (SetParameterValue MYSQL_TYPE_TINY (bytes_of v) True)"

definition SqlPrepare_pushInt16 :: "u16 \<Rightarrow> SqlPrepare \<Rightarrow> SqlPrepare option" where
  "SqlPrepare_pushInt16 v = next_bind (SetParameterValue MYSQL_TYPE_SHORT (bytes_of v) False)"

definition SqlPrepare_pushUint16 :: "u16 \<Rightarrow> SqlPrepare \<Rightarrow> SqlPrepare option" where
  "SqlPrepare_pushUint16 v = next_bind (SetParameterValue MYSQL_TYPE_SHORT (bytes_of v) True)"

definition SqlPrepare_pushInt32 :: "u32 \<Rightarrow> SqlPrepare \<Rightarrow> SqlPrepare option" where
  "SqlPrepare_pushInt32 v = next_bind (SetParameterValue MYSQL_TYPE_LONG (bytes_of v) False)"

definition SqlPrepare_pushUint32 :: "u32 \<Rightarrow> SqlPrepare \<Rightarrow> SqlPrepare option" where
  "SqlPrepare_pushUint32 v = next_bind (SetParameterValue MYSQL_TYPE_LONG (bytes_of v) True)"

definition SqlPrepare_pushInt64 :: "u64 \<Rightarrow> SqlPrepare \<Rightarrow> SqlPrepare option" where
  "SqlPrepare_pushInt64 v = next_bind (SetParameterValue MYSQL_TYPE_LONGLONG (bytes_of v) False)"

definition SqlPrepare_pushUint64 :: "u64 \<Rightarrow> SqlPrepare \<Rightarrow> SqlPrepare option" where
  "SqlPrepare_pushUint64 v = next_bind (SetParameterValue MYSQL_TYPE_LONGLONG (bytes_of v) True)"

text \<open>Floating point values are their bits; a value above zero has a clear sign and is neither zero nor a NaN.\<close>

definition SqlPrepare_pushFloat :: "u32 \<Rightarrow> SqlPrepare \<Rightarrow> SqlPrepare option" where
  "SqlPrepare_pushFloat v =
     next_bind (SetParameterValue MYSQL_TYPE_FLOAT (bytes_of v) (0 < v \<and> v \<le> 0x7F800000))"

definition SqlPrepare_pushDouble :: "u64 \<Rightarrow> SqlPrepare \<Rightarrow> SqlPrepare option" where
  "SqlPrepare_pushDouble v =
     next_bind (SetParameterValue MYSQL_TYPE_DOUBLE (bytes_of v) (0 < v \<and> v \<le> 0x7FF0000000000000))"

text \<open>The body that \<open>pushString\<close> and \<open>write\<close> share: a block that is already there is used whatever its size. A length
  that does not fit an \<open>int\<close> is undefined.\<close>

definition fill_bind :: "enum_field_types \<Rightarrow> byte list \<Rightarrow> MYSQL_BIND \<Rightarrow> MYSQL_BIND option" where
  "fill_bind t value b =
     (let len = length value;
          block = (case bind_buffer b of None \<Rightarrow> replicate len 0 | Some blk \<Rightarrow> blk)
      in if to_i32 (int len) = int len \<and> len \<le> length block
         then Some (b\<lparr>buffer_type := t, bind_buffer := Some (overwrite 0 value block), buffer_length := len,
                      bind_length := len, is_unsigned := False\<rparr>)
         else None)"

definition SqlPrepare_pushString :: "byte list \<Rightarrow> SqlPrepare \<Rightarrow> SqlPrepare option" where
  "SqlPrepare_pushString value = next_bind (fill_bind MYSQL_TYPE_STRING value)"

definition SqlPrepare_write :: "byte list \<Rightarrow> SqlPrepare \<Rightarrow> SqlPrepare option" where
  "SqlPrepare_write dat = next_bind (fill_bind MYSQL_TYPE_BLOB dat)"

definition SqlPrepare_pushBlob :: "ByteBuffer \<Rightarrow> SqlPrepare \<Rightarrow> SqlPrepare option" where
  "SqlPrepare_pushBlob packet p =
     (if wpos packet \<le> length (storage packet) then SqlPrepare_write (take (wpos packet) (storage packet)) p else None)"

definition SqlPrepare_pushData :: "byte list \<Rightarrow> SqlPrepare \<Rightarrow> SqlPrepare option" where
  "SqlPrepare_pushData sv = SqlPrepare_write sv"

section \<open>Results\<close>

record MYSQL_FIELD =
  field_type :: enum_field_types
  field_unsigned :: bool
  field_length :: nat
  max_length :: nat

text \<open>\<open>mysql_time\<close> is \<open>sizeof(MYSQL_TIME)\<close>.\<close>

definition allocateResultBuffer :: "nat \<Rightarrow> MYSQL_FIELD \<Rightarrow> MYSQL_BIND \<Rightarrow> MYSQL_BIND" where
  "allocateResultBuffer mysql_time field mbind =
     (let bind1 = mbind\<lparr>buffer_type := field_type field, is_unsigned := field_unsigned field\<rparr>;
          alloc = (\<lambda>n. bind1\<lparr>buffer_length := n, bind_buffer := Some (replicate n 0)\<rparr>)
      in case field_type field of
           MYSQL_TYPE_TINY \<Rightarrow> alloc 1
         | MYSQL_TYPE_YEAR \<Rightarrow> alloc 2
         | MYSQL_TYPE_SHORT \<Rightarrow> alloc 2
         | MYSQL_TYPE_INT24 \<Rightarrow> alloc 4
         | MYSQL_TYPE_LONG \<Rightarrow> alloc 4
         | MYSQL_TYPE_LONGLONG \<Rightarrow> alloc 8
         | MYSQL_TYPE_FLOAT \<Rightarrow> alloc 4
         | MYSQL_TYPE_DOUBLE \<Rightarrow> alloc 8
         | MYSQL_TYPE_NEWDECIMAL \<Rightarrow> alloc 67
         | MYSQL_TYPE_TIME \<Rightarrow> alloc mysql_time
         | MYSQL_TYPE_DATE \<Rightarrow> alloc mysql_time
         | MYSQL_TYPE_DATETIME \<Rightarrow> alloc mysql_time
         | MYSQL_TYPE_TIMESTAMP \<Rightarrow> alloc mysql_time
         | MYSQL_TYPE_STRING \<Rightarrow> alloc (field_length field)
         | MYSQL_TYPE_VAR_STRING \<Rightarrow> alloc (field_length field)
         | MYSQL_TYPE_TINY_BLOB \<Rightarrow> alloc (max_length field)
         | MYSQL_TYPE_BLOB \<Rightarrow> alloc (max_length field)
         | MYSQL_TYPE_MEDIUM_BLOB \<Rightarrow> alloc (max_length field)
         | MYSQL_TYPE_LONG_BLOB \<Rightarrow> alloc (max_length field)
         | MYSQL_TYPE_BIT \<Rightarrow> alloc 1
         | MYSQL_TYPE_NULL \<Rightarrow> bind1
         | MYSQL_TYPE_OTHER \<Rightarrow> bind1)"

record SqlField =
  m_buff :: "byte list option"
  m_len :: nat

definition SqlField_ctor :: SqlField where
  "SqlField_ctor = \<lparr>m_buff = None, m_len = 0\<rparr>"

text \<open>\<open>new char[len]\<close> is not null, even for no bytes.\<close>

definition SqlField_make :: "byte list \<Rightarrow> SqlField \<Rightarrow> SqlField" where
  "SqlField_make pdata f = f\<lparr>m_len := length pdata, m_buff := Some pdata\<rparr>"

definition SqlField_isEmpty :: "SqlField \<Rightarrow> bool" where
  "SqlField_isEmpty f \<longleftrightarrow> m_buff f = None"

definition SqlField_getValue :: "SqlField \<Rightarrow> 'a::len word option" where
  "SqlField_getValue f =
     (case m_buff f of
        Some b \<Rightarrow> (if size_of TYPE('a word) \<le> length b then Some (of_bytes (take (size_of TYPE('a word)) b)) else None)
      | None \<Rightarrow> None)"

text \<open>The library has filled the buffer; its first \<open>*length\<close> bytes are copied into the field.\<close>

definition copy_cell :: "MYSQL_BIND \<Rightarrow> byte list option \<Rightarrow> SqlField \<Rightarrow> SqlField option" where
  "copy_cell mbind cell f =
     (case cell of
        None \<Rightarrow> Some (SqlField_make [] f)
      | Some dat \<Rightarrow>
          (case bind_buffer mbind of
             None \<Rightarrow> (if dat = [] then Some (SqlField_make [] f) else None)
           | Some blk \<Rightarrow>
               let filled = overwrite 0 (take (length blk) dat) blk in
               if to_i32 (int (length dat)) = int (length dat) \<and> length dat \<le> length filled
               then Some (SqlField_make (take (length dat) filled) f) else None))"

record SqlResultSet =
  m_fields :: "SqlField list"
  m_currRowIdx :: int
  m_currColIdx :: int
  m_rowCount :: int
  m_fieldCount :: int

definition SqlResultSet_ctor :: SqlResultSet where
  "SqlResultSet_ctor = \<lparr>m_fields = [], m_currRowIdx = - 1, m_currColIdx = 0, m_rowCount = 0, m_fieldCount = 0\<rparr>"

text \<open>The loops over the columns and over the rows. The index is computed with 32 bits.\<close>

fun fill_row :: "nat \<Rightarrow> nat \<Rightarrow> MYSQL_BIND list \<Rightarrow> byte list option list \<Rightarrow> SqlField list \<Rightarrow> SqlField list option" where
  "fill_row start fIndex (mbind # binds) (cell # cells) flds =
     (let i = (start + fIndex) mod 2 ^ 32 in
      if i < length flds then
        do { f \<leftarrow> copy_cell mbind cell (flds ! i); fill_row start (fIndex + 1) binds cells (flds[i := f]) }
      else None)"
| "fill_row start fIndex _ _ flds = Some flds"

fun fill_rows :: "nat \<Rightarrow> MYSQL_BIND list \<Rightarrow> byte list option list list \<Rightarrow> SqlField list \<Rightarrow> SqlField list option" where
  "fill_rows rowIndex binds [] flds = Some flds"
| "fill_rows rowIndex binds (row # rows) flds =
     do { fields1 \<leftarrow> fill_row (rowIndex * length binds) 0 binds row flds; fill_rows (rowIndex + 1) binds rows fields1 }"

text \<open>\<open>setResult\<close> after \<open>mysql_stmt_store_result\<close>, for a result with metadata; \<open>flds\<close> are as many as
  \<open>pFieldCount\<close>, and \<open>bound\<close> is whether \<open>mysql_stmt_bind_result\<close> succeeded.\<close>

definition setResult ::
  "nat \<Rightarrow> MYSQL_FIELD list \<Rightarrow> bool \<Rightarrow> byte list option list list \<Rightarrow> u64 \<Rightarrow> SqlResultSet \<Rightarrow> SqlResultSet option" where
  "setResult mysql_time flds bound rows pRowCount s =
     (let s1 = s\<lparr>m_rowCount := sint pRowCount, m_fieldCount := to_i32 (int (length flds))\<rparr>;
          binds = List.map (\<lambda>f. allocateResultBuffer mysql_time f blank_bind) flds
      in if flds \<noteq> [] \<and> bound
         then map_option (\<lambda>fs. s1\<lparr>m_fields := fs\<rparr>)
                (fill_rows 0 binds rows
                  (resize (unat (ucast pRowCount * word_of_nat (length flds) :: u32)) SqlField_ctor (m_fields s1)))
         else Some s1)"

definition fetch :: "SqlResultSet \<Rightarrow> bool \<times> SqlResultSet" where
  "fetch s =
     (if m_currRowIdx s + 1 \<ge> m_rowCount s then (False, s)
      else (True, s\<lparr>m_currRowIdx := m_currRowIdx s + 1, m_currColIdx := 0\<rparr>))"

definition SqlResultSet_isEmpty :: "SqlResultSet \<Rightarrow> bool" where
  "SqlResultSet_isEmpty s \<longleftrightarrow> m_rowCount s = 0"

definition SqlResultSet_getRowCount :: "SqlResultSet \<Rightarrow> u32" where
  "SqlResultSet_getRowCount s = word_of_int (m_rowCount s)"

definition getFieldsCount :: "SqlResultSet \<Rightarrow> u32" where
  "getFieldsCount s = word_of_int (m_fieldCount s)"

text \<open>A null pointer is \<open>Some None\<close>, an access outside of the vector \<^const>\<open>None\<close>.\<close>

definition getField :: "int \<Rightarrow> SqlResultSet \<Rightarrow> SqlField option option" where
  "getField idx s =
     (if m_currRowIdx s < 0 \<or> m_currRowIdx s \<ge> m_rowCount s \<or> idx \<ge> m_fieldCount s then Some None
      else
        let i = m_currRowIdx s * m_fieldCount s + idx in
        if 0 \<le> i \<and> i < int (length (m_fields s))
        then Some (if SqlField_isEmpty (m_fields s ! nat i) then None else Some (m_fields s ! nat i))
        else None)"

definition emptyField :: "int \<Rightarrow> SqlResultSet \<Rightarrow> bool option" where
  "emptyField idx s = map_option (\<lambda>f. f \<noteq> None) (getField idx s)"

text \<open>\<open>getField(m_currColIdx++)\<close>.\<close>

definition next_field :: "SqlResultSet \<Rightarrow> (SqlField option \<times> SqlResultSet) option" where
  "next_field s = map_option (\<lambda>f. (f, s\<lparr>m_currColIdx := m_currColIdx s + 1\<rparr>)) (getField (m_currColIdx s) s)"

definition sql_number :: "SqlResultSet \<Rightarrow> ('a::len word \<times> SqlResultSet) option" where
  "sql_number s =
     do { (f, s1) \<leftarrow> next_field s;
          (case f of None \<Rightarrow> Some (0, s1) | Some f \<Rightarrow> map_option (\<lambda>v. (v, s1)) (SqlField_getValue f)) }"

definition SqlResultSet_getInt8 :: "SqlResultSet \<Rightarrow> (u8 \<times> SqlResultSet) option" where "SqlResultSet_getInt8 = sql_number"
definition SqlResultSet_getUint8 :: "SqlResultSet \<Rightarrow> (u8 \<times> SqlResultSet) option" where "SqlResultSet_getUint8 = sql_number"
definition SqlResultSet_getInt16 :: "SqlResultSet \<Rightarrow> (u16 \<times> SqlResultSet) option" where "SqlResultSet_getInt16 = sql_number"
definition SqlResultSet_getUint16 :: "SqlResultSet \<Rightarrow> (u16 \<times> SqlResultSet) option" where "SqlResultSet_getUint16 = sql_number"
definition SqlResultSet_getInt32 :: "SqlResultSet \<Rightarrow> (u32 \<times> SqlResultSet) option" where "SqlResultSet_getInt32 = sql_number"
definition SqlResultSet_getUint32 :: "SqlResultSet \<Rightarrow> (u32 \<times> SqlResultSet) option" where "SqlResultSet_getUint32 = sql_number"
definition SqlResultSet_getInt64 :: "SqlResultSet \<Rightarrow> (u64 \<times> SqlResultSet) option" where "SqlResultSet_getInt64 = sql_number"
definition SqlResultSet_getUint64 :: "SqlResultSet \<Rightarrow> (u64 \<times> SqlResultSet) option" where "SqlResultSet_getUint64 = sql_number"
definition SqlResultSet_getFloat :: "SqlResultSet \<Rightarrow> (u32 \<times> SqlResultSet) option" where "SqlResultSet_getFloat = sql_number"
definition SqlResultSet_getDouble :: "SqlResultSet \<Rightarrow> (u64 \<times> SqlResultSet) option" where "SqlResultSet_getDouble = sql_number"

definition sql_bytes :: "SqlField \<Rightarrow> byte list" where
  "sql_bytes f = (case m_buff f of Some b \<Rightarrow> take (m_len f) b | None \<Rightarrow> [])"

definition SqlResultSet_getString :: "SqlResultSet \<Rightarrow> (byte list \<times> SqlResultSet) option" where
  "SqlResultSet_getString s =
     do { (f, s1) \<leftarrow> next_field s; Some (case f of None \<Rightarrow> [] | Some f \<Rightarrow> sql_bytes f, s1) }"

definition SqlResultSet_getStrview :: "SqlResultSet \<Rightarrow> (byte list \<times> SqlResultSet) option" where
  "SqlResultSet_getStrview s =
     do { (f, s1) \<leftarrow> next_field s; Some (case f of None \<Rightarrow> [] | Some f \<Rightarrow> sql_bytes f, s1) }"

definition SqlResultSet_getData :: "SqlResultSet \<Rightarrow> (byte list option \<times> SqlResultSet) option" where
  "SqlResultSet_getData s = do { (f, s1) \<leftarrow> next_field s; Some (map_option sql_bytes f, s1) }"

definition SqlResultSet_readBlob :: "ByteBuffer \<Rightarrow> SqlResultSet \<Rightarrow> (nat \<times> ByteBuffer \<times> SqlResultSet) option" where
  "SqlResultSet_readBlob packet s =
     do { (f, s1) \<leftarrow> next_field s;
          (case f of
             None \<Rightarrow> Some (0, packet, s1)
           | Some f \<Rightarrow> do { p \<leftarrow> append (sql_bytes f) packet; Some (m_len f, p, s1) }) }"


section \<open>Reading all rows\<close>

fun read_cols :: "nat \<Rightarrow> SqlResultSet \<Rightarrow> (byte list list \<times> SqlResultSet) option" where
  "read_cols 0 s = Some ([], s)"
| "read_cols (Suc n) s =
     do { (v, s1) \<leftarrow> SqlResultSet_getString s; (vs, s2) \<leftarrow> read_cols n s1; Some (v # vs, s2) }"

text \<open>\<open>while (fetch()) { ... }\<close> with \<open>n\<close> columns per row.\<close>

fun read_rows :: "nat \<Rightarrow> nat \<Rightarrow> SqlResultSet \<Rightarrow> byte list list list option" where
  "read_rows n 0 s = None"
| "read_rows n (Suc fuel) s =
     (let (ok, s1) = fetch s in
      if \<not> ok then Some []
      else do { (vs, s2) \<leftarrow> read_cols n s1; rest \<leftarrow> read_rows n fuel s2; Some (vs # rest) })"

definition cell_bytes :: "byte list option \<Rightarrow> byte list" where
  "cell_bytes c = (case c of None \<Rightarrow> [] | Some d \<Rightarrow> d)"

definition cell_field :: "byte list option \<Rightarrow> SqlField" where
  "cell_field c = \<lparr>m_buff = Some (cell_bytes c), m_len = length (cell_bytes c)\<rparr>"

text \<open>The data of a cell fits the buffer that \<open>allocateResultBuffer\<close> makes for its field.\<close>

definition cell_fits :: "nat \<Rightarrow> MYSQL_FIELD \<Rightarrow> byte list option \<Rightarrow> bool" where
  "cell_fits mysql_time f c \<longleftrightarrow> length (cell_bytes c) < 2 ^ 31
     \<and> length (cell_bytes c) \<le> (case bind_buffer (allocateResultBuffer mysql_time f blank_bind) of None \<Rightarrow> 0 | Some b \<Rightarrow> length b)"

lemma copy_cell_fits:
  "cell_fits mt f c \<Longrightarrow> copy_cell (allocateResultBuffer mt f blank_bind) c SqlField_ctor = Some (cell_field c)"
  by (cases c) (auto simp: cell_fits_def cell_bytes_def copy_cell_def cell_field_def SqlField_make_def SqlField_ctor_def
      to_i32_id overwrite_def Let_def split: option.splits)

lemma fill_row_cells:
  assumes "list_all2 (cell_fits mt) flds cells" and "start + length filled_cells + length flds < 2 ^ 32"
    and "length pre = start"
  shows "fill_row start (length filled_cells) (List.map (\<lambda>f. allocateResultBuffer mt f blank_bind) flds) cells
      (pre @ filled_cells @ replicate (length flds) SqlField_ctor @ post)
    = Some (pre @ filled_cells @ List.map cell_field cells @ post)"
  using assms
proof (induction flds cells arbitrary: filled_cells rule: list_all2_induct)
  case (Cons f flds c cells)
  let ?fs = "pre @ filled_cells @ replicate (length (f # flds)) SqlField_ctor @ post"
  have i: "(start + length filled_cells) mod 2 ^ 32 = length (pre @ filled_cells)" using Cons.prems by simp
  have n: "?fs ! length (pre @ filled_cells) = SqlField_ctor" by (simp add: nth_append)
  have u: "?fs[length (pre @ filled_cells) := cell_field c]
      = pre @ (filled_cells @ [cell_field c]) @ replicate (length flds) SqlField_ctor @ post"
    by (simp add: list_update_append)
  have "fill_row start (length filled_cells) (List.map (\<lambda>f. allocateResultBuffer mt f blank_bind) (f # flds)) (c # cells) ?fs
    = fill_row start (length (filled_cells @ [cell_field c])) (List.map (\<lambda>f. allocateResultBuffer mt f blank_bind) flds) cells
        (pre @ (filled_cells @ [cell_field c]) @ replicate (length flds) SqlField_ctor @ post)"
    unfolding list.map(2) fill_row.simps(1) Let_def i n copy_cell_fits [OF Cons.hyps(1)] by (simp add: u [simplified])
  then show ?case using Cons.IH [of "filled_cells @ [cell_field c]"] Cons.prems by simp
qed simp

lemma fill_rows_cells:
  assumes "\<forall>row\<in>set rows. list_all2 (cell_fits mt) flds row" and "(r + length rows) * length flds < 2 ^ 32"
    and "length pre = r * length flds"
  shows "fill_rows r (List.map (\<lambda>f. allocateResultBuffer mt f blank_bind) flds) rows
      (pre @ replicate (length rows * length flds) SqlField_ctor)
    = Some (pre @ concat (List.map (List.map cell_field) rows))"
  using assms
proof (induction rows arbitrary: r pre)
  case (Cons row rows)
  let ?binds = "List.map (\<lambda>f. allocateResultBuffer mt f blank_bind) flds"
  have "r * length flds + length flds < 2 ^ 32"
    using Cons.prems(2) by (simp add: algebra_simps)
  then have "fill_row (r * length ?binds) 0 ?binds row
      (pre @ replicate (length flds) SqlField_ctor @ replicate (length rows * length flds) SqlField_ctor)
    = Some (pre @ List.map cell_field row @ replicate (length rows * length flds) SqlField_ctor)"
    using fill_row_cells [of mt flds row "r * length flds" "[]" pre] Cons.prems by simp
  moreover have "length row = length flds" using Cons.prems(1) by (auto dest: list_all2_lengthD)
  ultimately show ?case
    using Cons.IH [of "r + 1" "pre @ List.map cell_field row"] Cons.prems by (simp add: replicate_add algebra_simps)
qed simp


lemma concat_nth:
  "\<forall>row\<in>set rows. length row = n \<Longrightarrow> r < length rows \<Longrightarrow> c < n \<Longrightarrow> concat rows ! (r * n + c) = rows ! r ! c"
proof (induction rows arbitrary: r)
  case (Cons row rows)
  show ?case
  proof (cases r)
    case 0
    then show ?thesis using Cons.prems by (simp add: nth_append)
  next
    case (Suc k)
    then show ?thesis using Cons.IH [of k] Cons.prems by (simp add: nth_append)
  qed
qed simp

lemma concat_length: "\<forall>row\<in>set rows. length row = n \<Longrightarrow> length (concat rows) = length rows * n"
  by (induction rows) auto

text \<open>A result whose fields are the cells \<open>rows\<close> of \<open>n\<close> columns.\<close>

definition holds :: "nat \<Rightarrow> byte list option list list \<Rightarrow> SqlResultSet \<Rightarrow> bool" where
  "holds n rows s \<longleftrightarrow> (\<forall>row\<in>set rows. length row = n) \<and> m_fields s = concat (List.map (List.map cell_field) rows)
     \<and> m_rowCount s = int (length rows) \<and> m_fieldCount s = int n"

lemma next_field_cell:
  assumes h: "holds n rows s" and r: "m_currRowIdx s = int r" "r < length rows" and c: "m_currColIdx s = int c" "c < n"
  shows "next_field s = Some (Some (cell_field (rows ! r ! c)), s\<lparr>m_currColIdx := int (c + 1)\<rparr>)"
proof -
  have l: "\<forall>row\<in>set (List.map (List.map cell_field) rows). length row = n" using h by (auto simp: holds_def)
  have len: "length (m_fields s) = length rows * n" using h concat_length [OF l] by (simp add: holds_def)
  have "rows ! r \<in> set rows" using r(2) by simp
  then have w: "length (rows ! r) = n" using h by (simp add: holds_def)
  have "m_fields s ! (r * n + c) = cell_field (rows ! r ! c)"
    using concat_nth [OF l, of r c] h r(2) c(2) w by (simp add: holds_def)
  moreover have "r * n + c < length rows * n"
  proof -
    have "r * n + c < (r + 1) * n" using c(2) by simp
    also have "\<dots> \<le> length rows * n" using r(2) by (intro mult_le_mono1) simp
    finally show ?thesis .
  qed
  moreover have "int r * int n + int c = int (r * n + c)" by simp
  ultimately show ?thesis
    using h r c len by (simp add: next_field_def getField_def holds_def SqlField_isEmpty_def cell_field_def Let_def
        del: of_nat_add of_nat_mult)
qed

lemma read_cols_cells:
  assumes "holds n rows s" and "m_currRowIdx s = int r" and "r < length rows" and "m_currColIdx s = int c" and "c + k \<le> n"
  shows "read_cols k s = Some (List.map cell_bytes (take k (drop c (rows ! r))), s\<lparr>m_currColIdx := int (c + k)\<rparr>)"
  using assms
proof (induction k arbitrary: c s)
  case 0
  then show ?case by (cases s) simp
next
  case (Suc k)
  let ?s = "s\<lparr>m_currColIdx := int (c + 1)\<rparr>"
  have "rows ! r \<in> set rows" using Suc.prems(3) by simp
  then have w: "length (rows ! r) = n" using Suc.prems(1) by (simp add: holds_def)
  have "SqlResultSet_getString s = Some (cell_bytes (rows ! r ! c), ?s)"
    using next_field_cell [OF Suc.prems(1-4)] Suc.prems(5) by (simp add: SqlResultSet_getString_def sql_bytes_def cell_field_def)
  moreover have "read_cols k ?s = Some (List.map cell_bytes (take k (drop (c + 1) (rows ! r))), ?s\<lparr>m_currColIdx := int (c + 1 + k)\<rparr>)"
    using Suc.prems by (intro Suc.IH) (simp_all add: holds_def)
  moreover have "drop c (rows ! r) = rows ! r ! c # drop (c + 1) (rows ! r)"
    using Suc.prems(5) w by (simp add: Cons_nth_drop_Suc)
  ultimately show ?case by simp
qed

lemma read_rows_cells:
  assumes "holds n rows s" and "m_currRowIdx s = int r - 1" and "r \<le> length rows" and "length rows - r < fuel"
  shows "read_rows n fuel s = Some (List.map (List.map cell_bytes) (drop r rows))"
  using assms
proof (induction fuel arbitrary: r s)
  case (Suc fuel)
  show ?case
  proof (cases "r = length rows")
    case True
    then show ?thesis using Suc.prems by (simp add: fetch_def holds_def)
  next
    case False
    let ?s = "s\<lparr>m_currRowIdx := int r, m_currColIdx := 0\<rparr>" and ?t = "s\<lparr>m_currRowIdx := int r, m_currColIdx := int n\<rparr>"
    have f: "fetch s = (True, ?s)" using Suc.prems False by (simp add: fetch_def holds_def)
    have "rows ! r \<in> set rows" using Suc.prems(3) False by simp
    then have w: "length (rows ! r) = n" using Suc.prems(1) by (simp add: holds_def)
    have "read_cols n ?s = Some (List.map cell_bytes (rows ! r), ?t)"
      using read_cols_cells [of n rows ?s r 0 n] Suc.prems False w by (simp add: holds_def)
    moreover have "read_rows n fuel ?t = Some (List.map (List.map cell_bytes) (drop (r + 1) rows))"
      using Suc.prems False by (intro Suc.IH) (simp_all add: holds_def)
    moreover have "drop r rows = rows ! r # drop (r + 1) rows" using Suc.prems(3) False by (simp add: Cons_nth_drop_Suc)
    ultimately show ?thesis using f by simp
  qed
qed simp

lemma row_count:
  assumes "n < 2 ^ 31" and "n * k < 2 ^ 31"
  shows "sint (word_of_nat n :: u64) = int n"
    and "unat (ucast (word_of_nat n :: u64) * word_of_nat k :: u32) = n * k"
proof -
  show "sint (word_of_nat n :: u64) = int n"
    using assms(1) by (simp add: signed_of_nat signed_take_bit_int_eq_self)
  have "ucast (word_of_nat n :: u64) = (word_of_nat n :: u32)"
    using assms(1) by (simp add: word_eq_iff_unsigned unsigned_ucast_eq unsigned_of_nat take_bit_nat_eq_self)
  then have "ucast (word_of_nat n :: u64) * word_of_nat k = (word_of_nat (n * k) :: u32)" by simp
  then show "unat (ucast (word_of_nat n :: u64) * word_of_nat k :: u32) = n * k"
    using assms(2) by (simp only: unsigned_of_nat) (simp add: take_bit_nat_eq_self)
qed

text \<open>The result of a query, as the library delivers it: every row has a cell for each field, which fits its buffer.\<close>

definition delivered :: "nat \<Rightarrow> MYSQL_FIELD list \<Rightarrow> byte list option list list \<Rightarrow> bool" where
  "delivered mysql_time flds rows \<longleftrightarrow> flds \<noteq> [] \<and> length flds < 2 ^ 31 \<and> length rows * length flds < 2 ^ 31
     \<and> (\<forall>row\<in>set rows. list_all2 (cell_fits mysql_time) flds row)"

lemma setResult_holds:
  assumes "delivered mt flds rows"
  shows "\<exists>s. setResult mt flds True rows (word_of_nat (length rows)) SqlResultSet_ctor = Some s
    \<and> holds (length flds) rows s \<and> m_currRowIdx s = - 1"
proof -
  have f: "flds \<noteq> []" "length flds < 2 ^ 31" "length rows * length flds < 2 ^ 31"
    "\<forall>row\<in>set rows. list_all2 (cell_fits mt) flds row" using assms by (simp_all add: delivered_def)
  have "length rows \<le> length rows * length flds" using f(1) by (cases flds) auto
  then have r: "length rows < 2 ^ 31" using f(3) by (rule le_less_trans)
  have "fill_rows 0 (List.map (\<lambda>f. allocateResultBuffer mt f blank_bind) flds) rows
      (replicate (length rows * length flds) SqlField_ctor) = Some (concat (List.map (List.map cell_field) rows))"
    using fill_rows_cells [OF f(4), of 0 "[]"] f(3) by simp
  moreover have "\<forall>row\<in>set rows. length row = length flds" using f(4) list_all2_lengthD by fastforce
  ultimately show ?thesis
    using f(1,2) row_count [OF r f(3)]
    by (simp add: setResult_def SqlResultSet_ctor_def holds_def to_i32_id)
qed

text \<open>The rows of a result are read back: when every cell fits the buffer of its field, \<open>setResult\<close> stays inside its
  buffers, and reading each column of each row with \<open>fetch\<close> and \<open>getString\<close> yields the data of all cells in order,
  with nothing for a SQL null; the loop ends after the last row.\<close>

theorem sql_rows_read_back:
  assumes "delivered mysql_time flds rows" and "length rows < fuel"
  shows "\<exists>s. setResult mysql_time flds True rows (word_of_nat (length rows)) SqlResultSet_ctor = Some s
    \<and> read_rows (length flds) fuel s = Some (List.map (List.map cell_bytes) rows)"
proof -
  from setResult_holds [OF assms(1)] obtain s where
    s: "setResult mysql_time flds True rows (word_of_nat (length rows)) SqlResultSet_ctor = Some s"
    "holds (length flds) rows s" "m_currRowIdx s = - 1" by blast
  have "read_rows (length flds) fuel s = Some (List.map (List.map cell_bytes) (drop 0 rows))"
    using s assms(2) by (intro read_rows_cells) simp_all
  then show ?thesis using s(1) by simp
qed

definition demo_field :: MYSQL_FIELD where
  "demo_field = \<lparr>field_type = MYSQL_TYPE_LONG, field_unsigned = False, field_length = 4, max_length = 4\<rparr>"

lemma demo_delivered: "delivered 40 [demo_field, demo_field] [[Some [1, 0, 0, 0], None]]"
  by (simp add: delivered_def cell_fits_def cell_bytes_def demo_field_def allocateResultBuffer_def blank_bind_def)

theorem sql_rows_read_back_witness:
  "\<exists>s. setResult 40 [demo_field, demo_field] True [[Some [1, 0, 0, 0], None]]
         (word_of_nat (length [[Some [1, 0, 0, 0 :: byte], None]])) SqlResultSet_ctor = Some s
    \<and> read_rows (length [demo_field, demo_field]) 9 s = Some (List.map (List.map cell_bytes) [[Some [1, 0, 0, 0], None]])"
  by (rule sql_rows_read_back [OF demo_delivered]) simp

lemma null_value: "8 \<le> LENGTH('a::len) \<Longrightarrow> SqlField_getValue (cell_field None) = (None :: 'a word option)"
  by (simp add: SqlField_getValue_def cell_field_def cell_bytes_def size_of_def)

text \<open>A SQL null is read as a number from outside of its memory: \<open>make\<close> allocates a block of no bytes for it, so that
  the field does not count as empty, and \<open>getInt8\<close> and the other getters copy their bytes from it. \<open>emptyField\<close> is true
  for this field, and for every other one that is there.\<close>

theorem sql_null_number_overread:
  assumes "delivered mysql_time flds (row # rows)" and "row ! 0 = None"
  shows "\<exists>s. setResult mysql_time flds True (row # rows) (word_of_nat (length (row # rows))) SqlResultSet_ctor = Some s
    \<and> fst (fetch s) \<and> emptyField 0 (snd (fetch s)) = Some True
    \<and> SqlResultSet_getInt8 (snd (fetch s)) = None \<and> SqlResultSet_getInt32 (snd (fetch s)) = None
    \<and> SqlResultSet_getDouble (snd (fetch s)) = None"
proof -
  from setResult_holds [OF assms(1)] obtain s where
    s: "setResult mysql_time flds True (row # rows) (word_of_nat (length (row # rows))) SqlResultSet_ctor = Some s"
    "holds (length flds) (row # rows) s" "m_currRowIdx s = - 1" by blast
  let ?s = "s\<lparr>m_currRowIdx := 0, m_currColIdx := 0\<rparr>"
  have f: "fetch s = (True, ?s)" using s(2,3) by (simp add: fetch_def holds_def)
  have "0 < length flds" using assms(1) by (simp add: delivered_def)
  then have n: "next_field ?s = Some (Some (cell_field None), ?s\<lparr>m_currColIdx := 1\<rparr>)"
    using next_field_cell [of "length flds" "row # rows" ?s 0 0] s(2) assms(2) by (simp add: holds_def)
  then have "getField 0 ?s = Some (Some (cell_field None))" by (auto simp: next_field_def)
  then show ?thesis
    using s(1) f n by (simp add: emptyField_def SqlResultSet_getInt8_def SqlResultSet_getInt32_def
        SqlResultSet_getDouble_def sql_number_def null_value)
qed

theorem sql_null_number_overread_witness:
  "\<exists>s. setResult 40 [demo_field] True [[None]] (word_of_nat (length [[None :: byte list option]])) SqlResultSet_ctor = Some s
    \<and> fst (fetch s) \<and> emptyField 0 (snd (fetch s)) = Some True
    \<and> SqlResultSet_getInt8 (snd (fetch s)) = None \<and> SqlResultSet_getInt32 (snd (fetch s)) = None
    \<and> SqlResultSet_getDouble (snd (fetch s)) = None"
  by (rule sql_null_number_overread)
    (simp_all add: delivered_def cell_fits_def cell_bytes_def demo_field_def allocateResultBuffer_def blank_bind_def)

text \<open>A prepared statement whose parameters are set a second time after \<open>clear\<close> keeps the memory of the first values:
  a string that is longer than the first one at its place is copied past the end of the block.\<close>

theorem sql_reused_parameter_overflow:
  assumes "charCount sqlstr 63 = 1" and "length a < 2 ^ 31" and "length b < 2 ^ 31"
  shows "\<exists>p. SqlPrepare_pushString a (SqlPrepare_ctor sqlstr) = Some p
    \<and> (SqlPrepare_pushString b (SqlPrepare_clear p) = None \<longleftrightarrow> length a < length b)"
  using assms
  by (auto simp: SqlPrepare_pushString_def next_bind_def SqlPrepare_ctor_def fill_bind_def blank_bind_def
      SqlPrepare_clear_def to_i32_id Let_def)

theorem sql_reused_parameter_overflow_witness:
  "\<exists>p. SqlPrepare_pushString [65] (SqlPrepare_ctor [63]) = Some p
    \<and> (SqlPrepare_pushString [66, 67] (SqlPrepare_clear p) = None \<longleftrightarrow> length [65 :: byte] < length [66, 67 :: byte])"
  by (rule sql_reused_parameter_overflow) simp_all

end
