(* ===== verification/Redis.thy ===== *)
theory Redis
  imports Packets Ws_Handshake
begin

text \<open>
  \<open>src/db/RedisCommand.h/.cpp\<close>, \<open>RedisResult.h/.cpp\<close> and \<open>execute\<close> of \<open>DB_Interface_redis.cpp\<close>: the arguments of
  a command and the reading of a reply. A reply of hiredis is a string or a list of elements, each a string or a null
  pointer; a string is a block that ends with a zero byte. What \<open>execute\<close> passes to hiredis is the result of
  \<open>redis_execute\<close>; an access outside of a block is undefined (\<^const>\<open>None\<close>). Strings are shorter than \<open>2 ^ 31\<close>
  bytes (the code passes their lengths as \<open>int\<close>) and replies have fewer than \<open>2 ^ 32\<close> elements.
\<close>

section \<open>Commands\<close>

record RedisCommand =
  m_param :: "byte list list"
  m_plen :: "nat list"

definition RedisCommand_append :: "byte list \<Rightarrow> RedisCommand \<Rightarrow> RedisCommand" where
  "RedisCommand_append p c = c\<lparr>m_param := m_param c @ [p], m_plen := m_plen c @ [length p]\<rparr>"

definition RedisCommand_ctor :: "byte list \<Rightarrow> RedisCommand" where
  "RedisCommand_ctor cmd = RedisCommand_append cmd \<lparr>m_param = [], m_plen = []\<rparr>"

text \<open>\<open>pushValue<T>\<close>, for the integers and the floating point numbers by their bits.\<close>

definition RedisCommand_pushValue :: "'a::len word \<Rightarrow> RedisCommand \<Rightarrow> RedisCommand" where
  "RedisCommand_pushValue v = RedisCommand_append (bytes_of v)"

definition RedisCommand_pushString :: "byte list \<Rightarrow> RedisCommand \<Rightarrow> RedisCommand" where
  "RedisCommand_pushString value = RedisCommand_append value"

definition RedisCommand_pushBlob :: "ByteBuffer \<Rightarrow> RedisCommand \<Rightarrow> RedisCommand option" where
  "RedisCommand_pushBlob packet c =
     (if wpos packet \<le> length (storage packet) then Some (RedisCommand_append (take (wpos packet) (storage packet)) c) else None)"

definition RedisCommand_pushData :: "byte list \<Rightarrow> RedisCommand \<Rightarrow> RedisCommand" where
  "RedisCommand_pushData sv = RedisCommand_append sv"

definition RedisCommand_length :: "RedisCommand \<Rightarrow> int" where
  "RedisCommand_length c = to_i32 (int (length (m_plen c)))"

definition argv :: "RedisCommand \<Rightarrow> byte list list" where
  "argv c = m_param c"

definition argvlen :: "RedisCommand \<Rightarrow> nat list" where
  "argvlen c = m_plen c"

text \<open>\<open>tostr\<close> appends a zero byte to the first argument and returns it as a C string.\<close>

definition tostr :: "RedisCommand \<Rightarrow> (byte list \<times> RedisCommand) option" where
  "tostr c =
     (case m_param c of
        [] \<Rightarrow> None
      | p # ps \<Rightarrow> map_option (\<lambda>s. (s, c\<lparr>m_param := (p @ [0]) # ps\<rparr>)) (c_string (p @ [0])))"

datatype redis_call = CommandArgv "byte list list" "nat list" | CommandFormat "byte list"

definition redis_execute :: "RedisCommand \<Rightarrow> (redis_call \<times> RedisCommand) option" where
  "redis_execute c =
     (if RedisCommand_length c > 1 then Some (CommandArgv (argv c) (argvlen c), c)
      else map_option (\<lambda>(s, c1). (CommandFormat s, c1)) (tostr c))"

lemma redis_sends_arguments:
  assumes "args \<noteq> []" and "length args < 2 ^ 30"
  shows "redis_execute (fold RedisCommand_append args (RedisCommand_ctor cmd))
    = Some (CommandArgv (cmd # args) (List.map length (cmd # args)), fold RedisCommand_append args (RedisCommand_ctor cmd))"
proof -
  have f: "m_param (fold RedisCommand_append args c) = m_param c @ args"
    "m_plen (fold RedisCommand_append args c) = m_plen c @ List.map length args" for c :: RedisCommand
    by (induction args arbitrary: c) (simp_all add: RedisCommand_append_def)
  have c: "m_param (RedisCommand_ctor cmd) = [cmd]" "m_plen (RedisCommand_ctor cmd) = [length cmd]"
    by (simp_all add: RedisCommand_ctor_def RedisCommand_append_def)
  have "0 < length args" using assms(1) by simp
  then show ?thesis
    using assms(2) by (simp add: redis_execute_def RedisCommand_length_def argv_def argvlen_def f c to_i32_id)
qed

section \<open>Replies\<close>

record redisReply =
  reply_str :: "byte list option"
  reply_element :: "byte list option list"

record RedisResult =
  m_reply :: "redisReply option"
  result_pos :: nat

definition RedisResult_ctor :: RedisResult where
  "RedisResult_ctor = \<lparr>m_reply = None, result_pos = 0\<rparr>"

definition RedisResult_setResult :: "redisReply \<Rightarrow> RedisResult \<Rightarrow> RedisResult" where
  "RedisResult_setResult r s = s\<lparr>m_reply := Some r\<rparr>"

definition RedisResult_isEmpty :: "RedisResult \<Rightarrow> bool" where
  "RedisResult_isEmpty s \<longleftrightarrow>
     \<not> (case m_reply s of None \<Rightarrow> False | Some r \<Rightarrow> reply_str r \<noteq> None \<or> length (reply_element r) > 0)"

definition RedisResult_getRowCount :: "RedisResult \<Rightarrow> nat option" where
  "RedisResult_getRowCount s =
     map_option (\<lambda>r. if reply_str r \<noteq> None then 1 else length (reply_element r)) (m_reply s)"

definition RedisResult_fetch :: "RedisResult \<Rightarrow> bool option" where
  "RedisResult_fetch s = map_option (\<lambda>n. \<not> result_pos s \<ge> n) (RedisResult_getRowCount s)"

text \<open>The string that is read next, possibly a null pointer; the element has to exist.\<close>

definition current_str :: "RedisResult \<Rightarrow> byte list option option" where
  "current_str s =
     (case m_reply s of
        None \<Rightarrow> None
      | Some r \<Rightarrow>
          (case reply_str r of
             Some d \<Rightarrow> Some (Some d)
           | None \<Rightarrow> (if result_pos s < length (reply_element r) then Some (reply_element r ! result_pos s) else None)))"

text \<open>\<open>getData(len)\<close> and \<open>getStream\<close>; the length of a null pointer is 0.\<close>

definition RedisResult_getStream :: "RedisResult \<Rightarrow> (byte list \<times> RedisResult) option" where
  "RedisResult_getStream s =
     map_option (\<lambda>d. (case d of None \<Rightarrow> [] | Some d \<Rightarrow> d, s\<lparr>result_pos := result_pos s + 1\<rparr>)) (current_str s)"

definition RedisResult_readBlob :: "ByteBuffer \<Rightarrow> RedisResult \<Rightarrow> (nat \<times> ByteBuffer \<times> RedisResult) option" where
  "RedisResult_readBlob packet s =
     do { (d, s1) \<leftarrow> RedisResult_getStream s;
          p \<leftarrow> (if d \<noteq> [] then append d packet else Some packet);
          Some (length d, p, s1) }"

text \<open>\<open>operator>>\<close> of a number, which is left as it was behind the last element: \<open>sizeof(t)\<close> bytes are copied,
  whatever the length of the string.\<close>

definition RedisResult_get :: "'a::len word \<Rightarrow> RedisResult \<Rightarrow> ('a word \<times> RedisResult) option" where
  "RedisResult_get t s =
     do { n \<leftarrow> RedisResult_getRowCount s;
          (if result_pos s \<ge> n then Some (t, s)
           else do { d \<leftarrow> current_str s; b \<leftarrow> d;
                     (if size_of TYPE('a word) \<le> length b + 1
                      then Some (of_bytes (take (size_of TYPE('a word)) (b @ [0])), s\<lparr>result_pos := result_pos s + 1\<rparr>)
                      else None) }) }"

fun read_stream :: "nat \<Rightarrow> RedisResult \<Rightarrow> byte list list option" where
  "read_stream 0 s = None"
| "read_stream (Suc fuel) s =
     do { more \<leftarrow> RedisResult_fetch s;
          (if \<not> more then Some []
           else do { (d, s1) \<leftarrow> RedisResult_getStream s; ds \<leftarrow> read_stream fuel s1; Some (d # ds) }) }"

text \<open>Reading while \<open>fetch\<close> says so returns all elements of a list reply.\<close>

lemma redis_elements_read:
  assumes "reply_str r = None" and "length (reply_element r) < fuel"
  shows "read_stream fuel (RedisResult_setResult r RedisResult_ctor)
    = Some (List.map (\<lambda>d. case d of None \<Rightarrow> [] | Some d \<Rightarrow> d) (reply_element r))"
proof -
  have "read_stream fuel \<lparr>m_reply = Some r, result_pos = k\<rparr>
      = Some (List.map (\<lambda>d. case d of None \<Rightarrow> [] | Some d \<Rightarrow> d) (drop k (reply_element r)))"
    if "k \<le> length (reply_element r)" "length (reply_element r) - k < fuel" for k
    using that
  proof (induction fuel arbitrary: k)
    case (Suc fuel)
    show ?case
    proof (cases "k = length (reply_element r)")
      case True
      then show ?thesis using assms(1) by (simp add: RedisResult_fetch_def RedisResult_getRowCount_def)
    next
      case False
      then have "drop k (reply_element r) = reply_element r ! k # drop (k + 1) (reply_element r)"
        using Suc.prems by (simp add: Cons_nth_drop_Suc)
      then show ?thesis
        using Suc False assms(1) by (simp add: RedisResult_fetch_def RedisResult_getRowCount_def
            RedisResult_getStream_def current_str_def)
    qed
  qed simp
  then show ?thesis
    using assms(2) by (simp add: RedisResult_setResult_def RedisResult_ctor_def)
qed

text \<open>A number is read past the end of a shorter string.\<close>

lemma redis_short_number_overread:
  assumes "reply_str r = Some d" and "length d + 1 < LENGTH('a::len) div 8"
  shows "RedisResult_get (t :: 'a word) (RedisResult_setResult r RedisResult_ctor) = None"
  using assms by (simp add: RedisResult_get_def RedisResult_setResult_def RedisResult_ctor_def RedisResult_getRowCount_def
      current_str_def size_of_def)

end
