(* ===== verification/Utilities.thy ===== *)
theory Utilities
  imports Ws_Handshake
begin

text \<open>
  \<open>src/common/Tools.cpp\<close> and \<open>XTime.cpp\<close>: the encryption of C strings, the binary search, random numbers and the
  calendar. Memory and integer errors are \<^const>\<open>None\<close>; the value of \<open>random()\<close> and the time of day are arguments.
\<close>

section \<open>Tools\<close>

text \<open>The loop of \<open>encrypt\<close>: the key is applied to \<open>bufLen\<close> bytes, from index \<open>i\<close> on.\<close>

fun encrypt_loop :: "byte list \<Rightarrow> nat \<Rightarrow> byte list \<Rightarrow> byte list" where
  "encrypt_loop key i [] = []"
| "encrypt_loop key i (b # buf) = (b XOR key ! (i mod length key)) # encrypt_loop key (i + 1) buf"

text \<open>\<open>buf\<close> and \<open>key\<close> are the memory the pointers refer to. An empty key is a division by zero.\<close>

definition encrypt :: "byte list \<Rightarrow> byte list \<Rightarrow> byte list option" where
  "encrypt buf key =
     do { s \<leftarrow> c_string buf;
          pKey \<leftarrow> c_string key;
          (if s \<noteq> [] \<and> pKey = [] then None else Some (overwrite 0 (encrypt_loop pKey 0 s) buf)) }"

text \<open>The loop of \<open>binarySearch\<close>, in which \<open>left + right\<close> may overflow.\<close>

function search_loop :: "int list \<Rightarrow> int \<Rightarrow> int \<Rightarrow> int \<Rightarrow> int option" where
  "search_loop arr findX left right =
     (if left \<le> right then
        if left + right \<ge> 2 ^ 31 then None
        else
          let middle = (left + right) div 2 in
          if middle < 0 \<or> middle \<ge> int (length arr) then None
          else if findX = arr ! nat middle then Some middle
          else if findX > arr ! nat middle then search_loop arr findX (middle + 1) right
          else search_loop arr findX left (middle - 1)
      else Some (- 1))"
  by pat_completeness auto
termination by (relation "measure (\<lambda>(arr, x, l, r). nat (r - l + 1))") auto

declare search_loop.simps [simp del]

definition binarySearch :: "int list \<Rightarrow> int \<Rightarrow> int \<Rightarrow> int option" where
  "binarySearch arr len findX = search_loop arr findX 0 (len - 1)"

text \<open>\<open>random(begin, end)\<close>: \<open>value\<close> is the result of \<open>random()\<close>, which is not negative; the range is computed as an \<open>int\<close>.\<close>

definition tools_random :: "int \<Rightarrow> int \<Rightarrow> int \<Rightarrow> int option" where
  "tools_random value lo hi =
     (let n = hi - lo + 1 in
      if n < - (2 ^ 31) \<or> n \<ge> 2 ^ 31 \<or> n = 0 then None
      else
        let v = value mod abs n + lo in
        if v \<ge> 2 ^ 31 then None else Some v)"

section \<open>XTime\<close>

definition isLeapYear :: "int \<Rightarrow> bool" where
  "isLeapYear year \<longleftrightarrow> year mod 4 = 0 \<and> (year mod 400 = 0 \<or> year mod 100 \<noteq> 0)"

definition yearMonthDays :: "int \<Rightarrow> int \<Rightarrow> int" where
  "yearMonthDays year month =
     (if month \<in> {1, 3, 5, 7, 8, 10, 12} then 31
      else if month \<in> {4, 6, 9, 11} then 30
      else if month = 2 then if isLeapYear year then 29 else 28
      else 0)"

text \<open>\<open>struct timeval\<close>, as \<open>gettimeofday\<close> fills it.\<close>

record timeval =
  tv_sec :: int
  tv_usec :: int

definition milliStamp :: "timeval \<Rightarrow> int" where
  "milliStamp tv = tv_sec tv * 1000 + tv_usec tv div 1000"

definition microStamp :: "timeval \<Rightarrow> int" where
  "microStamp tv = tv_sec tv * 1000000 + tv_usec tv"

definition stamp :: "timeval \<Rightarrow> int" where
  "stamp tv = tv_sec tv"

section \<open>Encryption twice\<close>

lemma length_encrypt_loop [simp]: "length (encrypt_loop key i s) = length s"
  by (induction s arbitrary: i) auto

lemma encrypt_loop_nth: "j < length s \<Longrightarrow> encrypt_loop key i s ! j = s ! j XOR key ! ((i + j) mod length key)"
proof (induction s arbitrary: i j)
  case (Cons b s)
  then show ?case by (cases j) auto
qed simp

lemma encrypt_loop_append:
  "encrypt_loop key i (s @ t) = encrypt_loop key i s @ encrypt_loop key (i + length s) t"
  by (induction s arbitrary: i) auto

lemma encrypt_loop_twice: "encrypt_loop key i (encrypt_loop key i s) = s"
  by (induction s arbitrary: i) (auto simp: xor.assoc)

lemma xor_zero: "(a :: byte) XOR b = 0 \<longleftrightarrow> a = b"
proof
  assume "a XOR b = 0"
  then have "(a XOR b) XOR b = b" by simp
  then show "a = b" by (simp only: xor.assoc xor_self_eq xor.right_neutral)
qed simp

lemma c_string_split:
  assumes "c_string mem = Some s"
  obtains rest where "mem = s @ 0 # rest" and "0 \<notin> set s"
proof -
  have s: "s = takeWhile (\<lambda>b. b \<noteq> 0) mem" "0 \<in> set mem"
    using assms by (auto simp: c_string_def split: if_splits)
  then obtain xs ys where m: "mem = xs @ 0 # ys" "0 \<notin> set xs" by (meson split_list_first)
  moreover from this s(1) have "s = xs" by (auto simp: takeWhile_tail)
  ultimately show thesis using that by blast
qed

text \<open>Encrypting a C string twice with the same key gives it back exactly if no byte of it equals the byte of the key
  at its place: such a byte becomes the end of the string.\<close>

theorem tools_encrypt_twice:
  assumes "c_string buf = Some s" and "c_string key = Some k" and "k \<noteq> []"
  shows "(encrypt buf key \<bind> (\<lambda>b. encrypt b key)) = Some buf \<longleftrightarrow> (\<forall>i<length s. s ! i \<noteq> k ! (i mod length k))"
proof -
  obtain rest where b: "buf = s @ 0 # rest" and nz: "0 \<notin> set s" using c_string_split [OF assms(1)] .
  let ?e = "encrypt_loop k 0 s"
  have e: "encrypt buf key = Some (?e @ 0 # rest)"
    using assms b by (simp add: encrypt_def overwrite_def)
  have z: "?e ! i = 0 \<longleftrightarrow> s ! i = k ! (i mod length k)" if "i < length s" for i
    using that by (simp add: encrypt_loop_nth xor_zero)
  show ?thesis
  proof (cases "0 \<in> set ?e")
    case False
    then have "encrypt (?e @ 0 # rest) key = Some buf"
      using assms(2,3) b c_string_zero [OF False] by (simp add: encrypt_def overwrite_def encrypt_loop_twice)
    moreover have "\<forall>i<length s. s ! i \<noteq> k ! (i mod length k)"
      using False z by (metis length_encrypt_loop nth_mem)
    ultimately show ?thesis using e by simp
  next
    case True
    then obtain i where i: "i < length s" "?e ! i = 0" by (auto simp: in_set_conv_nth)
    obtain t rest' where t: "?e @ 0 # rest = t @ 0 # rest'" "0 \<notin> set t" "?e = t @ 0 # drop (length t + 1) ?e"
    proof -
      from True obtain t u where "?e = t @ 0 # u" "0 \<notin> set t" by (meson split_list_first)
      then show thesis using that [of t "u @ 0 # rest"] by simp
    qed
    have len: "length t < length s"
      using arg_cong [OF t(3), of length] by simp
    have "encrypt (?e @ 0 # rest) key = Some (encrypt_loop k 0 t @ 0 # rest')"
      using assms(2,3) t(1) c_string_zero [OF t(2)] by (simp add: encrypt_def overwrite_def)
    moreover have "encrypt_loop k 0 t @ 0 # rest' \<noteq> buf"
    proof
      assume "encrypt_loop k 0 t @ 0 # rest' = buf"
      then have "buf ! length t = 0" by (metis length_encrypt_loop nth_append_length)
      then have "s ! length t = 0" using b len by (simp add: nth_append)
      then show False using nz len by (metis nth_mem)
    qed
    ultimately show ?thesis using e i z by auto
  qed
qed

theorem tools_encrypt_twice_witness:
  "(encrypt [1, 2, 0] [7, 0] \<bind> (\<lambda>b. encrypt b [7, 0])) = Some [1, 2, 0]
    \<longleftrightarrow> (\<forall>i<length [1, 2 :: byte]. [1, 2] ! i \<noteq> [7 :: byte] ! (i mod length [7 :: byte]))"
  by (rule tools_encrypt_twice) (simp_all add: c_string_def)

section \<open>Binary search\<close>

lemma search_loop_finds:
  assumes "sorted arr" and "length arr \<le> 2 ^ 30" and "0 \<le> left" and "right < int (length arr)"
    and "\<forall>i<length arr. arr ! i = x \<longrightarrow> left \<le> int i \<and> int i \<le> right"
  shows "\<exists>r. search_loop arr x left right = Some r
    \<and> (if x \<in> set arr then 0 \<le> r \<and> r < int (length arr) \<and> arr ! nat r = x else r = - 1)"
  using assms
proof (induction arr x left right rule: search_loop.induct)
  case (1 arr x left right)
  show ?case
  proof (cases "left \<le> right")
    case False
    then have "x \<notin> set arr" using 1(7) by (force simp: in_set_conv_nth)
    then show ?thesis using False by (simp add: search_loop.simps)
  next
    case True
    define m where "m = (left + right) div 2"
    have m: "left \<le> m" "m \<le> right" using True by (auto simp: m_def)
    have r: "left + right < 2 ^ 31" "0 \<le> m" "m < int (length arr)" using 1(4-6) m by auto
    have eq: "search_loop arr x left right =
      (if x = arr ! nat m then Some m else if x > arr ! nat m then search_loop arr x (m + 1) right
       else search_loop arr x left (m - 1))"
      using True r by (subst search_loop.simps) (simp add: Let_def flip: m_def)
    consider "x = arr ! nat m" | "x > arr ! nat m" | "x < arr ! nat m" by linarith
    then show ?thesis
    proof cases
      case 1
      then show ?thesis using eq r by auto
    next
      case 2
      have "int i \<ge> m + 1" if "i < length arr" "arr ! i = x" for i
      proof (rule ccontr)
        assume "\<not> m + 1 \<le> int i"
        then have "i \<le> nat m" by simp
        then have "arr ! i \<le> arr ! nat m" using 1(3) r by (intro sorted_nth_mono) auto
        then show False using 2 that by simp
      qed
      moreover have "(\<not> 2 ^ 31 \<le> left + right)" "\<not> (m < 0 \<or> m \<ge> int (length arr))" using r by auto
      ultimately show ?thesis
        using 1(1) [OF True _ m_def] 1(3-7) 2 eq m by auto
    next
      case 3
      have "int i \<le> m - 1" if "i < length arr" "arr ! i = x" for i
      proof (rule ccontr)
        assume "\<not> int i \<le> m - 1"
        then have "nat m \<le> i" by simp
        then have "arr ! nat m \<le> arr ! i" using 1(3) that by (intro sorted_nth_mono) auto
        then show False using 3 that by simp
      qed
      moreover have "(\<not> 2 ^ 31 \<le> left + right)" "\<not> (m < 0 \<or> m \<ge> int (length arr))" using r by auto
      ultimately show ?thesis
        using 1(2) [OF True _ m_def] 1(3-7) 3 eq m by auto
    qed
  qed
qed

text \<open>In a sorted array of at most \<open>2 ^ 30\<close> elements \<open>binarySearch\<close> returns an index of the value, or -1 exactly
  if the value is not there; it neither leaves the array nor overflows.\<close>

theorem tools_binary_search:
  assumes "sorted arr" and "length arr \<le> 2 ^ 30"
  shows "\<exists>r. binarySearch arr (int (length arr)) x = Some r
    \<and> (if x \<in> set arr then 0 \<le> r \<and> r < int (length arr) \<and> arr ! nat r = x else r = - 1)"
  unfolding binarySearch_def by (rule search_loop_finds [OF assms]) auto

theorem tools_binary_search_witness:
  "\<exists>r. binarySearch [2, 3, 5] (int (length [2, 3, 5 :: int])) 3 = Some r
    \<and> (if 3 \<in> set [2, 3, 5 :: int] then 0 \<le> r \<and> r < int (length [2, 3, 5 :: int]) \<and> [2, 3, 5] ! nat r = (3 :: int) else r = - 1)"
  by (rule tools_binary_search) simp_all

lemma tools_random_range:
  "lo \<le> hi \<Longrightarrow> hi < 2 ^ 31 \<Longrightarrow> hi - lo + 1 < 2 ^ 31 \<Longrightarrow>
     \<exists>v. tools_random value lo hi = Some v \<and> lo \<le> v \<and> v \<le> hi"
  using pos_mod_bound [of "hi - lo + 1" "value"] pos_mod_sign [of "hi - lo + 1" "value"]
  by (auto simp: tools_random_def Let_def)

section \<open>The calendar\<close>

lemma year_days: "sum_list (List.map (yearMonthDays y) [1, 2, 3, 4, 5, 6, 7, 8, 9, 10, 11, 12]) = (if isLeapYear y then 366 else 365)"
  by (simp add: yearMonthDays_def)

text \<open>The Gregorian cycle of 400 years has 146097 days.\<close>

lemma leap_cycle: "isLeapYear (y + 400) = isLeapYear y"
proof -
  have "(y + 400) mod k = y mod k" if "400 mod k = 0" for k :: int
    using mod_add_right_eq [of y 400 k] that by simp
  from this [of 4] this [of 100] this [of 400] show ?thesis by (simp add: isLeapYear_def)
qed

lemma milli_of_micro: "0 \<le> tv_usec tv \<Longrightarrow> tv_usec tv < 1000000 \<Longrightarrow> milliStamp tv = microStamp tv div 1000"
  by (simp add: milliStamp_def microStamp_def)

end
