(* ===== verification/Csv.thy ===== *)
theory Csv
  imports Ws_Handshake Decimal
begin

text \<open>
  \<open>src/common/CsvParser.h/.cpp\<close>: tables of text with a header. The content of the file is an argument, \<^const>\<open>None\<close> if
  it cannot be opened; an access outside of a vector and the overflow of \<open>startline\<close> are undefined (\<^const>\<open>None\<close>).
  \<open>getValue\<close> is modelled for strings.
\<close>

record CsvRow =
  csv_values :: "byte list list"

record CsvParser =
  csv_sep :: byte
  csv_header :: "byte list list"
  csv_content :: "CsvRow list"

definition CsvRow_size :: "CsvRow \<Rightarrow> nat" where
  "CsvRow_size r = length (csv_values r)"

definition CsvRow_push :: "byte list \<Rightarrow> CsvRow \<Rightarrow> CsvRow" where
  "CsvRow_push title r = r\<lparr>csv_values := csv_values r @ [title]\<rparr>"

text \<open>\<open>ss >> res\<close> for a string: white space is skipped and the characters up to the next white space are read; without
  any \<open>res\<close> stays as it was.\<close>

definition stream_string :: "byte list \<Rightarrow> byte list \<Rightarrow> byte list" where
  "stream_string text res =
     (let t = dropWhile is_space text in if t = [] then res else takeWhile (\<lambda>c. \<not> is_space c) t)"

definition CsvRow_getValue :: "int \<Rightarrow> byte list \<Rightarrow> CsvRow \<Rightarrow> byte list option" where
  "CsvRow_getValue idx defvalue r =
     (if 0 \<le> idx \<and> idx < int (length (csv_values r)) then Some (stream_string (csv_values r ! nat idx) defvalue) else None)"

definition parseHeader :: "byte list \<Rightarrow> CsvParser \<Rightarrow> CsvParser" where
  "parseHeader line p = p\<lparr>csv_header := csv_header p @ getline_all (csv_sep p) line\<rparr>"

definition parseContent :: "byte list \<Rightarrow> CsvParser \<Rightarrow> CsvParser" where
  "parseContent line p =
     p\<lparr>csv_content := csv_content p @ [fold CsvRow_push (getline_all (csv_sep p) line) \<lparr>csv_values = []\<rparr>]\<rparr>"

text \<open>The loop over the lines, with \<open>startline\<close> and \<open>row\<close>.\<close>

fun csv_lines :: "byte list list \<Rightarrow> int \<Rightarrow> nat \<Rightarrow> CsvParser \<Rightarrow> CsvParser option" where
  "csv_lines [] startline row p = Some p"
| "csv_lines (line # lines) startline row p =
     (if line = [] then csv_lines lines startline row p
      else if startline = - (2 ^ 31) then None
      else
        let startline1 = (if startline \<noteq> 0 then startline - 1 else 0) in
        if startline1 \<noteq> 0 then csv_lines lines startline1 row p
        else csv_lines lines startline1 (row + 1) (if row + 1 = 1 then parseHeader line p else parseContent line p))"

text \<open>The constructor. At the end of the file \<open>getline\<close> yields an empty line at most, which is skipped.\<close>

definition CsvParser_ctor :: "byte list option \<Rightarrow> int \<Rightarrow> byte \<Rightarrow> CsvParser option" where
  "CsvParser_ctor file startline sep =
     (let p = \<lparr>csv_sep = sep, csv_header = [], csv_content = []\<rparr> in
      case file of None \<Rightarrow> Some p | Some text \<Rightarrow> csv_lines (getline_all 10 text) startline 0 p)"

definition csv_row :: "CsvParser \<Rightarrow> nat" where
  "csv_row p = length (csv_content p)"

fun header_index :: "byte list list \<Rightarrow> byte list \<Rightarrow> nat option" where
  "header_index [] name = None"
| "header_index (h # hs) name = (if name = h then Some 0 else map_option Suc (header_index hs name))"

definition CsvParser_getValue :: "int \<Rightarrow> byte list \<Rightarrow> byte list \<Rightarrow> CsvParser \<Rightarrow> byte list option" where
  "CsvParser_getValue row name defvalue p =
     (case header_index (csv_header p) name of
        None \<Rightarrow> Some []
      | Some i \<Rightarrow>
          (if 0 \<le> row - 1 \<and> row - 1 < int (length (csv_content p))
           then CsvRow_getValue (int i) defvalue (csv_content p ! nat (row - 1)) else None))"

section \<open>Reading a table\<close>

text \<open>A line of cells, as the parser reads it back: no cell contains the separator or the end of the line, and the last
  one is not empty.\<close>

definition line_ok :: "byte \<Rightarrow> byte list list \<Rightarrow> bool" where
  "line_ok sep cells \<longleftrightarrow> cells \<noteq> [] \<and> last cells \<noteq> [] \<and> (\<forall>c\<in>set cells. sep \<notin> set c \<and> 10 \<notin> set c)"

definition csv_text :: "byte \<Rightarrow> byte list list list \<Rightarrow> byte list" where
  "csv_text sep lines = concat (List.map (\<lambda>cells. join sep cells @ [10]) lines)"

lemma getline_all_join: "line_ok sep cells \<Longrightarrow> getline_all sep (join sep cells) = cells"
proof (induction sep cells rule: join.induct)
  case (2 sep s)
  then show ?case by (simp add: line_ok_def getline_all_last)
next
  case (3 sep s t ss)
  then show ?case by (simp add: line_ok_def getline_all_item)
qed (simp add: line_ok_def)

lemma join_no_nl: "line_ok sep cells \<Longrightarrow> sep \<noteq> 10 \<Longrightarrow> 10 \<notin> set (join sep cells)"
proof (induction sep cells rule: join.induct)
  case (3 sep s t ss)
  then show ?case by (simp add: line_ok_def)
qed (simp_all add: line_ok_def)

lemma join_not_empty: "line_ok sep cells \<Longrightarrow> join sep cells \<noteq> []"
  by (induction sep cells rule: join.induct) (simp_all add: line_ok_def)

lemma getline_all_text:
  "sep \<noteq> 10 \<Longrightarrow> \<forall>l\<in>set lines. line_ok sep l \<Longrightarrow> getline_all 10 (csv_text sep lines) = List.map (join sep) lines"
proof (induction lines)
  case (Cons l lines)
  then show ?case using getline_all_item [OF join_no_nl, of sep l "csv_text sep lines"] by (simp add: csv_text_def)
qed (simp add: csv_text_def getline_all.simps)

lemma fold_push: "fold CsvRow_push cells r = r\<lparr>csv_values := csv_values r @ cells\<rparr>"
  by (induction cells arbitrary: r) (simp_all add: CsvRow_push_def)

lemma csv_lines_content:
  assumes "\<forall>l\<in>set rows. line_ok (csv_sep p) l" and "0 < k"
  shows "csv_lines (List.map (join (csv_sep p)) rows) 0 k p
    = Some (p\<lparr>csv_content := csv_content p @ List.map (\<lambda>cells. \<lparr>csv_values = cells\<rparr>) rows\<rparr>)"
  using assms
proof (induction rows arbitrary: k p)
  case (Cons l rows)
  have "parseContent (join (csv_sep p) l) p = p\<lparr>csv_content := csv_content p @ [\<lparr>csv_values = l\<rparr>]\<rparr>"
    using Cons.prems by (simp add: parseContent_def getline_all_join fold_push)
  then show ?case
    using Cons.prems Cons.IH [of "p\<lparr>csv_content := csv_content p @ [\<lparr>csv_values = l\<rparr>]\<rparr>" "k + 1"] join_not_empty by simp
qed simp

lemma csv_parsed:
  assumes "sep \<noteq> 10" and "\<forall>l\<in>set (names # rows). line_ok sep l"
  shows "CsvParser_ctor (Some (csv_text sep (names # rows))) 1 sep
    = Some \<lparr>csv_sep = sep, csv_header = names, csv_content = List.map (\<lambda>cells. \<lparr>csv_values = cells\<rparr>) rows\<rparr>"
proof -
  let ?p = "\<lparr>csv_sep = sep, csv_header = names, csv_content = []\<rparr>"
  have "csv_lines (List.map (join (csv_sep ?p)) rows) 0 1 ?p = Some (?p\<lparr>csv_content := csv_content ?p @ List.map (\<lambda>cells. \<lparr>csv_values = cells\<rparr>) rows\<rparr>)"
    using assms by (intro csv_lines_content) simp_all
  then show ?thesis
    using assms join_not_empty [of sep names]
    by (simp add: CsvParser_ctor_def getline_all_text parseHeader_def getline_all_join)
qed

lemma header_index_nth: "distinct hs \<Longrightarrow> c < length hs \<Longrightarrow> header_index hs (hs ! c) = Some c"
proof (induction hs arbitrary: c)
  case (Cons h hs)
  then show ?case by (cases c) auto
qed simp

lemma stream_string_word: "\<forall>c\<in>set s. \<not> is_space c \<Longrightarrow> stream_string s [] = s"
  by (cases s) (simp_all add: stream_string_def takeWhile_eq_all_conv)

text \<open>C33. A table is read back: for a file of the lines of a header with different names and of rows, \<open>getValue\<close> returns
  each cell without white space, in a row of as many cells as the header has, by its row and the name of its column. No cell
  contains the separator or a line feed. Cells may be empty, but not at the end of a line.\<close>

theorem csv_table_read_back:
  assumes "sep \<noteq> 10" and "\<forall>l\<in>set (names # rows). line_ok sep l" and "distinct names"
    and "r < length rows" and "c < length names" and "length (rows ! r) = length names"
    and "\<forall>x\<in>set (rows ! r ! c). \<not> is_space x"
  shows "\<exists>p. CsvParser_ctor (Some (csv_text sep (names # rows))) 1 sep = Some p
    \<and> csv_row p = length rows \<and> CsvParser_getValue (int r + 1) (names ! c) [] p = Some (rows ! r ! c)"
  using assms csv_parsed [OF assms(1,2)]
  by (simp add: csv_row_def CsvParser_getValue_def header_index_nth CsvRow_getValue_def stream_string_word)

theorem csv_table_read_back_witness:
  "\<exists>p. CsvParser_ctor (Some (csv_text 9 [[[65], [66]], [[], [49, 50]]])) 1 9 = Some p
    \<and> csv_row p = length [[[], [49, 50 :: byte]]]
    \<and> CsvParser_getValue (int 0 + 1) ([[65], [66]] ! 1) [] p = Some ([[[], [49, 50]]] ! 0 ! 1)"
  by (rule csv_table_read_back) (simp_all add: line_ok_def is_space_def)

text \<open>The last cell of a row is lost when it is empty: \<open>getline\<close> yields nothing after the last separator, so the row
  is shorter than the header and \<open>getValue\<close> of the last column reads past the end of the row.\<close>

theorem csv_empty_last_cell_overread:
  assumes "sep \<noteq> 10" and "line_ok sep names" and "distinct names" and "line_ok sep cells"
    and "length names = length cells + 1"
  shows "\<exists>p. CsvParser_ctor (Some (csv_text sep [names] @ join sep cells @ [sep, 10])) 1 sep = Some p
    \<and> csv_row p = 1 \<and> CsvParser_getValue 1 (last names) def p = None"
proof -
  let ?l = "join sep cells @ [sep]"
  have g: "getline_all sep ?l = cells"
  proof -
    have "getline_all sep (join sep cells @ [sep]) = cells" if "line_ok sep cells" for cells
      using that
    proof (induction sep cells rule: join.induct)
      case (2 sep s)
      then show ?case using getline_all_item [of sep s "[]"] by (simp add: line_ok_def getline_all.simps [of sep "[]"])
    next
      case (3 sep s t ss)
      then show ?case using getline_all_item [of sep s "join sep (t # ss) @ [sep]"] by (simp add: line_ok_def)
    qed (simp add: line_ok_def)
    then show ?thesis using assms(4) .
  qed
  have "10 \<notin> set ?l" using join_no_nl [OF assms(4,1)] assms(1) by auto
  then have "getline_all 10 (csv_text sep [names] @ ?l @ [10]) = [join sep names, ?l]"
    using getline_all_item [OF join_no_nl [OF assms(2,1)], of "?l @ [10]"] getline_all_item [of 10 ?l "[]"]
    by (simp add: csv_text_def getline_all.simps [of 10 "[]"])
  moreover have "header_index names (last names) = Some (length cells)"
    using header_index_nth [OF assms(3), of "length cells"] assms(2,5) by (simp add: line_ok_def last_conv_nth)
  ultimately show ?thesis
    using assms join_not_empty [OF assms(2)] g
    by (simp add: CsvParser_ctor_def parseHeader_def parseContent_def getline_all_join fold_push csv_row_def
        CsvParser_getValue_def CsvRow_getValue_def)
qed

theorem csv_empty_last_cell_overread_witness:
  "\<exists>p. CsvParser_ctor (Some (csv_text 9 [[[65], [66]]] @ join 9 [[49]] @ [9, 10])) 1 9 = Some p
    \<and> csv_row p = 1 \<and> CsvParser_getValue 1 (last [[65], [66]]) [] p = None"
  by (rule csv_empty_last_cell_overread) (simp_all add: line_ok_def)

end
