(* ===== verification/Object_Pool.thy ===== *)
theory Object_Pool
  imports Prelude
begin

text \<open>
  \<open>src/common/Objectpool.h\<close>, \<open>CommonPool.h\<close> and \<open>PoolObject.h\<close>: the pool from which buffers and connections come. Objects
  live in a heap of addresses; \<open>new\<close> takes an address and the constructed object as arguments, and using an object that is
  not allocated, or a failed assertion, is undefined (\<^const>\<open>None\<close>).
\<close>

record 'o pool_object =
  isEnabledPoolObject :: bool
  pool_content :: 'o

record 'o ObjectPool =
  max_free :: int
  obj_count :: int
  objects :: "nat list"
  pool_heap :: "nat \<rightharpoonup> 'o pool_object"

definition ObjectPool_ctor :: "int \<Rightarrow> 'o ObjectPool" where
  "ObjectPool_ctor maxfreecount = \<lparr>max_free = maxfreecount, obj_count = 0, objects = [], pool_heap = Map.empty\<rparr>"

definition ObjectPool_init :: "int \<Rightarrow> 'o ObjectPool \<Rightarrow> 'o ObjectPool" where
  "ObjectPool_init count s = s\<lparr>max_free := count\<rparr>"

definition setEnabledPoolObject :: "bool \<Rightarrow> nat \<Rightarrow> 'o ObjectPool \<Rightarrow> 'o ObjectPool option" where
  "setEnabledPoolObject v p s =
     map_option (\<lambda>ob. s\<lparr>pool_heap := (pool_heap s)(p \<mapsto> ob\<lparr>isEnabledPoolObject := v\<rparr>)\<rparr>) (pool_heap s p)"

text \<open>\<open>delete\<close>.\<close>

definition delete_object :: "nat \<Rightarrow> 'o ObjectPool \<Rightarrow> 'o ObjectPool option" where
  "delete_object p s = (if pool_heap s p = None then None else Some (s\<lparr>pool_heap := (pool_heap s)(p := None)\<rparr>))"

text \<open>\<open>new T\<close>: \<open>a\<close> is a free address; the flag of a new object is set.\<close>

definition newObj :: "nat \<Rightarrow> 'o \<Rightarrow> 'o ObjectPool \<Rightarrow> 'o ObjectPool" where
  "newObj a ob s = s\<lparr>pool_heap := (pool_heap s)(a \<mapsto> \<lparr>isEnabledPoolObject = True, pool_content = ob\<rparr>)\<rparr>"

fun destroy_loop :: "nat list \<Rightarrow> 'o ObjectPool \<Rightarrow> 'o ObjectPool option" where
  "destroy_loop [] s = Some s"
| "destroy_loop (p # ps) s =
     do { s1 \<leftarrow> setEnabledPoolObject False p s; s2 \<leftarrow> delete_object p s1; destroy_loop ps s2 }"

definition ObjectPool_destroy :: "'o ObjectPool \<Rightarrow> 'o ObjectPool option" where
  "ObjectPool_destroy s = map_option (\<lambda>s1. s1\<lparr>objects := [], obj_count := 0\<rparr>) (destroy_loop (objects s) s)"

definition createObject :: "nat \<Rightarrow> 'o \<Rightarrow> 'o ObjectPool \<Rightarrow> (nat \<times> 'o ObjectPool) option" where
  "createObject a ob s =
     (if obj_count s > 0 then
        (case objects s of
           [] \<Rightarrow> None
         | t # ts \<Rightarrow>
             map_option (Pair t) (setEnabledPoolObject True t (s\<lparr>objects := ts, obj_count := obj_count s - 1\<rparr>)))
      else map_option (Pair a) (setEnabledPoolObject True a (newObj a ob s)))"

definition reclaimObject :: "nat option \<Rightarrow> 'o ObjectPool \<Rightarrow> 'o ObjectPool option" where
  "reclaimObject p s =
     (case p of
        None \<Rightarrow> Some s
      | Some obj \<Rightarrow>
          (case pool_heap s obj of
             None \<Rightarrow> None
           | Some ob \<Rightarrow>
               if \<not> isEnabledPoolObject ob then None
               else do {
                 s1 \<leftarrow> setEnabledPoolObject False obj s;
                 (if obj_count s1 \<ge> max_free s1 then delete_object obj s1
                  else Some (s1\<lparr>objects := objects s1 @ [obj], obj_count := obj_count s1 + 1\<rparr>)) }))"

text \<open>A method of an object, as the model of \<open>zero\<close>, \<open>release\<close> and of what the owner does with it.\<close>

definition on_object :: "('o \<Rightarrow> 'o) \<Rightarrow> nat \<Rightarrow> 'o ObjectPool \<Rightarrow> 'o ObjectPool option" where
  "on_object f p s =
     map_option (\<lambda>ob. s\<lparr>pool_heap := (pool_heap s)(p \<mapsto> ob\<lparr>pool_content := f (pool_content ob)\<rparr>)\<rparr>) (pool_heap s p)"

definition CommPool_create :: "('o \<Rightarrow> 'o) \<Rightarrow> nat \<Rightarrow> 'o \<Rightarrow> 'o ObjectPool \<Rightarrow> (nat \<times> 'o ObjectPool) option" where
  "CommPool_create zero a ob s =
     do { (obj, s1) \<leftarrow> createObject a ob s; s2 \<leftarrow> on_object zero obj s1; Some (obj, s2) }"

definition CommPool_reclaim :: "('o \<Rightarrow> 'o) \<Rightarrow> nat option \<Rightarrow> 'o ObjectPool \<Rightarrow> 'o ObjectPool option" where
  "CommPool_reclaim release p s =
     (case p of None \<Rightarrow> None | Some obj \<Rightarrow> do { s1 \<leftarrow> on_object release obj s; reclaimObject p s1 })"

section \<open>Runs\<close>

text \<open>The owners of objects create them, use them and give them back once: \<open>U\<close> are the objects that are in use.\<close>

inductive objpool_reach :: "('o \<Rightarrow> 'o) \<Rightarrow> ('o \<Rightarrow> 'o) \<Rightarrow> nat set \<Rightarrow> 'o ObjectPool \<Rightarrow> bool" for zero release where
  start: "objpool_reach zero release {} (ObjectPool_ctor n)"
| create: "objpool_reach zero release U s \<Longrightarrow> pool_heap s a = None \<Longrightarrow> CommPool_create zero a ob s = Some (p, s')
    \<Longrightarrow> objpool_reach zero release (insert p U) s'"
| use: "objpool_reach zero release U s \<Longrightarrow> p \<in> U \<Longrightarrow> on_object f p s = Some s' \<Longrightarrow> objpool_reach zero release U s'"
| reclaim: "objpool_reach zero release U s \<Longrightarrow> p \<in> U \<Longrightarrow> CommPool_reclaim release (Some p) s = Some s'
    \<Longrightarrow> objpool_reach zero release (U - {p}) s'"
| init: "objpool_reach zero release U s \<Longrightarrow> objpool_reach zero release U (ObjectPool_init n s)"
| destroy: "objpool_reach zero release U s \<Longrightarrow> ObjectPool_destroy s = Some s' \<Longrightarrow> objpool_reach zero release U s'"

definition enabled_at :: "bool \<Rightarrow> nat \<Rightarrow> 'o ObjectPool \<Rightarrow> bool" where
  "enabled_at v p s \<longleftrightarrow> (\<exists>ob. pool_heap s p = Some ob \<and> isEnabledPoolObject ob = v)"

definition objpool_inv :: "nat set \<Rightarrow> 'o ObjectPool \<Rightarrow> bool" where
  "objpool_inv U s \<longleftrightarrow> distinct (objects s) \<and> set (objects s) \<inter> U = {} \<and> obj_count s = int (length (objects s))
     \<and> (\<forall>p\<in>set (objects s). enabled_at False p s) \<and> (\<forall>p\<in>U. enabled_at True p s)"

lemma setEnabled_other: "setEnabledPoolObject v p s = Some s' \<Longrightarrow> q \<noteq> p \<Longrightarrow> pool_heap s' q = pool_heap s q"
  and setEnabled_same: "setEnabledPoolObject v p s = Some s' \<Longrightarrow> enabled_at v p s'"
  and setEnabled_frame: "setEnabledPoolObject v p s = Some s' \<Longrightarrow>
    objects s' = objects s \<and> obj_count s' = obj_count s \<and> max_free s' = max_free s"
  by (auto simp: setEnabledPoolObject_def enabled_at_def)

lemma on_object_enabled: "on_object f p s = Some s' \<Longrightarrow> enabled_at v q s' = enabled_at v q s"
  and on_object_frame: "on_object f p s = Some s' \<Longrightarrow>
    objects s' = objects s \<and> obj_count s' = obj_count s \<and> max_free s' = max_free s"
  by (auto simp: on_object_def enabled_at_def split: if_splits)

lemma on_object_defined: "enabled_at v p s \<Longrightarrow> \<exists>s'. on_object f p s = Some s'"
  by (auto simp: on_object_def enabled_at_def)

lemma on_object_inv: "objpool_inv U s \<Longrightarrow> on_object f p s = Some s' \<Longrightarrow> objpool_inv U s'"
  using on_object_enabled [of f p s s'] on_object_frame [of f p s s'] by (simp add: objpool_inv_def)

lemma create_inv:
  assumes "objpool_inv U s" and "pool_heap s a = None"
  shows "\<exists>p s'. createObject a ob s = Some (p, s') \<and> p \<notin> U \<and> objpool_inv (insert p U) s'"
proof (cases "objects s")
  case Nil
  then show ?thesis
    using assms by (auto simp: objpool_inv_def createObject_def setEnabledPoolObject_def newObj_def enabled_at_def)
next
  case (Cons t ts)
  let ?s = "s\<lparr>objects := ts, obj_count := obj_count s - 1\<rparr>"
  have t: "enabled_at False t s" "t \<notin> U" "t \<notin> set ts" using assms(1) Cons by (auto simp: objpool_inv_def)
  then obtain s' where s': "setEnabledPoolObject True t ?s = Some s'"
    by (auto simp: setEnabledPoolObject_def enabled_at_def)
  have "enabled_at v q s' = enabled_at v q s" if "q \<noteq> t" for v q
    using setEnabled_other [OF s' that] by (simp add: enabled_at_def)
  moreover have "enabled_at True t s'" using s' by (rule setEnabled_same)
  ultimately have "objpool_inv (insert t U) s'"
    using assms(1) Cons t setEnabled_frame [OF s'] by (auto simp: objpool_inv_def) (metis+)
  then show ?thesis using assms(1) Cons s' t by (auto simp: createObject_def objpool_inv_def)
qed

lemma reclaim_inv:
  assumes "objpool_inv U s" and "p \<in> U"
  shows "\<exists>s'. reclaimObject (Some p) s = Some s' \<and> objpool_inv (U - {p}) s'"
proof -
  have p: "enabled_at True p s" "p \<notin> set (objects s)" using assms by (auto simp: objpool_inv_def)
  then obtain ob s1 where s1: "pool_heap s p = Some ob" "isEnabledPoolObject ob" "setEnabledPoolObject False p s = Some s1"
    by (auto simp: setEnabledPoolObject_def enabled_at_def)
  have o: "enabled_at v q s1 = enabled_at v q s" if "q \<noteq> p" for v q
    using setEnabled_other [OF s1(3) that] by (simp add: enabled_at_def)
  have e: "enabled_at False p s1" using s1(3) by (rule setEnabled_same)
  have f: "objects s1 = objects s" "obj_count s1 = obj_count s" "max_free s1 = max_free s"
    using setEnabled_frame [OF s1(3)] by auto
  have old: "\<forall>q\<in>set (objects s). enabled_at False q s1" "\<forall>q\<in>U - {p}. enabled_at True q s1"
    using assms(1) p o by (auto simp: objpool_inv_def) (metis+)
  show ?thesis
  proof (cases "obj_count s \<ge> max_free s")
    case True
    let ?s = "s1\<lparr>pool_heap := (pool_heap s1)(p := None)\<rparr>"
    have "delete_object p s1 = Some ?s" using e by (auto simp: delete_object_def enabled_at_def)
    moreover have "enabled_at v q ?s = enabled_at v q s1" if "q \<noteq> p" for v q using that by (simp add: enabled_at_def)
    ultimately show ?thesis
      using assms(1) p old f s1 True by (auto simp: reclaimObject_def objpool_inv_def) (metis+)?
  next
    case False
    let ?s = "s1\<lparr>objects := objects s1 @ [p], obj_count := obj_count s1 + 1\<rparr>"
    have "enabled_at v q ?s = enabled_at v q s1" for v q by (simp add: enabled_at_def)
    then have "objpool_inv (U - {p}) ?s" using assms(1) p old e f by (auto simp: objpool_inv_def)
    moreover have "reclaimObject (Some p) s = Some ?s" using s1 f False by (simp add: reclaimObject_def)
    ultimately show ?thesis by blast
  qed
qed

lemma destroy_loop_inv:
  assumes "distinct ps" and "\<forall>p\<in>set ps. enabled_at False p s"
  shows "\<exists>s'. destroy_loop ps s = Some s' \<and> (\<forall>q. q \<notin> set ps \<longrightarrow> pool_heap s' q = pool_heap s q)"
  using assms
proof (induction ps arbitrary: s)
  case (Cons p ps)
  then obtain ob where ob: "pool_heap s p = Some ob" by (auto simp: enabled_at_def)
  let ?s = "s\<lparr>pool_heap := (pool_heap s)(p := None)\<rparr>"
  have "\<forall>q\<in>set ps. enabled_at False q ?s" using Cons.prems by (auto simp: enabled_at_def)
  then obtain s' where "destroy_loop ps ?s = Some s'" "\<forall>q. q \<notin> set ps \<longrightarrow> pool_heap s' q = pool_heap ?s q"
    using Cons.IH [of ?s] Cons.prems(1) by auto
  then show ?case using ob by (auto simp: setEnabledPoolObject_def delete_object_def)
qed simp

lemma destroy_inv:
  assumes "objpool_inv U s"
  shows "\<exists>s'. ObjectPool_destroy s = Some s' \<and> objpool_inv U s'"
proof -
  obtain s' where s': "destroy_loop (objects s) s = Some s'" "\<forall>q. q \<notin> set (objects s) \<longrightarrow> pool_heap s' q = pool_heap s q"
    using destroy_loop_inv [of "objects s" s] assms by (auto simp: objpool_inv_def)
  then show ?thesis using assms by (auto simp: ObjectPool_destroy_def objpool_inv_def enabled_at_def)
qed

lemma objpool_reach_inv: "objpool_reach zero release U s \<Longrightarrow> objpool_inv U s"
proof (induction rule: objpool_reach.induct)
  case (start n)
  then show ?case by (simp add: objpool_inv_def ObjectPool_ctor_def)
next
  case (create U s a ob p s')
  obtain q t where "createObject a ob s = Some (q, t)" "objpool_inv (insert q U) t"
    using create_inv [OF create.IH create.hyps(2)] by blast
  then show ?case using create.hyps(3) on_object_inv by (auto simp: CommPool_create_def split: bind_split_asm)
next
  case (use U s p f s')
  then show ?case using on_object_inv by blast
next
  case (reclaim U s p s')
  obtain t where t: "on_object release p s = Some t" "reclaimObject (Some p) t = Some s'"
    using reclaim.hyps(3) by (auto simp: CommPool_reclaim_def split: bind_split_asm)
  then show ?case using reclaim_inv [of U t p] on_object_inv [OF reclaim.IH t(1)] reclaim.hyps(2) by auto
next
  case (init U s n)
  then show ?case by (simp add: objpool_inv_def ObjectPool_init_def enabled_at_def)
next
  case (destroy U s s')
  then show ?case using destroy_inv [of U s] by auto
qed

text \<open>C32. The object pool never gives an object to two owners: in every run in which owners give back what they were given
  once, \<open>create\<close> succeeds, with an object that is not in use and whose content was reset; giving it back and destroying
  the pool succeed; and no object that is in use is in the pool.\<close>

theorem objpool_exclusive:
  assumes "objpool_reach zero release U s"
  shows "set (objects s) \<inter> U = {} \<and> obj_count s = int (length (objects s))
    \<and> (pool_heap s a = None \<longrightarrow> (\<exists>p s' ob' x. CommPool_create zero a ob s = Some (p, s') \<and> p \<notin> U
          \<and> pool_heap s' p = Some ob' \<and> pool_content ob' = zero x \<and> isEnabledPoolObject ob'))
    \<and> (\<forall>p\<in>U. CommPool_reclaim release (Some p) s \<noteq> None) \<and> ObjectPool_destroy s \<noteq> None"
proof (intro conjI impI ballI)
  note inv = objpool_reach_inv [OF assms]
  show "set (objects s) \<inter> U = {}" "obj_count s = int (length (objects s))" using inv by (simp_all add: objpool_inv_def)
  show "ObjectPool_destroy s \<noteq> None" using destroy_inv [OF inv] by auto
  show "CommPool_reclaim release (Some p) s \<noteq> None" if u: "p \<in> U" for p
  proof -
    obtain t where t: "on_object release p s = Some t"
      using on_object_defined [of True p s release] inv u by (auto simp: objpool_inv_def)
    then show ?thesis using reclaim_inv [OF on_object_inv [OF inv t] u] by (auto simp: CommPool_reclaim_def)
  qed
  assume "pool_heap s a = None"
  then obtain p s1 where c: "createObject a ob s = Some (p, s1)" "p \<notin> U" "objpool_inv (insert p U) s1"
    using create_inv [OF inv] by blast
  then have "enabled_at True p s1" by (simp add: objpool_inv_def)
  then obtain ob1 where "pool_heap s1 p = Some ob1" "isEnabledPoolObject ob1" by (auto simp: enabled_at_def)
  then show "\<exists>p s' ob' x. CommPool_create zero a ob s = Some (p, s') \<and> p \<notin> U
      \<and> pool_heap s' p = Some ob' \<and> pool_content ob' = zero x \<and> isEnabledPoolObject ob'"
    using c by (auto simp: CommPool_create_def on_object_def)
qed

lemma demo_objpool:
  "objpool_reach (\<lambda>x. 0 :: nat) id {7}
     \<lparr>max_free = 5, obj_count = 0, objects = [],
      pool_heap = [7 \<mapsto> \<lparr>isEnabledPoolObject = True, pool_content = 0\<rparr>]\<rparr>"
  using objpool_reach.create [OF objpool_reach.start [of "\<lambda>x. 0" id 5], of 7 3 7]
  by (simp add: ObjectPool_ctor_def CommPool_create_def createObject_def newObj_def setEnabledPoolObject_def on_object_def)

theorem objpool_exclusive_witness:
  "let s = \<lparr>max_free = 5, obj_count = 0, objects = [],
      pool_heap = [7 \<mapsto> \<lparr>isEnabledPoolObject = True, pool_content = 0 :: nat\<rparr>]\<rparr> in
    set (objects s) \<inter> {7} = {} \<and> CommPool_reclaim id (Some 7) s \<noteq> None"
  using objpool_exclusive [OF demo_objpool] unfolding Let_def by blast

text \<open>Giving an object back a second time is undefined, whether it is in the pool or was deleted; \<open>CommPool::reclaim\<close> calls
  \<open>release\<close> before the test for a null pointer.\<close>

lemma objpool_reclaim_twice:
  assumes "CommPool_reclaim release (Some p) s = Some s'"
  shows "CommPool_reclaim release' (Some p) s' = None" and "CommPool_reclaim release None s = None"
  using assms
  by (auto simp: CommPool_reclaim_def reclaimObject_def on_object_def setEnabledPoolObject_def delete_object_def
      split: option.splits if_splits bind_split_asm bind_split)

end
