(* ===== verification/Proto_Lua.thy ===== *)
theory Proto_Lua
  imports Prelude
begin

text \<open>
  \<open>src/protolua/encoder.cpp\<close>, \<open>decoder.cpp\<close> and \<open>parse.cpp\<close>: Lua values to protobuf messages and back. The protobuf
  library and the conversions of Lua are the record \<open>proto_env\<close>, an argument of every definition: messages of a type
  \<open>'m\<close>, the fields of a message type, the reflection of messages, serialization. The stack of Lua is not modelled: a function
  takes the value at its index and returns what it pushes. The code never calls \<open>lua_checkstack\<close>, and every level of nesting
  keeps up to three values on the stack, so that the model describes values whose nesting fits into the slots that Lua
  guarantees to a C function (\<open>LUA_MINSTACK\<close>, 20). Tables have no metatables and list their entries in the
  order of \<open>lua_next\<close>. A function returns a value, \<open>Fail\<close> for \<open>false\<close>, or leaves with a Lua error; \<^const>\<open>None\<close> is a
  call that has not returned within the fuel, which bounds the depth of the recursion and the number of entries of
  a map.
\<close>

section \<open>Lua values\<close>

datatype lua_value =
  Lua_Nil | Lua_Boolean bool | Lua_Number u64 | Lua_Integer u64 | Lua_String "byte list"
| Lua_Table "(lua_value \<times> lua_value) list" | Lua_Other nat

type_synonym lua_table = "(lua_value \<times> lua_value) list"

definition lua_gettable :: "lua_table \<Rightarrow> lua_value \<Rightarrow> lua_value" where
  "lua_gettable t k = (case map_of t k of None \<Rightarrow> Lua_Nil | Some v \<Rightarrow> v)"

fun lua_settable :: "lua_table \<Rightarrow> lua_value \<Rightarrow> lua_value \<Rightarrow> lua_table" where
  "lua_settable [] k v = (if v = Lua_Nil then [] else [(k, v)])"
| "lua_settable ((k', v') # t) k v =
     (if k' = k then if v = Lua_Nil then t else (k, v) # t else (k', v') # lua_settable t k v)"

text \<open>\<open>lua_next\<close>: \<^const>\<open>None\<close> is the error for a key that is not in the table, \<open>Some None\<close> the end.\<close>

fun next_after :: "lua_table \<Rightarrow> lua_value \<Rightarrow> (lua_value \<times> lua_value) option option" where
  "next_after [] k = None"
| "next_after ((k', v') # t) k = (if k' = k then Some (case t of [] \<Rightarrow> None | e # es \<Rightarrow> Some e) else next_after t k)"

definition lua_next :: "lua_table \<Rightarrow> lua_value \<Rightarrow> (lua_value \<times> lua_value) option option" where
  "lua_next t k = (if k = Lua_Nil then Some (case t of [] \<Rightarrow> None | e # es \<Rightarrow> Some e) else next_after t k)"

definition lua_toboolean :: "lua_value \<Rightarrow> bool" where
  "lua_toboolean v = (case v of Lua_Nil \<Rightarrow> False | Lua_Boolean b \<Rightarrow> b | _ \<Rightarrow> True)"

section \<open>Descriptors and messages\<close>

datatype proto_label = LABEL_REQUIRED | LABEL_OPTIONAL | LABEL_REPEATED

datatype cpp_type =
  CPPTYPE_DOUBLE | CPPTYPE_FLOAT | CPPTYPE_INT32 | CPPTYPE_UINT32 | CPPTYPE_INT64 | CPPTYPE_UINT64 | CPPTYPE_ENUM
| CPPTYPE_BOOL | CPPTYPE_STRING | CPPTYPE_MESSAGE

record FieldDescriptor =
  field_name :: "byte list"
  field_number :: int
  field_label :: proto_label
  is_map :: bool
  has_presence :: bool
  cpp_type :: cpp_type
  message_type :: nat

datatype proto_scalar =
  P_double u64 | P_float u32 | P_int32 u32 | P_uint32 u32 | P_int64 u64 | P_uint64 u64 | P_enum u32 | P_bool bool
| P_string "byte list"

record 'm proto_env =
  FindMessageTypeByName :: "byte list \<Rightarrow> nat option"
  full_name :: "nat \<Rightarrow> byte list"
  proto_fields :: "nat \<Rightarrow> FieldDescriptor list"
  NewMessage :: "nat \<Rightarrow> 'm"
  SetScalar :: "'m \<Rightarrow> FieldDescriptor \<Rightarrow> proto_scalar \<Rightarrow> 'm"
  AddScalar :: "'m \<Rightarrow> FieldDescriptor \<Rightarrow> proto_scalar \<Rightarrow> 'm"
  GetScalar :: "'m \<Rightarrow> FieldDescriptor \<Rightarrow> proto_scalar"
  GetRepeatedScalar :: "'m \<Rightarrow> FieldDescriptor \<Rightarrow> nat \<Rightarrow> proto_scalar"
  MutableMessage :: "'m \<Rightarrow> FieldDescriptor \<Rightarrow> 'm"
  SetMessage :: "'m \<Rightarrow> FieldDescriptor \<Rightarrow> 'm \<Rightarrow> 'm"
  AddMessage :: "'m \<Rightarrow> FieldDescriptor \<Rightarrow> 'm \<Rightarrow> 'm"
  GetMessage :: "'m \<Rightarrow> FieldDescriptor \<Rightarrow> 'm"
  GetRepeatedMessage :: "'m \<Rightarrow> FieldDescriptor \<Rightarrow> nat \<Rightarrow> 'm"
  HasField :: "'m \<Rightarrow> FieldDescriptor \<Rightarrow> bool"
  FieldSize :: "'m \<Rightarrow> FieldDescriptor \<Rightarrow> nat"
  Serialize :: "'m \<Rightarrow> byte list option"
  Parse :: "nat \<Rightarrow> byte list \<Rightarrow> 'm option"
  lua_tonumber :: "lua_value \<Rightarrow> u64"
  lua_tointeger :: "lua_value \<Rightarrow> u64"
  lua_tolstring :: "lua_value \<Rightarrow> byte list"
  luaL_len :: "lua_table \<Rightarrow> nat"
  to_float :: "u64 \<Rightarrow> u32"
  to_double :: "u32 \<Rightarrow> u64"

text \<open>\<open>MutableMessage\<close> yields the message of the field to be filled, which \<open>SetMessage\<close> puts in its place; \<open>AddMessage\<close>
  adds a message that was filled.\<close>

datatype 'a proto_result = Ret 'a | Fail | Lua_Error

text \<open>\<open>PROTO_DO\<close>.\<close>

definition PROTO_DO :: "'a proto_result option \<Rightarrow> ('a \<Rightarrow> 'b proto_result option) \<Rightarrow> 'b proto_result option" where
  "PROTO_DO r f =
     (case r of None \<Rightarrow> None | Some (Ret x) \<Rightarrow> f x | Some Fail \<Rightarrow> Some Fail | Some Lua_Error \<Rightarrow> Some Lua_Error)"

text \<open>The value of a scalar field that was not set: zero, \<open>false\<close> or the empty string (fields with another default, which
  only \<open>proto2\<close> has, are not described).\<close>

definition default_scalar :: "cpp_type \<Rightarrow> proto_scalar" where
  "default_scalar ty =
     (case ty of
        CPPTYPE_DOUBLE \<Rightarrow> P_double 0 | CPPTYPE_FLOAT \<Rightarrow> P_float 0 | CPPTYPE_INT32 \<Rightarrow> P_int32 0 | CPPTYPE_UINT32 \<Rightarrow> P_uint32 0
      | CPPTYPE_INT64 \<Rightarrow> P_int64 0 | CPPTYPE_UINT64 \<Rightarrow> P_uint64 0 | CPPTYPE_ENUM \<Rightarrow> P_enum 0 | CPPTYPE_BOOL \<Rightarrow> P_bool False
      | CPPTYPE_STRING \<Rightarrow> P_string [] | CPPTYPE_MESSAGE \<Rightarrow> P_string [])"

section \<open>Encoding\<close>

definition to_scalar :: "'m proto_env \<Rightarrow> FieldDescriptor \<Rightarrow> lua_value \<Rightarrow> proto_scalar" where
  "to_scalar E f v =
     (case cpp_type f of
        CPPTYPE_DOUBLE \<Rightarrow> P_double (lua_tonumber E v)
      | CPPTYPE_FLOAT \<Rightarrow> P_float (to_float E (lua_tonumber E v))
      | CPPTYPE_INT32 \<Rightarrow> P_int32 (ucast (lua_tointeger E v))
      | CPPTYPE_UINT32 \<Rightarrow> P_uint32 (ucast (lua_tointeger E v))
      | CPPTYPE_INT64 \<Rightarrow> P_int64 (lua_tointeger E v)
      | CPPTYPE_UINT64 \<Rightarrow> P_uint64 (lua_tointeger E v)
      | CPPTYPE_ENUM \<Rightarrow> P_enum (ucast (lua_tointeger E v))
      | CPPTYPE_BOOL \<Rightarrow> P_bool (lua_toboolean v)
      | CPPTYPE_STRING \<Rightarrow> P_string (lua_tolstring E v)
      | CPPTYPE_MESSAGE \<Rightarrow> P_string [])"

type_synonym 'm encoder = "'m \<Rightarrow> FieldDescriptor \<Rightarrow> lua_value \<Rightarrow> 'm proto_result option"

text \<open>\<open>rec\<close> stands for the recursive call of \<open>encode_field\<close>.\<close>

fun encode_fields :: "'m encoder \<Rightarrow> FieldDescriptor list \<Rightarrow> 'm \<Rightarrow> lua_table \<Rightarrow> 'm proto_result option" where
  "encode_fields rec [] m t = Some (Ret m)"
| "encode_fields rec (f # fs) m t =
     PROTO_DO (rec m f (lua_gettable t (Lua_String (field_name f)))) (\<lambda>m1. encode_fields rec fs m1 t)"

definition encode_message :: "'m proto_env \<Rightarrow> 'm encoder \<Rightarrow> 'm \<Rightarrow> nat \<Rightarrow> lua_value \<Rightarrow> 'm proto_result option" where
  "encode_message E rec m d v =
     (case v of Lua_Table t \<Rightarrow> encode_fields rec (proto_fields E d) m t | _ \<Rightarrow> Some Fail)"

definition encode_single :: "'m proto_env \<Rightarrow> 'm encoder \<Rightarrow> 'm encoder" where
  "encode_single E rec m f v =
     (if cpp_type f = CPPTYPE_MESSAGE
      then PROTO_DO (encode_message E rec (MutableMessage E m f) (message_type f) v) (\<lambda>s. Some (Ret (SetMessage E m f s)))
      else Some (Ret (SetScalar E m f (to_scalar E f v))))"

definition encode_multiple :: "'m proto_env \<Rightarrow> 'm encoder \<Rightarrow> 'm encoder" where
  "encode_multiple E rec m f v =
     (if cpp_type f = CPPTYPE_MESSAGE
      then PROTO_DO (encode_message E rec (NewMessage E (message_type f)) (message_type f) v)
             (\<lambda>s. Some (Ret (AddMessage E m f s)))
      else Some (Ret (AddScalar E m f (to_scalar E f v))))"

definition encode_required :: "'m proto_env \<Rightarrow> 'm encoder \<Rightarrow> 'm encoder" where
  "encode_required E rec m f v = (if v = Lua_Nil then Some (Ret m) else encode_single E rec m f v)"

definition encode_optional :: "'m proto_env \<Rightarrow> 'm encoder \<Rightarrow> 'm encoder" where
  "encode_optional E rec m f v = (if v = Lua_Nil then Some (Ret m) else encode_single E rec m f v)"

text \<open>The loop of \<open>encode_repeated\<close>, with \<open>n\<close> elements left from index \<open>i\<close> on.\<close>

fun encode_elements :: "'m proto_env \<Rightarrow> 'm encoder \<Rightarrow> FieldDescriptor \<Rightarrow> lua_table \<Rightarrow> nat \<Rightarrow> nat \<Rightarrow> 'm \<Rightarrow> 'm proto_result option" where
  "encode_elements E rec f t i 0 m = Some (Ret m)"
| "encode_elements E rec f t i (Suc n) m =
     PROTO_DO (encode_multiple E rec m f (lua_gettable t (Lua_Integer (word_of_nat (i + 1)))))
       (\<lambda>m1. encode_elements E rec f t (i + 1) n m1)"

definition encode_repeated :: "'m proto_env \<Rightarrow> 'm encoder \<Rightarrow> 'm encoder" where
  "encode_repeated E rec m f v =
     (case v of
        Lua_Nil \<Rightarrow> Some (Ret m)
      | Lua_Table t \<Rightarrow> encode_elements E rec f t 0 (nat (to_i32 (int (luaL_len E t)))) m
      | _ \<Rightarrow> Some Fail)"

text \<open>\<open>lua_tolstring\<close> replaces a number by its string in the stack, and \<open>lua_next\<close> is called with it.\<close>

definition key_slot :: "'m proto_env \<Rightarrow> FieldDescriptor \<Rightarrow> lua_value \<Rightarrow> lua_value" where
  "key_slot E key k =
     (case k of
        Lua_Number _ \<Rightarrow> if cpp_type key = CPPTYPE_STRING then Lua_String (lua_tolstring E k) else k
      | Lua_Integer _ \<Rightarrow> if cpp_type key = CPPTYPE_STRING then Lua_String (lua_tolstring E k) else k
      | _ \<Rightarrow> k)"

fun encode_entries ::
  "'m proto_env \<Rightarrow> 'm encoder \<Rightarrow> FieldDescriptor \<Rightarrow> FieldDescriptor \<Rightarrow> FieldDescriptor \<Rightarrow> lua_table \<Rightarrow> nat \<Rightarrow> lua_value \<Rightarrow> 'm
    \<Rightarrow> 'm proto_result option" where
  "encode_entries E rec f key val t 0 k m = None"
| "encode_entries E rec f key val t (Suc n) k m =
     (case lua_next t k of
        None \<Rightarrow> Some Lua_Error
      | Some None \<Rightarrow> Some (Ret m)
      | Some (Some (k1, v1)) \<Rightarrow>
          PROTO_DO (rec (NewMessage E (message_type f)) key k1)
            (\<lambda>s. PROTO_DO (rec s val v1)
              (\<lambda>s1. encode_entries E rec f key val t n (key_slot E key k1) (AddMessage E m f s1))))"

definition encode_table :: "'m proto_env \<Rightarrow> 'm encoder \<Rightarrow> nat \<Rightarrow> 'm encoder" where
  "encode_table E rec n m f v =
     (case v of
        Lua_Nil \<Rightarrow> Some (Ret m)
      | Lua_Table t \<Rightarrow>
          (case proto_fields E (message_type f) of
             [key, val] \<Rightarrow> encode_entries E rec f key val t n Lua_Nil m
           | _ \<Rightarrow> Some Fail)
      | _ \<Rightarrow> Some Fail)"

fun encode_field :: "nat \<Rightarrow> 'm proto_env \<Rightarrow> 'm \<Rightarrow> FieldDescriptor \<Rightarrow> lua_value \<Rightarrow> 'm proto_result option" where
  "encode_field 0 E m f v = None"
| "encode_field (Suc n) E m f v =
     (if is_map f then encode_table E (encode_field n E) n m f v
      else
        (case field_label f of
           LABEL_REQUIRED \<Rightarrow> encode_required E (encode_field n E) m f v
         | LABEL_OPTIONAL \<Rightarrow> encode_optional E (encode_field n E) m f v
         | LABEL_REPEATED \<Rightarrow> encode_repeated E (encode_field n E) m f v))"

definition push_bytes :: "'m proto_env \<Rightarrow> 'm \<Rightarrow> lua_value proto_result option" where
  "push_bytes E m = (case Serialize E m of None \<Rightarrow> Some Fail | Some b \<Rightarrow> Some (Ret (Lua_String b)))"

definition proto_encode :: "nat \<Rightarrow> 'm proto_env \<Rightarrow> byte list \<Rightarrow> lua_value \<Rightarrow> lua_value proto_result option" where
  "proto_encode n E proto v =
     (case FindMessageTypeByName E proto of
        None \<Rightarrow> Some Fail
      | Some d \<Rightarrow> PROTO_DO (encode_message E (encode_field n E) (NewMessage E d) d v) (push_bytes E))"

definition SortFieldsByNumber :: "FieldDescriptor list \<Rightarrow> FieldDescriptor list" where
  "SortFieldsByNumber fs = sort_key field_number fs"

fun pack_fields :: "'m encoder \<Rightarrow> FieldDescriptor list \<Rightarrow> lua_value list \<Rightarrow> 'm \<Rightarrow> 'm proto_result option" where
  "pack_fields rec (f # fs) (v # vs) m = PROTO_DO (rec m f v) (pack_fields rec fs vs)"
| "pack_fields rec _ _ m = Some (Ret m)"

definition proto_pack :: "nat \<Rightarrow> 'm proto_env \<Rightarrow> byte list \<Rightarrow> lua_value list \<Rightarrow> lua_value proto_result option" where
  "proto_pack n E proto vs =
     (case FindMessageTypeByName E proto of
        None \<Rightarrow> Some Fail
      | Some d \<Rightarrow>
          PROTO_DO (pack_fields (encode_field n E) (SortFieldsByNumber (proto_fields E d)) vs (NewMessage E d)) (push_bytes E))"

section \<open>Decoding\<close>

definition from_scalar :: "'m proto_env \<Rightarrow> proto_scalar \<Rightarrow> lua_value" where
  "from_scalar E s =
     (case s of
        P_double x \<Rightarrow> Lua_Number x
      | P_float x \<Rightarrow> Lua_Number (to_double E x)
      | P_int32 x \<Rightarrow> Lua_Integer (scast x)
      | P_uint32 x \<Rightarrow> Lua_Integer (ucast x)
      | P_int64 x \<Rightarrow> Lua_Integer x
      | P_uint64 x \<Rightarrow> Lua_Integer x
      | P_enum x \<Rightarrow> Lua_Integer (scast x)
      | P_bool b \<Rightarrow> Lua_Boolean b
      | P_string b \<Rightarrow> Lua_String b)"

type_synonym 'm decoder = "'m \<Rightarrow> FieldDescriptor \<Rightarrow> lua_value proto_result option"

fun decode_fields :: "'m decoder \<Rightarrow> 'm \<Rightarrow> FieldDescriptor list \<Rightarrow> lua_table \<Rightarrow> lua_table proto_result option" where
  "decode_fields rec m [] t = Some (Ret t)"
| "decode_fields rec m (f # fs) t =
     PROTO_DO (rec m f) (\<lambda>v. decode_fields rec m fs (lua_settable t (Lua_String (field_name f)) v))"

definition decode_message :: "'m proto_env \<Rightarrow> 'm decoder \<Rightarrow> 'm \<Rightarrow> nat \<Rightarrow> lua_value proto_result option" where
  "decode_message E rec m d = PROTO_DO (decode_fields rec m (proto_fields E d) []) (\<lambda>t. Some (Ret (Lua_Table t)))"

definition decode_single :: "'m proto_env \<Rightarrow> 'm decoder \<Rightarrow> 'm decoder" where
  "decode_single E rec m f =
     (if cpp_type f = CPPTYPE_MESSAGE then decode_message E rec (GetMessage E m f) (message_type f)
      else Some (Ret (from_scalar E (GetScalar E m f))))"

definition decode_multiple :: "'m proto_env \<Rightarrow> 'm decoder \<Rightarrow> 'm \<Rightarrow> FieldDescriptor \<Rightarrow> nat \<Rightarrow> lua_value proto_result option" where
  "decode_multiple E rec m f i =
     (if cpp_type f = CPPTYPE_MESSAGE then decode_message E rec (GetRepeatedMessage E m f i) (message_type f)
      else Some (Ret (from_scalar E (GetRepeatedScalar E m f i))))"

text \<open>\<open>decode_required\<close> only warns about a field that is not set.\<close>

definition decode_required :: "'m proto_env \<Rightarrow> 'm decoder \<Rightarrow> 'm decoder" where
  "decode_required E rec m f = decode_single E rec m f"

definition decode_optional :: "'m proto_env \<Rightarrow> 'm decoder \<Rightarrow> 'm decoder" where
  "decode_optional E rec m f =
     (if cpp_type f = CPPTYPE_MESSAGE \<and> \<not> HasField E m f then Some (Ret Lua_Nil) else decode_single E rec m f)"

fun decode_elements :: "'m proto_env \<Rightarrow> 'm decoder \<Rightarrow> 'm \<Rightarrow> FieldDescriptor \<Rightarrow> nat \<Rightarrow> nat \<Rightarrow> lua_table \<Rightarrow> lua_table proto_result option" where
  "decode_elements E rec m f i 0 t = Some (Ret t)"
| "decode_elements E rec m f i (Suc n) t =
     PROTO_DO (decode_multiple E rec m f i)
       (\<lambda>v. decode_elements E rec m f (i + 1) n (lua_settable t (Lua_Integer (word_of_nat (i + 1))) v))"

definition decode_repeated :: "'m proto_env \<Rightarrow> 'm decoder \<Rightarrow> 'm decoder" where
  "decode_repeated E rec m f =
     PROTO_DO (decode_elements E rec m f 0 (FieldSize E m f) []) (\<lambda>t. Some (Ret (Lua_Table t)))"

text \<open>\<open>lua_settable\<close> with a key that is nil is an error.\<close>

fun decode_entries ::
  "'m proto_env \<Rightarrow> 'm decoder \<Rightarrow> 'm \<Rightarrow> FieldDescriptor \<Rightarrow> FieldDescriptor \<Rightarrow> FieldDescriptor \<Rightarrow> nat \<Rightarrow> nat \<Rightarrow> lua_table
    \<Rightarrow> lua_table proto_result option" where
  "decode_entries E rec m f key val i 0 t = Some (Ret t)"
| "decode_entries E rec m f key val i (Suc n) t =
     PROTO_DO (rec (GetRepeatedMessage E m f i) key)
       (\<lambda>k. PROTO_DO (rec (GetRepeatedMessage E m f i) val)
         (\<lambda>v. if k = Lua_Nil then Some Lua_Error else decode_entries E rec m f key val (i + 1) n (lua_settable t k v)))"

definition decode_table :: "'m proto_env \<Rightarrow> 'm decoder \<Rightarrow> 'm decoder" where
  "decode_table E rec m f =
     (case proto_fields E (message_type f) of
        [key, val] \<Rightarrow> PROTO_DO (decode_entries E rec m f key val 0 (FieldSize E m f) []) (\<lambda>t. Some (Ret (Lua_Table t)))
      | _ \<Rightarrow> Some Fail)"

fun decode_field :: "nat \<Rightarrow> 'm proto_env \<Rightarrow> 'm \<Rightarrow> FieldDescriptor \<Rightarrow> lua_value proto_result option" where
  "decode_field 0 E m f = None"
| "decode_field (Suc n) E m f =
     (if is_map f then decode_table E (decode_field n E) m f
      else
        (case field_label f of
           LABEL_REQUIRED \<Rightarrow> decode_required E (decode_field n E) m f
         | LABEL_OPTIONAL \<Rightarrow> decode_optional E (decode_field n E) m f
         | LABEL_REPEATED \<Rightarrow> decode_repeated E (decode_field n E) m f))"

definition proto_decode :: "nat \<Rightarrow> 'm proto_env \<Rightarrow> byte list \<Rightarrow> byte list \<Rightarrow> lua_value proto_result option" where
  "proto_decode n E proto input =
     (case FindMessageTypeByName E proto of
        None \<Rightarrow> Some Fail
      | Some d \<Rightarrow>
          (case Parse E d input of None \<Rightarrow> Some Fail | Some m \<Rightarrow> decode_message E (decode_field n E) m d))"

text \<open>The values that \<open>proto_unpack\<close> pushes.\<close>

fun unpack_fields :: "'m decoder \<Rightarrow> 'm \<Rightarrow> FieldDescriptor list \<Rightarrow> lua_value list proto_result option" where
  "unpack_fields rec m [] = Some (Ret [])"
| "unpack_fields rec m (f # fs) =
     PROTO_DO (rec m f) (\<lambda>v. PROTO_DO (unpack_fields rec m fs) (\<lambda>vs. Some (Ret (v # vs))))"

definition proto_unpack :: "nat \<Rightarrow> 'm proto_env \<Rightarrow> byte list \<Rightarrow> byte list \<Rightarrow> lua_value list proto_result option" where
  "proto_unpack n E proto input =
     (case FindMessageTypeByName E proto of
        None \<Rightarrow> Some Fail
      | Some d \<Rightarrow>
          (case Parse E d input of
             None \<Rightarrow> Some Fail
           | Some m \<Rightarrow> unpack_fields (decode_field n E) m (SortFieldsByNumber (proto_fields E d))))"

text \<open>\<open>proto_create\<close> calls itself for the fields that are messages.\<close>

fun create_fields ::
  "'m proto_env \<Rightarrow> (byte list \<Rightarrow> lua_value proto_result option) \<Rightarrow> 'm \<Rightarrow> FieldDescriptor list \<Rightarrow> lua_table
    \<Rightarrow> lua_table proto_result option" where
  "create_fields E rec m [] t = Some (Ret t)"
| "create_fields E rec m (f # fs) t =
     PROTO_DO
       (if is_map f \<or> field_label f = LABEL_REPEATED then Some (Ret (Lua_Table []))
        else if cpp_type f = CPPTYPE_MESSAGE then rec (full_name E (message_type f))
        else decode_single E (\<lambda>_ _. None) m f)
       (\<lambda>v. create_fields E rec m fs (lua_settable t (Lua_String (field_name f)) v))"

fun proto_create :: "nat \<Rightarrow> 'm proto_env \<Rightarrow> byte list \<Rightarrow> lua_value proto_result option" where
  "proto_create 0 E proto = None"
| "proto_create (Suc n) E proto =
     (case FindMessageTypeByName E proto of
        None \<Rightarrow> Some Fail
      | Some d \<Rightarrow>
          PROTO_DO (create_fields E (proto_create n E) (NewMessage E d) (proto_fields E d) [])
            (\<lambda>t. Some (Ret (Lua_Table t))))"

end
