(* ===== verification/Proto_Roundtrip.thy ===== *)
theory Proto_Roundtrip
  imports Proto_Lua
begin

text \<open>
  What the code relies on of protobuf and Lua, stated by the content that a message has for each of its fields, and the
  round trip of Lua values through messages. The laws of the reflection are those of message types without
  \<open>oneof\<close>, in which setting a field leaves the others alone. A scalar field has presence, as in \<open>proto2\<close>, or not, as in
  \<open>proto3\<close>: then a field that is set to its default is not there, and reading a field that is not there gives the default.
\<close>

section \<open>The laws of messages\<close>

datatype 'm field_content = Absent | Single proto_scalar | Submessage 'm | Scalars "proto_scalar list" | Submessages "'m list"

fun content_scalars :: "'m field_content \<Rightarrow> proto_scalar list" where
  "content_scalars (Scalars xs) = xs"
| "content_scalars _ = []"

fun content_messages :: "'m field_content \<Rightarrow> 'm list" where
  "content_messages (Submessages xs) = xs"
| "content_messages _ = []"

definition scalar_content :: "FieldDescriptor \<Rightarrow> proto_scalar \<Rightarrow> 'm field_content" where
  "scalar_content f v = (if \<not> has_presence f \<and> v = default_scalar (cpp_type f) then Absent else Single v)"

definition reflects :: "'m proto_env \<Rightarrow> ('m \<Rightarrow> FieldDescriptor \<Rightarrow> 'm field_content) \<Rightarrow> bool" where
  "reflects E obs \<longleftrightarrow>
     (\<forall>d. obs (NewMessage E d) = (\<lambda>_. Absent))
   \<and> (\<forall>m f v. obs (SetScalar E m f v) = (obs m)(f := scalar_content f v))
   \<and> (\<forall>m f s. obs (SetMessage E m f s) = (obs m)(f := Submessage s))
   \<and> (\<forall>m f v. obs (AddScalar E m f v) = (obs m)(f := Scalars (content_scalars (obs m f) @ [v])))
   \<and> (\<forall>m f s. obs (AddMessage E m f s) = (obs m)(f := Submessages (content_messages (obs m f) @ [s])))
   \<and> (\<forall>m f. obs m f = Absent \<longrightarrow> MutableMessage E m f = NewMessage E (message_type f))
   \<and> (\<forall>m f v. obs m f = Single v \<longrightarrow> GetScalar E m f = v)
   \<and> (\<forall>m f. obs m f = Absent \<longrightarrow> GetScalar E m f = default_scalar (cpp_type f))
   \<and> (\<forall>m f s. obs m f = Submessage s \<longrightarrow> GetMessage E m f = s \<and> HasField E m f)
   \<and> (\<forall>m f. obs m f = Absent \<longrightarrow> \<not> HasField E m f)
   \<and> (\<forall>m f. FieldSize E m f = length (content_scalars (obs m f)) + length (content_messages (obs m f)))
   \<and> (\<forall>m f i. i < length (content_scalars (obs m f)) \<longrightarrow> GetRepeatedScalar E m f i = content_scalars (obs m f) ! i)
   \<and> (\<forall>m f i. i < length (content_messages (obs m f)) \<longrightarrow> GetRepeatedMessage E m f i = content_messages (obs m f) ! i)"

definition lua_sequence :: "lua_value list \<Rightarrow> lua_value" where
  "lua_sequence vs = Lua_Table (zip (List.map (\<lambda>i. Lua_Integer (word_of_nat i)) [1..<length vs + 1]) vs)"

text \<open>The conversions of Lua keep values of the type that is asked for, and the length of a sequence is its length.\<close>

definition lua_laws :: "'m proto_env \<Rightarrow> bool" where
  "lua_laws E \<longleftrightarrow> (\<forall>x. lua_tonumber E (Lua_Number x) = x) \<and> (\<forall>i. lua_tointeger E (Lua_Integer i) = i)
     \<and> (\<forall>s. lua_tolstring E (Lua_String s) = s)
     \<and> (\<forall>vs t. lua_sequence vs = Lua_Table t \<longrightarrow> (\<forall>v\<in>set vs. v \<noteq> Lua_Nil) \<longrightarrow> length vs < 2 ^ 31 \<longrightarrow> luaL_len E t = length vs)"

section \<open>Values of a message type\<close>

definition lua_fits :: "'m proto_env \<Rightarrow> cpp_type \<Rightarrow> lua_value \<Rightarrow> bool" where
  "lua_fits E ty v =
     (case v of
        Lua_Number x \<Rightarrow> ty = CPPTYPE_DOUBLE \<or> ty = CPPTYPE_FLOAT \<and> to_double E (to_float E x) = x
      | Lua_Integer w \<Rightarrow> ty = CPPTYPE_INT64 \<or> ty = CPPTYPE_UINT64 \<or> ty = CPPTYPE_UINT32 \<and> ucast (ucast w :: u32) = w
          \<or> (ty = CPPTYPE_INT32 \<or> ty = CPPTYPE_ENUM) \<and> scast (ucast w :: u32) = w
      | Lua_Boolean b \<Rightarrow> ty = CPPTYPE_BOOL
      | Lua_String s \<Rightarrow> ty = CPPTYPE_STRING
      | _ \<Rightarrow> False)"

definition lua_record :: "byte list list \<Rightarrow> lua_value list \<Rightarrow> lua_value" where
  "lua_record ns vs = Lua_Table (filter (\<lambda>(k, v). v \<noteq> Lua_Nil) (zip (List.map Lua_String ns) vs))"

definition singular :: "FieldDescriptor \<Rightarrow> bool" where
  "singular f \<longleftrightarrow> \<not> is_map f \<and> field_label f \<noteq> LABEL_REPEATED"

text \<open>The tables that represent messages: all fields are there, except for optional messages, and every value has the
  type of its field. A map has an entry type of a scalar key and a value.\<close>

inductive conf_single :: "'m proto_env \<Rightarrow> FieldDescriptor \<Rightarrow> lua_value \<Rightarrow> bool"
  and conf_field :: "'m proto_env \<Rightarrow> FieldDescriptor \<Rightarrow> lua_value \<Rightarrow> bool"
  and conf_message :: "'m proto_env \<Rightarrow> nat \<Rightarrow> lua_value \<Rightarrow> bool" for E where
  conf_scalar: "lua_fits E (cpp_type f) v \<Longrightarrow> conf_single E f v"
| conf_sub: "cpp_type f = CPPTYPE_MESSAGE \<Longrightarrow> conf_message E (message_type f) v \<Longrightarrow> conf_single E f v"
| conf_set: "singular f \<Longrightarrow> conf_single E f v \<Longrightarrow> conf_field E f v"
| conf_absent: "\<not> is_map f \<Longrightarrow> field_label f = LABEL_OPTIONAL \<Longrightarrow> cpp_type f = CPPTYPE_MESSAGE \<Longrightarrow> conf_field E f Lua_Nil"
| conf_repeated: "\<not> is_map f \<Longrightarrow> field_label f = LABEL_REPEATED \<Longrightarrow> (\<And>v. v \<in> set vs \<Longrightarrow> conf_single E f v)
    \<Longrightarrow> length vs < 2 ^ 31 \<Longrightarrow> conf_field E f (lua_sequence vs)"
| conf_map: "is_map f \<Longrightarrow> proto_fields E (message_type f) = [key, val] \<Longrightarrow> key \<noteq> val \<Longrightarrow> singular key \<Longrightarrow> singular val
    \<Longrightarrow> distinct (List.map fst kvs)
    \<Longrightarrow> (\<And>k v. (k, v) \<in> set kvs \<Longrightarrow> lua_fits E (cpp_type key) k \<and> conf_single E val v)
    \<Longrightarrow> conf_field E f (Lua_Table kvs)"
| conf_record: "distinct (List.map field_name (proto_fields E d)) \<Longrightarrow> length vs = length (proto_fields E d)
    \<Longrightarrow> (\<And>i. i < length vs \<Longrightarrow> conf_field E (proto_fields E d ! i) (vs ! i))
    \<Longrightarrow> conf_message E d (lua_record (List.map field_name (proto_fields E d)) vs)"

lemma fits_cases:
  assumes "lua_laws E" and "lua_fits E (cpp_type f) v"
  shows "cpp_type f \<noteq> CPPTYPE_MESSAGE \<and> v \<noteq> Lua_Nil \<and> from_scalar E (to_scalar E f v) = v \<and> key_slot E f v = v"
proof (cases v)
  case (Lua_Integer w)
  then have c: "cpp_type f = CPPTYPE_INT64 \<or> cpp_type f = CPPTYPE_UINT64 \<or> cpp_type f = CPPTYPE_UINT32 \<and> ucast (ucast w :: u32) = w
      \<or> (cpp_type f = CPPTYPE_INT32 \<or> cpp_type f = CPPTYPE_ENUM) \<and> scast (ucast w :: u32) = w"
    using assms(2) by (simp add: lua_fits_def)
  have "lua_tointeger E v = w" using assms(1) Lua_Integer by (simp add: lua_laws_def)
  with c show ?thesis
    by (elim disjE conjE) (simp_all add: Lua_Integer from_scalar_def to_scalar_def key_slot_def)
qed (use assms in \<open>auto simp: lua_laws_def lua_fits_def from_scalar_def to_scalar_def lua_toboolean_def key_slot_def\<close>)

lemma conf_single_not_nil: "conf_single E f v \<Longrightarrow> v \<noteq> Lua_Nil"
  by (auto elim!: conf_single.cases conf_message.cases simp: lua_record_def lua_fits_def)

lemma PROTO_DO_Ret [simp]: "PROTO_DO (Some (Ret x)) f = f x"
  by (simp add: PROTO_DO_def)

section \<open>What was encoded is decoded\<close>

text \<open>\<open>N\<close> is a bound of the fuel that is needed.\<close>

definition message_back :: "'m proto_env \<Rightarrow> nat \<Rightarrow> lua_value \<Rightarrow> nat \<Rightarrow> bool" where
  "message_back E d v N \<longleftrightarrow> (\<forall>n\<ge>N. \<exists>s. encode_message E (encode_field n E) (NewMessage E d) d v = Some (Ret s)
     \<and> (\<forall>k\<ge>N. decode_message E (decode_field k E) s d = Some (Ret v)))"

definition single_back :: "'m proto_env \<Rightarrow> FieldDescriptor \<Rightarrow> lua_value \<Rightarrow> nat \<Rightarrow> bool" where
  "single_back E f v N \<longleftrightarrow>
     (if cpp_type f = CPPTYPE_MESSAGE then message_back E (message_type f) v N else from_scalar E (to_scalar E f v) = v)"

definition field_back :: "'m proto_env \<Rightarrow> ('m \<Rightarrow> FieldDescriptor \<Rightarrow> 'm field_content) \<Rightarrow> FieldDescriptor \<Rightarrow> lua_value \<Rightarrow> nat \<Rightarrow> bool" where
  "field_back E obs f v N \<longleftrightarrow> (\<forall>n\<ge>N. \<forall>m. obs m f = Absent \<longrightarrow>
     (\<exists>m' c. encode_field n E m f v = Some (Ret m') \<and> obs m' = (obs m)(f := c)
        \<and> (\<forall>k\<ge>N. \<forall>m. obs m f = c \<longrightarrow> decode_field k E m f = Some (Ret v))))"

lemma message_back_mono: "message_back E d v N \<Longrightarrow> N \<le> N' \<Longrightarrow> message_back E d v N'"
  unfolding message_back_def by (meson order_trans)

lemma single_back_mono: "single_back E f v N \<Longrightarrow> N \<le> N' \<Longrightarrow> single_back E f v N'"
  unfolding single_back_def using message_back_mono [of E] by (simp split: if_splits)

lemma field_back_mono: "field_back E obs f v N \<Longrightarrow> N \<le> N' \<Longrightarrow> field_back E obs f v N'"
  unfolding field_back_def by (meson order_trans)

lemma common_bound:
  assumes "\<And>x N N'. P x N \<Longrightarrow> N \<le> (N' :: nat) \<Longrightarrow> P x N'" and "\<And>x. x \<in> set xs \<Longrightarrow> \<exists>N. P x N"
  shows "\<exists>N. \<forall>x\<in>set xs. P x N"
  using assms(2)
proof (induction xs)
  case (Cons x xs)
  then obtain N M where "P x N" "\<forall>y\<in>set xs. P y M" by fastforce
  then have "\<forall>y\<in>set (x # xs). P y (max N M)" using assms(1) by (auto intro: max.cobounded1 max.cobounded2)
  then show ?case by blast
qed simp

lemma reflectsD:
  assumes "reflects E obs"
  shows "obs (NewMessage E d) = (\<lambda>_. Absent)" and "obs (SetScalar E m f v) = (obs m)(f := scalar_content f v)"
    and "obs (SetMessage E m f s) = (obs m)(f := Submessage s)"
    and "obs (AddScalar E m f v) = (obs m)(f := Scalars (content_scalars (obs m f) @ [v]))"
    and "obs (AddMessage E m f s) = (obs m)(f := Submessages (content_messages (obs m f) @ [s]))"
    and "obs m f = Absent \<Longrightarrow> MutableMessage E m f = NewMessage E (message_type f)"
    and "obs m f = Single v \<Longrightarrow> GetScalar E m f = v"
    and "obs m f = Submessage s \<Longrightarrow> GetMessage E m f = s" and "obs m f = Submessage s \<Longrightarrow> HasField E m f"
    and "obs m f = Absent \<Longrightarrow> \<not> HasField E m f"
    and "FieldSize E m f = length (content_scalars (obs m f)) + length (content_messages (obs m f))"
    and "i < length (content_scalars (obs m f)) \<Longrightarrow> GetRepeatedScalar E m f i = content_scalars (obs m f) ! i"
    and "i < length (content_messages (obs m f)) \<Longrightarrow> GetRepeatedMessage E m f i = content_messages (obs m f) ! i"
    and "obs m f = Absent \<Longrightarrow> GetScalar E m f = default_scalar (cpp_type f)"
  by - (use assms in \<open>simp add: reflects_def\<close>)+

lemma reflects_scalar: "reflects E obs \<Longrightarrow> obs m f = scalar_content f v \<Longrightarrow> GetScalar E m f = v"
  using reflectsD(7) [of E obs m f v] reflectsD(14) [of E obs m f] by (simp add: scalar_content_def split: if_splits)

lemma encode_single_back:
  assumes R: "reflects E obs" and S: "single_back E f v N" and n: "n \<ge> N" and a: "obs m f = Absent"
  shows "\<exists>m' c. encode_single E (encode_field n E) m f v = Some (Ret m') \<and> obs m' = (obs m)(f := c)
    \<and> (\<forall>k\<ge>N. \<forall>m. obs m f = c \<longrightarrow> decode_single E (decode_field k E) m f = Some (Ret v)
          \<and> (cpp_type f = CPPTYPE_MESSAGE \<longrightarrow> HasField E m f))"
proof (cases "cpp_type f = CPPTYPE_MESSAGE")
  case False
  then show ?thesis
    using S reflectsD(2) [OF R] reflects_scalar [OF R] by (auto simp: encode_single_def decode_single_def single_back_def)
next
  case True
  then obtain s where "encode_message E (encode_field n E) (NewMessage E (message_type f)) (message_type f) v = Some (Ret s)"
    "\<forall>k\<ge>N. decode_message E (decode_field k E) s (message_type f) = Some (Ret v)"
    using S n by (auto simp: single_back_def message_back_def)
  then show ?thesis
    using True a by (auto simp: encode_single_def decode_single_def reflectsD [OF R])
qed

lemma field_back_set:
  assumes R: "reflects E obs" and "single_back E f v N" and f: "singular f" and "v \<noteq> Lua_Nil"
  shows "field_back E obs f v (Suc N)"
  unfolding field_back_def
proof (intro allI impI)
  fix n m
  assume "n \<ge> Suc N" and a: "obs m f = Absent"
  then obtain n' where n': "n = Suc n'" "n' \<ge> N" by (cases n) auto
  from encode_single_back [OF R assms(2) n'(2) a] obtain m' c where
    e: "encode_single E (encode_field n' E) m f v = Some (Ret m')" "obs m' = (obs m)(f := c)"
      "\<And>k m. k \<ge> N \<Longrightarrow> obs m f = c \<Longrightarrow> decode_single E (decode_field k E) m f = Some (Ret v)"
      "\<And>k m. k \<ge> N \<Longrightarrow> obs m f = c \<Longrightarrow> cpp_type f = CPPTYPE_MESSAGE \<Longrightarrow> HasField E m f" by blast
  have "encode_field n E m f v = Some (Ret m')"
    using e(1) n'(1) f assms(4) by (cases "field_label f") (simp_all add: singular_def encode_required_def encode_optional_def)
  moreover have "decode_field k E m f = Some (Ret v)" if k: "k \<ge> Suc N" and "obs m f = c" for k m
  proof -
    obtain k' where "k = Suc k'" "k' \<ge> N" using k by (cases k) auto
    then show ?thesis
      using e(3) [of k' m] e(4) [of k' m] that f
      by (cases "field_label f") (auto simp: singular_def decode_required_def decode_optional_def)
  qed
  ultimately show "\<exists>m' c. encode_field n E m f v = Some (Ret m') \<and> obs m' = (obs m)(f := c)
      \<and> (\<forall>k\<ge>Suc N. \<forall>m. obs m f = c \<longrightarrow> decode_field k E m f = Some (Ret v))"
    using e(2) by blast
qed

lemma field_back_absent:
  assumes R: "reflects E obs" and "\<not> is_map f" and "field_label f = LABEL_OPTIONAL" and "cpp_type f = CPPTYPE_MESSAGE"
  shows "field_back E obs f Lua_Nil 1"
  unfolding field_back_def
proof (intro allI impI)
  fix n :: nat and m
  assume n: "n \<ge> 1" and a: "obs m f = Absent"
  have "encode_field n E m f Lua_Nil = Some (Ret m)"
    using n assms(2,3) by (cases n) (simp_all add: encode_optional_def)
  moreover have "decode_field k E m f = Some (Ret Lua_Nil)" if "k \<ge> 1" "obs m f = Absent" for k :: nat and m
    using that assms(2-4) reflectsD(10) [OF R that(2)] by (cases k) (simp_all add: decode_optional_def)
  moreover have "obs m = (obs m)(f := Absent)" using a by auto
  ultimately show "\<exists>m' c. encode_field n E m f Lua_Nil = Some (Ret m') \<and> obs m' = (obs m)(f := c)
      \<and> (\<forall>k\<ge>1. \<forall>m. obs m f = c \<longrightarrow> decode_field k E m f = Some (Ret Lua_Nil))"
    by blast
qed

section \<open>Repeated fields\<close>

text \<open>The content of a repeated field, from its items.\<close>

definition items_content :: "FieldDescriptor \<Rightarrow> (proto_scalar + 'm) list \<Rightarrow> 'm field_content" where
  "items_content f xs =
     (if xs = [] then Absent
      else if cpp_type f = CPPTYPE_MESSAGE then Submessages (List.map projr xs) else Scalars (List.map projl xs))"

definition item_back :: "'m proto_env \<Rightarrow> FieldDescriptor \<Rightarrow> nat \<Rightarrow> proto_scalar + 'm \<Rightarrow> lua_value \<Rightarrow> bool" where
  "item_back E f N x v \<longleftrightarrow>
     (if cpp_type f = CPPTYPE_MESSAGE
      then \<exists>s. x = Inr s \<and> (\<forall>k\<ge>N. decode_message E (decode_field k E) s (message_type f) = Some (Ret v))
      else \<exists>s. x = Inl s \<and> from_scalar E s = v)"

lemma items_content_simps:
  "cpp_type f = CPPTYPE_MESSAGE \<Longrightarrow> content_messages (items_content f xs) = List.map projr xs \<and> content_scalars (items_content f xs) = []"
  "cpp_type f \<noteq> CPPTYPE_MESSAGE \<Longrightarrow> content_scalars (items_content f xs) = List.map projl xs \<and> content_messages (items_content f xs) = []"
  by (simp_all add: items_content_def)

lemma encode_multiple_back:
  assumes R: "reflects E obs" and S: "single_back E f v N" and n: "n \<ge> N" and a: "obs m f = items_content f xs"
  shows "\<exists>m' x. encode_multiple E (encode_field n E) m f v = Some (Ret m')
    \<and> obs m' = (obs m)(f := items_content f (xs @ [x])) \<and> item_back E f N x v"
proof (cases "cpp_type f = CPPTYPE_MESSAGE")
  case False
  then show ?thesis
    using S a by (auto simp: encode_multiple_def single_back_def reflectsD(4) [OF R] items_content_simps item_back_def
        items_content_def [of f "_ @ _"] intro!: exI [of _ "Inl (to_scalar E f v)"])
next
  case True
  then obtain s where s: "encode_message E (encode_field n E) (NewMessage E (message_type f)) (message_type f) v = Some (Ret s)"
    "\<forall>k\<ge>N. decode_message E (decode_field k E) s (message_type f) = Some (Ret v)"
    using S n by (auto simp: single_back_def message_back_def)
  then show ?thesis
    using True a by (auto simp: encode_multiple_def reflectsD(5) [OF R] items_content_simps item_back_def
        items_content_def [of f "_ @ _"] intro!: exI [of _ "Inr s"])
qed

lemma decode_multiple_back:
  assumes R: "reflects E obs" and "obs m f = items_content f xs" and "i < length xs" and "item_back E f N (xs ! i) v"
    and "k \<ge> N"
  shows "decode_multiple E (decode_field k E) m f i = Some (Ret v)"
  using assms(2-5) reflectsD(12,13) [OF R, of i m f]
  by (auto simp: decode_multiple_def item_back_def items_content_simps split: if_splits)

lemma field_size: "reflects E obs \<Longrightarrow> obs m f = items_content f xs \<Longrightarrow> FieldSize E m f = length xs"
  by (cases "cpp_type f = CPPTYPE_MESSAGE") (simp_all add: reflectsD(11) items_content_simps)

abbreviation seq_keys :: "nat \<Rightarrow> lua_value list" where
  "seq_keys n \<equiv> List.map (\<lambda>i. Lua_Integer (word_of_nat i)) [1..<n + 1]"

lemma word_small: "i < 2 ^ 32 \<Longrightarrow> j < 2 ^ 32 \<Longrightarrow> (word_of_nat i :: u64) = word_of_nat j \<longleftrightarrow> i = j"
proof -
  have "unat (word_of_nat k :: u64) = k" if "k < 2 ^ 32" for k
    using that by (simp add: unsigned_of_nat take_bit_nat_eq_self)
  then show "i < 2 ^ 32 \<Longrightarrow> j < 2 ^ 32 \<Longrightarrow> (word_of_nat i :: u64) = word_of_nat j \<longleftrightarrow> i = j" by metis
qed

lemma nth_not_before: "distinct ks \<Longrightarrow> i < length ks \<Longrightarrow> ks ! i \<notin> set (take i ks)"
  by (auto simp: in_set_conv_nth nth_eq_iff_index_eq)

lemma seq_keys_distinct: "n < 2 ^ 31 \<Longrightarrow> distinct (seq_keys n)"
  by (simp add: distinct_map inj_on_def word_small)

lemma gettable_nth:
  "distinct ks \<Longrightarrow> length ks = length vs \<Longrightarrow> i < length vs \<Longrightarrow> lua_gettable (zip ks vs) (ks ! i) = vs ! i"
  by (simp add: lua_gettable_def map_of_zip_nth)

lemma settable_new: "k \<notin> set (List.map fst t) \<Longrightarrow> lua_settable t k v = (if v = Lua_Nil then t else t @ [(k, v)])"
  by (induction t k v rule: lua_settable.induct) auto

lemma encode_elements_back:
  assumes R: "reflects E obs" and S: "\<forall>v\<in>set vs. single_back E f v N" and "n \<ge> N" and len: "length vs < 2 ^ 31"
    and "obs m f = items_content f xs" and "list_all2 (item_back E f N) xs (take i vs)" and "i + j = length vs"
  shows "\<exists>m' ys. encode_elements E (encode_field n E) f (zip (seq_keys (length vs)) vs) i j m = Some (Ret m')
    \<and> obs m' = (obs m)(f := items_content f ys) \<and> list_all2 (item_back E f N) ys vs"
  using assms(5-7)
proof (induction j arbitrary: i m xs)
  case 0
  then show ?case by (auto intro!: exI [of _ xs])
next
  case (Suc j)
  then have i: "i < length vs" by simp
  let ?t = "zip (seq_keys (length vs)) vs"
  have g: "lua_gettable ?t (Lua_Integer (word_of_nat (i + 1))) = vs ! i"
    using gettable_nth [OF seq_keys_distinct [OF len], of vs i] i by (simp del: upt_Suc)
  obtain m1 x where m1: "encode_multiple E (encode_field n E) m f (vs ! i) = Some (Ret m1)"
    "obs m1 = (obs m)(f := items_content f (xs @ [x]))" "item_back E f N x (vs ! i)"
    using encode_multiple_back [OF R _ assms(3) Suc.prems(1), of "vs ! i"] S i by auto
  have "list_all2 (item_back E f N) (xs @ [x]) (take (i + 1) vs)"
    using Suc.prems(2) m1(3) i by (simp add: take_Suc_conv_app_nth list_all2_appendI)
  moreover have "obs m1 f = items_content f (xs @ [x])" "i + 1 + j = length vs" using m1(2) Suc.prems(3) by simp_all
  ultimately obtain m' ys where r: "encode_elements E (encode_field n E) f ?t (i + 1) j m1 = Some (Ret m')"
    "obs m' = (obs m1)(f := items_content f ys)" "list_all2 (item_back E f N) ys vs"
    using Suc.IH by blast
  have "encode_elements E (encode_field n E) f ?t i (Suc j) m = Some (Ret m')" using r(1) m1(1) g by (simp del: upt_Suc)
  moreover have "obs m' = (obs m)(f := items_content f ys)" using r(2) m1(2) by (simp only: fun_upd_upd)
  ultimately show ?case using r(3) by blast
qed

lemma decode_elements_back:
  assumes R: "reflects E obs" and "obs m f = items_content f xs" and A: "list_all2 (item_back E f N) xs vs" and "k \<ge> N"
    and len: "length vs < 2 ^ 31" and nil: "\<forall>v\<in>set vs. v \<noteq> Lua_Nil" and "i + j = length vs"
  shows "decode_elements E (decode_field k E) m f i j (take i (zip (seq_keys (length vs)) vs))
    = Some (Ret (zip (seq_keys (length vs)) vs))"
  using assms(7)
proof (induction j arbitrary: i)
  case 0
  then show ?case by simp
next
  case (Suc j)
  then have i: "i < length vs" by simp
  let ?t = "zip (seq_keys (length vs)) vs"
  have len_xs: "length xs = length vs" using A by (rule list_all2_lengthD)
  have d: "decode_multiple E (decode_field k E) m f i = Some (Ret (vs ! i))"
    using decode_multiple_back [OF R assms(2) _ _ assms(4)] i len_xs list_all2_nthD2 [OF A i] by auto
  have t: "?t ! i = (Lua_Integer (word_of_nat (i + 1)), vs ! i)" using i by (simp del: upt_Suc)
  have "Lua_Integer (word_of_nat (i + 1)) \<notin> set (List.map fst (take i ?t))"
  proof -
    have "List.map fst (take i ?t) = take i (seq_keys (length vs))" by (simp add: take_map [symmetric] del: upt_Suc)
    moreover have "seq_keys (length vs) ! i \<notin> set (take i (seq_keys (length vs)))"
      using nth_not_before [OF seq_keys_distinct [OF len], of i] i by simp
    ultimately show ?thesis using i by (simp del: upt_Suc)
  qed
  then have "lua_settable (take i ?t) (Lua_Integer (word_of_nat (i + 1))) (vs ! i) = take (i + 1) ?t"
    using nil i t by (subst settable_new) (auto simp: take_Suc_conv_app_nth simp del: upt_Suc)
  then show ?case using d Suc.IH [of "i + 1"] Suc.prems by (simp del: upt_Suc)
qed

lemma field_back_repeated:
  assumes R: "reflects E obs" and L: "lua_laws E" and f: "\<not> is_map f" "field_label f = LABEL_REPEATED"
    and S: "\<forall>v\<in>set vs. single_back E f v N \<and> v \<noteq> Lua_Nil" and len: "length vs < 2 ^ 31"
  shows "field_back E obs f (lua_sequence vs) (Suc N)"
  unfolding field_back_def
proof (intro allI impI)
  fix n m
  assume "n \<ge> Suc N" and a: "obs m f = Absent"
  then obtain n' where n': "n = Suc n'" "n' \<ge> N" by (cases n) auto
  let ?t = "zip (seq_keys (length vs)) vs"
  have q: "lua_sequence vs = Lua_Table ?t" by (simp add: lua_sequence_def)
  then have l: "nat (to_i32 (int (luaL_len E ?t))) = length vs" using L S len by (auto simp: lua_laws_def to_i32_id)
  obtain m' ys where e: "encode_elements E (encode_field n' E) f ?t 0 (length vs) m = Some (Ret m')"
    "obs m' = (obs m)(f := items_content f ys)" "list_all2 (item_back E f N) ys vs"
    using encode_elements_back [OF R _ n'(2) len, of f m "[]" 0 "length vs"] S a by (auto simp: items_content_def)
  have "decode_field k E m f = Some (Ret (lua_sequence vs))" if "k \<ge> Suc N" "obs m f = items_content f ys" for k m
  proof -
    obtain k' where k': "k = Suc k'" "k' \<ge> N" using \<open>k \<ge> Suc N\<close> by (cases k) auto
    show ?thesis
      using decode_elements_back [OF R that(2) e(3) k'(2) len, of 0 "length vs"] S f k'(1) q
        field_size [OF R that(2)] list_all2_lengthD [OF e(3)]
      by (simp add: decode_repeated_def del: upt_Suc)
  qed
  then show "\<exists>m' c. encode_field n E m f (lua_sequence vs) = Some (Ret m') \<and> obs m' = (obs m)(f := c)
      \<and> (\<forall>k\<ge>Suc N. \<forall>m. obs m f = c \<longrightarrow> decode_field k E m f = Some (Ret (lua_sequence vs)))"
    using e(1,2) f n'(1) q l by (auto simp: encode_repeated_def simp del: upt_Suc)
qed

section \<open>Maps\<close>

text \<open>The message of an entry.\<close>

definition entry_back ::
  "'m proto_env \<Rightarrow> FieldDescriptor \<Rightarrow> FieldDescriptor \<Rightarrow> nat \<Rightarrow> 'm \<Rightarrow> lua_value \<times> lua_value \<Rightarrow> bool" where
  "entry_back E key val N s e \<longleftrightarrow> (\<forall>k\<ge>N. decode_field k E s key = Some (Ret (fst e)) \<and> decode_field k E s val = Some (Ret (snd e)))"

definition entries_content :: "'m list \<Rightarrow> 'm field_content" where
  "entries_content ss = (if ss = [] then Absent else Submessages ss)"

lemma entries_content_simps [simp]:
  "content_messages (entries_content ss) = ss" "content_scalars (entries_content ss) = []"
  by (simp_all add: entries_content_def)

lemma next_after_nth:
  "distinct (List.map fst t) \<Longrightarrow> i < length t \<Longrightarrow>
    next_after t (fst (t ! i)) = Some (if i + 1 < length t then Some (t ! (i + 1)) else None)"
proof (induction t arbitrary: i)
  case (Cons e t)
  obtain k v where e: "e = (k, v)" by (cases e)
  show ?case
  proof (cases i)
    case 0
    then show ?thesis using e by (cases t) auto
  next
    case (Suc j)
    then have "k \<noteq> fst (t ! j)" using Cons.prems e by (force simp: in_set_conv_nth)
    then show ?thesis using Cons.IH [of j] Cons.prems e Suc by simp
  qed
qed simp

text \<open>The key before entry \<open>i\<close>.\<close>

definition key_before :: "lua_table \<Rightarrow> nat \<Rightarrow> lua_value" where
  "key_before t i = (case i of 0 \<Rightarrow> Lua_Nil | Suc j \<Rightarrow> fst (t ! j))"

lemma lua_next_nth:
  assumes "distinct (List.map fst t)" and "\<forall>e\<in>set t. fst e \<noteq> Lua_Nil" and "i \<le> length t"
  shows "lua_next t (key_before t i) = Some (if i < length t then Some (t ! i) else None)"
proof (cases i)
  case 0
  then show ?thesis by (cases t) (auto simp: lua_next_def key_before_def)
next
  case (Suc j)
  then have "fst (t ! j) \<noteq> Lua_Nil" using assms(2,3) by (meson Suc_le_lessD nth_mem)
  then show ?thesis using next_after_nth [OF assms(1), of j] assms(3) Suc by (simp add: lua_next_def key_before_def)
qed

lemma encode_entry_back:
  assumes R: "reflects E obs" and K: "field_back E obs key k N" and V: "field_back E obs val v N" and "key \<noteq> val" and "n \<ge> N"
  shows "\<exists>s s1. encode_field n E (NewMessage E d) key k = Some (Ret s) \<and> encode_field n E s val v = Some (Ret s1)
    \<and> entry_back E key val N s1 (k, v)"
proof -
  have "obs (NewMessage E d) key = Absent" by (simp add: reflectsD(1) [OF R])
  then obtain s c where s: "encode_field n E (NewMessage E d) key k = Some (Ret s)" "obs s = (obs (NewMessage E d))(key := c)"
    "\<forall>k'\<ge>N. \<forall>m. obs m key = c \<longrightarrow> decode_field k' E m key = Some (Ret k)"
    using K assms(5) unfolding field_back_def by blast
  have "obs s val = Absent" using s(2) assms(4) by (simp add: reflectsD(1) [OF R])
  then obtain s1 c1 where s1: "encode_field n E s val v = Some (Ret s1)" "obs s1 = (obs s)(val := c1)"
    "\<forall>k'\<ge>N. \<forall>m. obs m val = c1 \<longrightarrow> decode_field k' E m val = Some (Ret v)"
    using V assms(5) unfolding field_back_def by blast
  have "obs s1 key = c" "obs s1 val = c1" using s(2) s1(2) assms(4) by simp_all
  then have "entry_back E key val N s1 (k, v)" using s(3) s1(3) by (simp add: entry_back_def)
  then show ?thesis using s(1) s1(1) by blast
qed

lemma encode_entries_back:
  assumes R: "reflects E obs" and L: "lua_laws E"
    and KV: "\<forall>(k, v)\<in>set t. lua_fits E (cpp_type key) k \<and> field_back E obs key k N \<and> field_back E obs val v N"
    and "key \<noteq> val" and "n \<ge> N" and D: "distinct (List.map fst t)"
    and "obs m f = entries_content ss" and "list_all2 (entry_back E key val N) ss (take i t)" and "i + j = length t" and "q > j"
  shows "\<exists>m' ss'. encode_entries E (encode_field n E) f key val t q (key_before t i) m = Some (Ret m')
    \<and> obs m' = (obs m)(f := entries_content ss') \<and> list_all2 (entry_back E key val N) ss' t"
  using assms(7-10)
proof (induction j arbitrary: i m ss q)
  have nn: "\<forall>e\<in>set t. fst e \<noteq> Lua_Nil" using KV fits_cases [OF L] by fastforce
  case 0
  obtain q' where "q = Suc q'" using 0(4) by (cases q) auto
  moreover have "lua_next t (key_before t i) = Some None" using lua_next_nth [OF D nn, of i] 0 by simp
  ultimately show ?case using 0 by (auto intro!: exI [of _ ss])
next
  have nn: "\<forall>e\<in>set t. fst e \<noteq> Lua_Nil" using KV fits_cases [OF L] by fastforce
  case (Suc j)
  then have i: "i < length t" by simp
  obtain q' where q: "q = Suc q'" "j < q'" using Suc.prems(4) by (cases q) auto
  obtain k v where e: "t ! i = (k, v)" by (cases "t ! i")
  then have kv: "lua_fits E (cpp_type key) k" "field_back E obs key k N" "field_back E obs val v N"
    using KV nth_mem [OF i] by auto
  have nx: "lua_next t (key_before t i) = Some (Some (k, v))" using lua_next_nth [OF D nn, of i] i e by simp
  have ks: "key_slot E key k = key_before t (i + 1)" using fits_cases [OF L kv(1)] e by (simp add: key_before_def)
  obtain s s1 where s: "encode_field n E (NewMessage E (message_type f)) key k = Some (Ret s)"
    "encode_field n E s val v = Some (Ret s1)" "entry_back E key val N s1 (k, v)"
    using encode_entry_back [OF R kv(2,3) assms(4,5)] by blast
  let ?m = "AddMessage E m f s1"
  have o: "obs ?m = (obs m)(f := entries_content (ss @ [s1]))"
    using Suc.prems(1) by (simp add: reflectsD(5) [OF R]) (simp add: entries_content_def)
  have "list_all2 (entry_back E key val N) (ss @ [s1]) (take (i + 1) t)"
    using Suc.prems(2) s(3) i e by (simp add: take_Suc_conv_app_nth list_all2_appendI)
  moreover have "obs ?m f = entries_content (ss @ [s1])" "i + 1 + j = length t" using o Suc.prems(3) by simp_all
  ultimately obtain m' ss' where r: "encode_entries E (encode_field n E) f key val t q' (key_before t (i + 1)) ?m = Some (Ret m')"
    "obs m' = (obs ?m)(f := entries_content ss')" "list_all2 (entry_back E key val N) ss' t"
    using Suc.IH q(2) by blast
  have "encode_entries E (encode_field n E) f key val t q (key_before t i) m = Some (Ret m')"
    using r(1) q(1) nx s(1,2) ks by simp
  moreover have "obs m' = (obs m)(f := entries_content ss')" using r(2) o by (simp only: fun_upd_upd)
  ultimately show ?case using r(3) by blast
qed

lemma decode_entries_back:
  assumes R: "reflects E obs" and "obs m f = entries_content ss" and A: "list_all2 (entry_back E key val N) ss t" and "k \<ge> N"
    and D: "distinct (List.map fst t)" and nil: "\<forall>e\<in>set t. fst e \<noteq> Lua_Nil \<and> snd e \<noteq> Lua_Nil" and "i + j = length t"
  shows "decode_entries E (decode_field k E) m f key val i j (take i t) = Some (Ret t)"
  using assms(7)
proof (induction j arbitrary: i)
  case (Suc j)
  then have i: "i < length t" by simp
  obtain a b where e: "t ! i = (a, b)" by (cases "t ! i")
  have ss: "length ss = length t" using A by (rule list_all2_lengthD)
  have g: "GetRepeatedMessage E m f i = ss ! i" using reflectsD(13) [OF R, of i m f] assms(2) i ss by simp
  have d: "decode_field k E (ss ! i) key = Some (Ret a)" "decode_field k E (ss ! i) val = Some (Ret b)"
    using list_all2_nthD2 [OF A i] assms(4) e by (simp_all add: entry_back_def)
  have n: "a \<noteq> Lua_Nil" "b \<noteq> Lua_Nil" using nil nth_mem [OF i] e by auto
  have "a \<notin> set (List.map fst (take i t))"
    using nth_not_before [OF D, of i] i e by (simp add: take_map)
  then have "lua_settable (take i t) a b = take (i + 1) t"
    using n i e by (subst settable_new) (auto simp: take_Suc_conv_app_nth)
  then show ?case using g d n Suc.IH [of "i + 1"] Suc.prems by simp
qed simp

lemma field_back_map:
  assumes R: "reflects E obs" and L: "lua_laws E" and f: "is_map f" "proto_fields E (message_type f) = [key, val]" "key \<noteq> val"
    and KV: "\<forall>(k, v)\<in>set t. lua_fits E (cpp_type key) k \<and> field_back E obs key k N \<and> field_back E obs val v N \<and> v \<noteq> Lua_Nil"
    and D: "distinct (List.map fst t)"
  shows "field_back E obs f (Lua_Table t) (Suc (N + length t + 1))"
  unfolding field_back_def
proof (intro allI impI)
  fix n m
  assume "n \<ge> Suc (N + length t + 1)" and a: "obs m f = Absent"
  then obtain n' where n': "n = Suc n'" "n' \<ge> N" "n' > length t" by (cases n) auto
  have nn: "\<forall>e\<in>set t. fst e \<noteq> Lua_Nil \<and> snd e \<noteq> Lua_Nil" using KV fits_cases [OF L] by fastforce
  have "\<forall>(k, v)\<in>set t. lua_fits E (cpp_type key) k \<and> field_back E obs key k N \<and> field_back E obs val v N" using KV by fast
  moreover have "obs m f = entries_content []" using a by (simp add: entries_content_def)
  ultimately obtain m' ss where
    e: "encode_entries E (encode_field n' E) f key val t n' (key_before t 0) m = Some (Ret m')"
      "obs m' = (obs m)(f := entries_content ss)" "list_all2 (entry_back E key val N) ss t"
    using encode_entries_back [OF R L _ f(3) n'(2) D, where i = 0 and j = "length t" and q = n' and ss = "[]" and m = m and f = f] n'(3)
    by (auto simp del: entries_content_simps)
  have "decode_field k E m f = Some (Ret (Lua_Table t))"
    if k: "k \<ge> Suc (N + length t + 1)" and "obs m f = entries_content ss" for k m
  proof -
    obtain k' where k': "k = Suc k'" "k' \<ge> N" using k by (cases k) auto
    have "FieldSize E m f = length t" using reflectsD(11) [OF R, of m f] that(2) list_all2_lengthD [OF e(3)] by simp
    then show ?thesis
      using decode_entries_back [OF R that(2) e(3) k'(2) D nn, of 0 "length t"] f k'(1) by (simp add: decode_table_def)
  qed
  moreover have "encode_field n E m f (Lua_Table t) = Some (Ret m')"
    using e(1) f n'(1) by (simp add: encode_table_def key_before_def)
  ultimately show "\<exists>m' c. encode_field n E m f (Lua_Table t) = Some (Ret m') \<and> obs m' = (obs m)(f := c)
      \<and> (\<forall>k\<ge>Suc (N + length t + 1). \<forall>m. obs m f = c \<longrightarrow> decode_field k E m f = Some (Ret (Lua_Table t)))"
    using e(2) by blast
qed

section \<open>Messages\<close>

lemma record_lookup:
  "distinct ns \<Longrightarrow> length ns = length vs \<Longrightarrow> i < length vs \<Longrightarrow> lua_record ns vs = Lua_Table t
    \<Longrightarrow> lua_gettable t (Lua_String (ns ! i)) = vs ! i"
proof -
  assume d: "distinct ns" and l: "length ns = length vs" and i: "i < length vs" and t: "lua_record ns vs = Lua_Table t"
  have z: "distinct (List.map fst (zip (List.map Lua_String ns) vs))" using d l by (simp add: distinct_map inj_on_def)
  have t': "t = filter (\<lambda>(k, v). v \<noteq> Lua_Nil) (zip (List.map Lua_String ns) vs)" using t by (simp add: lua_record_def)
  have e: "(Lua_String (ns ! i), vs ! i) \<in> set (zip (List.map Lua_String ns) vs)"
    using i l by (force simp: set_zip)
  show "lua_gettable t (Lua_String (ns ! i)) = vs ! i"
  proof (cases "vs ! i = Lua_Nil")
    case False
    then have "(Lua_String (ns ! i), vs ! i) \<in> set t" using e t' by simp
    moreover have "distinct (List.map fst t)" using distinct_map_filter [OF z] t' by blast
    ultimately show ?thesis by (simp add: lua_gettable_def)
  next
    case True
    have "Lua_String (ns ! i) \<notin> fst ` set t"
    proof
      assume "Lua_String (ns ! i) \<in> fst ` set t"
      then obtain v where "(Lua_String (ns ! i), v) \<in> set (zip (List.map Lua_String ns) vs)" "v \<noteq> Lua_Nil"
        using t' by auto
      then show False using eq_key_imp_eq_value [OF z e] True by blast
    qed
    then have "map_of t (Lua_String (ns ! i)) = None" by (simp add: map_of_eq_None_iff)
    then show ?thesis using True by (simp add: lua_gettable_def)
  qed
qed

text \<open>Fields and their values, in order: the ones in \<open>ds\<close> are encoded.\<close>

lemma encode_fields_back:
  assumes R: "reflects E obs" and "length fs = length vs" and B: "\<forall>(f, v)\<in>set (zip fs vs). field_back E obs f v N" and "n \<ge> N"
    and "distinct fs" and "\<forall>f\<in>set fs. obs m f = Absent" and "\<forall>(f, v)\<in>set (zip fs vs). lua_gettable t (Lua_String (field_name f)) = v"
  shows "\<exists>s. encode_fields (encode_field n E) fs m t = Some (Ret s) \<and> (\<forall>g. g \<notin> set fs \<longrightarrow> obs s g = obs m g)
    \<and> (\<forall>(f, v)\<in>set (zip fs vs). \<forall>k\<ge>N. decode_field k E s f = Some (Ret v))"
  using assms(2,3,5-7)
proof (induction fs vs arbitrary: m rule: list_induct2)
  case (Cons f fs v vs)
  have "field_back E obs f v N" "obs m f = Absent" using Cons.prems(1,3) by simp_all
  then obtain m1 c where m1: "encode_field n E m f v = Some (Ret m1)" "obs m1 = (obs m)(f := c)"
    "\<forall>k\<ge>N. \<forall>m. obs m f = c \<longrightarrow> decode_field k E m f = Some (Ret v)"
    using assms(4) unfolding field_back_def by blast
  have "\<forall>g\<in>set fs. obs m1 g = Absent" using m1(2) Cons.prems(2,3) by auto
  then obtain s where s: "encode_fields (encode_field n E) fs m1 t = Some (Ret s)" "\<forall>g. g \<notin> set fs \<longrightarrow> obs s g = obs m1 g"
    "\<forall>(f, v)\<in>set (zip fs vs). \<forall>k\<ge>N. decode_field k E s f = Some (Ret v)"
    using Cons.IH [of m1] Cons.prems by auto
  have "obs s f = c" using s(2) m1(2) Cons.prems(2) by auto
  then have "\<forall>k\<ge>N. decode_field k E s f = Some (Ret v)" using m1(3) by blast
  moreover have "lua_gettable t (Lua_String (field_name f)) = v" using Cons.prems(4) by simp
  moreover have "\<forall>g. g \<notin> set (f # fs) \<longrightarrow> obs s g = obs m g" using s(2) m1(2) by simp
  moreover have "encode_fields (encode_field n E) (f # fs) m t = encode_fields (encode_field n E) fs m1 t"
    using m1(1) calculation(2) by simp
  ultimately show ?case using s(1,3) by (intro exI [of _ s]) simp
qed simp

lemma decode_fields_back:
  assumes "length fs = length vs" and "\<forall>(f, v)\<in>set (zip fs vs). decode_field k E s f = Some (Ret v)"
    and "distinct (List.map field_name fs)" and "\<forall>f\<in>set fs. Lua_String (field_name f) \<notin> fst ` set t"
  shows "decode_fields (decode_field k E) s fs t
    = Some (Ret (t @ filter (\<lambda>(k, v). v \<noteq> Lua_Nil) (zip (List.map (\<lambda>f. Lua_String (field_name f)) fs) vs)))"
  using assms
proof (induction fs vs arbitrary: t rule: list_induct2)
  case (Cons f fs v vs)
  let ?t = "lua_settable t (Lua_String (field_name f)) v"
  have t: "?t = (if v = Lua_Nil then t else t @ [(Lua_String (field_name f), v)])"
    using Cons.prems(3) by (intro settable_new) simp
  moreover have "\<forall>g\<in>set fs. field_name g \<noteq> field_name f" using Cons.prems(2) by (auto simp: image_iff)
  ultimately have "\<forall>g\<in>set fs. Lua_String (field_name g) \<notin> fst ` set ?t" using Cons.prems(3) by auto
  then show ?case using Cons.IH [of ?t] Cons.prems t by auto
qed simp

lemma message_back_record:
  assumes R: "reflects E obs" and "distinct (List.map field_name (proto_fields E d))" and l: "length vs = length (proto_fields E d)"
    and B: "\<forall>(f, v)\<in>set (zip (proto_fields E d) vs). field_back E obs f v N"
  shows "message_back E d (lua_record (List.map field_name (proto_fields E d)) vs) N"
  unfolding message_back_def
proof (intro allI impI)
  fix n
  assume n: "n \<ge> N"
  let ?fs = "proto_fields E d"
  obtain t where t: "lua_record (List.map field_name ?fs) vs = Lua_Table t" by (simp add: lua_record_def)
  have look: "\<forall>(f, v)\<in>set (zip ?fs vs). lua_gettable t (Lua_String (field_name f)) = v"
    using record_lookup [OF assms(2) _ _ t] l by (auto simp: set_zip)
  have "distinct ?fs" using assms(2) by (simp add: distinct_map)
  moreover have "\<forall>f\<in>set ?fs. obs (NewMessage E d) f = Absent" by (simp add: reflectsD(1) [OF R])
  ultimately obtain s where s: "encode_fields (encode_field n E) ?fs (NewMessage E d) t = Some (Ret s)"
    "\<forall>(f, v)\<in>set (zip ?fs vs). \<forall>k\<ge>N. decode_field k E s f = Some (Ret v)"
    using encode_fields_back [OF R l [symmetric] B n _ _ look] by blast
  have "decode_message E (decode_field k E) s d = Some (Ret (Lua_Table t))" if "k \<ge> N" for k
  proof -
    have "\<forall>(f, v)\<in>set (zip ?fs vs). decode_field k E s f = Some (Ret v)" using s(2) that by blast
    then have "decode_fields (decode_field k E) s ?fs []
      = Some (Ret (filter (\<lambda>(k, v). v \<noteq> Lua_Nil) (zip (List.map (\<lambda>f. Lua_String (field_name f)) ?fs) vs)))"
      using decode_fields_back [OF l [symmetric] _ assms(2), of k E s "[]"] by simp
    then show ?thesis using t by (simp add: decode_message_def lua_record_def o_def)
  qed
  then show "\<exists>s. encode_message E (encode_field n E) (NewMessage E d) d (lua_record (List.map field_name ?fs) vs) = Some (Ret s)
      \<and> (\<forall>k\<ge>N. decode_message E (decode_field k E) s d = Some (Ret (lua_record (List.map field_name ?fs) vs)))"
    using s(1) t by (auto simp: encode_message_def)
qed

lemma conf_back:
  assumes R: "reflects E obs" and L: "lua_laws E"
  shows "conf_single E f v \<Longrightarrow> \<exists>N. single_back E f v N"
    and "conf_field E f v \<Longrightarrow> \<exists>N. field_back E obs f v N"
    and "conf_message E d v \<Longrightarrow> \<exists>N. message_back E d v N"
proof (induction rule: conf_single_conf_field_conf_message.inducts)
  case (conf_scalar f v)
  then show ?case using fits_cases [OF L conf_scalar] by (simp add: single_back_def)
next
  case (conf_sub f v)
  then show ?case by (simp add: single_back_def)
next
  case (conf_set f v)
  then show ?case using field_back_set [OF R] conf_single_not_nil by blast
next
  case (conf_absent f)
  then show ?case using field_back_absent [OF R] by blast
next
  case (conf_repeated f vs)
  have "\<exists>N. \<forall>v\<in>set vs. single_back E f v N"
    by (rule common_bound) (use single_back_mono conf_repeated.IH in \<open>auto\<close>)
  then obtain N where "\<forall>v\<in>set vs. single_back E f v N \<and> v \<noteq> Lua_Nil"
    using conf_repeated conf_single_not_nil by blast
  then show ?case using field_back_repeated [OF R L] conf_repeated.hyps by blast
next
  case (conf_map f key val kvs)
  have h: "is_map f" "proto_fields E (message_type f) = [key, val]" "key \<noteq> val" "singular key" "singular val"
    "distinct (List.map fst kvs)" using conf_map by simp_all
  have e: "\<exists>N. (\<lambda>(k, v) N. field_back E obs key k N \<and> field_back E obs val v N) e N" if e: "e \<in> set kvs" for e
  proof -
    obtain k v where kv: "e = (k, v)" by (cases e)
    then have c: "lua_fits E (cpp_type key) k" "conf_single E val v" "\<exists>N. single_back E val v N"
      using conf_map e by blast+
    have "single_back E key k 0" using fits_cases [OF L c(1)] by (simp add: single_back_def)
    then have "field_back E obs key k (Suc 0)" using field_back_set [OF R] h(4) fits_cases [OF L c(1)] by blast
    moreover obtain N where "field_back E obs val v (Suc N)"
      using field_back_set [OF R] h(5) c(3) conf_single_not_nil [OF c(2)] by blast
    ultimately show ?thesis
      using field_back_mono [of E obs] kv by (intro exI [of _ "Suc N"]) auto
  qed
  have "\<exists>N. \<forall>e\<in>set kvs. (\<lambda>(k, v) N. field_back E obs key k N \<and> field_back E obs val v N) e N"
    by (rule common_bound) (use field_back_mono e in \<open>fastforce+\<close>)
  then obtain N where "\<forall>(k, v)\<in>set kvs. field_back E obs key k N \<and> field_back E obs val v N" by auto
  then have "\<forall>(k, v)\<in>set kvs. lua_fits E (cpp_type key) k \<and> field_back E obs key k N \<and> field_back E obs val v N \<and> v \<noteq> Lua_Nil"
    using conf_map conf_single_not_nil by fast
  then show ?case using field_back_map [OF R L h(1-3) _ h(6)] by blast
next
  case (conf_record d vs)
  have h: "distinct (List.map field_name (proto_fields E d))" "length vs = length (proto_fields E d)"
    using conf_record by simp_all
  have e: "\<exists>N. (\<lambda>(f, v). field_back E obs f v) e N" if "e \<in> set (zip (proto_fields E d) vs)" for e
    using that conf_record by (auto simp: set_zip)
  have "\<exists>N. \<forall>e\<in>set (zip (proto_fields E d) vs). (\<lambda>(f, v). field_back E obs f v) e N"
    by (rule common_bound) (use field_back_mono e in \<open>fastforce+\<close>)
  then obtain N where "\<forall>(f, v)\<in>set (zip (proto_fields E d) vs). field_back E obs f v N" by fastforce
  then show ?case using message_back_record [OF R h] by blast
qed

end
