(* ===== verification/Proto_Results.thy ===== *)
theory Proto_Results
  imports Proto_Roundtrip
begin

text \<open>
  What encoding and decoding guarantee for the functions a script calls: the round trip, also for \<open>pack\<close> and \<open>unpack\<close>, and
  two failures, a map with a number as the key of a string field and the creation of a recursive message.
\<close>

section \<open>An environment\<close>

text \<open>Messages as functions from fields to their contents, to show that the laws can hold.\<close>

datatype demo_message = Demo_message "FieldDescriptor \<Rightarrow> demo_message field_content"

fun demo_obs :: "demo_message \<Rightarrow> FieldDescriptor \<Rightarrow> demo_message field_content" where
  "demo_obs (Demo_message c) = c"

definition demo_field :: "byte list \<Rightarrow> proto_label \<Rightarrow> bool \<Rightarrow> cpp_type \<Rightarrow> nat \<Rightarrow> FieldDescriptor" where
  "demo_field nm lab mp ty d =
     \<lparr>field_name = nm, field_number = 1, field_label = lab, is_map = mp, has_presence = (ty = CPPTYPE_MESSAGE), cpp_type = ty, message_type = d\<rparr>"

text \<open>Type 1 is the entry of a map from strings to integers; the other types are recursive.\<close>

definition demo_fields :: "nat \<Rightarrow> FieldDescriptor list" where
  "demo_fields d =
     (if d = 1 then [demo_field [107] LABEL_OPTIONAL False CPPTYPE_STRING 0, demo_field [118] LABEL_OPTIONAL False CPPTYPE_INT32 0]
      else [demo_field [97] LABEL_OPTIONAL True CPPTYPE_MESSAGE 1, demo_field [98] LABEL_OPTIONAL False CPPTYPE_MESSAGE 0])"

definition demo_env :: "(nat \<Rightarrow> byte list \<Rightarrow> demo_message option) \<Rightarrow> demo_message proto_env" where
  "demo_env prs =
     \<lparr>FindMessageTypeByName = \<lambda>s. Some (from_le s),
      full_name = (\<lambda>d. to_le d d),
      proto_fields = demo_fields,
      NewMessage = (\<lambda>d. Demo_message (\<lambda>f. Absent)),
      SetScalar = (\<lambda>m f v. Demo_message ((demo_obs m)(f := scalar_content f v))),
      AddScalar = (\<lambda>m f v. Demo_message ((demo_obs m)(f := Scalars (content_scalars (demo_obs m f) @ [v])))),
      GetScalar = (\<lambda>m f. case demo_obs m f of Single v \<Rightarrow> v | _ \<Rightarrow> default_scalar (cpp_type f)),
      GetRepeatedScalar = (\<lambda>m f i. content_scalars (demo_obs m f) ! i),
      MutableMessage = (\<lambda>m f. case demo_obs m f of Submessage s \<Rightarrow> s | _ \<Rightarrow> Demo_message (\<lambda>f. Absent)),
      SetMessage = (\<lambda>m f s. Demo_message ((demo_obs m)(f := Submessage s))),
      AddMessage = (\<lambda>m f s. Demo_message ((demo_obs m)(f := Submessages (content_messages (demo_obs m f) @ [s])))),
      GetMessage = (\<lambda>m f. case demo_obs m f of Submessage s \<Rightarrow> s | _ \<Rightarrow> Demo_message (\<lambda>f. Absent)),
      GetRepeatedMessage = (\<lambda>m f i. content_messages (demo_obs m f) ! i),
      HasField = (\<lambda>m f. demo_obs m f \<noteq> Absent),
      FieldSize = (\<lambda>m f. length (content_scalars (demo_obs m f)) + length (content_messages (demo_obs m f))),
      Serialize = (\<lambda>m. Some [1]),
      Parse = prs,
      lua_tonumber = (\<lambda>v. case v of Lua_Number x \<Rightarrow> x | _ \<Rightarrow> 0),
      lua_tointeger = (\<lambda>v. case v of Lua_Integer i \<Rightarrow> i | _ \<Rightarrow> 0),
      lua_tolstring = (\<lambda>v. case v of Lua_String s \<Rightarrow> s | _ \<Rightarrow> [49]),
      luaL_len = length,
      to_float = ucast,
      to_double = ucast\<rparr>"

lemma demo_reflects: "reflects (demo_env prs) demo_obs"
  by (simp add: reflects_def demo_env_def)

lemma sequence_length: "lua_sequence vs = Lua_Table t \<Longrightarrow> length t = length vs"
  by (auto simp: lua_sequence_def simp del: upt_Suc)

lemma demo_lua_laws: "lua_laws (demo_env prs)"
  using sequence_length by (auto simp: lua_laws_def demo_env_def)

text \<open>\<open>{a = {k = 5}}\<close>, without the optional message \<open>b\<close>.\<close>

definition demo_value :: lua_value where
  "demo_value = lua_record [[97], [98]] [Lua_Table [(Lua_String [107], Lua_Integer 5)], Lua_Nil]"

lemma demo_conf: "conf_message (demo_env prs) 0 demo_value"
proof -
  let ?E = "demo_env prs" and ?v = "Lua_Table [(Lua_String [107], Lua_Integer 5)]"
  have fs: "proto_fields ?E 0 = [demo_field [97] LABEL_OPTIONAL True CPPTYPE_MESSAGE 1, demo_field [98] LABEL_OPTIONAL False CPPTYPE_MESSAGE 0]"
    "proto_fields ?E 1 = [demo_field [107] LABEL_OPTIONAL False CPPTYPE_STRING 0, demo_field [118] LABEL_OPTIONAL False CPPTYPE_INT32 0]"
    by (simp_all add: demo_env_def demo_fields_def)
  have "conf_single ?E (demo_field [118] LABEL_OPTIONAL False CPPTYPE_INT32 0) (Lua_Integer 5)"
    by (rule conf_scalar) (simp add: lua_fits_def demo_field_def)
  then have a: "conf_field ?E (demo_field [97] LABEL_OPTIONAL True CPPTYPE_MESSAGE 1) ?v"
    using fs(2) by (intro conf_map) (auto simp: demo_field_def singular_def lua_fits_def)
  have b: "conf_field ?E (demo_field [98] LABEL_OPTIONAL False CPPTYPE_MESSAGE 0) Lua_Nil"
    by (rule conf_absent) (simp_all add: demo_field_def)
  have "conf_message ?E 0 (lua_record (List.map field_name (proto_fields ?E 0)) [?v, Lua_Nil])"
    by (rule conf_record) (use fs(1) a b in \<open>auto simp: demo_field_def less_Suc_eq nth_Cons'\<close>)
  then show ?thesis using fs(1) by (simp add: demo_value_def demo_field_def)
qed

section \<open>The round trip\<close>

text \<open>A table of the shape of its message type is encoded, and decoding what was encoded gives the same table back,
  with scalars, nested messages, repeated fields and maps: some amount of fuel is enough for both, and every
  larger amount. Protobuf is assumed to keep what is set in a message, Lua to keep values that have the type
  that is asked for. The wire format enters by the premise that the serialized message parses as it was, which protobuf
  grants for maps of at most one entry; it may permute the entries of a larger one. The nesting is limited by the stack of
  Lua, which is not part of the model.\<close>

theorem proto_roundtrip:
  assumes "reflects E obs" and "lua_laws E" and "FindMessageTypeByName E proto = Some d" and "conf_message E d v"
  shows "\<exists>N. \<forall>n\<ge>N. \<exists>m. encode_message E (encode_field n E) (NewMessage E d) d v = Some (Ret m)
    \<and> (\<forall>b. Serialize E m = Some b \<and> Parse E d b = Some m \<longrightarrow>
          proto_encode n E proto v = Some (Ret (Lua_String b)) \<and> (\<forall>k\<ge>N. proto_decode k E proto b = Some (Ret v)))"
proof -
  obtain N where "message_back E d v N" using conf_back(3) [OF assms(1,2,4)] ..
  then show ?thesis
    using assms(3) unfolding message_back_def
    by (intro exI [of _ N]) (fastforce simp: proto_encode_def proto_decode_def push_bytes_def)
qed

text \<open>What the encoder makes of \<open>demo_value\<close>.\<close>

definition demo_result :: demo_message where
  "demo_result = Demo_message ((\<lambda>f. Absent)(demo_field [97] LABEL_OPTIONAL True CPPTYPE_MESSAGE 1 :=
     Submessages [Demo_message ((\<lambda>f. Absent)(demo_field [107] LABEL_OPTIONAL False CPPTYPE_STRING 0 := Single (P_string [107]),
       demo_field [118] LABEL_OPTIONAL False CPPTYPE_INT32 0 := Single (P_int32 5)))]))"

lemma demo_encoded:
  "encode_message (demo_env prs) (encode_field (Suc (Suc (Suc n))) (demo_env prs)) (NewMessage (demo_env prs) 0) 0 demo_value
    = Some (Ret demo_result)"
  by (simp add: encode_message_def demo_value_def lua_record_def demo_env_def demo_fields_def demo_field_def encode_table_def
      lua_gettable_def lua_next_def encode_optional_def encode_single_def to_scalar_def key_slot_def demo_result_def
      scalar_content_def default_scalar_def)

theorem proto_roundtrip_witness:
  "\<exists>prs N. \<forall>n\<ge>N. proto_encode n (demo_env prs) [] demo_value = Some (Ret (Lua_String [1]))
    \<and> proto_decode n (demo_env prs) [] [1] = Some (Ret demo_value)"
proof -
  let ?E = "demo_env (\<lambda>_ _. Some demo_result)"
  have "FindMessageTypeByName ?E [] = Some 0" by (simp add: demo_env_def)
  from proto_roundtrip [OF demo_reflects demo_lua_laws this demo_conf] obtain N where
    N: "\<And>n. n \<ge> N \<Longrightarrow> \<exists>m. encode_message ?E (encode_field n ?E) (NewMessage ?E 0) 0 demo_value = Some (Ret m)
      \<and> (\<forall>b. Serialize ?E m = Some b \<and> Parse ?E 0 b = Some m \<longrightarrow>
            proto_encode n ?E [] demo_value = Some (Ret (Lua_String b)) \<and> (\<forall>k\<ge>N. proto_decode k ?E [] b = Some (Ret demo_value)))"
    by blast
  have "proto_encode n ?E [] demo_value = Some (Ret (Lua_String [1])) \<and> proto_decode n ?E [] [1] = Some (Ret demo_value)"
    if n: "n \<ge> N + 3" for n
  proof -
    obtain k where "n = N + 3 + k" using n le_Suc_ex by blast
    then have "n = Suc (Suc (Suc (N + k)))" by simp
    then have "encode_message ?E (encode_field n ?E) (NewMessage ?E 0) 0 demo_value = Some (Ret demo_result)"
      by (simp only: demo_encoded)
    moreover have "Serialize ?E demo_result = Some [1]" "Parse ?E 0 [1] = Some demo_result" by (simp_all add: demo_env_def)
    ultimately show ?thesis using N [of n] n by auto
  qed
  then show ?thesis by blast
qed

section \<open>Pack and unpack\<close>

lemma pack_as_record:
  "length fs = length vs \<Longrightarrow> \<forall>(f, v)\<in>set (zip fs vs). lua_gettable t (Lua_String (field_name f)) = v
    \<Longrightarrow> pack_fields rec fs vs m = encode_fields rec fs m t"
proof (induction fs vs arbitrary: m rule: list_induct2)
  case (Cons f fs v vs)
  then have "pack_fields rec fs vs = (\<lambda>m. encode_fields rec fs m t)" by auto
  then show ?case using Cons.prems by simp
qed simp

lemma unpack_back:
  "length fs = length vs \<Longrightarrow> \<forall>(f, v)\<in>set (zip fs vs). rec m f = Some (Ret v) \<Longrightarrow> unpack_fields rec m fs = Some (Ret vs)"
  by (induction fs vs rule: list_induct2) auto

text \<open>Values for the fields in the order of their numbers are packed, and unpacking gives them back.\<close>

lemma proto_pack_roundtrip:
  assumes R: "reflects E obs" and L: "lua_laws E" and f: "FindMessageTypeByName E proto = Some d"
    and names: "distinct (List.map field_name (proto_fields E d))" and l: "length vs = length (proto_fields E d)"
    and c: "\<And>i. i < length vs \<Longrightarrow> conf_field E (SortFieldsByNumber (proto_fields E d) ! i) (vs ! i)"
  shows "\<exists>N. \<forall>n\<ge>N. \<exists>m. pack_fields (encode_field n E) (SortFieldsByNumber (proto_fields E d)) vs (NewMessage E d) = Some (Ret m)
    \<and> (\<forall>b. Serialize E m = Some b \<and> Parse E d b = Some m \<longrightarrow>
          proto_pack n E proto vs = Some (Ret (Lua_String b)) \<and> (\<forall>k\<ge>N. proto_unpack k E proto b = Some (Ret vs)))"
proof -
  let ?fs = "SortFieldsByNumber (proto_fields E d)"
  have d: "distinct (List.map field_name ?fs)" and lf: "length ?fs = length vs"
    using names l by (simp_all add: SortFieldsByNumber_def distinct_map)
  have "\<exists>N. (\<lambda>(f, v). field_back E obs f v) e N" if "e \<in> set (zip ?fs vs)" for e
    using that conf_back(2) [OF R L c] lf by (auto simp: set_zip)
  then have "\<exists>N. \<forall>e\<in>set (zip ?fs vs). (\<lambda>(f, v). field_back E obs f v) e N"
    by (intro common_bound) (auto intro: field_back_mono)
  then obtain N where N: "\<forall>(f, v)\<in>set (zip ?fs vs). field_back E obs f v N" by fastforce
  obtain t where t: "lua_record (List.map field_name ?fs) vs = Lua_Table t" by (simp add: lua_record_def)
  have look: "\<forall>(f, v)\<in>set (zip ?fs vs). lua_gettable t (Lua_String (field_name f)) = v"
    using record_lookup [OF d _ _ t] lf by (auto simp: set_zip)
  have new: "\<forall>f\<in>set ?fs. obs (NewMessage E d) f = Absent" by (simp add: reflectsD(1) [OF R])
  have "\<exists>m. pack_fields (encode_field n E) ?fs vs (NewMessage E d) = Some (Ret m)
      \<and> (\<forall>b. Serialize E m = Some b \<and> Parse E d b = Some m \<longrightarrow>
            proto_pack n E proto vs = Some (Ret (Lua_String b)) \<and> (\<forall>k\<ge>N. proto_unpack k E proto b = Some (Ret vs)))"
    if n: "n \<ge> N" for n
  proof -
    have "distinct ?fs" using d by (simp add: distinct_map)
    then obtain m where m: "encode_fields (encode_field n E) ?fs (NewMessage E d) t = Some (Ret m)"
      "\<forall>(f, v)\<in>set (zip ?fs vs). \<forall>k\<ge>N. decode_field k E m f = Some (Ret v)"
      using encode_fields_back [OF R lf N n _ new look] by blast
    have p: "pack_fields (encode_field n E) ?fs vs (NewMessage E d) = Some (Ret m)"
      using pack_as_record [OF lf look, where rec = "encode_field n E" and m = "NewMessage E d"] m(1) by simp
    have "unpack_fields (decode_field k E) m ?fs = Some (Ret vs)" if "k \<ge> N" for k
      using m(2) that by (intro unpack_back [OF lf]) auto
    then show ?thesis using p f by (auto simp: proto_pack_def proto_unpack_def push_bytes_def)
  qed
  then show ?thesis by blast
qed

section \<open>Failures\<close>

lemma next_after_none: "k \<notin> fst ` set t \<Longrightarrow> next_after t k = None"
  by (induction t k rule: next_after.induct) auto

text \<open>A map whose keys are strings cannot be encoded from a table that has a number as its first key:
  \<open>lua_tolstring\<close> replaces the key in the stack by its string, and \<open>lua_next\<close> raises an error for a key that is not in the table.\<close>

theorem proto_number_key_raises:
  assumes "reflects E obs" and "lua_laws E" and "is_map f" and "proto_fields E (message_type f) = [key, val]" and "key \<noteq> val"
    and "singular key" and "cpp_type key = CPPTYPE_STRING" and "singular val" and "conf_single E val v"
    and "Lua_String (lua_tolstring E (Lua_Integer i)) \<notin> fst ` set ((Lua_Integer i, v) # t)"
  shows "\<exists>N. \<forall>n\<ge>N. \<forall>m. encode_field n E m f (Lua_Table ((Lua_Integer i, v) # t)) = Some Lua_Error"
proof -
  obtain N where "single_back E val v N" using conf_back(1) [OF assms(1,2,9)] ..
  then have V: "field_back E obs val v (Suc N)"
    using field_back_set [OF assms(1) _ assms(8)] conf_single_not_nil [OF assms(9)] by blast
  have "encode_field n E m f (Lua_Table ((Lua_Integer i, v) # t)) = Some Lua_Error" if n: "n \<ge> N + 4" for n m
  proof -
    obtain p where "n = N + 4 + p" using n le_Suc_ex by blast
    then obtain q where q: "n = Suc (Suc (Suc q))" "Suc (Suc q) \<ge> Suc N" using that [of "N + 1 + p"] by simp
    let ?r = "encode_field (Suc (Suc q)) E" and ?new = "NewMessage E (message_type f)"
    let ?s = "SetScalar E ?new key (to_scalar E key (Lua_Integer i))"
    have k: "?r ?new key (Lua_Integer i) = Some (Ret ?s)"
      using assms(6,7) by (cases "field_label key") (auto simp: singular_def encode_required_def encode_optional_def encode_single_def)
    have "obs ?s val = Absent" using assms(5) by (simp add: reflectsD(1,2) [OF assms(1)])
    then obtain s1 where "?r ?s val v = Some (Ret s1)" using V q(2) unfolding field_back_def by blast
    moreover have "key_slot E key (Lua_Integer i) = Lua_String (lua_tolstring E (Lua_Integer i))"
      using assms(7) by (simp add: key_slot_def)
    moreover have "lua_next ((Lua_Integer i, v) # t) (Lua_String (lua_tolstring E (Lua_Integer i))) = None"
      using next_after_none [OF assms(10)] by (simp add: lua_next_def)
    moreover have "encode_field n E m f x = encode_table E ?r (Suc (Suc q)) m f x" for x
      unfolding q(1) by (subst encode_field.simps(2)) (simp only: assms(3) if_True)
    ultimately show ?thesis
      using k assms(4) by (simp add: encode_table_def lua_next_def del: encode_field.simps)
  qed
  then show ?thesis by blast
qed

theorem proto_number_key_raises_witness:
  "\<exists>N. \<forall>n\<ge>N. \<forall>m. encode_field n (demo_env (\<lambda>_ _. None)) m (demo_field [97] LABEL_OPTIONAL True CPPTYPE_MESSAGE 1)
     (Lua_Table ((Lua_Integer 1, Lua_Integer 5) # [])) = Some Lua_Error"
proof (rule proto_number_key_raises [OF demo_reflects demo_lua_laws])
  let ?E = "demo_env (\<lambda>_ _. None)" and ?val = "demo_field [118] LABEL_OPTIONAL False CPPTYPE_INT32 0"
  show "proto_fields ?E (message_type (demo_field [97] LABEL_OPTIONAL True CPPTYPE_MESSAGE 1))
      = [demo_field [107] LABEL_OPTIONAL False CPPTYPE_STRING 0, ?val]"
    by (simp add: demo_env_def demo_fields_def demo_field_def)
  show "conf_single ?E ?val (Lua_Integer 5)" by (rule conf_scalar) (simp add: lua_fits_def demo_field_def)
qed (simp_all add: demo_field_def singular_def)

text \<open>A message type that contains itself: along fields that are single messages the types of \<open>S\<close> lead back to \<open>S\<close>.\<close>

definition recursive_types :: "'m proto_env \<Rightarrow> nat set \<Rightarrow> bool" where
  "recursive_types E S \<longleftrightarrow> (\<forall>d\<in>S. \<exists>f\<in>set (proto_fields E d). singular f \<and> cpp_type f = CPPTYPE_MESSAGE \<and> message_type f \<in> S)"

lemma create_fields_runs:
  assumes "\<And>nm. rec nm \<noteq> Some Lua_Error" and "\<And>d. rec (full_name E d) \<noteq> Some Fail"
  shows "create_fields E rec m fs t \<noteq> Some Fail \<and> create_fields E rec m fs t \<noteq> Some Lua_Error
    \<and> ((\<exists>f\<in>set fs. singular f \<and> cpp_type f = CPPTYPE_MESSAGE \<and> rec (full_name E (message_type f)) = None)
        \<longrightarrow> create_fields E rec m fs t = None)"
proof (induction fs arbitrary: t)
  case (Cons f fs)
  show ?case
  proof (cases "is_map f \<or> field_label f = LABEL_REPEATED \<or> cpp_type f \<noteq> CPPTYPE_MESSAGE")
    case True
    then show ?thesis using Cons.IH by (auto simp: decode_single_def singular_def)
  next
    case False
    then show ?thesis
      using Cons.IH assms by (cases "rec (full_name E (message_type f))")
        (auto simp: PROTO_DO_def singular_def split: proto_result.split)
  qed
qed simp

text \<open>C31. \<open>proto.create\<close> does not return for a message type that contains itself along fields that are not repeated, as in a
  list: whatever the depth of the recursion allowed, there is no result.\<close>

theorem proto_create_recursive:
  assumes "\<And>d. FindMessageTypeByName E (full_name E d) = Some d" and "recursive_types E S" and "d \<in> S"
  shows "proto_create n E (full_name E d) = None"
proof -
  have r: "proto_create n E nm \<noteq> Some Lua_Error \<and> proto_create n E (full_name E d) \<noteq> Some Fail
      \<and> (d \<in> S \<longrightarrow> proto_create n E (full_name E d) = None)" for n nm d
  proof (induction n arbitrary: nm d)
    case (Suc n)
    have c: "create_fields E (proto_create n E) m fs t \<noteq> Some Fail" "create_fields E (proto_create n E) m fs t \<noteq> Some Lua_Error"
      "\<exists>f\<in>set fs. singular f \<and> cpp_type f = CPPTYPE_MESSAGE \<and> proto_create n E (full_name E (message_type f)) = None
        \<Longrightarrow> create_fields E (proto_create n E) m fs t = None" for m fs t
      using create_fields_runs [of "proto_create n E" E m fs t] Suc.IH by blast+
    have "create_fields E (proto_create n E) (NewMessage E d) (proto_fields E d) [] = None" if "d \<in> S"
      using c(3) [of "proto_fields E d"] assms(2) that Suc.IH unfolding recursive_types_def by blast
    then show ?case
      using c(1,2) assms(1) by (auto simp: PROTO_DO_def split: option.splits proto_result.splits)
  qed simp
  then show ?thesis using assms(3) by blast
qed

theorem proto_create_recursive_witness: "proto_create 100 (demo_env (\<lambda>_ _. None)) (to_le 0 0) = None"
proof -
  let ?E = "demo_env (\<lambda>_ _. None)"
  have n: "full_name ?E d = to_le d d" "FindMessageTypeByName ?E s = Some (from_le s)" for d s by (simp_all add: demo_env_def)
  have "d < 256 ^ d" for d :: nat using less_exp [of d] power_mono [of "2 :: nat" 256 d] by linarith
  then have f: "\<And>d. FindMessageTypeByName ?E (full_name ?E d) = Some d" by (simp add: n from_le_to_le)
  have "recursive_types ?E {0}"
    by (simp add: recursive_types_def demo_env_def demo_fields_def demo_field_def singular_def)
  from proto_create_recursive [OF f this, of 0 100] show ?thesis by (simp add: n)
qed

end
