(* ===== verification/Proto_Schema.thy ===== *)
theory Proto_Schema
  imports Prelude "HOL-Library.List_Lexorder" "HOL-Library.Char_ord"
begin

text \<open>
  \<open>src/protolua/parse.cpp\<close>: the enums of proto files as global tables of Lua, and their reload. A descriptor of protobuf is
  the part of it that the code reads; what an \<open>Importer\<close> makes of a file name is a function, \<^const>\<open>None\<close> for a file with
  errors. The \<open>parse\<close> functions return true always, so their results and \<open>PROTO_DO\<close> are left out.
\<close>

section \<open>Descriptors\<close>

datatype enum_desc = Enum_desc (enum_name: string) (enum_values: "(string \<times> int) list")

datatype message_desc = Message_desc (enum_types: "enum_desc list") (nested_types: "message_desc list")

datatype file_desc = File_desc (dependencies: "file_desc list") (file_enums: "enum_desc list") (message_types: "message_desc list")

section \<open>State\<close>

text \<open>A global of Lua is the table of an enum or anything else; \<open>std::set\<close> is a sorted list without duplicates.\<close>

datatype lua_global = Enum_table "string \<rightharpoonup> int" | Other_value nat

record proto_state =
  lua_globals :: "string \<rightharpoonup> lua_global"
  g_importer :: "string \<Rightarrow> file_desc option"
  g_parsedFiles :: "string list"
  g_parsedEnums :: "string list"

definition proto_start :: "(string \<Rightarrow> file_desc option) \<Rightarrow> (string \<rightharpoonup> lua_global) \<Rightarrow> proto_state" where
  "proto_start importer globals = \<lparr>lua_globals = globals, g_importer = importer, g_parsedFiles = [], g_parsedEnums = []\<rparr>"

section \<open>Parsing\<close>

definition enum_table :: "(string \<times> int) list \<Rightarrow> string \<rightharpoonup> int" where
  "enum_table vs = fold (\<lambda>(n, v) t. t(n \<mapsto> v)) vs Map.empty"

definition parse_enum :: "enum_desc \<Rightarrow> proto_state \<Rightarrow> proto_state" where
  "parse_enum e st =
     (if lua_globals st (enum_name e) \<noteq> None then st
      else st\<lparr>lua_globals := (lua_globals st)(enum_name e \<mapsto> Enum_table (enum_table (enum_values e))),
              g_parsedEnums := insort_insert (enum_name e) (g_parsedEnums st)\<rparr>)"

fun parse_message :: "message_desc \<Rightarrow> proto_state \<Rightarrow> proto_state" where
  "parse_message (Message_desc es ns) st = fold parse_message ns (fold parse_enum es st)"

fun parse_file :: "file_desc \<Rightarrow> proto_state \<Rightarrow> proto_state" where
  "parse_file (File_desc ds es ms) st = fold parse_message ms (fold parse_enum es (fold parse_file ds st))"

definition proto_parse :: "string \<Rightarrow> proto_state \<Rightarrow> bool \<times> proto_state" where
  "proto_parse fname st =
     (case g_importer st fname of
        None \<Rightarrow> (False, st)
      | Some fd \<Rightarrow> let st1 = parse_file fd st in (True, st1\<lparr>g_parsedFiles := insort_insert fname (g_parsedFiles st1)\<rparr>))"

text \<open>The first loop of \<open>proto_reload\<close>.\<close>

fun import_all :: "(string \<Rightarrow> file_desc option) \<Rightarrow> string list \<Rightarrow> file_desc list option" where
  "import_all importer [] = Some []"
| "import_all importer (f # fs) =
     (case importer f of None \<Rightarrow> None | Some fd \<Rightarrow> map_option (Cons fd) (import_all importer fs))"

definition proto_reload :: "(string \<Rightarrow> file_desc option) \<Rightarrow> proto_state \<Rightarrow> bool \<times> proto_state" where
  "proto_reload importer st =
     (case import_all importer (g_parsedFiles st) of
        None \<Rightarrow> (False, st)
      | Some fds \<Rightarrow>
          let st1 = st\<lparr>g_importer := importer\<rparr>;
              st2 = fold (\<lambda>n s. s\<lparr>lua_globals := (lua_globals s)(n := None)\<rparr>) (g_parsedEnums st1) st1
          in (True, fold parse_file fds st2))"

section \<open>The enums of a file\<close>

fun message_enums :: "message_desc \<Rightarrow> enum_desc list" where
  "message_enums (Message_desc es ns) = es @ concat (List.map message_enums ns)"

fun all_enums :: "file_desc \<Rightarrow> enum_desc list" where
  "all_enums (File_desc ds es ms) = concat (List.map all_enums ds) @ es @ concat (List.map message_enums ms)"

text \<open>The global a sequence of enums defines: the first of a name.\<close>

definition first_enum :: "string \<Rightarrow> enum_desc list \<Rightarrow> lua_global option" where
  "first_enum n es = map_option (\<lambda>e. Enum_table (enum_table (enum_values e))) (List.find (\<lambda>e. enum_name e = n) es)"

lemma fold_concat: "(\<And>x. x \<in> set xs \<Longrightarrow> f x = fold g (h x)) \<Longrightarrow> fold f xs = fold g (concat (List.map h xs))"
  by (induction xs) auto

lemma parse_message_enums: "parse_message m = fold parse_enum (message_enums m)"
proof (induction m)
  case (Message_desc es ns)
  then have "fold parse_message ns = fold parse_enum (concat (List.map message_enums ns))" by (intro fold_concat)
  then show ?case by (simp add: fun_eq_iff)
qed

lemma parse_file_enums: "parse_file fd = fold parse_enum (all_enums fd)"
proof (induction fd)
  case (File_desc ds es ms)
  then have "fold parse_file ds = fold parse_enum (concat (List.map all_enums ds))" by (intro fold_concat)
  moreover have "fold parse_message ms = fold parse_enum (concat (List.map message_enums ms))"
    by (intro fold_concat parse_message_enums)
  ultimately show ?case by (simp add: fun_eq_iff)
qed

lemma parse_files_enums: "fold parse_file fds = fold parse_enum (concat (List.map all_enums fds))"
  by (intro fold_concat parse_file_enums)

lemma parse_enums_globals:
  "lua_globals (fold parse_enum es st) n = (case lua_globals st n of Some v \<Rightarrow> Some v | None \<Rightarrow> first_enum n es)"
  by (induction es arbitrary: st) (auto simp: parse_enum_def first_enum_def split: option.splits)

lemma erased_globals:
  "fold (\<lambda>n s. s\<lparr>lua_globals := (lua_globals s)(n := None)\<rparr>) ns st
    = st\<lparr>lua_globals := \<lambda>n. if n \<in> set ns then None else lua_globals st n\<rparr>"
  by (induction ns arbitrary: st) (auto simp: fun_eq_iff)

section \<open>Runs\<close>

text \<open>The calls of a script that leaves the globals of the enums alone; \<open>globals\<close> are its own.\<close>

inductive proto_reach :: "(string \<rightharpoonup> lua_global) \<Rightarrow> proto_state \<Rightarrow> bool" for globals where
  proto_first: "proto_reach globals (proto_start importer globals)"
| proto_parses: "proto_reach globals st \<Longrightarrow> proto_reach globals (snd (proto_parse fname st))"
| proto_reloads: "proto_reach globals st \<Longrightarrow> proto_reach globals (snd (proto_reload importer st))"

definition schema_inv :: "(string \<rightharpoonup> lua_global) \<Rightarrow> proto_state \<Rightarrow> bool" where
  "schema_inv globals st \<longleftrightarrow> (\<forall>n. if n \<in> set (g_parsedEnums st) then globals n = None else lua_globals st n = globals n)"

lemma parse_enum_inv: "schema_inv globals st \<Longrightarrow> schema_inv globals (parse_enum e st)"
  by (auto simp: schema_inv_def parse_enum_def set_insort_insert split: if_splits)

lemma parse_enums_inv: "schema_inv globals st \<Longrightarrow> schema_inv globals (fold parse_enum es st)"
  by (induction es arbitrary: st) (simp_all add: parse_enum_inv)

lemma erased_inv:
  "schema_inv globals st \<Longrightarrow> (\<lambda>n. if n \<in> set (g_parsedEnums st) then None else lua_globals st n) = globals"
  by (auto simp: schema_inv_def fun_eq_iff split: if_splits)

lemma reload_eq:
  assumes "schema_inv globals st" and "import_all importer (g_parsedFiles st) = Some fds"
  shows "proto_reload importer st = (True, fold parse_file fds (st\<lparr>g_importer := importer, lua_globals := globals\<rparr>))"
  using assms(2) erased_inv [OF assms(1)] by (simp add: proto_reload_def Let_def erased_globals cong: if_cong)

lemma proto_reach_inv: "proto_reach globals st \<Longrightarrow> schema_inv globals st"
proof (induction rule: proto_reach.induct)
  case (proto_first importer)
  then show ?case by (simp add: schema_inv_def proto_start_def)
next
  case (proto_parses st fname)
  show ?case
  proof (cases "g_importer st fname")
    case (Some fd)
    have "schema_inv globals (parse_file fd st)" using parse_enums_inv [OF proto_parses.IH] by (simp add: parse_file_enums)
    then show ?thesis using Some by (simp add: proto_parse_def schema_inv_def Let_def)
  qed (use proto_parses in \<open>simp add: proto_parse_def\<close>)
next
  case (proto_reloads st importer)
  show ?case
  proof (cases "import_all importer (g_parsedFiles st)")
    case (Some fds)
    have "schema_inv globals (st\<lparr>g_importer := importer, lua_globals := globals\<rparr>)"
      using proto_reloads.IH by (auto simp: schema_inv_def)
    then show ?thesis using reload_eq [OF proto_reloads.IH Some] parse_enums_inv by (simp add: parse_files_enums)
  qed (use proto_reloads in \<open>simp add: proto_reload_def\<close>)
qed

section \<open>Properties\<close>

text \<open>C40. Reloading is the same as starting again: whatever was parsed and reloaded before, when all files can be imported
  \<open>proto_reload\<close> leaves the globals that a new server has after parsing the present files in their order, and otherwise
  it fails and changes nothing. Enums that are no longer declared are gone, the globals of the script stay.\<close>

theorem proto_reload_as_fresh:
  assumes "proto_reach globals st"
  shows "case import_all importer (g_parsedFiles st) of
      None \<Rightarrow> proto_reload importer st = (False, st)
    | Some fds \<Rightarrow> fst (proto_reload importer st)
        \<and> lua_globals (snd (proto_reload importer st)) = lua_globals (fold parse_file fds (proto_start importer globals))
        \<and> g_parsedFiles (snd (proto_reload importer st)) = g_parsedFiles st"
proof (cases "import_all importer (g_parsedFiles st)")
  case (Some fds)
  have "g_parsedFiles (fold parse_enum es s) = g_parsedFiles s" for es s
    by (induction es arbitrary: s) (simp_all add: parse_enum_def)
  then show ?thesis
    using Some reload_eq [OF proto_reach_inv [OF assms] Some]
    by (simp add: parse_files_enums fun_eq_iff parse_enums_globals proto_start_def)
qed (simp add: proto_reload_def)

definition demo_importer :: "int \<Rightarrow> string \<Rightarrow> file_desc option" where
  "demo_importer v f = (if f = ''a.proto'' then Some (File_desc [] [Enum_desc ''Color'' [(''RED'', v)]] []) else None)"

theorem proto_reload_as_fresh_witness:
  "let st = snd (proto_parse ''a.proto'' (proto_start (demo_importer 1) [''x'' \<mapsto> Other_value 5]));
       r = proto_reload (demo_importer 2) st
   in fst r \<and> lua_globals (snd r) ''Color'' = Some (Enum_table [''RED'' \<mapsto> 2]) \<and> lua_globals (snd r) ''x'' = Some (Other_value 5)"
proof -
  let ?st = "snd (proto_parse ''a.proto'' (proto_start (demo_importer 1) [''x'' \<mapsto> Other_value 5]))"
  have r: "proto_reach [''x'' \<mapsto> Other_value 5] ?st" by (intro proto_parses proto_first)
  have f: "g_parsedFiles ?st = [''a.proto'']"
    by (simp add: proto_parse_def proto_start_def demo_importer_def parse_enum_def Let_def insort_insert_key_def)
  show ?thesis
    using proto_reload_as_fresh [OF r, of "demo_importer 2"] f
    by (simp add: Let_def demo_importer_def parse_enum_def proto_start_def enum_table_def)
qed

text \<open>Enums are known by their simple names: of two of the same name the second one is not seen.\<close>

lemma proto_enum_shadowed:
  assumes "lua_globals st (enum_name e) = Some v"
  shows "parse_enum e st = st"
  using assms by (simp add: parse_enum_def)

end
