(* ===== verification/Tcp_Lifecycle.thy ===== *)
theory Tcp_Lifecycle
  imports Tcp_Send Http_Connection
begin

text \<open>
  The life of a TCP connection: \<open>src/network/TcpServer.cpp\<close> and \<open>TcpClient.cpp\<close> create it, the callbacks of
  \<open>TcpSocket.cpp\<close> read, write and close, and \<open>NetServer\<close>, \<open>NetClient\<close>, \<open>NetEvent\<close>, \<open>NetConnect.cpp\<close> and
  \<open>HttpConnect.cpp\<close> destroy it. libuv is a transition relation: which callbacks it may run is \<open>enabled\<close>, what the
  program does in them is \<open>tcp_step\<close>. Objects live in a heap of addresses. Using an object that was deleted, and closing
  a handle that is being closed, which is a failed assertion of libuv, are \<^const>\<open>None\<close>.
\<close>

section \<open>The world\<close>

text \<open>A handle is closed with a callback, \<open>on_uv_close\<close>, or with \<open>NULL\<close>.\<close>

datatype uv_handle = Uv_unset | Uv_open | Uv_closing bool

text \<open>A connection: its handle, whether it is read from and whether a connect request is pending, the request of
  \<open>m_write_t\<close>, the send queue, and for an \<open>HttpConnect\<close> its parser.\<close>

record 'p tcp_object =
  handle :: uv_handle
  is_reading :: bool
  is_connecting :: bool
  write_request :: "byte list list option"
  send_queue :: "'p TcpSocket"
  http_parser :: "llhttp_t option"

datatype tcp_note = Note_accept nat | Note_connect "nat option" | Note_close nat | Note_destroy nat

text \<open>\<open>closing_handles\<close> is the list of libuv of the handles whose close has to be finished.\<close>

record 'p tcp_world =
  tcp_heap :: "nat \<rightharpoonup> 'p tcp_object"
  tcp_next :: nat
  closing_handles :: "nat list"
  tcp_notes :: "tcp_note list"

definition put_object :: "nat \<Rightarrow> 'p tcp_object \<Rightarrow> 'p tcp_world \<Rightarrow> 'p tcp_world" where
  "put_object p ob w = w\<lparr>tcp_heap := (tcp_heap w)(p \<mapsto> ob)\<rparr>"

definition take_note :: "tcp_note \<Rightarrow> 'p tcp_world \<Rightarrow> 'p tcp_world" where
  "take_note n w = w\<lparr>tcp_notes := tcp_notes w @ [n]\<rparr>"

definition delete_socket :: "nat \<Rightarrow> 'p tcp_world \<Rightarrow> 'p tcp_world option" where
  "delete_socket p w =
     map_option (\<lambda>ob. w\<lparr>tcp_heap := (tcp_heap w)(p := None)\<rparr>) (tcp_heap w p)"

section \<open>libuv calls\<close>

definition uv_close :: "bool \<Rightarrow> nat \<Rightarrow> 'p tcp_world \<Rightarrow> 'p tcp_world option" where
  "uv_close cb p w =
     (case tcp_heap w p of
        None \<Rightarrow> None
      | Some ob \<Rightarrow>
          if handle ob = Uv_open
          then Some ((put_object p (ob\<lparr>handle := Uv_closing cb, is_reading := False\<rparr>) w)
                       \<lparr>closing_handles := closing_handles w @ [p]\<rparr>)
          else None)"

text \<open>\<open>uv_write\<close> of a handle that is being closed fails and has no callback; a second request on the same \<open>m_write_t\<close> is
  an error.\<close>

definition uv_write :: "nat \<Rightarrow> byte list list option \<Rightarrow> 'p tcp_world \<Rightarrow> 'p tcp_world option" where
  "uv_write p bufs w =
     (case bufs of
        None \<Rightarrow> Some w
      | Some bs \<Rightarrow>
          (case tcp_heap w p of
             None \<Rightarrow> None
           | Some ob \<Rightarrow>
               if handle ob \<noteq> Uv_open then Some w
               else if write_request ob \<noteq> None then None
               else Some (put_object p (ob\<lparr>write_request := Some bs\<rparr>) w)))"

section \<open>The program\<close>

text \<open>\<open>createSocket\<close>, \<open>clear\<close> and \<open>init_uv_tcp\<close>.\<close>

definition new_socket :: "llhttp_t option \<Rightarrow> 'p tcp_world \<Rightarrow> nat \<times> 'p tcp_world" where
  "new_socket prs w =
     (tcp_next w,
      put_object (tcp_next w)
        \<lparr>handle = Uv_open, is_reading = False, is_connecting = False, write_request = None, send_queue = TcpSocket_ctor,
         http_parser = prs\<rparr>
        (w\<lparr>tcp_next := tcp_next w + 1\<rparr>))"

definition on_read_start :: "nat \<Rightarrow> 'p tcp_world \<Rightarrow> 'p tcp_world option" where
  "on_read_start p w = map_option (\<lambda>ob. put_object p (ob\<lparr>is_reading := True\<rparr>) w) (tcp_heap w p)"

text \<open>\<open>accept_ok\<close> is whether \<open>uv_accept\<close> returns 0.\<close>

definition on_new_connection :: "int \<Rightarrow> bool \<Rightarrow> llhttp_t option \<Rightarrow> 'p tcp_world \<Rightarrow> 'p tcp_world option" where
  "on_new_connection status accept_ok prs w =
     (if status < 0 then Some w
      else
        let (p, w1) = new_socket prs w in
        if accept_ok then map_option (take_note (Note_accept p)) (on_read_start p w1)
        else do { w2 \<leftarrow> uv_close False p w1; delete_socket p w2 })"

text \<open>\<open>started\<close> is whether \<open>uv_tcp_connect\<close> returns 0; its callback runs only then.\<close>

definition client_connect :: "bool \<Rightarrow> llhttp_t option \<Rightarrow> 'p tcp_world \<Rightarrow> 'p tcp_world option" where
  "client_connect started prs w =
     (let (p, w1) = new_socket prs w in
      map_option (\<lambda>ob. put_object p (ob\<lparr>is_connecting := started\<rparr>) w1) (tcp_heap w1 p))"

definition connect_cb :: "int \<Rightarrow> nat \<Rightarrow> 'p tcp_world \<Rightarrow> 'p tcp_world option" where
  "connect_cb status p w =
     (case tcp_heap w p of
        None \<Rightarrow> None
      | Some ob \<Rightarrow>
          let w1 = put_object p (ob\<lparr>is_connecting := False\<rparr>) w in
          if status < 0 then map_option (take_note (Note_connect None)) (uv_close False p w1)
          else map_option (take_note (Note_connect (Some p))) (on_read_start p w1))"

definition tcp_close :: "nat \<Rightarrow> 'p tcp_world \<Rightarrow> 'p tcp_world option" where
  "tcp_close p w = uv_close True p w"

text \<open>\<open>echo_read\<close>; what \<open>on_msgbuffer\<close> does to the connection are steps of the application.\<close>

definition echo_read_cb :: "int \<Rightarrow> nat \<Rightarrow> 'p tcp_world \<Rightarrow> 'p tcp_world option" where
  "echo_read_cb nread p w = (if nread < 0 then uv_close True p w else Some w)"

definition socket_send :: "('p \<Rightarrow> byte list) \<Rightarrow> 'p \<Rightarrow> nat \<Rightarrow> 'p tcp_world \<Rightarrow> 'p tcp_world option" where
  "socket_send send pk p w =
     (case tcp_heap w p of
        None \<Rightarrow> None
      | Some ob \<Rightarrow>
          let (s, bufs) = TcpSocket_write send pk (send_queue ob) in
          uv_write p bufs (put_object p (ob\<lparr>send_queue := s\<rparr>) w))"

text \<open>\<open>TcpSocket::on_writecomplete\<close> and, for an \<open>HttpConnect\<close>, \<open>HttpConnect::on_writecomplete\<close>.\<close>

definition tcp_writecomplete :: "('p \<Rightarrow> byte list) \<Rightarrow> nat \<Rightarrow> 'p tcp_world \<Rightarrow> 'p tcp_world option" where
  "tcp_writecomplete send p w =
     (case tcp_heap w p of
        None \<Rightarrow> None
      | Some ob \<Rightarrow>
          (case on_writecomplete send (send_queue ob) of
             None \<Rightarrow> None
           | Some (gone, s, bufs) \<Rightarrow> uv_write p bufs (put_object p (ob\<lparr>send_queue := s\<rparr>) w)))"

definition echo_write :: "('p \<Rightarrow> byte list) \<Rightarrow> nat \<Rightarrow> 'p tcp_world \<Rightarrow> 'p tcp_world option" where
  "echo_write send p w =
     (case tcp_heap w p of
        None \<Rightarrow> None
      | Some ob \<Rightarrow>
          let w1 = put_object p (ob\<lparr>write_request := None\<rparr>) w in
          do { w2 \<leftarrow> (case http_parser ob of Some prs \<Rightarrow> (if isClose prs then tcp_close p w1 else Some w1) | None \<Rightarrow> Some w1);
               tcp_writecomplete send p w2 })"

text \<open>\<open>on_uv_close\<close> and \<open>on_clsesocket\<close>: \<open>onClose\<close> and \<open>destroyConnect\<close>, which deletes the connection; an \<open>HttpConnect\<close>
  goes back to its pool, which for its users is the same.\<close>

definition on_uv_close :: "nat \<Rightarrow> 'p tcp_world \<Rightarrow> 'p tcp_world option" where
  "on_uv_close p w = map_option (take_note (Note_destroy p)) (delete_socket p (take_note (Note_close p) w))"

text \<open>The end of a close: libuv cancels the write request, whose callback runs, and calls the callback of the close.\<close>

definition finish_close :: "('p \<Rightarrow> byte list) \<Rightarrow> nat \<Rightarrow> 'p tcp_world \<Rightarrow> 'p tcp_world option" where
  "finish_close send p w =
     (case tcp_heap w p of
        None \<Rightarrow> None
      | Some ob \<Rightarrow>
          do { w1 \<leftarrow> (if write_request ob \<noteq> None then echo_write send p w else Some w);
               let w2 = w1\<lparr>closing_handles := List.remove1 p (closing_handles w1)\<rparr>;
               (if handle ob = Uv_closing True then on_uv_close p w2 else Some w2) })"

section \<open>Runs\<close>

datatype 'p tcp_lifecycle_event =
  Ev_accept int bool "llhttp_t option" | Ev_connect bool "llhttp_t option" | Ev_connected int nat | Ev_read int nat | Ev_written nat
| Ev_closed nat | App_send 'p nat | App_close nat

fun tcp_step :: "('p \<Rightarrow> byte list) \<Rightarrow> 'p tcp_lifecycle_event \<Rightarrow> 'p tcp_world \<Rightarrow> 'p tcp_world option" where
  "tcp_step send (Ev_accept status ok prs) w = on_new_connection status ok prs w"
| "tcp_step send (Ev_connect started prs) w = client_connect started prs w"
| "tcp_step send (Ev_connected status p) w = connect_cb status p w"
| "tcp_step send (Ev_read n p) w = echo_read_cb n p w"
| "tcp_step send (Ev_written p) w = echo_write send p w"
| "tcp_step send (Ev_closed p) w = finish_close send p w"
| "tcp_step send (App_send pk p) w = socket_send send pk p w"
| "tcp_step send (App_close p) w = tcp_close p w"

text \<open>When libuv runs a callback, as it documents, and what the application can do: it knows a connection once it is
  connected, and sends on it and closes it until its \<open>onClose\<close>. \<open>TcpSocketBase::close\<close> has no guard, and nothing tells
  the application that the handle is being closed already.\<close>

fun enabled :: "'p tcp_lifecycle_event \<Rightarrow> 'p tcp_world \<Rightarrow> bool" where
  "enabled (Ev_accept status ok prs) w = True"
| "enabled (Ev_connect started prs) w = True"
| "enabled (Ev_connected status p) w = (case tcp_heap w p of None \<Rightarrow> False | Some ob \<Rightarrow> is_connecting ob \<and> handle ob = Uv_open)"
| "enabled (Ev_read n p) w = (case tcp_heap w p of None \<Rightarrow> False | Some ob \<Rightarrow> is_reading ob)"
| "enabled (Ev_written p) w =
     (case tcp_heap w p of None \<Rightarrow> False | Some ob \<Rightarrow> write_request ob \<noteq> None \<and> handle ob = Uv_open)"
| "enabled (Ev_closed p) w = (p \<in> set (closing_handles w))"
| "enabled (App_send pk p) w = (case tcp_heap w p of None \<Rightarrow> False | Some ob \<Rightarrow> \<not> is_connecting ob)"
| "enabled (App_close p) w = (case tcp_heap w p of None \<Rightarrow> False | Some ob \<Rightarrow> \<not> is_connecting ob)"

definition tcp_world_init :: "'p tcp_world" where
  "tcp_world_init = \<lparr>tcp_heap = Map.empty, tcp_next = 0, closing_handles = [], tcp_notes = []\<rparr>"

primrec tcp_steps :: "('p \<Rightarrow> byte list) \<Rightarrow> 'p tcp_lifecycle_event list \<Rightarrow> 'p tcp_world \<Rightarrow> 'p tcp_world option" where
  "tcp_steps send [] w = Some w"
| "tcp_steps send (e # es) w = Option.bind (tcp_step send e w) (tcp_steps send es)"

fun all_enabled :: "('p \<Rightarrow> byte list) \<Rightarrow> 'p tcp_lifecycle_event list \<Rightarrow> 'p tcp_world \<Rightarrow> bool" where
  "all_enabled send [] w = True"
| "all_enabled send (e # es) w =
     (enabled e w \<and> (case tcp_step send e w of None \<Rightarrow> True | Some w' \<Rightarrow> all_enabled send es w'))"

text \<open>The worlds that runs reach in which every event satisfies \<open>ok\<close> in the world where it happens.\<close>

inductive tcp_reach ::
  "('p \<Rightarrow> byte list) \<Rightarrow> ('p tcp_lifecycle_event \<Rightarrow> 'p tcp_world \<Rightarrow> bool) \<Rightarrow> 'p tcp_world \<Rightarrow> bool" for send ok where
  tcp_start: "tcp_reach send ok tcp_world_init"
| tcp_more: "tcp_reach send ok w \<Longrightarrow> ok e w \<Longrightarrow> enabled e w \<Longrightarrow> tcp_step send e w = Some w' \<Longrightarrow> tcp_reach send ok w'"

section \<open>The send queue\<close>

definition queue_ok :: "'p TcpSocket \<Rightarrow> bool" where
  "queue_ok s \<longleftrightarrow> length (mSending s) \<le> length (mSendPackets s)"

lemma send_top_loop_length:
  "send_top_loop send ps bufs n = (bs, k) \<Longrightarrow> length bufs \<le> length bs \<and> length bs \<le> length bufs + length ps"
  by (induction send ps bufs n rule: send_top_loop.induct) (fastforce split: if_splits)+

lemma send_top_loop_empty:
  assumes "send_top_loop send ps [] 0 = ([], k)"
  shows "k = 0"
proof (cases ps)
  case (Cons p qs)
  then have "send_top_loop send qs [send p] (to_i32 (int (length (send p)))) = ([], k)"
    using assms by (simp add: MAX_SEND_BYTE_def MAX_SEND_PACKET_def)
  then show ?thesis using send_top_loop_length by fastforce
qed (use assms in simp)

lemma send_top_msg_queue:
  assumes "mSending s = []" and "send_top_msg send s = (s', bufs)"
  shows "queue_ok s' \<and> (bufs \<noteq> None \<longrightarrow> mSending s' \<noteq> [])"
proof -
  obtain bs k where l: "send_top_loop send (mSendPackets s) [] 0 = (bs, k)" by (cases "send_top_loop send (mSendPackets s) [] 0")
  then show ?thesis
    using assms send_top_loop_length [OF l] send_top_loop_empty [of send "mSendPackets s" k]
    by (auto simp: send_top_msg_def queue_ok_def split: if_splits)
qed

lemma TcpSocket_write_queue:
  assumes "queue_ok s" and "TcpSocket_write send pk s = (s', bufs)"
  shows "queue_ok s' \<and> (bufs \<noteq> None \<longrightarrow> mSending s = [] \<and> mSending s' \<noteq> []) \<and> (mSending s \<noteq> [] \<longrightarrow> mSending s' \<noteq> [])"
proof (cases "mSending s = []")
  case True
  then show ?thesis
    using assms send_top_msg_queue [of "s\<lparr>mSendPackets := mSendPackets s @ [pk]\<rparr>" send s' bufs]
    by (simp add: TcpSocket_write_def isSending_def Let_def)
next
  case False
  then show ?thesis using assms by (auto simp: TcpSocket_write_def isSending_def Let_def queue_ok_def)
qed

lemma on_writecomplete_queue:
  assumes "queue_ok s"
  shows "\<exists>gone s' bufs. on_writecomplete send s = Some (gone, s', bufs) \<and> queue_ok s' \<and> (bufs \<noteq> None \<longrightarrow> mSending s' \<noteq> [])"
proof -
  let ?s = "s\<lparr>mSendPackets := drop (length (mSending s)) (mSendPackets s), mSending := []\<rparr>"
  obtain s' bufs where m: "send_top_msg send ?s = (s', bufs)" by (cases "send_top_msg send ?s")
  have "queue_ok s' \<and> (bufs \<noteq> None \<longrightarrow> mSending s' \<noteq> [])" using m by (intro send_top_msg_queue) simp_all
  then show ?thesis
    using assms m by (simp add: on_writecomplete_def recycle_front_batch queue_ok_def)
qed

section \<open>The invariant\<close>

definition object_ok :: "'p tcp_object \<Rightarrow> bool" where
  "object_ok ob \<longleftrightarrow> queue_ok (send_queue ob) \<and> (write_request ob \<noteq> None \<longrightarrow> mSending (send_queue ob) \<noteq> [])
     \<and> http_parser ob = None \<and> (is_reading ob \<longrightarrow> handle ob = Uv_open)"

definition gone :: "nat \<Rightarrow> 'p tcp_world \<Rightarrow> bool" where
  "gone p w \<longleftrightarrow> p < tcp_next w \<and> tcp_heap w p = None"

definition tcp_inv :: "'p tcp_world \<Rightarrow> bool" where
  "tcp_inv w \<longleftrightarrow> (\<forall>p ob. tcp_heap w p = Some ob \<longrightarrow> p < tcp_next w \<and> object_ok ob)
     \<and> distinct (closing_handles w)
     \<and> (\<forall>p\<in>set (closing_handles w). \<exists>ob cb. tcp_heap w p = Some ob \<and> handle ob = Uv_closing cb)
     \<and> (\<forall>p. count_list (tcp_notes w) (Note_close p) = (if gone p w then 1 else 0))
     \<and> (\<forall>p. count_list (tcp_notes w) (Note_destroy p) = (if gone p w then 1 else 0))"

lemma tcp_invD:
  assumes "tcp_inv w" and "tcp_heap w p = Some ob"
  shows "p < tcp_next w" and "object_ok ob"
  using assms by (auto simp: tcp_inv_def)

lemma put_inv:
  assumes "tcp_inv w" and "tcp_heap w p = Some ob" and "object_ok ob'" and "handle ob' = handle ob"
  shows "tcp_inv (put_object p ob' w)"
  using assms by (auto simp: tcp_inv_def put_object_def gone_def)

lemma note_inv: "tcp_inv w \<Longrightarrow> \<forall>p. n \<noteq> Note_close p \<and> n \<noteq> Note_destroy p \<Longrightarrow> tcp_inv (take_note n w)"
  by (simp add: tcp_inv_def take_note_def gone_def)

lemma object_close: "object_ok ob \<Longrightarrow> object_ok (ob\<lparr>handle := Uv_closing cb, is_reading := False\<rparr>)"
  by (simp add: object_ok_def)

lemma object_reading: "object_ok ob \<Longrightarrow> is_reading ob \<Longrightarrow> handle ob = Uv_open"
  by (simp add: object_ok_def)

lemma uv_close_inv:
  assumes "tcp_inv w" and "tcp_heap w p = Some ob" and "handle ob = Uv_open"
  shows "\<exists>w'. uv_close cb p w = Some w' \<and> tcp_inv w'"
proof -
  have "p \<notin> set (closing_handles w)" using assms by (auto simp: tcp_inv_def)
  then show ?thesis
    using assms object_close [of ob cb] tcp_invD [OF assms(1,2)] by (auto simp: uv_close_def tcp_inv_def put_object_def gone_def)
qed

lemma uv_write_inv:
  assumes "tcp_inv w" and "tcp_heap w p = Some ob" and "bufs \<noteq> None \<longrightarrow> write_request ob = None \<and> mSending (send_queue ob) \<noteq> []"
  shows "\<exists>w'. uv_write p bufs w = Some w' \<and> tcp_inv w' \<and> closing_handles w' = closing_handles w
    \<and> (\<exists>ob'. tcp_heap w' p = Some ob' \<and> handle ob' = handle ob)"
proof (cases "bufs = None \<or> handle ob \<noteq> Uv_open")
  case True
  then show ?thesis using assms by (auto simp: uv_write_def split: option.splits)
next
  case False
  then obtain bs where bs: "bufs = Some bs" by auto
  have "object_ok (ob\<lparr>write_request := Some bs\<rparr>)"
    using tcp_invD [OF assms(1,2)] assms(3) bs by (simp add: object_ok_def)
  then have "tcp_inv (put_object p (ob\<lparr>write_request := Some bs\<rparr>) w)" using assms(1,2) by (intro put_inv) simp_all
  then show ?thesis using False bs assms(2,3) by (simp add: uv_write_def put_object_def)
qed

lemma new_socket_inv:
  assumes "tcp_inv w" and "new_socket None w = (p, w1)"
  shows "tcp_inv w1 \<and> (\<exists>ob. tcp_heap w1 p = Some ob \<and> handle ob = Uv_open)"
proof -
  let ?ob = "\<lparr>handle = Uv_open, is_reading = False, is_connecting = False, write_request = None, send_queue = TcpSocket_ctor,
    http_parser = None\<rparr> :: 'a tcp_object"
  have n: "tcp_heap w (tcp_next w) = None" using tcp_invD(1) [OF assms(1)] by (cases "tcp_heap w (tcp_next w)") auto
  then have c: "tcp_next w \<notin> set (closing_handles w)" using assms(1) by (auto simp: tcp_inv_def)
  have "object_ok ?ob" by (simp add: object_ok_def queue_ok_def TcpSocket_ctor_def)
  then have "tcp_inv (put_object (tcp_next w) ?ob (w\<lparr>tcp_next := tcp_next w + 1\<rparr>))"
    using assms(1) n c by (fastforce simp: tcp_inv_def put_object_def gone_def less_Suc_eq)
  then show ?thesis using assms(2) by (auto simp: new_socket_def put_object_def)
qed

lemma read_start_inv:
  assumes "tcp_inv w" and "tcp_heap w p = Some ob" and "handle ob = Uv_open"
  shows "\<exists>w'. on_read_start p w = Some w' \<and> tcp_inv w'"
proof -
  have "tcp_inv (put_object p (ob\<lparr>is_reading := True\<rparr>) w)"
    using assms tcp_invD(2) [OF assms(1,2)] by (intro put_inv [OF assms(1,2)]) (simp_all add: object_ok_def)
  then show ?thesis using assms(2) by (simp add: on_read_start_def)
qed

lemma echo_write_inv:
  assumes "tcp_inv w" and "tcp_heap w p = Some ob"
  shows "\<exists>w'. echo_write send p w = Some w' \<and> tcp_inv w' \<and> closing_handles w' = closing_handles w
    \<and> (\<exists>ob'. tcp_heap w' p = Some ob' \<and> handle ob' = handle ob)"
proof -
  let ?ob = "ob\<lparr>write_request := None\<rparr>"
  note ok = tcp_invD(2) [OF assms]
  obtain g s bufs where c: "on_writecomplete send (send_queue ob) = Some (g, s, bufs)" "queue_ok s" "bufs \<noteq> None \<longrightarrow> mSending s \<noteq> []"
    using on_writecomplete_queue ok by (metis object_ok_def)
  let ?ob2 = "?ob\<lparr>send_queue := s\<rparr>"
  have "object_ok ?ob2" using ok c(2) by (simp add: object_ok_def)
  then have i: "tcp_inv (put_object p ?ob2 w)" using assms by (intro put_inv) simp_all
  have h: "tcp_heap (put_object p ?ob2 w) p = Some ?ob2" by (simp add: put_object_def)
  obtain w' where "uv_write p bufs (put_object p ?ob2 w) = Some w'" "tcp_inv w'" "closing_handles w' = closing_handles w"
    "\<exists>ob'. tcp_heap w' p = Some ob' \<and> handle ob' = handle ob"
    using uv_write_inv [OF i h, of bufs] c(3) by (auto simp: put_object_def)
  moreover have "echo_write send p w = uv_write p bufs (put_object p ?ob2 w)"
    using assms(2) ok c(1) by (simp add: echo_write_def object_ok_def tcp_writecomplete_def put_object_def)
  ultimately show ?thesis by simp
qed

lemma finish_close_inv:
  assumes "tcp_inv w" and "p \<in> set (closing_handles w)"
  shows "\<exists>w'. finish_close send p w = Some w' \<and> tcp_inv w'"
proof -
  obtain ob cb where ob: "tcp_heap w p = Some ob" "handle ob = Uv_closing cb" using assms by (auto simp: tcp_inv_def)
  obtain w1 where w1: "(if write_request ob \<noteq> None then echo_write send p w else Some w) = Some w1" "tcp_inv w1"
    "closing_handles w1 = closing_handles w" "\<exists>ob'. tcp_heap w1 p = Some ob' \<and> handle ob' = handle ob"
    using echo_write_inv [OF assms(1) ob(1), of send] assms(1) ob by (cases "write_request ob = None") auto
  let ?w2 = "w1\<lparr>closing_handles := List.remove1 p (closing_handles w1)\<rparr>"
  have i2: "tcp_inv ?w2" and n: "p \<notin> set (closing_handles ?w2)"
    using w1(2) by (auto simp: tcp_inv_def gone_def dest: notin_set_remove1)
  have "tcp_inv (take_note (Note_destroy p) ((take_note (Note_close p) ?w2)\<lparr>tcp_heap := (tcp_heap ?w2)(p := None)\<rparr>))"
    using i2 n w1(4) tcp_invD(1) [OF i2] by (auto simp: tcp_inv_def take_note_def gone_def)
  then have "\<exists>w'. on_uv_close p ?w2 = Some w' \<and> tcp_inv w'"
    using w1(4) by (auto simp: on_uv_close_def delete_socket_def take_note_def)
  then show ?thesis using ob w1(1) i2 by (auto simp: finish_close_def Let_def)
qed

text \<open>The connections of a \<open>NetServer\<close> and a \<open>NetClient\<close> (no \<open>HttpConnect\<close>), while every \<open>uv_accept\<close> succeeds and the
  application closes only connections that are not being closed already.\<close>

fun plain_event :: "'p tcp_lifecycle_event \<Rightarrow> 'p tcp_world \<Rightarrow> bool" where
  "plain_event (Ev_accept status ok prs) w = (prs = None \<and> (status \<ge> 0 \<longrightarrow> ok))"
| "plain_event (Ev_connect started prs) w = (prs = None)"
| "plain_event (App_close p) w = (case tcp_heap w p of None \<Rightarrow> False | Some ob \<Rightarrow> handle ob = Uv_open)"
| "plain_event _ w = True"

lemma tcp_step_inv:
  assumes i: "tcp_inv w" and "plain_event e w" and "enabled e w"
  shows "\<exists>w'. tcp_step send e w = Some w' \<and> tcp_inv w'"
proof (cases e)
  case (Ev_accept status ok prs)
  show ?thesis
  proof (cases "status < 0")
    case False
    obtain p w1 where n: "new_socket None w = (p, w1)" by (cases "new_socket None w")
    obtain ob where "tcp_inv w1" "tcp_heap w1 p = Some ob" "handle ob = Uv_open" using new_socket_inv [OF i n] by blast
    then obtain w2 where "on_read_start p w1 = Some w2" "tcp_inv w2" using read_start_inv by blast
    then show ?thesis using Ev_accept assms(2) n False note_inv by (auto simp: on_new_connection_def)
  qed (use Ev_accept i in \<open>simp add: on_new_connection_def\<close>)
next
  case (Ev_connect started prs)
  obtain p w1 where n: "new_socket None w = (p, w1)" by (cases "new_socket None w")
  obtain ob where ob: "tcp_inv w1" "tcp_heap w1 p = Some ob" using new_socket_inv [OF i n] by blast
  have "tcp_inv (put_object p (ob\<lparr>is_connecting := started\<rparr>) w1)"
    using ob tcp_invD(2) [OF ob] by (intro put_inv) (simp_all add: object_ok_def)
  then show ?thesis using Ev_connect assms(2) n ob by (simp add: client_connect_def)
next
  case (Ev_connected status p)
  then obtain ob where ob: "tcp_heap w p = Some ob" "handle ob = Uv_open" using assms(3) by (auto split: option.splits)
  let ?w = "put_object p (ob\<lparr>is_connecting := False\<rparr>) w"
  have "tcp_inv ?w" using ob tcp_invD(2) [OF i ob(1)] by (intro put_inv [OF i ob(1)]) (simp_all add: object_ok_def)
  moreover have "tcp_heap ?w p = Some (ob\<lparr>is_connecting := False\<rparr>)" by (simp add: put_object_def)
  ultimately have "\<exists>w'. uv_close False p ?w = Some w' \<and> tcp_inv w'" "\<exists>w'. on_read_start p ?w = Some w' \<and> tcp_inv w'"
    using uv_close_inv read_start_inv ob(2) by fastforce+
  then show ?thesis using Ev_connected ob note_inv by (auto simp: connect_cb_def Let_def)
next
  case (Ev_read n p)
  then obtain ob where ob: "tcp_heap w p = Some ob" "is_reading ob" using assms(3) by (auto split: option.splits)
  have "handle ob = Uv_open" using object_reading [OF tcp_invD(2) [OF i ob(1)] ob(2)] .
  then show ?thesis using Ev_read i uv_close_inv [OF i ob(1)] by (simp add: echo_read_cb_def)
next
  case (Ev_written p)
  then show ?thesis using assms(3) echo_write_inv [OF i] by (fastforce split: option.splits)
next
  case (Ev_closed p)
  then show ?thesis using assms(3) finish_close_inv [OF i] by simp
next
  case (App_send pk p)
  then obtain ob where ob: "tcp_heap w p = Some ob" using assms(3) by (auto split: option.splits)
  obtain s bufs where s: "TcpSocket_write send pk (send_queue ob) = (s, bufs)" by (cases "TcpSocket_write send pk (send_queue ob)")
  let ?ob = "ob\<lparr>send_queue := s\<rparr>"
  note ok = tcp_invD(2) [OF i ob]
  have q: "queue_ok s" "bufs \<noteq> None \<longrightarrow> mSending (send_queue ob) = [] \<and> mSending s \<noteq> []"
    "mSending (send_queue ob) \<noteq> [] \<longrightarrow> mSending s \<noteq> []"
    using TcpSocket_write_queue [OF _ s] ok by (auto simp: object_ok_def)
  then have "tcp_inv (put_object p ?ob w)" using i ob ok by (intro put_inv) (auto simp: object_ok_def)
  moreover have "tcp_heap (put_object p ?ob w) p = Some ?ob" by (simp add: put_object_def)
  ultimately have "\<exists>w'. uv_write p bufs (put_object p ?ob w) = Some w' \<and> tcp_inv w'"
    using uv_write_inv [of "put_object p ?ob w" p ?ob bufs] q(2) ok by (auto simp: object_ok_def)
  then show ?thesis using App_send ob s by (simp add: socket_send_def)
next
  case (App_close p)
  then show ?thesis using assms(2) uv_close_inv [OF i] by (auto simp: tcp_close_def split: option.splits)
qed

lemma tcp_reach_inv: "tcp_reach send plain_event w \<Longrightarrow> tcp_inv w"
proof (induction rule: tcp_reach.induct)
  case tcp_start
  then show ?case by (simp add: tcp_inv_def tcp_world_init_def gone_def)
next
  case (tcp_more w e w')
  then show ?case using tcp_step_inv [of w e send] by auto
qed

lemma same_next:
  "uv_write p bufs w = Some w' \<Longrightarrow> tcp_next w' = tcp_next w"
  "uv_close cb p w = Some w' \<Longrightarrow> tcp_next w' = tcp_next w"
  "on_uv_close p w = Some w' \<Longrightarrow> tcp_next w' = tcp_next w"
  by (auto simp: uv_write_def uv_close_def on_uv_close_def delete_socket_def take_note_def put_object_def
      split: option.splits if_splits)

lemma echo_write_next: "echo_write send p w = Some w' \<Longrightarrow> tcp_next w' = tcp_next w"
  by (auto simp: echo_write_def tcp_writecomplete_def tcp_close_def put_object_def Let_def dest!: same_next
      split: option.splits if_splits Option.bind_splits)

lemma finish_close_next: "finish_close send p w = Some w' \<Longrightarrow> tcp_next w' = tcp_next w"
  by (auto simp: finish_close_def Let_def dest!: same_next echo_write_next split: option.splits if_splits Option.bind_splits)

text \<open>Once \<open>on_uv_close\<close> has run the connection is gone; closed without it, it stays.\<close>

lemma finish_close_keeps:
  assumes "tcp_inv w" and "tcp_heap w p = Some ob" and "handle ob = Uv_closing False" and "finish_close send p w = Some w'"
  shows "\<exists>ob'. tcp_heap w' p = Some ob' \<and> handle ob' = Uv_closing False"
proof (cases "write_request ob = None")
  case False
  obtain w1 where "echo_write send p w = Some w1" "\<exists>ob'. tcp_heap w1 p = Some ob' \<and> handle ob' = handle ob"
    using echo_write_inv [OF assms(1,2)] by blast
  then show ?thesis using assms(2-4) False by (auto simp: finish_close_def Let_def)
qed (use assms in \<open>auto simp: finish_close_def Let_def\<close>)

lemma finish_close_gone:
  assumes "tcp_inv w" and "tcp_heap w p = Some ob" and "handle ob = Uv_closing True" and "finish_close send p w = Some w'"
  shows "tcp_heap w' p = None"
  using assms(2-4)
  by (auto simp: finish_close_def Let_def on_uv_close_def delete_socket_def take_note_def split: option.splits if_splits
      Option.bind_splits)

definition demo_events :: "byte list tcp_lifecycle_event list" where
  "demo_events = [Ev_accept 0 True None, App_send [1, 2] 0, Ev_connect True None, Ev_read (-4095) 0, Ev_connected (-111) 1,
     Ev_closed 0, Ev_closed 1, Ev_accept 0 True None, App_close 2, Ev_closed 2]"

fun all_satisfy ::
  "('p \<Rightarrow> byte list) \<Rightarrow> ('p tcp_lifecycle_event \<Rightarrow> 'p tcp_world \<Rightarrow> bool) \<Rightarrow> 'p tcp_lifecycle_event list \<Rightarrow> 'p tcp_world \<Rightarrow> bool" where
  "all_satisfy send ok [] w = True"
| "all_satisfy send ok (e # es) w =
     (ok e w \<and> (case tcp_step send e w of None \<Rightarrow> True | Some w' \<Rightarrow> all_satisfy send ok es w'))"

lemma tcp_steps_reach:
  "tcp_reach send ok w \<Longrightarrow> all_satisfy send ok es w \<Longrightarrow> all_enabled send es w \<Longrightarrow> tcp_steps send es w = Some w' \<Longrightarrow> tcp_reach send ok w'"
proof (induction es arbitrary: w)
  case (Cons e es)
  then obtain w1 where "tcp_step send e w = Some w1" "tcp_steps send es w1 = Some w'" by (cases "tcp_step send e w") auto
  then show ?case using Cons tcp_more [of send ok w e w1] by simp
qed simp

lemmas tcp_eval = demo_events_def tcp_world_init_def on_new_connection_def new_socket_def put_object_def take_note_def
  on_read_start_def client_connect_def connect_cb_def echo_read_cb_def uv_close_def finish_close_def echo_write_def
  socket_send_def uv_write_def TcpSocket_write_def TcpSocket_ctor_def isSending_def send_top_msg_def MAX_SEND_BYTE_def
  MAX_SEND_PACKET_def to_i32_def tcp_writecomplete_def on_writecomplete_def on_uv_close_def delete_socket_def tcp_close_def

lemma demo_events_run:
  "all_satisfy id plain_event demo_events tcp_world_init" "all_enabled id demo_events tcp_world_init"
  "map_option (\<lambda>w. (tcp_notes w, map_option handle (tcp_heap w 1), closing_handles w)) (tcp_steps id demo_events tcp_world_init)
   = Some ([Note_accept 0, Note_connect None, Note_close 0, Note_destroy 0, Note_accept 2, Note_close 2, Note_destroy 2],
       Some (Uv_closing False), [])"
  by (simp_all add: tcp_eval Let_def)

section \<open>Properties\<close>

text \<open>C35. The connections of a \<open>NetServer\<close> and a \<open>NetClient\<close>, in every interleaving of the callbacks of libuv with sends
  and closes of the application in which every \<open>uv_accept\<close> succeeds and the application closes only connections that
  are not being closed already: no callback uses a connection that was deleted, closes a handle twice or starts a second
  write on \<open>m_write_t\<close>; \<open>onClose\<close> and \<open>destroyConnect\<close> run once for every connection that is gone and for no other;
  and a connection whose handle is closed with \<open>on_uv_close\<close> is gone when libuv is done with it.\<close>

theorem tcp_lifecycle_safe:
  assumes "tcp_reach send plain_event w"
  shows "(\<forall>e. plain_event e w \<and> enabled e w \<longrightarrow> tcp_step send e w \<noteq> None)
    \<and> (\<forall>p. count_list (tcp_notes w) (Note_close p) = (if gone p w then 1 else 0)
           \<and> count_list (tcp_notes w) (Note_destroy p) = (if gone p w then 1 else 0))
    \<and> (\<forall>p ob. p \<in> set (closing_handles w) \<and> tcp_heap w p = Some ob \<and> handle ob = Uv_closing True \<longrightarrow>
           (\<exists>w'. tcp_step send (Ev_closed p) w = Some w' \<and> gone p w'))"
proof -
  note i = tcp_reach_inv [OF assms]
  have 1: "tcp_step send e w \<noteq> None" if "plain_event e w" "enabled e w" for e using tcp_step_inv [OF i that, of send] by auto
  have 2: "\<exists>w'. tcp_step send (Ev_closed p) w = Some w' \<and> gone p w'"
    if c: "p \<in> set (closing_handles w)" and h: "tcp_heap w p = Some ob" "handle ob = Uv_closing True" for p ob
  proof -
    obtain w' where w': "finish_close send p w = Some w'" "tcp_inv w'" using finish_close_inv [OF i c] by blast
    have "tcp_next w' = tcp_next w" using w'(1) finish_close_next by blast
    then show ?thesis using w' finish_close_gone [OF i h w'(1)] tcp_invD(1) [OF i h(1)] by (simp add: gone_def)
  qed
  show ?thesis using i 1 2 by (auto simp: tcp_inv_def)
qed

theorem tcp_lifecycle_safe_witness:
  "\<exists>w. tcp_steps id demo_events tcp_world_init = Some w
     \<and> tcp_notes w = [Note_accept 0, Note_connect None, Note_close 0, Note_destroy 0, Note_accept 2, Note_close 2, Note_destroy 2]
     \<and> tcp_step id (Ev_accept 0 True None) w \<noteq> None"
proof -
  obtain w where w: "tcp_steps id demo_events tcp_world_init = Some w"
    "tcp_notes w = [Note_accept 0, Note_connect None, Note_close 0, Note_destroy 0, Note_accept 2, Note_close 2, Note_destroy 2]"
    using demo_events_run(3) by auto
  have "tcp_reach id plain_event w" using tcp_steps_reach [OF tcp_start demo_events_run(1,2) w(1)] .
  from conjunct1 [OF tcp_lifecycle_safe [OF this], THEN spec, of "Ev_accept 0 True None"] w show ?thesis by auto
qed

text \<open>C36. \<open>HttpConnect::on_writecomplete\<close> closes the connection whatever its state. When the peer disconnects while an answer
  is being written, \<open>echo_read\<close> closes the handle, libuv cancels the write, and its callback closes the handle a second
  time, which is a failed assertion of libuv and ends the server. The answer alone is closed once.\<close>

theorem http_disconnect_during_reply_aborts:
  assumes "tcp_heap w p = Some ob" and "handle ob = Uv_open" and "is_reading ob" and "write_request ob \<noteq> None"
    and "http_parser ob = Some prs" and "isClose prs"
  shows "all_enabled send [Ev_read (-4095) p, Ev_closed p] w \<and> tcp_steps send [Ev_read (-4095) p] w \<noteq> None
    \<and> tcp_steps send [Ev_read (-4095) p, Ev_closed p] w = None"
  using assms by (simp add: tcp_eval)

theorem http_disconnect_during_reply_aborts_witness:
  "\<exists>w. tcp_steps id [Ev_accept 0 True (Some (llhttp_init HTTP_REQUEST)), App_send [72] 0] tcp_world_init = Some w
     \<and> tcp_steps id [Ev_read (-4095) 0, Ev_closed 0] w = None
     \<and> (\<exists>w'. tcp_steps id [Ev_written 0, Ev_closed 0] w = Some w' \<and> gone 0 w')"
proof -
  let ?prs = "llhttp_init HTTP_REQUEST"
  have c: "isClose ?prs" by (simp add: isClose_def llhttp_should_keep_alive_def llhttp_init_def)
  obtain w where w: "tcp_steps id [Ev_accept 0 True (Some ?prs), App_send [72] 0] tcp_world_init = Some w"
    and ob: "tcp_heap w 0 = Some \<lparr>handle = Uv_open, is_reading = True, is_connecting = False, write_request = Some [[72]],
      send_queue = \<lparr>mSending = [[72]], mSendPackets = [[72]]\<rparr>, http_parser = Some ?prs\<rparr>" and n: "tcp_next w = 1"
    by (simp add: tcp_eval Let_def)
  have "tcp_steps id [Ev_read (-4095) 0, Ev_closed 0] w = None"
    using http_disconnect_during_reply_aborts [OF ob, of ?prs id] c by simp
  moreover have "\<exists>w'. tcp_steps id [Ev_written 0, Ev_closed 0] w = Some w' \<and> gone 0 w'"
    using ob c n by (simp add: tcp_eval gone_def)
  ultimately show ?thesis using w by blast
qed

section \<open>Failures\<close>

text \<open>An application that closes a connection whose peer has disconnected aborts: \<open>echo_read\<close> has closed the handle
  already, the application is told only by \<open>onClose\<close>, when the close is finished, and \<open>TcpSocketBase::close\<close> closes the
  handle a second time, a failed assertion of libuv.\<close>

theorem tcp_close_after_disconnect_aborts:
  assumes "tcp_heap w p = Some ob" and "handle ob = Uv_open" and "is_reading ob" and "\<not> is_connecting ob"
  shows "all_enabled send [Ev_read (-4095) p, App_close p] w \<and> tcp_steps send [Ev_read (-4095) p] w \<noteq> None
    \<and> tcp_steps send [Ev_read (-4095) p, App_close p] w = None"
  using assms by (simp add: tcp_eval)

theorem tcp_close_after_disconnect_aborts_witness:
  "\<exists>w. tcp_steps id [Ev_accept 0 True None] tcp_world_init = Some w
     \<and> tcp_steps id [Ev_read (-4095) 0, App_close 0] w = None"
proof -
  obtain w where w: "tcp_steps id [Ev_accept 0 True None] tcp_world_init = Some w"
    and ob: "tcp_heap w 0 = Some \<lparr>handle = Uv_open, is_reading = True, is_connecting = False, write_request = None,
      send_queue = \<lparr>mSending = [], mSendPackets = []\<rparr>, http_parser = None\<rparr>"
    by (simp add: tcp_eval Let_def)
  have "tcp_steps id [Ev_read (-4095) 0, App_close 0] w = None"
    using tcp_close_after_disconnect_aborts [OF ob, of id] by simp
  with w show ?thesis by blast
qed

text \<open>A failed \<open>uv_accept\<close>: the connection is deleted at once, while libuv still has to finish its close.\<close>

lemma tcp_failed_accept_dangles:
  assumes "tcp_inv w" and "on_new_connection 0 False prs w = Some w'"
  shows "enabled (Ev_closed (tcp_next w)) w' \<and> tcp_step send (Ev_closed (tcp_next w)) w' = None"
  using assms(2) by (auto simp: tcp_eval)

text \<open>A failed connect: the handle is closed without a callback and the connection is never deleted.\<close>

lemma tcp_failed_connect_leaks:
  assumes "tcp_inv w" and "tcp_heap w p = Some ob" and "handle ob = Uv_open" and "write_request ob = None"
  shows "\<exists>w'. tcp_steps send [Ev_connected (-111) p, Ev_closed p] w = Some w' \<and> p \<notin> set (closing_handles w')
    \<and> (\<exists>ob'. tcp_heap w' p = Some ob' \<and> handle ob' = Uv_closing False)"
proof -
  have "p \<notin> set (closing_handles w)" using assms(1-3) by (auto simp: tcp_inv_def)
  then show ?thesis using assms by (auto simp: tcp_eval Let_def remove1_append)
qed

end
