(* ===== verification/Database.thy ===== *)
theory Database
  imports Sql Redis
begin

text \<open>
  \<open>src/db/DB_Interface_mysql.cpp\<close>, \<open>DB_Interface_redis.cpp\<close>, \<open>DBThreadPool.h/.cpp\<close>, and \<open>prepare\<close>, \<open>execute\<close> and
  \<open>_query\<close> of \<open>SqlPrepare.cpp\<close>: connecting, the tasks of the database threads and the callbacks that report their results.
  The MySQL library and hiredis are arguments: a record of their functions over the state of a connection, in which
  \<^const>\<open>True\<close> stands for success. A use of a null pointer, a cast to the wrong class and a failed \<open>assert\<close> are
  \<^const>\<open>None\<close>. The pool that runs the tasks is \<open>Thread_Pool\<close>.
\<close>

section \<open>MySQL\<close>

text \<open>\<open>lib_metadata\<close> is the null pointer for a statement without a result; \<open>lib_rows\<close> are the rows that
  \<open>mysql_stmt_fetch\<close> delivers into buffers that \<open>lib_bound\<close> says were bound.\<close>

record 'm mysql_lib =
  lib_init :: "'m option"
  lib_charset :: "'m \<Rightarrow> bool \<times> 'm"
  lib_reconnect :: "'m \<Rightarrow> bool \<times> 'm"
  lib_real_connect :: "'m \<Rightarrow> bool \<times> 'm"
  lib_errno :: "'m \<Rightarrow> int"
  lib_error :: "'m \<Rightarrow> byte list"
  lib_stmt_init :: "'m \<Rightarrow> bool \<times> 'm"
  lib_stmt_prepare :: "byte list \<Rightarrow> 'm \<Rightarrow> bool \<times> 'm"
  lib_param_count :: "'m \<Rightarrow> nat"
  lib_bind_param :: "MYSQL_BIND list \<Rightarrow> 'm \<Rightarrow> bool \<times> 'm"
  lib_stmt_execute :: "'m \<Rightarrow> bool \<times> 'm"
  lib_metadata :: "'m \<Rightarrow> MYSQL_FIELD list option"
  lib_store_result :: "'m \<Rightarrow> bool \<times> 'm"
  lib_bound :: "'m \<Rightarrow> bool"
  lib_rows :: "'m \<Rightarrow> byte list option list list"
  lib_num_rows :: "'m \<Rightarrow> u64"
  lib_affected_rows :: "'m \<Rightarrow> u64"

text \<open>\<open>DBInterfaceMysql\<close> is its handle, \<open>mMysql_\<close>. The result of \<open>connect\<close>, of which the program makes no use, and the
  handle after it.\<close>

definition DBInterfaceMysql_connect :: "'m mysql_lib \<Rightarrow> 'm option \<Rightarrow> (bool \<times> 'm) option" where
  "DBInterfaceMysql_connect lib mysql =
     (case mysql of
        None \<Rightarrow> None
      | Some m \<Rightarrow>
          let (ok, m1) = lib_charset lib m in
          if \<not> ok then Some (False, m1)
          else let (ok, m2) = lib_reconnect lib m1 in
            if \<not> ok then Some (False, m2)
            else let (ok, m3) = lib_real_connect lib m2 in if \<not> ok then Some (False, m3) else Some (True, m3))"

definition SqlPrepare_prepare :: "'m mysql_lib \<Rightarrow> SqlPrepare \<Rightarrow> 'm \<Rightarrow> (int \<times> 'm) option" where
  "SqlPrepare_prepare lib p m =
     (let (ok, m1) = lib_stmt_init lib m in
      if \<not> ok then Some (- 1, m1)
      else let (ok, m2) = lib_stmt_prepare lib (m_sql p) m1 in
        if \<not> ok then Some (- 1, m2)
        else if lib_param_count lib m2 \<noteq> m_count p then None
        else Some (0, m2))"

text \<open>\<open>_query\<close>: whether it failed, and the metadata of the result.\<close>

definition SqlPrepare_query :: "'m mysql_lib \<Rightarrow> SqlPrepare \<Rightarrow> 'm \<Rightarrow> bool \<times> MYSQL_FIELD list option \<times> 'm" where
  "SqlPrepare_query lib p m =
     (let (ok, m1) = (if m_paramBind p \<noteq> [] then lib_bind_param lib (m_paramBind p) m else (True, m)) in
      if \<not> ok then (True, None, m1)
      else let (ok, m2) = lib_stmt_execute lib m1 in if \<not> ok then (True, None, m2) else (False, lib_metadata lib m2, m2))"

definition SqlPrepare_execute ::
  "'m mysql_lib \<Rightarrow> nat \<Rightarrow> SqlPrepare \<Rightarrow> SqlResultSet \<Rightarrow> 'm \<Rightarrow> (int \<times> SqlResultSet \<times> 'm) option" where
  "SqlPrepare_execute lib mysql_time p s m =
     (let (failed, res, m1) = SqlPrepare_query lib p m in
      if failed then Some (- 1, s, m1)
      else let (ok, m2) = lib_store_result lib m1 in
        if \<not> ok then Some (- 1, s, m2)
        else map_option (\<lambda>s. (to_i32 (uint (lib_affected_rows lib m2)), s, m2))
               (setResult mysql_time (case res of None \<Rightarrow> [] | Some flds \<Rightarrow> flds) (lib_bound lib m2) (lib_rows lib m2)
                 (lib_num_rows lib m2) s))"

section \<open>Redis\<close>

record 'c redis_lib =
  hi_connect :: "'c option"
  hi_err :: "'c \<Rightarrow> int"
  hi_errstr :: "'c \<Rightarrow> byte list"
  hi_call :: "redis_call \<Rightarrow> 'c \<Rightarrow> redisReply option \<times> 'c"

text \<open>\<open>DBInterfaceRedis\<close> is its \<open>m_context\<close>.\<close>

definition DBInterfaceRedis_connect :: "'c redis_lib \<Rightarrow> 'c option \<Rightarrow> (bool \<times> 'c option) option" where
  "DBInterfaceRedis_connect lib ctx =
     (case hi_connect lib of
        None \<Rightarrow> None
      | Some c \<Rightarrow> if hi_err lib c \<noteq> 0 then Some (False, ctx) else Some (True, Some c))"

definition DBInterfaceRedis_detach :: "'c option \<Rightarrow> 'c option" where
  "DBInterfaceRedis_detach ctx = None"

definition DBInterfaceRedis_execute ::
  "'c redis_lib \<Rightarrow> RedisCommand \<Rightarrow> RedisResult \<Rightarrow> 'c option \<Rightarrow> (int \<times> RedisResult \<times> 'c option) option" where
  "DBInterfaceRedis_execute lib command s ctx =
     do { (call, _) \<leftarrow> redis_execute command;
          c \<leftarrow> ctx;
          let (reply, c1) = hi_call lib call c in
          if hi_err lib c1 \<noteq> 0 then Some (- 1, s, Some c1) else Some (0, s\<lparr>m_reply := reply\<rparr>, Some c1) }"

definition DBInterfaceRedis_getErrno :: "'c redis_lib \<Rightarrow> 'c option \<Rightarrow> int" where
  "DBInterfaceRedis_getErrno lib ctx = (case ctx of None \<Rightarrow> 0 | Some c \<Rightarrow> hi_err lib c)"

definition null_context_error :: "byte list" where
  "null_context_error = List.map (\<lambda>c. of_nat (of_char c)) ''pRedisContext_ is NULL''"

definition DBInterfaceRedis_getError :: "'c redis_lib \<Rightarrow> 'c option \<Rightarrow> byte list" where
  "DBInterfaceRedis_getError lib ctx = (case ctx of None \<Rightarrow> null_context_error | Some c \<Rightarrow> hi_errstr lib c)"

section \<open>Tasks\<close>

text \<open>\<open>_ret\<close> has no value before \<open>process\<close>; \<open>backfunc\<close> is whether there is a function to call.\<close>

record 'r DBTask =
  task_ret :: "int option"
  task_errno :: int
  task_error :: "byte list"
  task_result :: 'r
  backfunc :: bool

definition DBTask_ctor :: "'r \<Rightarrow> 'r DBTask" where
  "DBTask_ctor r = \<lparr>task_ret = None, task_errno = 0, task_error = [], task_result = r, backfunc = True\<rparr>"

definition DBSqlTask_process ::
  "'m mysql_lib \<Rightarrow> nat \<Rightarrow> SqlPrepare \<Rightarrow> SqlResultSet DBTask \<Rightarrow> 'm \<Rightarrow> (SqlResultSet DBTask \<times> 'm) option" where
  "DBSqlTask_process lib mysql_time p t m =
     do { (ret, m1) \<leftarrow> SqlPrepare_prepare lib p m;
          (ret, s, m2) \<leftarrow> (if ret \<ge> 0 then SqlPrepare_execute lib mysql_time p (task_result t) m1 else Some (ret, task_result t, m1));
          let t1 = t\<lparr>task_ret := Some ret, task_result := s\<rparr>;
          Some (if ret < 0 then t1\<lparr>task_errno := lib_errno lib m2, task_error := lib_error lib m2\<rparr> else t1, m2) }"

definition DBRedisTask_process ::
  "'c redis_lib \<Rightarrow> RedisCommand \<Rightarrow> RedisResult DBTask \<Rightarrow> 'c option \<Rightarrow> (RedisResult DBTask \<times> 'c option) option" where
  "DBRedisTask_process lib command t ctx =
     do { (ret, s, ctx1) \<leftarrow> DBInterfaceRedis_execute lib command (task_result t) ctx;
          let t1 = t\<lparr>task_ret := Some ret, task_result := s\<rparr>;
          Some (if ret < 0 then t1\<lparr>task_errno := DBInterfaceRedis_getErrno lib ctx1, task_error := DBInterfaceRedis_getError lib ctx1\<rparr>
                else t1, ctx1) }"

text \<open>\<open>complete\<close>, of both kinds of tasks: the call of \<open>backfunc\<close>, with the error as a string or \<open>NULL\<close>.\<close>

definition DBTask_complete :: "'r DBTask \<Rightarrow> ((int \<times> byte list option \<times> 'r) option \<times> 'r DBTask) option" where
  "DBTask_complete t =
     do { ret \<leftarrow> task_ret t;
          let str = (if ret < 0 then Some (task_error t) else None);
          Some (if backfunc t then (Some (task_errno t, str, task_result t), t\<lparr>backfunc := False\<rparr>) else (None, t)) }"

section \<open>Threads\<close>

datatype ('m, 'c) DB_Interface = Mysql_db 'm | Redis_db "'c option"

datatype db_task = Sql_task SqlPrepare "SqlResultSet DBTask" | Redis_task RedisCommand "RedisResult DBTask"

text \<open>\<open>onStart\<close>, for the \<open>device\<close> of the configuration; what \<open>connect\<close> returns is dropped.\<close>

definition DBThread_onStart :: "'m mysql_lib \<Rightarrow> 'c redis_lib \<Rightarrow> string \<Rightarrow> ('m, 'c) DB_Interface option" where
  "DBThread_onStart ml rl device =
     (if device = ''mysql'' then map_option (\<lambda>(_, m). Mysql_db m) (DBInterfaceMysql_connect ml (lib_init ml))
      else map_option (\<lambda>(_, ctx). Redis_db ctx) (DBInterfaceRedis_connect rl None))"

fun DBThread_run ::
  "'m mysql_lib \<Rightarrow> 'c redis_lib \<Rightarrow> nat \<Rightarrow> db_task \<Rightarrow> ('m, 'c) DB_Interface \<Rightarrow> (db_task \<times> ('m, 'c) DB_Interface) option" where
  "DBThread_run ml rl mt (Sql_task p t) (Mysql_db m) =
     map_option (\<lambda>(t, m). (Sql_task p t, Mysql_db m)) (DBSqlTask_process ml mt p t m)"
| "DBThread_run ml rl mt (Redis_task c t) (Redis_db ctx) =
     map_option (\<lambda>(t, ctx). (Redis_task c t, Redis_db ctx)) (DBRedisTask_process rl c t ctx)"
| "DBThread_run ml rl mt (Sql_task p t) (Redis_db ctx) = None"
| "DBThread_run ml rl mt (Redis_task c t) (Mysql_db m) = None"

section \<open>What a statement needs of the library\<close>

text \<open>The calls a statement makes, in order, up to the first that fails.\<close>

fun run_calls :: "('m \<Rightarrow> bool \<times> 'm) list \<Rightarrow> 'm \<Rightarrow> bool \<times> 'm" where
  "run_calls [] m = (True, m)"
| "run_calls (f # fs) m = (let (ok, m1) = f m in if ok then run_calls fs m1 else (False, m1))"

definition sql_calls :: "'m mysql_lib \<Rightarrow> SqlPrepare \<Rightarrow> ('m \<Rightarrow> bool \<times> 'm) list" where
  "sql_calls lib p =
     [lib_stmt_init lib, lib_stmt_prepare lib (m_sql p)] @ (if m_paramBind p \<noteq> [] then [lib_bind_param lib (m_paramBind p)] else [])
     @ [lib_stmt_execute lib]"

lemma run_calls_append:
  "run_calls (fs @ gs) m = (let (ok, m1) = run_calls fs m in if ok then run_calls gs m1 else (False, m1))"
  by (induction fs arbitrary: m) (auto simp: Let_def split: prod.splits)

lemma prepare_calls:
  assumes "\<forall>m. lib_param_count lib m = m_count p"
  shows "SqlPrepare_prepare lib p m =
    (let (ok, m1) = run_calls [lib_stmt_init lib, lib_stmt_prepare lib (m_sql p)] m in Some (if ok then 0 else - 1, m1))"
  using assms by (simp add: SqlPrepare_prepare_def Let_def split: prod.splits)

lemma query_calls:
  "SqlPrepare_query lib p m =
    (let (ok, m1) = run_calls ((if m_paramBind p \<noteq> [] then [lib_bind_param lib (m_paramBind p)] else []) @ [lib_stmt_execute lib]) m in
     if ok then (False, lib_metadata lib m1, m1) else (True, None, m1))"
  by (auto simp: SqlPrepare_query_def Let_def split: prod.splits)

text \<open>A statement runs: after its calls its result is stored, which is read by \<open>setResult\<close>.\<close>

lemma process_calls:
  assumes c: "\<forall>m. lib_param_count lib m = m_count p"
  shows "DBSqlTask_process lib mt p t m =
    (let (ok, m1) = run_calls (sql_calls lib p) m; (stored, m2) = (if ok then lib_store_result lib m1 else (False, m1)) in
     if \<not> stored
     then Some (t\<lparr>task_ret := Some (- 1), task_errno := lib_errno lib m2, task_error := lib_error lib m2\<rparr>, m2)
     else do { s \<leftarrow> setResult mt (case lib_metadata lib m1 of None \<Rightarrow> [] | Some flds \<Rightarrow> flds) (lib_bound lib m2) (lib_rows lib m2)
                    (lib_num_rows lib m2) (task_result t);
               let ret = to_i32 (uint (lib_affected_rows lib m2));
               let t1 = t\<lparr>task_ret := Some ret, task_result := s\<rparr>;
               Some (if ret < 0 then t1\<lparr>task_errno := lib_errno lib m2, task_error := lib_error lib m2\<rparr> else t1, m2) })"
proof -
  let ?a = "[lib_stmt_init lib, lib_stmt_prepare lib (m_sql p)]"
  let ?b = "(if m_paramBind p \<noteq> [] then [lib_bind_param lib (m_paramBind p)] else []) @ [lib_stmt_execute lib]"
  have s: "sql_calls lib p = ?a @ ?b" by (simp add: sql_calls_def)
  obtain ok m1 where a: "run_calls ?a m = (ok, m1)" by (cases "run_calls ?a m")
  obtain ok2 m2 where b: "run_calls ?b m1 = (ok2, m2)" by (cases "run_calls ?b m1")
  obtain st m3 where st: "lib_store_result lib m2 = (st, m3)" by (cases "lib_store_result lib m2")
  have p: "SqlPrepare_prepare lib p m = Some (if ok then 0 else - 1, m1)" using prepare_calls [OF c, of m] a by simp
  have q: "SqlPrepare_query lib p m1 = (if ok2 then (False, lib_metadata lib m2, m2) else (True, None, m2))"
    using query_calls [of lib p m1] b by simp
  have r: "run_calls (sql_calls lib p) m = (if ok then (ok2, m2) else (False, m1))"
    using run_calls_append [of ?a ?b m] a b by (auto simp: s)
  show ?thesis
  proof (cases ok)
    case False
    then show ?thesis using p r by (simp add: DBSqlTask_process_def Let_def)
  next
    case True
    then show ?thesis
      using p q r st by (auto simp: DBSqlTask_process_def SqlPrepare_execute_def Let_def split: option.splits Option.bind_splits)
  qed
qed

lemma delivered_count:
  assumes "Sql.delivered mt flds rows"
  shows "to_i32 (uint (word_of_nat (length rows) :: u64)) = int (length rows)"
proof -
  have f: "flds \<noteq> []" "length rows * length flds < 2 ^ 31" using assms by (simp_all add: Sql.delivered_def)
  have "length rows \<le> length rows * length flds" using f(1) by (cases flds) auto
  then have "length rows < 2 ^ 31" using f(2) by (rule le_less_trans)
  moreover from this have "uint (word_of_nat (length rows) :: u64) = int (length rows)"
    by (simp add: unsigned_of_nat take_bit_nat_eq_self)
  ultimately show ?thesis by (simp add: to_i32_id)
qed

section \<open>Properties\<close>

text \<open>A library for the examples: its state is the list of its answers.\<close>

definition answer :: "bool list \<Rightarrow> bool \<times> bool list" where
  "answer m = (case m of [] \<Rightarrow> (True, []) | a # as \<Rightarrow> (a, as))"

definition demo_lib :: "bool list mysql_lib" where
  "demo_lib = \<lparr>lib_init = Some [], lib_charset = answer, lib_reconnect = answer, lib_real_connect = answer,
     lib_errno = (\<lambda>_. 1064), lib_error = (\<lambda>_. [101]), lib_stmt_init = answer, lib_stmt_prepare = (\<lambda>_. answer),
     lib_param_count = (\<lambda>_. 0), lib_bind_param = (\<lambda>_. answer), lib_stmt_execute = answer,
     lib_metadata = (\<lambda>_. Some [demo_field, demo_field]), lib_store_result = answer, lib_bound = (\<lambda>_. True),
     lib_rows = (\<lambda>_. [[Some [1, 0, 0, 0], None]]), lib_num_rows = (\<lambda>_. 1), lib_affected_rows = (\<lambda>_. 1)\<rparr>"

lemmas demo_calls = demo_lib_def answer_def sql_calls_def SqlPrepare_ctor_def Let_def

text \<open>C38. A statement that fails is reported once. For a statement whose number of \<open>?\<close> is the number of its parameters: when
  the library refuses one of \<open>mysql_stmt_init\<close>, \<open>mysql_stmt_prepare\<close>, \<open>mysql_stmt_bind_param\<close>, \<open>mysql_stmt_execute\<close> and
  \<open>mysql_stmt_store_result\<close>, the ones after it are not made, and \<open>complete\<close> calls \<open>backfunc\<close> with the error number and the error string of
  the connection at that moment and an empty result; a second \<open>complete\<close> calls nothing.\<close>

theorem db_failure_reported_once:
  assumes "\<forall>m. lib_param_count lib m = m_count p"
    and "run_calls (sql_calls lib p @ [lib_store_result lib]) m = (False, m')"
  shows "\<exists>t t'. DBSqlTask_process lib mysql_time p (DBTask_ctor SqlResultSet_ctor) m = Some (t, m')
    \<and> DBTask_complete t = Some (Some (lib_errno lib m', Some (lib_error lib m'), SqlResultSet_ctor), t')
    \<and> DBTask_complete t' = Some (None, t')"
proof -
  obtain ok m1 where r: "run_calls (sql_calls lib p) m = (ok, m1)" by (cases "run_calls (sql_calls lib p) m")
  obtain st m2 where st: "lib_store_result lib m1 = (st, m2)" by (cases "lib_store_result lib m1")
  have "(if ok then (st, m2) else (False, m1)) = (False, m')"
    using assms(2) r st run_calls_append [of "sql_calls lib p" "[lib_store_result lib]" m] by (auto split: if_splits)
  then have "DBSqlTask_process lib mysql_time p (DBTask_ctor SqlResultSet_ctor) m
    = Some ((DBTask_ctor SqlResultSet_ctor)\<lparr>task_ret := Some (- 1), task_errno := lib_errno lib m', task_error := lib_error lib m'\<rparr>, m')"
    using process_calls [OF assms(1), of mysql_time _ m] r st by (auto simp: Let_def split: if_splits)
  then show ?thesis by (simp add: DBTask_complete_def DBTask_ctor_def)
qed

theorem db_failure_reported_once_witness:
  "\<exists>t t'. DBSqlTask_process demo_lib 40 (SqlPrepare_ctor [83]) (DBTask_ctor SqlResultSet_ctor) [True, False] = Some (t, [])
    \<and> DBTask_complete t = Some (Some (1064, Some [101], SqlResultSet_ctor), t')
    \<and> DBTask_complete t' = Some (None, t')"
  using db_failure_reported_once [of demo_lib "SqlPrepare_ctor [83]" "[True, False]" "[]" 40] by (simp add: demo_calls)

text \<open>C37. A query from the task to the callback. For a statement whose number of \<open>?\<close> is the number of its parameters: when
  every call succeeds, the library delivers rows whose cells fit their buffers, fewer than \<open>2 ^ 31\<close> cells, and reports
  the number of these rows as the rows affected, \<open>complete\<close> calls \<open>backfunc\<close> once, with error number 0 and no error string, and reading the result it passes with
  \<open>fetch\<close> and \<open>getString\<close> yields the data of every cell of every row in order, with nothing for a SQL null.\<close>

theorem db_query_delivers:
  assumes "\<forall>m. lib_param_count lib m = m_count p"
    and "run_calls (sql_calls lib p) m = (True, m1)" and "lib_store_result lib m1 = (True, m2)"
    and "lib_metadata lib m1 = Some flds" and "lib_bound lib m2" and "Sql.delivered mysql_time flds (lib_rows lib m2)"
    and "lib_num_rows lib m2 = word_of_nat (length (lib_rows lib m2))" and "lib_affected_rows lib m2 = lib_num_rows lib m2"
    and "length (lib_rows lib m2) < fuel"
  shows "\<exists>t t' s. DBSqlTask_process lib mysql_time p (DBTask_ctor SqlResultSet_ctor) m = Some (t, m2)
    \<and> DBTask_complete t = Some (Some (0, None, s), t') \<and> DBTask_complete t' = Some (None, t')
    \<and> read_rows (length flds) fuel s = Some (List.map (List.map cell_bytes) (lib_rows lib m2))"
proof -
  let ?rows = "lib_rows lib m2"
  from setResult_holds [OF assms(6)] obtain s where
    s: "setResult mysql_time flds True ?rows (word_of_nat (length ?rows)) SqlResultSet_ctor = Some s"
    "holds (length flds) ?rows s" "m_currRowIdx s = - 1" by blast
  have rd: "read_rows (length flds) fuel s = Some (List.map (List.map cell_bytes) (drop 0 ?rows))"
    using s assms(9) by (intro read_rows_cells) simp_all
  have "to_i32 (uint (lib_affected_rows lib m2)) = int (length ?rows)" using delivered_count [OF assms(6)] assms(7,8) by simp
  then have "DBSqlTask_process lib mysql_time p (DBTask_ctor SqlResultSet_ctor) m
    = Some ((DBTask_ctor s)\<lparr>task_ret := Some (int (length ?rows))\<rparr>, m2)"
    using process_calls [OF assms(1), of mysql_time _ m] assms(2-5,7) s(1) by (simp add: DBTask_ctor_def Let_def)
  then show ?thesis using rd by (simp add: DBTask_complete_def DBTask_ctor_def)
qed

theorem db_query_delivers_witness:
  "\<exists>t t' s. DBSqlTask_process demo_lib 40 (SqlPrepare_ctor [83]) (DBTask_ctor SqlResultSet_ctor) [] = Some (t, [])
    \<and> DBTask_complete t = Some (Some (0, None, s), t') \<and> DBTask_complete t' = Some (None, t')
    \<and> read_rows (length [demo_field, demo_field]) 9 s = Some [[[1, 0, 0, 0], []]]"
  using db_query_delivers [of demo_lib "SqlPrepare_ctor [83]" "[]" "[]" "[]" "[demo_field, demo_field]" 40 9] demo_delivered
  by (simp add: demo_calls cell_bytes_def)

text \<open>A database thread of a Redis server that is not there: \<open>onStart\<close> drops the result of \<open>connect\<close>, which leaves
  \<open>m_context\<close> null, and the first command that is run dereferences it.\<close>

theorem db_redis_unconnected_crashes:
  assumes "hi_connect rl = Some c" and "hi_err rl c \<noteq> 0" and "device \<noteq> ''mysql''"
  shows "DBThread_onStart ml rl device = Some (Redis_db None) \<and> DBThread_run ml rl mysql_time (Redis_task command t) (Redis_db None) = None"
  using assms by (auto simp: DBThread_onStart_def DBInterfaceRedis_connect_def DBRedisTask_process_def DBInterfaceRedis_execute_def
      split: option.splits Option.bind_splits)

theorem db_redis_unconnected_crashes_witness:
  "DBThread_run demo_lib \<lparr>hi_connect = Some (111 :: int), hi_err = id, hi_errstr = (\<lambda>_. []), hi_call = (\<lambda>_ c. (None, c))\<rparr> 40
     (Redis_task (RedisCommand_ctor [80]) (DBTask_ctor RedisResult_ctor)) (Redis_db None) = None"
  using db_redis_unconnected_crashes [of "\<lparr>hi_connect = Some (111 :: int), hi_err = id, hi_errstr = (\<lambda>_. []), hi_call = (\<lambda>_ c. (None, c))\<rparr>"
      111 "''redis''" demo_lib 40 "RedisCommand_ctor [80]" "DBTask_ctor RedisResult_ctor"] by simp

section \<open>Failures\<close>

text \<open>A failure of \<open>mysql_stmt_bind_result\<close> is swallowed: the statement is reported as a success, with error number 0 and no
  error string and with a row count, but the result has no fields, so that \<open>fetch\<close> succeeds and reading the first cell
  is an access outside of the vector.\<close>

theorem db_bind_failure_swallowed:
  assumes "\<forall>m. lib_param_count lib m = m_count p"
    and "run_calls (sql_calls lib p) m = (True, m1)" and "lib_store_result lib m1 = (True, m2)"
    and "lib_metadata lib m1 = Some flds" and "flds \<noteq> []" and "length flds < 2 ^ 31" and "\<not> lib_bound lib m2"
    and "0 < sint (lib_num_rows lib m2)" and "0 \<le> to_i32 (uint (lib_affected_rows lib m2))"
  shows "\<exists>t t' s s1. DBSqlTask_process lib mysql_time p (DBTask_ctor SqlResultSet_ctor) m = Some (t, m2)
    \<and> DBTask_complete t = Some (Some (0, None, s), t') \<and> fetch s = (True, s1) \<and> SqlResultSet_getString s1 = None"
proof -
  let ?s = "SqlResultSet_ctor\<lparr>m_rowCount := sint (lib_num_rows lib m2), m_fieldCount := to_i32 (int (length flds))\<rparr>"
  let ?t = "(DBTask_ctor ?s)\<lparr>task_ret := Some (to_i32 (uint (lib_affected_rows lib m2)))\<rparr>"
  have l: "0 < length flds" "to_i32 (int (length flds)) = int (length flds)" using assms(5,6) by (simp_all add: to_i32_id)
  have "setResult mysql_time flds (lib_bound lib m2) (lib_rows lib m2) (lib_num_rows lib m2) SqlResultSet_ctor = Some ?s"
    using assms(7) by (simp add: setResult_def)
  then have "DBSqlTask_process lib mysql_time p (DBTask_ctor SqlResultSet_ctor) m = Some (?t, m2)"
    using process_calls [OF assms(1), of mysql_time _ m] assms(2-4,9) by (simp add: DBTask_ctor_def Let_def)
  moreover have "DBTask_complete ?t = Some (Some (0, None, ?s), ?t\<lparr>backfunc := False\<rparr>)"
    using assms(9) by (simp add: DBTask_complete_def DBTask_ctor_def)
  moreover have "fetch ?s = (True, ?s\<lparr>m_currRowIdx := 0, m_currColIdx := 0\<rparr>)"
    using assms(8) by (simp add: fetch_def SqlResultSet_ctor_def)
  moreover have "SqlResultSet_getString (?s\<lparr>m_currRowIdx := 0, m_currColIdx := 0\<rparr>) = None"
    using assms(8) l by (simp add: SqlResultSet_getString_def next_field_def getField_def SqlResultSet_ctor_def)
  ultimately show ?thesis by blast
qed

theorem db_bind_failure_swallowed_witness:
  "\<exists>t t' s s1. DBSqlTask_process (demo_lib\<lparr>lib_bound := \<lambda>_. False\<rparr>) 40 (SqlPrepare_ctor [83]) (DBTask_ctor SqlResultSet_ctor) [] = Some (t, [])
    \<and> DBTask_complete t = Some (Some (0, None, s), t') \<and> fetch s = (True, s1) \<and> SqlResultSet_getString s1 = None"
  by (rule db_bind_failure_swallowed [where flds = "[demo_field, demo_field]" and ?m1.0 = "[]"])
    (simp_all add: demo_calls to_i32_id)

text \<open>The number of rows a statement changed is the result of \<open>execute\<close>, as an \<open>int\<close>: from \<open>2 ^ 31\<close> rows on a statement that
  succeeded is reported as a failure.\<close>

lemma sql_many_rows_reported_failed:
  assumes "\<forall>m. lib_param_count lib m = m_count p" and "run_calls (sql_calls lib p) m = (True, m1)"
    and "lib_store_result lib m1 = (True, m2)" and "lib_metadata lib m1 = None" and "lib_affected_rows lib m2 = 2 ^ 31"
  shows "\<exists>t t' s. DBSqlTask_process lib mysql_time p (DBTask_ctor SqlResultSet_ctor) m = Some (t, m2)
    \<and> DBTask_complete t = Some (Some (lib_errno lib m2, Some (lib_error lib m2), s), t')"
proof -
  have "to_i32 (uint (lib_affected_rows lib m2)) = - (2 ^ 31)" using assms(5) by (simp add: to_i32_def)
  then show ?thesis
    using process_calls [OF assms(1), of mysql_time _ m] assms(2-4)
    by (simp add: Let_def setResult_def DBTask_ctor_def DBTask_complete_def)
qed

text \<open>Every \<open>?\<close> of the statement counts as a parameter, also one in a string literal, which the library does not count: the
  \<open>assert\<close> of \<open>prepare\<close> fails.\<close>

lemma sql_quoted_mark_aborts:
  assumes "lib_stmt_init lib m = (True, m1)" and "lib_stmt_prepare lib sqlstr m1 = (True, m2)"
    and "lib_param_count lib m2 < charCount sqlstr 63"
  shows "DBSqlTask_process lib mysql_time (SqlPrepare_ctor sqlstr) t m = None"
  using assms by (simp add: DBSqlTask_process_def SqlPrepare_prepare_def SqlPrepare_ctor_def)

end
