(* ===== verification/Log_Files.thy ===== *)
theory Log_Files
  imports Ws_Handshake Decimal
begin

text \<open>
  \<open>src/common/XLog.h/.cpp\<close> and \<open>createDirectory\<close> of \<open>XFile.cpp\<close>: the log files, one directory per day, a new file when
  the size limit is reached. The file system is a set of directories and a map from paths to contents; whether \<open>mkdir\<close> and
  \<open>fopen\<close> succeed are arguments, and so is the local time. \<open>writeFile\<close> is its two critical sections, one after the other.
  Writing outside of a buffer and to a null \<open>FILE\<close> are \<^const>\<open>None\<close>.
\<close>

section \<open>Directories\<close>

record files =
  fs_dirs :: "byte list list"
  fs_content :: "byte list \<rightharpoonup> byte list"

record file_ops =
  can_mkdir :: "byte list \<Rightarrow> bool"
  can_open :: "byte list \<Rightarrow> bool"

definition isExist :: "byte list \<Rightarrow> files \<Rightarrow> bool" where
  "isExist p fs \<longleftrightarrow> p \<in> set (fs_dirs fs) \<or> fs_content fs p \<noteq> None"

text \<open>The loop of \<open>createDirectory\<close>: \<open>tmp\<close> is what is in \<open>tmpDirPath\<close>, which has 256 bytes and has to end with a zero
  when it is passed on.\<close>

fun create_loop :: "file_ops \<Rightarrow> byte list \<Rightarrow> byte list \<Rightarrow> files \<Rightarrow> (int \<times> files) option" where
  "create_loop ops tmp [] fs = Some (0, fs)"
| "create_loop ops tmp (c # cs) fs =
     (if length tmp \<ge> 256 then None
      else
        let tmp1 = tmp @ [c] in
        if c = 92 \<or> c = 47 then
          if length tmp1 = 256 then None
          else if isExist tmp1 fs then create_loop ops tmp1 cs fs
          else if can_mkdir ops tmp1 then create_loop ops tmp1 cs (fs\<lparr>fs_dirs := fs_dirs fs @ [tmp1]\<rparr>)
          else Some (- 1, fs)
        else create_loop ops tmp1 cs fs)"

definition createDirectory :: "file_ops \<Rightarrow> byte list \<Rightarrow> files \<Rightarrow> (int \<times> files) option" where
  "createDirectory ops path fs = create_loop ops [] path fs"

section \<open>The log\<close>

record tm =
  tm_year :: nat
  tm_mon :: nat
  tm_mday :: nat
  tm_hour :: nat
  tm_min :: nat
  tm_sec :: nat

datatype LogLevel = LL_INFO | LL_WARNING | LL_ERROR

text \<open>\<open>log_file\<close> is the path of the open \<open>file\<close>.\<close>

record XLog =
  log_file :: "byte list option"
  logdir :: "byte list"
  childdir :: "byte list"
  currdir :: "byte list"
  writeday :: nat
  maxsize :: u32
  currsize :: u32

definition LOG_MAX_SIZE :: u32 where
  "LOG_MAX_SIZE = 1073741824"

definition XLog_ctor :: XLog where
  "XLog_ctor = \<lparr>log_file = None, logdir = [], childdir = [], currdir = [], writeday = 0, maxsize = LOG_MAX_SIZE, currsize = 0\<rparr>"

definition XLog_init :: "file_ops \<Rightarrow> byte list \<Rightarrow> byte list \<Rightarrow> XLog \<Rightarrow> files \<Rightarrow> (XLog \<times> files) option" where
  "XLog_init ops rootdir child x fs =
     map_option (\<lambda>(_, fs1). (x\<lparr>logdir := rootdir @ str ''/'', childdir := child @ str ''/''\<rparr>, fs1)) (createDirectory ops rootdir fs)"

definition setMaxsize :: "u32 \<Rightarrow> XLog \<Rightarrow> XLog" where
  "setMaxsize n x = x\<lparr>maxsize := n\<rparr>"

definition closefile :: "XLog \<Rightarrow> XLog" where
  "closefile x = (if log_file x \<noteq> None then x\<lparr>log_file := None, currsize := 0\<rparr> else x)"

text \<open>The format \<open>%.2d\<close>.\<close>

definition two_digits :: "nat \<Rightarrow> byte list" where
  "two_digits n = (if n < 10 then 48 # digits n else digits n)"

definition day_dir :: "tm \<Rightarrow> byte list" where
  "day_dir t = digits (tm_year t + 1900) @ str ''-'' @ two_digits (tm_mon t + 1) @ str ''-'' @ two_digits (tm_mday t) @ str ''/''"

definition log_name :: "tm \<Rightarrow> byte list" where
  "log_name t = two_digits (tm_hour t) @ str ''.'' @ two_digits (tm_min t) @ str ''.'' @ two_digits (tm_sec t) @ str ''.log''"

definition fopen_append :: "file_ops \<Rightarrow> byte list \<Rightarrow> files \<Rightarrow> byte list option \<times> files" where
  "fopen_append ops path fs =
     (if \<not> can_open ops path then (None, fs)
      else (Some path, case fs_content fs path of None \<Rightarrow> fs\<lparr>fs_content := (fs_content fs)(path \<mapsto> [])\<rparr> | Some _ \<Rightarrow> fs))"

text \<open>The first critical section of \<open>writeFile\<close>: \<^const>\<open>False\<close> when it returns without a file.\<close>

definition select_file :: "file_ops \<Rightarrow> tm \<Rightarrow> XLog \<Rightarrow> files \<Rightarrow> (bool \<times> XLog \<times> files) option" where
  "select_file ops t x fs =
     do { let newfile = (log_file x = None);
          (newfile, x, fs) \<leftarrow>
            (if tm_mday t \<noteq> writeday x
             then let dir = logdir x @ day_dir t @ childdir x in
               map_option (\<lambda>(_, fs). (True, x\<lparr>writeday := tm_mday t, currdir := dir\<rparr>, fs)) (createDirectory ops dir fs)
             else Some (newfile, x, fs));
          let (x, fs) =
            (if newfile \<or> currsize x \<ge> maxsize x
             then let (f, fs) = fopen_append ops (currdir x @ log_name t) fs in ((closefile x)\<lparr>log_file := f\<rparr>, fs)
             else (x, fs));
          Some (log_file x \<noteq> None, x, fs) }"

fun level_text :: "LogLevel \<Rightarrow> byte list" where
  "level_text LL_INFO = str ''info'' @ [9]"
| "level_text LL_WARNING = str ''warning'' @ [9]"
| "level_text LL_ERROR = str ''error'' @ [9]"

definition log_line :: "LogLevel \<Rightarrow> byte list \<Rightarrow> byte list \<Rightarrow> nat \<Rightarrow> byte list \<Rightarrow> tm \<Rightarrow> byte list" where
  "log_line level filename func row logstr t =
     two_digits (tm_hour t) @ str '':'' @ two_digits (tm_min t) @ str '':'' @ two_digits (tm_sec t) @ [9] @ level_text level
     @ filename @ str ''|'' @ func @ str ''|'' @ digits row @ [9] @ logstr @ [10]"

text \<open>The second critical section.\<close>

definition append_line :: "byte list \<Rightarrow> XLog \<Rightarrow> files \<Rightarrow> (XLog \<times> files) option" where
  "append_line line x fs =
     (case log_file x of
        None \<Rightarrow> None
      | Some p \<Rightarrow>
          Some (x\<lparr>currsize := currsize x + word_of_nat (length line)\<rparr>,
                fs\<lparr>fs_content := (fs_content fs)(p \<mapsto> (case fs_content fs p of None \<Rightarrow> [] | Some c \<Rightarrow> c) @ line)\<rparr>))"

definition writeFile ::
  "file_ops \<Rightarrow> LogLevel \<Rightarrow> byte list \<Rightarrow> byte list \<Rightarrow> nat \<Rightarrow> byte list \<Rightarrow> tm \<Rightarrow> XLog \<Rightarrow> files \<Rightarrow> (XLog \<times> files) option" where
  "writeFile ops level filename func row logstr t x fs =
     do { (ok, x, fs) \<leftarrow> select_file ops t x fs;
          (if ok then append_line (log_line level filename func row logstr t) x fs else Some (x, fs)) }"

record log_entry =
  e_level :: LogLevel
  e_filename :: "byte list"
  e_func :: "byte list"
  e_row :: nat
  e_text :: "byte list"
  e_time :: tm

definition entry_line :: "log_entry \<Rightarrow> byte list" where
  "entry_line e = log_line (e_level e) (e_filename e) (e_func e) (e_row e) (e_text e) (e_time e)"

fun write_all :: "file_ops \<Rightarrow> log_entry list \<Rightarrow> XLog \<Rightarrow> files \<Rightarrow> (XLog \<times> files) option" where
  "write_all ops [] x fs = Some (x, fs)"
| "write_all ops (e # es) x fs =
     do { (x, fs) \<leftarrow> writeFile ops (e_level e) (e_filename e) (e_func e) (e_row e) (e_text e) (e_time e) x fs;
          write_all ops es x fs }"

section \<open>Where a line goes\<close>

definition content :: "files \<Rightarrow> byte list \<Rightarrow> byte list" where
  "content fs p = (case fs_content fs p of None \<Rightarrow> [] | Some c \<Rightarrow> c)"

definition log_dir :: "XLog \<Rightarrow> tm \<Rightarrow> byte list" where
  "log_dir x t = logdir x @ day_dir t @ childdir x"

lemma create_loop_defined:
  "length tmp + length cs < 256 \<Longrightarrow> \<exists>r fs'. create_loop ops tmp cs fs = Some (r, fs') \<and> fs_content fs' = fs_content fs"
proof (induction cs arbitrary: tmp fs)
  case (Cons c cs)
  have i: "\<exists>r fs'. create_loop ops (tmp @ [c]) cs f = Some (r, fs') \<and> fs_content fs' = fs_content f" for f
    using Cons by simp
  show ?case
    using Cons.prems i [of fs] i [of "fs\<lparr>fs_dirs := fs_dirs fs @ [tmp @ [c]]\<rparr>"]
    by (cases "c = 92 \<or> c = 47") (auto simp: Let_def)
qed simp

lemma createDirectory_defined:
  "length path < 256 \<Longrightarrow> \<exists>r fs'. createDirectory ops path fs = Some (r, fs') \<and> fs_content fs' = fs_content fs"
  using create_loop_defined [of "[]"] by (simp add: createDirectory_def)

lemma closefile_simps [simp]:
  "log_file (closefile x) = None" "logdir (closefile x) = logdir x" "childdir (closefile x) = childdir x"
  "currdir (closefile x) = currdir x" "writeday (closefile x) = writeday x"
  by (simp_all add: closefile_def)

lemma fopen_content: "can_open ops path \<Longrightarrow> \<exists>fs'. fopen_append ops path fs = (Some path, fs') \<and> content fs' = content fs"
  by (auto simp: fopen_append_def content_def fun_eq_iff split: option.splits)

text \<open>The days of the entries, after \<open>prev\<close>: two entries in a row on the same day of a month are on the same day.\<close>

fun days_ok :: "tm option \<Rightarrow> log_entry list \<Rightarrow> bool" where
  "days_ok prev [] = True"
| "days_ok prev (e # es) =
     ((case prev of None \<Rightarrow> True | Some t \<Rightarrow> tm_mday t = tm_mday (e_time e) \<longrightarrow> day_dir t = day_dir (e_time e))
      \<and> days_ok (Some (e_time e)) es)"

definition log_state :: "tm option \<Rightarrow> XLog \<Rightarrow> bool" where
  "log_state prev x \<longleftrightarrow>
     (case prev of None \<Rightarrow> writeday x = 0 | Some t \<Rightarrow> writeday x = tm_mday t \<and> currdir x = log_dir x t)
     \<and> (\<forall>p. log_file x = Some p \<longrightarrow> (\<exists>t. p = currdir x @ log_name t))"

lemma select_file_ok:
  assumes s: "log_state prev x" and "\<forall>p. can_open ops p" and "0 < tm_mday t" and "length (log_dir x t) < 256"
    and d: "case prev of None \<Rightarrow> True | Some t' \<Rightarrow> tm_mday t' = tm_mday t \<longrightarrow> day_dir t' = day_dir t"
  shows "\<exists>x' fs' t'. select_file ops t x fs = Some (True, x', fs') \<and> content fs' = content fs \<and> log_state (Some t) x'
    \<and> logdir x' = logdir x \<and> childdir x' = childdir x \<and> log_file x' = Some (log_dir x t @ log_name t')"
proof -
  define x1 where "x1 = (if tm_mday t \<noteq> writeday x then x\<lparr>writeday := tm_mday t, currdir := log_dir x t\<rparr> else x)"
  define new where "new \<longleftrightarrow> tm_mday t \<noteq> writeday x \<or> log_file x = None"
  obtain r fs0 where c: "createDirectory ops (log_dir x t) fs = Some (r, fs0)" "fs_content fs0 = fs_content fs"
    using createDirectory_defined assms(4) by blast
  define fs1 where "fs1 = (if tm_mday t \<noteq> writeday x then fs0 else fs)"
  have x1: "writeday x1 = tm_mday t" "currdir x1 = log_dir x t" "logdir x1 = logdir x" "childdir x1 = childdir x"
    using s d assms(3) by (auto simp: x1_def log_state_def log_dir_def split: option.splits)
  obtain fs2 where f: "fopen_append ops (currdir x1 @ log_name t) fs1 = (Some (currdir x1 @ log_name t), fs2)"
    "content fs2 = content fs1" using fopen_content assms(2) by blast
  have fs1: "content fs1 = content fs" using c by (auto simp: fs1_def content_def fun_eq_iff)
  have sel: "select_file ops t x fs =
      (let (x2, fs3) = (if new \<or> currsize x1 \<ge> maxsize x1
         then ((closefile x1)\<lparr>log_file := Some (currdir x1 @ log_name t)\<rparr>, fs2) else (x1, fs1))
       in Some (log_file x2 \<noteq> None, x2, fs3))"
    using c(1) f(1) by (auto simp: select_file_def Let_def x1_def new_def fs1_def log_dir_def)
  show ?thesis
  proof (cases "new \<or> currsize x1 \<ge> maxsize x1")
    case True
    then show ?thesis using sel x1 f(2) fs1 by (fastforce simp: log_state_def log_dir_def)
  next
    case False
    then obtain p where "log_file x1 = Some p" "x1 = x" by (auto simp: new_def x1_def)
    moreover obtain t' where "p = currdir x @ log_name t'" using s calculation by (auto simp: log_state_def)
    ultimately show ?thesis using sel x1 fs1 False by (auto simp: log_state_def log_dir_def)
  qed
qed

lemma append_line_ok:
  assumes "log_file x = Some p"
  shows "\<exists>x' fs'. append_line line x fs = Some (x', fs') \<and> (log_state prev x \<longrightarrow> log_state prev x')
    \<and> logdir x' = logdir x \<and> childdir x' = childdir x \<and> content fs' = (content fs)(p := content fs p @ line)"
  using assms by (auto simp: append_line_def log_state_def log_dir_def content_def fun_eq_iff split: option.splits)

section \<open>Properties\<close>

definition lines_of :: "byte list \<Rightarrow> log_entry list \<Rightarrow> byte list list \<Rightarrow> byte list" where
  "lines_of p es ps = concat (List.map (\<lambda>(e, q). entry_line e) (List.filter (\<lambda>(e, q). q = p) (zip es ps)))"

lemma write_all_keeps:
  assumes "log_state prev x" and "\<forall>p. can_open ops p" and "days_ok prev es"
    and "\<forall>e\<in>set es. 0 < tm_mday (e_time e) \<and> length (log_dir x (e_time e)) < 256"
  shows "\<exists>x' fs' ps. write_all ops es x fs = Some (x', fs')
    \<and> list_all2 (\<lambda>e p. \<exists>t. p = log_dir x (e_time e) @ log_name t) es ps
    \<and> (\<forall>p. content fs' p = content fs p @ lines_of p es ps)"
  using assms
proof (induction es arbitrary: prev x fs)
  case Nil
  then show ?case by (simp add: lines_of_def)
next
  case (Cons e es)
  let ?t = "e_time e"
  obtain x1 fs1 t where s: "select_file ops ?t x fs = Some (True, x1, fs1)" "content fs1 = content fs" "log_state (Some ?t) x1"
    "logdir x1 = logdir x" "childdir x1 = childdir x" "log_file x1 = Some (log_dir x ?t @ log_name t)"
    using select_file_ok [OF Cons.prems(1,2), of ?t fs] Cons.prems(3,4) by (auto split: option.splits)
  obtain x2 fs2 where a: "append_line (entry_line e) x1 fs1 = Some (x2, fs2)" "log_state (Some ?t) x2"
    "logdir x2 = logdir x" "childdir x2 = childdir x"
    "content fs2 = (content fs1)(log_dir x ?t @ log_name t := content fs1 (log_dir x ?t @ log_name t) @ entry_line e)"
    using append_line_ok [OF s(6), of "entry_line e" fs1 "Some ?t"] s(3-5) by auto
  have d: "log_dir x2 = log_dir x" using a(3,4) by (simp add: log_dir_def fun_eq_iff)
  obtain x3 fs3 ps where r: "write_all ops es x2 fs2 = Some (x3, fs3)"
    "list_all2 (\<lambda>e p. \<exists>t. p = log_dir x (e_time e) @ log_name t) es ps" "\<forall>p. content fs3 p = content fs2 p @ lines_of p es ps"
    using Cons.IH [OF a(2) Cons.prems(2), of fs2] Cons.prems(3,4) d by auto
  have "\<forall>p. content fs3 p = content fs p @ lines_of p (e # es) ((log_dir x ?t @ log_name t) # ps)"
    using r(3) a(5) s(2) by (auto simp: lines_of_def)
  then show ?case using s(1) a(1) r(1,2) by (auto simp: writeFile_def entry_line_def)
qed

text \<open>C39. No line of the log is lost or out of place when one thread writes it: if every \<open>fopen\<close> succeeds, paths are shorter
  than 256 bytes and no two lines in a row are of the same day of the month but of different dates, \<open>writeFile\<close> stays inside its buffers, each line goes to a file in the directory
  of its day, and each file holds what it held before and then its lines, whole and in the order in which they were written,
  also across days and the rotation at the size limit.\<close>

theorem xlog_keeps_lines:
  assumes "\<forall>p. can_open ops p" and "writeday x = 0" and "log_file x = None" and "days_ok None es"
    and "\<forall>e\<in>set es. 0 < tm_mday (e_time e) \<and> length (log_dir x (e_time e)) < 256"
  shows "\<exists>x' fs' ps. write_all ops es x fs = Some (x', fs')
    \<and> list_all2 (\<lambda>e p. \<exists>t. p = log_dir x (e_time e) @ log_name t) es ps
    \<and> (\<forall>p. content fs' p = content fs p @ lines_of p es ps)"
  using write_all_keeps [of None x ops es fs] assms by (simp add: log_state_def)

definition demo_time :: "nat \<Rightarrow> nat \<Rightarrow> tm" where
  "demo_time d s = \<lparr>tm_year = 120, tm_mon = 1, tm_mday = d, tm_hour = 13, tm_min = 1, tm_sec = s\<rparr>"

definition demo_entry :: "nat \<Rightarrow> nat \<Rightarrow> log_entry" where
  "demo_entry d s = \<lparr>e_level = LL_ERROR, e_filename = str ''a.cpp'', e_func = str ''f'', e_row = 7, e_text = str ''x'', e_time = demo_time d s\<rparr>"

definition demo_log :: XLog where
  "demo_log = setMaxsize 10 (XLog_ctor\<lparr>logdir := str ''log/'', childdir := str ''srv/''\<rparr>)"

lemma digits_small: "n < 10 \<Longrightarrow> digits n = [48 + word_of_nat n]"
  by (subst digits.simps) simp

lemma digits_step: "10 \<le> n \<Longrightarrow> digits n = digits (n div 10) @ [48 + word_of_nat (n mod 10)]"
  by (subst digits.simps) simp

lemma demo_day_dir: "d < 10 \<Longrightarrow> length (log_dir demo_log (demo_time d s)) = 19"
  by (simp add: log_dir_def demo_log_def setMaxsize_def XLog_ctor_def demo_time_def day_dir_def two_digits_def digits_small digits_step str_def)

theorem xlog_keeps_lines_witness:
  "\<exists>x' fs' ps. write_all \<lparr>can_mkdir = (\<lambda>_. True), can_open = (\<lambda>_. True)\<rparr> [demo_entry 3 5, demo_entry 3 6, demo_entry 4 0] demo_log
       \<lparr>fs_dirs = [], fs_content = Map.empty\<rparr> = Some (x', fs') \<and> length ps = 3
    \<and> (\<forall>p. content fs' p = lines_of p [demo_entry 3 5, demo_entry 3 6, demo_entry 4 0] ps)"
proof -
  let ?es = "[demo_entry 3 5, demo_entry 3 6, demo_entry 4 0]"
  have "\<forall>e\<in>set ?es. 0 < tm_mday (e_time e) \<and> length (log_dir demo_log (e_time e)) < 256"
    by (simp add: demo_entry_def demo_day_dir) (simp add: demo_time_def)
  moreover have "days_ok None ?es" by (simp add: demo_entry_def demo_time_def day_dir_def)
  ultimately obtain x' fs' ps where
    w: "write_all \<lparr>can_mkdir = (\<lambda>_. True), can_open = (\<lambda>_. True)\<rparr> ?es demo_log \<lparr>fs_dirs = [], fs_content = Map.empty\<rparr> = Some (x', fs')"
    "list_all2 (\<lambda>e p. \<exists>t. p = log_dir demo_log (e_time e) @ log_name t) ?es ps"
    "\<forall>p. content fs' p = content \<lparr>fs_dirs = [], fs_content = Map.empty\<rparr> p @ lines_of p ?es ps"
    using xlog_keeps_lines [of "\<lparr>can_mkdir = (\<lambda>_. True), can_open = (\<lambda>_. True)\<rparr>" demo_log ?es]
    by (force simp: demo_log_def setMaxsize_def XLog_ctor_def)
  then show ?thesis
    using list_all2_lengthD [OF w(2)] by (intro exI [of _ x'] exI [of _ fs'] exI [of _ ps]) (simp add: content_def)
qed

section \<open>Failures\<close>

text \<open>The day of the month decides: a line that follows after exactly a month goes to the old file.\<close>

lemma xlog_month_later:
  assumes "log_state (Some t) x" and "log_file x = Some p" and "currsize x < maxsize x" and "tm_mday t' = tm_mday t"
  shows "select_file ops t' x fs = Some (True, x, fs)"
  using assms linorder_not_le [of "maxsize x" "currsize x"] by (simp add: select_file_def log_state_def)

text \<open>Between the critical sections of one thread another one may fail to open the file of the next day: the first thread
  writes to a null \<open>FILE\<close>.\<close>

lemma xlog_rotation_race:
  assumes "log_file x = Some p" and "tm_mday t = writeday x" and "currsize x < maxsize x" and "tm_mday t' \<noteq> writeday x"
    and "length (log_dir x t') < 256" and "\<not> can_open ops (log_dir x t' @ log_name t')"
  shows "select_file ops t x fs = Some (True, x, fs)
    \<and> (\<exists>x2 fs2. select_file ops t' x fs = Some (False, x2, fs2) \<and> append_line line x2 fs2 = None)"
proof
  show "select_file ops t x fs = Some (True, x, fs)" using assms linorder_not_le [of "maxsize x" "currsize x"] by (simp add: select_file_def)
  obtain r fs0 where "createDirectory ops (log_dir x t') fs = Some (r, fs0)" using createDirectory_defined assms(5) by blast
  then show "\<exists>x2 fs2. select_file ops t' x fs = Some (False, x2, fs2) \<and> append_line line x2 fs2 = None"
    using assms by (simp add: select_file_def log_dir_def fopen_append_def append_line_def)
qed

text \<open>\<open>createDirectory\<close> writes past its buffer for a path of more than 256 bytes.\<close>

lemma create_directory_overflow:
  assumes "\<forall>p. can_mkdir ops p"
  shows "length tmp \<le> 256 \<Longrightarrow> 256 < length tmp + length cs \<Longrightarrow> create_loop ops tmp cs fs = None"
  using assms by (induction cs arbitrary: tmp fs) (auto simp: Let_def)

end
