(* ===== verification/Spec2Isabelle.thy ===== *)
theory Spec2Isabelle
  imports Kcp_Network Kcp_Session Timers Ws_Handshake Tcp_Send Http_Requests Json_Reader Thread_Pool Sql Redis Utilities Csv Object_Pool Proto_Results Proto_Schema
    Tcp_Lifecycle Database Log_Files
begin

text \<open>
  Verification development for lua-server, a game server framework in C++ (\<open>src/\<close>): an event loop with timers,
  TCP, UDP, KCP, WebSocket and HTTP connections, packets, and bindings for Lua scripts. The development models
  the program's own protocol and data structure code as executable functions and proves what makes it correct;
  where the code is wrong, the theorem states what it does instead.

  \<^bold>\<open>How the program fits together.\<close> libuv reads bytes into the \<open>MessageBuffer\<close> of a \<open>TcpSocket\<close> and calls
  \<open>on_msgbuffer\<close> of its subclass (\<open>NetConnect\<close>, \<open>WebSocketConnect\<close>), which assembles packets (\<open>ByteBuffer\<close>,
  \<open>BasePacket\<close>, \<open>NetPacket\<close>, \<open>WebSocketPacket\<close>) and hands them to an event handler, in the end a script. The
  other way, \<open>sendMsg\<close> frames a packet and puts it in the send queue of the \<open>TcpSocket\<close>. \<open>KcpServer\<close> and
  \<open>KcpClient\<close> run reliable sessions (\<open>ikcp\<close>) over UDP datagrams. \<open>HttpConnect\<close> reads requests with \<open>llhttp\<close> and
  passes their URL (\<open>ParseUrl\<close>, \<open>HttpParam\<close>) and content to the handlers of \<open>HttpServer\<close>. Timers wait in a pointer
  heap. Scripts build and read JSON values, run SQL statements and Redis commands,
  encode tables as protobuf messages and read CSV tables; queries run in a thread pool.

  \<^bold>\<open>Theories.\<close>
  \<^item> Prelude: machine integers, byte representation, vectors as lists. Convention: an operation whose C++ text may
    index out of bounds, dereference a null or freed pointer or overflow a signed integer returns an option, and
    \<^const>\<open>None\<close> is the undefined behaviour.
  \<^item> Byte_Buffer, Packets, Message_Buffer: \<open>src/common/ByteBuffer.h/.cpp\<close>, \<open>ByteConverter.h\<close>,
    \<open>src/network/BasePacket\<close>, \<open>NetPacket\<close>, \<open>UdpPacket\<close>, \<open>MessageBuffer.h\<close>: records with the fields of the
    classes, one definition per method; the locale of a stream of typed values is interpreted on the packets.
  \<^item> Stream_Loop: the contract between a receive loop and a byte-wise specification, a locale that Net_Connect and
    Web_Socket_Refine interpret. A read of at most \<open>bsize\<close> bytes needs at most \<open>2 * bsize + 1\<close> iterations,
    which is the fuel of the loop models; more fuel never changes a result.
  \<^item> Net_Connect, Tcp_Send: \<open>src/network/NetConnect.cpp\<close> and \<open>TcpSocket.cpp\<close>. The receiver refines a state
    machine over single bytes; the send queue is a FIFO; both together deliver what was sent.
  \<^item> Tcp_Lifecycle: the life of a connection from \<open>TcpServer.cpp\<close> or \<open>TcpClient.cpp\<close> over the callbacks of \<open>TcpSocket.cpp\<close>
    to \<open>destroyConnect\<close>, with the connections in a heap. \<open>tcp_step\<close> is what the program does in a callback, \<open>enabled\<close> says
    when libuv may run it; the invariant rules out uses of deleted connections and double closes in every interleaving
    without an \<open>HttpConnect\<close>, a failing \<open>uv_accept\<close> and a close by the application of a handle that is closing; the failures of
    these three are stated.
  \<^item> Web_Socket, Web_Socket_Refine, Ws_Handshake, Sha1, Base64: \<open>WebSocketPacket\<close>, \<open>WebSocketConnect\<close>,
    \<open>src/common/sha1.cpp\<close>, \<open>base64.cpp\<close>: frames, the opening handshake and the digests it needs, equal to
    the published standards. Reading stops after a close frame; a second one in the same read is an abort.
  \<^item> Kcp, Kcp_Receive, Kcp_Send, Kcp_Network, Kcp_Safety, Kcp_Conv, Kcp_Session: \<open>src/network/ikcp.cpp\<close> and the
    session layer above it. Kcp is the control block with every operation of the protocol; Kcp_Receive and
    Kcp_Send hold the invariants of the two directions; Kcp_Network connects two control blocks by a network
    that loses, duplicates and reorders datagrams; Kcp_Safety is about buffer and integer bounds; Kcp_Session
    models \<open>KcpSession\<close>, \<open>KcpServer\<close>, \<open>KcpClient\<close> with the sessions in a store of objects.
  \<^item> Binary_Heap, Heap_Queue, Timers: \<open>src/common/Heap.cpp\<close> at the level of its pointers, its view as an array and
    its correctness as a priority queue, and \<open>Timer.cpp\<close> on top of it through the locale of priority queues; callbacks
    are scripts of calls of the same operations.
  \<^item> Url_Parser, Decimal, Http_Connection, Http_Requests: the URL functions of \<open>src/utils/http_parser.cpp\<close> with
    \<open>ParseUrl.cpp\<close>, numbers in decimal notation, \<open>src/network/HttpConnect.cpp\<close>, \<open>HttpServer.cpp\<close>,
    \<open>src/common/HttpParam.cpp\<close> and what they use of \<open>llhttp\<close>. The connection keeps pointers into the storage of its read
    packet: the model has the storage and the offsets, and every use of a pointer after the storage has moved is
    undefined. \<open>llhttp_execute\<close> is an argument of the receive loop; Http_Requests states for which heads it is
    assumed to report what, and shows the order of the requests and the failures of the buffer handling. A handler is a
    function from the calls so far to what it does with the connection: replies and closes.
  \<^item> Json, Json_Reader: \<open>src/utils/Json.cpp\<close> and \<open>JsonReader.cpp\<close>: values as trees whose \<open>JValue\<close> is a tagged union,
    the printer and the recursive reader. The recursion of the reader has fuel \<open>2 * length + 1\<close>, enough because
    every call that reads an array or an object has consumed a character (json_parser_returns). The
    conversions between floats and text (\<open>std::to_string(float)\<close>, \<open>std::stof\<close>) are arguments.
  \<^item> Thread_Pool: \<open>src/common/ThreadPool.cpp\<close>, \<open>TQueue.h\<close> and \<open>SpinLock.h\<close> as step relations over the program points of
    the threads. The lock-free queue below is a bag: a pop takes any element. A locale states the contract of a queue that
    neither loses nor duplicates.
  \<^item> Sql, Redis: \<open>SqlPrepare\<close>, \<open>SqlResultSet\<close>, \<open>RedisCommand\<close> and \<open>RedisResult\<close> of \<open>src/db\<close>: parameters and results as
    blocks of memory. What MySQL and hiredis deliver is an argument.
  \<^item> Database: \<open>prepare\<close> and \<open>execute\<close> of \<open>SqlPrepare\<close>, \<open>DB_Interface_mysql.cpp\<close>, \<open>DB_Interface_redis.cpp\<close> and the tasks of
    \<open>DBThreadPool.cpp\<close>, over records of the functions of the two client libraries: a query from the task to its callback, and
    how errors are reported.
  \<^item> Utilities, Csv, Log_Files: \<open>Tools.cpp\<close> and \<open>XTime.cpp\<close> (encryption, binary search, calendar), \<open>CsvParser\<close>, and the
    log files of \<open>XLog.cpp\<close> with \<open>createDirectory\<close> of \<open>XFile.cpp\<close>, over a map from paths to contents.
  \<^item> Object_Pool: \<open>Objectpool.h\<close> and \<open>CommonPool.h\<close> as operations on a heap of objects.
  \<^item> Proto_Lua, Proto_Roundtrip, Proto_Results: \<open>encoder.cpp\<close>, \<open>decoder.cpp\<close> of \<open>src/protolua\<close>: Lua tables to protobuf messages
    and back. The protobuf library is a record of functions; Proto_Roundtrip states which of its laws are used. Fuel bounds
    the depth of the messages and the entries of maps; the theorems say how much is enough, and proto_create_recursive that
    no fuel is enough for a recursive type. The stack of Lua is not modelled, and the round trip is stated for messages that
    protobuf parses as they were, which it does not promise for the order of the entries of a map. Proto_Schema: \<open>parse.cpp\<close>, the enums of proto files and their reload.

  \<^bold>\<open>Not modelled.\<close> libuv, Lua, MySQL, hiredis and most of the C++ library are not part of \<open>src/\<close>: what the code calls
  appears as arguments (clock readings, event handlers, packets' virtual functions, the rows of a query) or as steps of a
  transition relation (completion of a write, arrival of a datagram). Vendored code (\<open>concurrentqueue\<close>, the generated state
  machine of \<open>llhttp\<close>, the message parser of \<open>http_parser\<close>), the reading of files, \<open>MysqlResult\<close>, which the program does
  not use, the wrappers of libuv (\<open>EventLoop\<close>, \<open>UTimer\<close>, \<open>UdpServer\<close>) and the Lua bindings are listed in the manifest with the reason.
\<close>

end
